(* ===== verification/E2_Prelude.thy ===== *)
theory E2_Prelude
  imports Main "HOL-Library.Sublist" "HOL-Library.Multiset" "HOL-Library.Char_ord"
    "HOL-Library.List_Lexorder" "HOL-Library.Word"
begin

text \<open>
  The prelude of the e2guardian development: the C and C++ library operations the sources use
  (NUL-terminated strings, \<^verbatim>\<open>std::string::find\<close>, \<^verbatim>\<open>strncmp\<close>, \<^verbatim>\<open>atoi\<close>,
  \<^verbatim>\<open>std::stable_sort\<close>, \<^verbatim>\<open>std::binary_search\<close>), the generic lemmas the components
  share, and the interface \<open>bin_search\<close> that the five hand-written binary searches of the
  program implement.

  Bytes are HOL's 8-bit \<^typ>\<open>char\<close>, strings are \<^typ>\<open>string\<close>. Plain \<^verbatim>\<open>char\<close> is signed on
  the platforms e2guardian is built for (gcc on x86): \<open>schar\<close> reads a byte that way,
  \<open>of_char\<close> as \<^verbatim>\<open>unsigned char\<close>. String lengths are \<^typ>\<open>nat\<close>: the sources keep them
  in \<^verbatim>\<open>int\<close> or \<^verbatim>\<open>size_t\<close>, far below the point where either would wrap.
\<close>

named_theorems e2_str \<open>decompositions of the String operations\<close>
named_theorems e2_sorted \<open>order facts used by the searches\<close>


section \<open>Bytes and NUL-terminated strings\<close>

definition nul :: char where
  "nul = CHR 0x00"

text \<open>A byte as a signed \<^verbatim>\<open>char\<close>.\<close>

definition schar :: "char \<Rightarrow> int" where
  "schar c = (let n = (of_char c :: int) in if n < 128 then n else n - 256)"

text \<open>\<^verbatim>\<open>s.c_str()\<close> read as a C string: the bytes before the first NUL.\<close>

definition cstr :: "string \<Rightarrow> string" where
  "cstr s = takeWhile (\<lambda>c. c \<noteq> nul) s"

text \<open>\<^verbatim>\<open>s[i]\<close> of a \<^verbatim>\<open>std::string\<close>: NUL at the position after the last byte.\<close>

definition char_at :: "string \<Rightarrow> nat \<Rightarrow> char" where
  "char_at s i = (if i < length s then s ! i else nul)"

abbreviation nul_free :: "string \<Rightarrow> bool" where
  "nul_free s \<equiv> nul \<notin> set s"

text \<open>\<^verbatim>\<open>strncmp (a, b, n) == 0\<close>; the lists are the bytes from the pointer on, without the NUL.\<close>

fun strncmp_eq :: "string \<Rightarrow> string \<Rightarrow> nat \<Rightarrow> bool" where
  "strncmp_eq a b 0 = True"
| "strncmp_eq [] [] (Suc n) = True"
| "strncmp_eq [] (y # ys) (Suc n) = (y = nul)"
| "strncmp_eq (x # xs) [] (Suc n) = (x = nul)"
| "strncmp_eq (x # xs) (y # ys) (Suc n) = (x = y \<and> (x = nul \<or> strncmp_eq xs ys n))"

definition c_isdigit :: "char \<Rightarrow> bool" where
  "c_isdigit c = (48 \<le> (of_char c :: nat) \<and> (of_char c :: nat) \<le> 57)"

definition c_isupper :: "char \<Rightarrow> bool" where
  "c_isupper c = (65 \<le> (of_char c :: nat) \<and> (of_char c :: nat) \<le> 90)"

definition c_islower :: "char \<Rightarrow> bool" where
  "c_islower c = (97 \<le> (of_char c :: nat) \<and> (of_char c :: nat) \<le> 122)"

definition c_isalnum :: "char \<Rightarrow> bool" where
  "c_isalnum c = (c_isdigit c \<or> c_isupper c \<or> c_islower c)"

definition c_isxdigit :: "char \<Rightarrow> bool" where
  "c_isxdigit c = (c_isdigit c
     \<or> (97 \<le> (of_char c :: nat) \<and> (of_char c :: nat) \<le> 102)
     \<or> (65 \<le> (of_char c :: nat) \<and> (of_char c :: nat) \<le> 70))"

text \<open>\<^verbatim>\<open>tolower\<close> and \<^verbatim>\<open>toupper\<close> of the C locale.\<close>

definition c_tolower :: "char \<Rightarrow> char" where
  "c_tolower c = (if c_isupper c then char_of ((of_char c :: nat) + 32) else c)"

definition c_toupper :: "char \<Rightarrow> char" where
  "c_toupper c = (if c_islower c then char_of ((of_char c :: nat) - 32) else c)"

definition c_isspace :: "char \<Rightarrow> bool" where
  "c_isspace c = (c = CHR '' '' \<or> (9 \<le> (of_char c :: nat) \<and> (of_char c :: nat) \<le> 13))"

definition digit_val :: "char \<Rightarrow> int" where
  "digit_val c = (of_char c :: int) - 48"


section \<open>Numbers in strings\<close>

text \<open>\<^verbatim>\<open>strtol (s, NULL, 10)\<close> before the result is clamped: white space, a sign, digits.\<close>

definition digits_val :: "string \<Rightarrow> int" where
  "digits_val ds = foldl (\<lambda>acc c. acc * 10 + digit_val c) 0 ds"

definition strtol_raw :: "string \<Rightarrow> int" where
  "strtol_raw s =
     (let t = dropWhile c_isspace s in
      case t of
        [] \<Rightarrow> 0
      | c # r \<Rightarrow>
          if c = CHR ''-'' then - digits_val (takeWhile c_isdigit r)
          else if c = CHR ''+'' then digits_val (takeWhile c_isdigit r)
          else digits_val (takeWhile c_isdigit t))"

definition clamp_long :: "int \<Rightarrow> int" where
  "clamp_long x = max (- (2 ^ 63)) (min (2 ^ 63 - 1) x)"

text \<open>\<^verbatim>\<open>(int) l\<close>: the low 32 bits read as two's complement.\<close>

definition wrap_int :: "int \<Rightarrow> int" where
  "wrap_int x = (x + 2 ^ 31) mod 2 ^ 32 - 2 ^ 31"

definition c_atol :: "string \<Rightarrow> int" where
  "c_atol s = clamp_long (strtol_raw (cstr s))"

definition c_atoi :: "string \<Rightarrow> int" where
  "c_atoi s = wrap_int (c_atol s)"

text \<open>Decimal output (\<^verbatim>\<open>operator<<\<close> of an integer).\<close>

fun nat_str :: "nat \<Rightarrow> string" where
  "nat_str n = (if n < 10 then [char_of (48 + n)] else nat_str (n div 10) @ [char_of (48 + n mod 10)])"

declare nat_str.simps [simp del]

definition int_str :: "int \<Rightarrow> string" where
  "int_str i = (if i < 0 then CHR ''-'' # nat_str (nat (- i)) else nat_str (nat i))"


section \<open>Searching in a string\<close>

text \<open>\<^verbatim>\<open>s.find (pat)\<close>: the least position where \<open>pat\<close> occurs.\<close>

fun find_sub :: "string \<Rightarrow> string \<Rightarrow> nat option" where
  "find_sub pat [] = (if pat = [] then Some 0 else None)"
| "find_sub pat (c # s) =
     (if prefix pat (c # s) then Some 0 else map_option Suc (find_sub pat s))"


section \<open>Library sorting and searching\<close>

text \<open>
  \<^verbatim>\<open>std::stable_sort\<close> by a strict weak order \<open>lt\<close>. The result of a stable sort is
  determined, so insertion from the right stands for the library's merge.
\<close>

fun stable_insert :: "('a \<Rightarrow> 'a \<Rightarrow> bool) \<Rightarrow> 'a \<Rightarrow> 'a list \<Rightarrow> 'a list" where
  "stable_insert lt x [] = [x]"
| "stable_insert lt x (y # ys) = (if lt y x then y # stable_insert lt x ys else x # y # ys)"

definition stable_sort :: "('a \<Rightarrow> 'a \<Rightarrow> bool) \<Rightarrow> 'a list \<Rightarrow> 'a list" where
  "stable_sort lt xs = foldr (stable_insert lt) xs []"

text \<open>
  \<^verbatim>\<open>std::lower_bound\<close> as libstdc++ computes it (a range given by its start and its length)
  and \<^verbatim>\<open>std::binary_search\<close> on top of it.
\<close>

function lower_bound :: "('a::linorder) list \<Rightarrow> 'a \<Rightarrow> nat \<Rightarrow> nat \<Rightarrow> nat" where
  "lower_bound xs v first len =
     (if len = 0 then first
      else let half = len div 2; mid = first + half in
        if xs ! mid < v then lower_bound xs v (mid + 1) (len - half - 1)
        else lower_bound xs v first half)"
  by pat_completeness auto
termination
  by (relation "measure (\<lambda>(xs, v, first, len). len)") auto

declare lower_bound.simps [simp del]

definition std_binary_search :: "('a::linorder) list \<Rightarrow> 'a \<Rightarrow> bool" where
  "std_binary_search xs v =
     (let i = lower_bound xs v 0 (length xs) in i < length xs \<and> \<not> v < xs ! i)"


section \<open>Lemmas on bytes and strings\<close>

lemma schar_inj: "schar c = schar d \<longleftrightarrow> c = d"
proof
  assume eq: "schar c = schar d"
  have c: "(0::int) \<le> of_char c" "(of_char c :: int) < 256"
    and d: "(0::int) \<le> of_char d" "(of_char d :: int) < 256"
    by (simp_all add: of_char_def)
  then have "(of_char c :: int) = of_char d"
    using eq by (auto simp: schar_def Let_def split: if_splits)
  then show "c = d" by simp
qed simp

lemma nul_of_char [simp]: "(of_char nul :: nat) = 0"
  by (simp add: nul_def)

lemma cstr_nul_free [simp]: "nul_free s \<Longrightarrow> cstr s = s"
  by (auto simp: cstr_def intro: takeWhile_eq_all_conv [THEN iffD2])

lemma nul_free_cstr [simp]: "nul_free (cstr s)"
  by (auto simp: cstr_def dest: set_takeWhileD)

lemma cstr_append_nul: "nul_free s \<Longrightarrow> cstr (s @ nul # t) = s"
  by (induction s) (auto simp: cstr_def)

lemma cstr_length: "length (cstr s) \<le> length s"
  by (simp add: cstr_def length_takeWhile_le)

lemma strncmp_eq_prefix:
  "nul_free b \<Longrightarrow> strncmp_eq a b (length b) \<longleftrightarrow> prefix b a"
proof (induction b arbitrary: a)
  case (Cons y ys)
  then show ?case by (cases a) auto
qed simp


lemma length_nat_str: "0 < length (nat_str n)"
  by (subst nat_str.simps) simp

lemma of_char_char_of_small: "n < 256 \<Longrightarrow> (of_char (char_of n) :: nat) = n"
  by simp

lemma of_char_int_small: "n < 256 \<Longrightarrow> (of_char (char_of n) :: int) = int n"
  by (metis of_char_char_of_small of_nat_of_char)

lemma nat_str_digits: "c \<in> set (nat_str n) \<Longrightarrow> c_isdigit c"
proof (induction n rule: nat_str.induct)
  case (1 n)
  show ?case
  proof (cases "n < 10")
    case True
    with "1.prems" show ?thesis by (simp add: nat_str.simps [of n] c_isdigit_def)
  next
    case False
    have "n mod 10 < 10" by simp
    with False "1" show ?thesis
      by (auto simp: nat_str.simps [of n] c_isdigit_def)
  qed
qed

lemma digits_val_snoc: "digits_val (ds @ [c]) = digits_val ds * 10 + digit_val c"
  by (simp add: digits_val_def)

lemma digits_val_nat_str: "digits_val (nat_str n) = int n"
proof (induction n rule: nat_str.induct)
  case (1 n)
  have m: "n mod 10 < 10" by simp
  show ?case
  proof (cases "n < 10")
    case True
    then show ?thesis
      by (simp add: nat_str.simps [of n] digits_val_def digit_val_def of_char_int_small)
  next
    case False
    have "int (n div 10) * 10 + int (n mod 10) = int n"
      by (metis div_mult_mod_eq of_nat_add of_nat_mult of_nat_numeral)
    with 1 m False show ?thesis
      by (simp add: nat_str.simps [of n] digits_val_snoc digit_val_def of_char_int_small)
  qed
qed

lemma c_isdigit_not: "c_isdigit c \<Longrightarrow> \<not> c_isspace c \<and> c \<noteq> CHR ''-'' \<and> c \<noteq> CHR ''+'' \<and> c \<noteq> nul"
  by (auto simp: c_isdigit_def c_isspace_def nul_def)

lemma takeWhile_digits_nat_str [simp]: "takeWhile c_isdigit (nat_str n) = nat_str n"
  by (auto simp: takeWhile_eq_all_conv dest: nat_str_digits)

lemma strtol_raw_int_str: "strtol_raw (int_str i) = i"
proof -
  have hd: "\<exists>c r. nat_str n = c # r \<and> c_isdigit c" for n
    by (metis length_nat_str list.set_intros(1) list.size(3) nat_str_digits neq_Nil_conv less_irrefl)
  have ns: "\<not> c_isspace (CHR ''-'')" by (simp add: c_isspace_def)
  obtain c r where n: "nat_str (nat i) = c # r" "c_isdigit c" using hd by blast
  show ?thesis
    using n c_isdigit_not [of c] takeWhile_digits_nat_str [of "nat i"] digits_val_nat_str [of "nat i"]
      takeWhile_digits_nat_str [of "nat (- i)"]
    by (auto simp: strtol_raw_def int_str_def ns digits_val_nat_str Let_def
        simp del: takeWhile_digits_nat_str takeWhile_eq_all_conv)
qed

lemma nul_free_int_str: "nul_free (int_str i)"
  by (auto simp: int_str_def nul_def dest!: nat_str_digits c_isdigit_not)

lemma c_atol_int_str: "- (2 ^ 63) \<le> i \<Longrightarrow> i < 2 ^ 63 \<Longrightarrow> c_atol (int_str i) = i"
  by (simp add: c_atol_def nul_free_int_str strtol_raw_int_str clamp_long_def)

lemma wrap_int_id: "- (2 ^ 31) \<le> i \<Longrightarrow> i < 2 ^ 31 \<Longrightarrow> wrap_int i = i"
  by (simp add: wrap_int_def)

lemma wrap_int_bounds: "- (2 ^ 31) \<le> wrap_int i \<and> wrap_int i < 2 ^ 31"
  by (simp add: wrap_int_def)

lemma c_atoi_bounds: "- (2 ^ 31) \<le> c_atoi s \<and> c_atoi s < 2 ^ 31"
  unfolding c_atoi_def by (rule wrap_int_bounds)

lemma c_atoi_int_str:
  assumes "- (2 ^ 31) \<le> i" and "i < 2 ^ 31"
  shows "c_atoi (int_str i) = i"
  using assms by (simp add: c_atoi_def c_atol_int_str wrap_int_id)


section \<open>Lemmas on substring search\<close>

lemma find_sub_Some:
  "find_sub pat s = Some i \<Longrightarrow> s = take i s @ pat @ drop (i + length pat) s"
proof (induction s arbitrary: i)
  case (Cons c s)
  show ?case
  proof (cases "prefix pat (c # s)")
    case True
    with Cons.prems show ?thesis by (auto simp: prefix_def)
  next
    case False
    with Cons.prems obtain j where "find_sub pat s = Some j" "i = Suc j" by auto
    with Cons.IH show ?thesis by auto
  qed
qed (auto split: if_splits)

lemma find_sub_Some_le: "find_sub pat s = Some i \<Longrightarrow> i + length pat \<le> length s"
proof (induction s arbitrary: i)
  case (Cons c s)
  then show ?case by (auto split: if_splits dest: prefix_length_le)
qed (auto split: if_splits)

lemma find_sub_None: "find_sub pat s = None \<longleftrightarrow> \<not> sublist pat s"
proof (induction s)
  case (Cons c s)
  then show ?case by (auto simp: sublist_Cons_right)
qed auto

lemma find_sub_least:
  "find_sub pat s = Some i \<Longrightarrow> j < i \<Longrightarrow> \<not> prefix pat (drop j s)"
proof (induction s arbitrary: i j)
  case (Cons c s)
  then obtain k where k: "find_sub pat s = Some k" "i = Suc k" "\<not> prefix pat (c # s)"
    by (auto split: if_splits)
  with Cons.IH [of k] Cons.prems(2) show ?case by (cases j) auto
qed (auto split: if_splits)



section \<open>Lemmas on sorting and on the library's binary search\<close>

lemma mset_stable_insert [simp]: "mset (stable_insert lt x xs) = add_mset x (mset xs)"
  by (induction xs) auto

lemma mset_stable_sort [simp]: "mset (stable_sort lt xs) = mset xs"
  by (induction xs) (auto simp: stable_sort_def)

lemma set_stable_sort [simp]: "set (stable_sort lt xs) = set xs"
  by (metis mset_stable_sort set_mset_mset)

lemma length_stable_sort [simp]: "length (stable_sort lt xs) = length xs"
  by (metis mset_stable_sort size_mset)

text \<open>The order a sort by \<open>lt\<close> establishes: no element is \<open>lt\<close> an earlier one.\<close>

abbreviation ordered_by :: "('a \<Rightarrow> 'a \<Rightarrow> bool) \<Rightarrow> 'a list \<Rightarrow> bool" where
  "ordered_by lt \<equiv> sorted_wrt (\<lambda>x y. \<not> lt y x)"

lemma ordered_by_stable_insert:
  assumes "ordered_by lt xs"
    and asym: "\<And>x y. lt x y \<Longrightarrow> \<not> lt y x"
    and tr: "\<And>x y z. \<not> lt y x \<Longrightarrow> \<not> lt z y \<Longrightarrow> \<not> lt z x"
  shows "ordered_by lt (stable_insert lt x xs)"
  using assms(1)
proof (induction xs)
  case (Cons y ys)
  have mem: "z \<in> set (stable_insert lt x ys) \<longleftrightarrow> z = x \<or> z \<in> set ys" for z
    by (metis insert_iff mset_stable_insert set_mset_add_mset_insert set_mset_mset)
  show ?case
  proof (cases "lt y x")
    case True
    with Cons asym mem show ?thesis by auto
  next
    case False
    with Cons.prems tr show ?thesis by auto
  qed
qed simp

lemma ordered_by_stable_sort:
  assumes "\<And>x y. lt x y \<Longrightarrow> \<not> lt y x"
    and "\<And>x y z. \<not> lt y x \<Longrightarrow> \<not> lt z y \<Longrightarrow> \<not> lt z x"
  shows "ordered_by lt (stable_sort lt xs)"
  unfolding stable_sort_def
proof (induction xs)
  case (Cons x xs)
  then show ?case using ordered_by_stable_insert [OF _ assms] by simp
qed simp

definition is_lower_bound :: "('a::linorder) list \<Rightarrow> 'a \<Rightarrow> nat \<Rightarrow> bool" where
  "is_lower_bound xs v i \<longleftrightarrow> i \<le> length xs \<and> (\<forall>j < i. xs ! j < v)
     \<and> (\<forall>j. i \<le> j \<and> j < length xs \<longrightarrow> v \<le> xs ! j)"

lemma lower_bound_correct:
  assumes "sorted xs" and "first + len \<le> length xs"
    and "\<forall>j < first. xs ! j < v" and "\<forall>j. first + len \<le> j \<and> j < length xs \<longrightarrow> v \<le> xs ! j"
  shows "is_lower_bound xs v (lower_bound xs v first len)"
  using assms
proof (induction xs v first len rule: lower_bound.induct)
  case (1 xs v first len)
  define half where "half = len div 2"
  define mid where "mid = first + half"
  have eq: "lower_bound xs v first len = (if len = 0 then first
      else if xs ! mid < v then lower_bound xs v (mid + 1) (len - half - 1)
      else lower_bound xs v first half)"
    by (subst lower_bound.simps) (simp add: Let_def half_def mid_def)
  show ?case
  proof (cases "len = 0")
    case True
    with "1.prems" eq show ?thesis by (simp add: is_lower_bound_def)
  next
    case False
    then have mid: "mid < length xs" "half < len" "mid + 1 + (len - half - 1) = first + len"
      using "1.prems"(2) by (auto simp: mid_def half_def)
    have mono: "i \<le> j \<Longrightarrow> j < length xs \<Longrightarrow> xs ! i \<le> xs ! j" for i j
      using "1.prems"(1) by (simp add: sorted_nth_mono)
    show ?thesis
    proof (cases "xs ! mid < v")
      case True
      have "\<forall>j < mid + 1. xs ! j < v"
      proof (intro allI impI)
        fix j assume "j < mid + 1"
        then have "xs ! j \<le> xs ! mid" using mono mid(1) by simp
        with True show "xs ! j < v" by simp
      qed
      then have "is_lower_bound xs v (lower_bound xs v (mid + 1) (len - half - 1))"
        using "1.IH"(1) [OF False half_def mid_def True "1.prems"(1)] "1.prems"(2,4) mid(3) by simp
      with eq True False show ?thesis by simp
    next
      case less: False
      then have "\<forall>j. first + half \<le> j \<and> j < length xs \<longrightarrow> v \<le> xs ! j"
        using mono mid(1) mid_def by (meson not_less order_trans)
      then have "is_lower_bound xs v (lower_bound xs v first half)"
        using "1.IH"(2) [OF False half_def mid_def less "1.prems"(1)] "1.prems"(2,3) mid(2) by simp
      with eq less False show ?thesis by simp
    qed
  qed
qed

lemma std_binary_search_iff:
  assumes srt: "sorted xs"
  shows "std_binary_search xs v \<longleftrightarrow> v \<in> set xs"
proof -
  define i where "i = lower_bound xs v 0 (length xs)"
  have "is_lower_bound xs v i"
    unfolding i_def by (rule lower_bound_correct [OF srt]) auto
  then have i: "\<And>j. j < i \<Longrightarrow> xs ! j < v" "\<And>j. i \<le> j \<Longrightarrow> j < length xs \<Longrightarrow> v \<le> xs ! j"
    by (simp_all add: is_lower_bound_def)
  have "v \<in> set xs" if "i < length xs" "\<not> v < xs ! i"
  proof -
    from that i(2) [of i] have "xs ! i = v" by simp
    with that(1) show ?thesis by auto
  qed
  moreover have "i < length xs \<and> \<not> v < xs ! i" if "v \<in> set xs"
  proof -
    from that obtain k where k: "k < length xs" "xs ! k = v" by (auto simp: in_set_conv_nth)
    with i(1) [of k] have ik: "i \<le> k" by (meson less_irrefl not_le)
    then have "xs ! i \<le> xs ! k" using srt k(1) by (simp add: sorted_nth_mono)
    with k ik show ?thesis by auto
  qed
  ultimately show ?thesis unfolding std_binary_search_def Let_def i_def [symmetric] by blast
qed


section \<open>Opening a gap in an array\<close>

text \<open>
  The loop \<^verbatim>\<open>for (i = items; i > pos; i--) data[i] = data[i - 1]\<close> of the two dynamic lists.
\<close>

fun shift_up :: "'a list \<Rightarrow> nat \<Rightarrow> nat \<Rightarrow> 'a list" where
  "shift_up xs pos 0 = xs"
| "shift_up xs pos (Suc i) = (if Suc i > pos then shift_up (xs[Suc i := xs ! i]) pos i else xs)"

lemma length_shift_up [simp]: "length (shift_up xs pos i) = length xs"
  by (induction xs pos i rule: shift_up.induct) auto

lemma shift_up_nth:
  "i < length xs \<Longrightarrow> j < length xs \<Longrightarrow>
     shift_up xs pos i ! j = (if pos < j \<and> j \<le> i then xs ! (j - 1) else xs ! j)"
proof (induction xs pos i rule: shift_up.induct)
  case (2 xs pos i)
  show ?case
  proof (cases "Suc i > pos")
    case True
    with 2 show ?thesis by (auto simp: nth_list_update)
  next
    case False
    then show ?thesis by auto
  qed
qed auto

text \<open>After the gap is filled: one entry inserted, the one behind the gap lost.\<close>

lemma shift_up_fill:
  assumes "pos \<le> n" and "n < length xs"
  shows "(shift_up xs pos n)[pos := v] = take pos xs @ v # drop pos (take n xs) @ drop (Suc n) xs"
proof (rule nth_equalityI)
  fix j assume "j < length ((shift_up xs pos n)[pos := v])"
  then have j: "j < length xs" by simp
  consider "j < pos" | "j = pos" | "pos < j" "j \<le> n" | "n < j" by linarith
  then show "(shift_up xs pos n)[pos := v] ! j = (take pos xs @ v # drop pos (take n xs) @ drop (Suc n) xs) ! j"
    using j assms by cases (auto simp: nth_append shift_up_nth nth_Cons' min_def)
qed (use assms in auto)

lemma shift_up_insert:
  assumes "pos \<le> n" and "n < length xs"
  shows "take (Suc n) ((shift_up xs pos n)[pos := v]) = take pos xs @ v # drop pos (take n xs)"
  using assms by (simp add: shift_up_fill min_def Suc_diff_le)

text \<open>The loop \<^verbatim>\<open>for (i = from; i < to; i++) index[i] = index[i + 1]\<close>; \<open>k\<close> iterations are left.\<close>

fun shift_down :: "'a list \<Rightarrow> nat \<Rightarrow> nat \<Rightarrow> 'a list" where
  "shift_down xs i 0 = xs"
| "shift_down xs i (Suc k) = shift_down (xs[i := xs ! Suc i]) (Suc i) k"

lemma length_shift_down [simp]: "length (shift_down xs i k) = length xs"
  by (induction xs i k rule: shift_down.induct) auto

lemma shift_down_nth:
  "i + k < length xs \<Longrightarrow> j < length xs \<Longrightarrow>
     shift_down xs i k ! j = (if i \<le> j \<and> j < i + k then xs ! Suc j else xs ! j)"
  by (induction xs i k rule: shift_down.induct) (auto simp: nth_list_update)

lemma shift_down_fill:
  assumes "i + k < length xs"
  shows "(shift_down xs i k)[i + k := v] = take i xs @ drop (Suc i) (take (Suc (i + k)) xs) @ v # drop (Suc (i + k)) xs"
proof (rule nth_equalityI)
  fix j assume "j < length ((shift_down xs i k)[i + k := v])"
  then have j: "j < length xs" by simp
  consider "j < i" | "i \<le> j" "j < i + k" | "j = i + k" | "i + k < j" by linarith
  then show "(shift_down xs i k)[i + k := v] ! j
      = (take i xs @ drop (Suc i) (take (Suc (i + k)) xs) @ v # drop (Suc (i + k)) xs) ! j"
    using j assms by cases (auto simp: nth_append shift_down_nth nth_Cons' min_def)
qed (use assms in auto)

lemma in_take_nth: "a \<in> set (take n xs) \<Longrightarrow> \<exists>i < n. i < length xs \<and> a = xs ! i"
  by (auto simp: in_set_conv_nth)

lemma in_drop_nth: "a \<in> set (drop n xs) \<Longrightarrow> \<exists>i. n \<le> i \<and> i < length xs \<and> a = xs ! i"
proof -
  assume "a \<in> set (drop n xs)"
  then obtain j where "j < length xs - n" "a = xs ! (n + j)" by (auto simp: in_set_conv_nth)
  then show ?thesis by (intro exI [of _ "n + j"]) auto
qed

text \<open>Association lists kept in parallel arrays.\<close>

lemma map_of_insert_at:
  "k \<notin> fst ` set (take p es) \<Longrightarrow> map_of (take p es @ (k, v) # drop p es) = (map_of es)(k \<mapsto> v)"
proof (induction p arbitrary: es)
  case (Suc p)
  then show ?case by (cases es) (auto simp: fun_eq_iff)
qed simp

lemma map_of_zip_update:
  assumes "distinct ks" and "k < length ks" and "length ts = length ks"
  shows "map_of (zip ks (ts[k := v])) = (map_of (zip ks ts))(ks ! k \<mapsto> v)"
  using assms
proof (induction ks ts arbitrary: k rule: list_induct2')
  case (4 x xs y ys)
  show ?case
  proof (cases k)
    case (Suc j)
    with 4 have "xs ! j \<noteq> x" by auto
    with 4 Suc show ?thesis by (auto simp: fun_eq_iff)
  qed (use 4 in \<open>auto simp: fun_eq_iff\<close>)
qed auto

lemma map_of_filter_distinct:
  "distinct (map fst es) \<Longrightarrow>
   map_of (filter P es) k = (case map_of es k of None \<Rightarrow> None | Some v \<Rightarrow> if P (k, v) then Some v else None)"
proof (induction es)
  case (Cons e es)
  then have "map_of es (fst e) = None" by (simp add: map_of_eq_None_iff)
  with Cons show ?case by (cases e) auto
qed simp


section \<open>The interface of the hand-written binary searches\<close>

text \<open>
  \<^verbatim>\<open>DynamicIPList::search\<close>, \<^verbatim>\<open>DynamicURLList::search\<close>, \<^verbatim>\<open>ListContainer::search\<close>,
  \<^verbatim>\<open>ListContainer::searchIPMap\<close> and \<^verbatim>\<open>ListContainer::searchDataMap\<close> are the same recursion
  over different data. \<open>cmp m\<close> is what the code learns from probing position \<open>m\<close>: 0 when
  the entry is the one sought, negative when the search goes on to the right, positive when it
  goes on to the left. \<open>hit\<close> and \<open>miss\<close> are the two ways it returns.
\<close>

locale bin_search =
  fixes srch :: "int \<Rightarrow> int \<Rightarrow> 'r"
    and cmp :: "int \<Rightarrow> int"
    and hit :: "int \<Rightarrow> 'r"
    and miss :: "int \<Rightarrow> 'r"
  assumes srch_unfold: "srch a s =
    (if a > s then miss a
     else let m = (a + s) div 2 in
       if cmp m = 0 then hit m
       else if cmp m < 0 then srch (m + 1) s
       else if a = s then miss a
       else srch a (m - 1))"
begin

lemma srch_induct [case_names step]:
  fixes P :: "int \<Rightarrow> int \<Rightarrow> bool"
  assumes "\<And>a s. (a \<le> s \<Longrightarrow> P ((a + s) div 2 + 1) s) \<Longrightarrow> (a \<le> s \<Longrightarrow> P a ((a + s) div 2 - 1)) \<Longrightarrow> P a s"
  shows "P a s"
proof (induction "nat (s - a + 1)" arbitrary: a s rule: less_induct)
  case less
  show ?case
  proof (rule assms)
    assume "a \<le> s"
    then have "nat (s - ((a + s) div 2 + 1) + 1) < nat (s - a + 1)" by linarith
    then show "P ((a + s) div 2 + 1) s" by (rule less)
  next
    assume "a \<le> s"
    then have "nat ((a + s) div 2 - 1 - a + 1) < nat (s - a + 1)" by linarith
    then show "P a ((a + s) div 2 - 1)" by (rule less)
  qed
qed

lemma srch_cases:
  assumes "a \<le> s"
  obtains (hit) "cmp ((a + s) div 2) = 0" "srch a s = hit ((a + s) div 2)"
    | (right) "cmp ((a + s) div 2) < 0" "srch a s = srch ((a + s) div 2 + 1) s"
    | (edge) "cmp ((a + s) div 2) > 0" "a = s" "srch a s = miss a"
    | (left) "cmp ((a + s) div 2) > 0" "a < s" "srch a s = srch a ((a + s) div 2 - 1)"
  using assms srch_unfold [of a s] by (fastforce simp: Let_def split: if_splits)

text \<open>
  Data is ordered with respect to the probes when the positions that send the search to the right
  come before the others, and those that send it to the left after the others.
\<close>

definition probe_ordered :: "int \<Rightarrow> int \<Rightarrow> bool" where
  "probe_ordered a s \<longleftrightarrow> (\<forall>i j. a \<le> i \<and> i < j \<and> j \<le> s \<longrightarrow>
     (cmp j < 0 \<longrightarrow> cmp i < 0) \<and> (cmp i > 0 \<longrightarrow> cmp j > 0))"

definition splits_at :: "int \<Rightarrow> int \<Rightarrow> int \<Rightarrow> bool" where
  "splits_at a s p \<longleftrightarrow> (\<forall>i. a \<le> i \<and> i < p \<longrightarrow> cmp i < 0) \<and> (\<forall>i. p \<le> i \<and> i \<le> s \<longrightarrow> cmp i > 0)"

lemma probe_ordered_sub: "probe_ordered a s \<Longrightarrow> a \<le> a' \<Longrightarrow> s' \<le> s \<Longrightarrow> probe_ordered a' s'"
  unfolding probe_ordered_def by (meson order_trans)

lemma probe_ordered_left:
  "probe_ordered a s \<Longrightarrow> m \<le> s \<Longrightarrow> cmp m < 0 \<Longrightarrow> a \<le> i \<Longrightarrow> i \<le> m \<Longrightarrow> cmp i < 0"
  unfolding probe_ordered_def by (metis order_le_less)

lemma probe_ordered_right:
  "probe_ordered a s \<Longrightarrow> a \<le> m \<Longrightarrow> cmp m > 0 \<Longrightarrow> m \<le> i \<Longrightarrow> i \<le> s \<Longrightarrow> cmp i > 0"
  unfolding probe_ordered_def by (metis order_le_less)

lemma splits_at_extend:
  assumes "splits_at (m + 1) s p" and "\<And>i. a \<le> i \<Longrightarrow> i \<le> m \<Longrightarrow> cmp i < 0"
  shows "splits_at a s p"
proof -
  have "cmp i < 0" if "a \<le> i" "i < p" for i
    using assms that by (cases "i \<le> m") (auto simp: splits_at_def)
  with assms(1) show ?thesis by (simp add: splits_at_def)
qed

lemma splits_at_extend':
  assumes "splits_at a (m - 1) p" and "\<And>i. m \<le> i \<Longrightarrow> i \<le> s \<Longrightarrow> cmp i > 0"
  shows "splits_at a s p"
proof -
  have "cmp i > 0" if "p \<le> i" "i \<le> s" for i
    using assms that by (cases "m \<le> i") (auto simp: splits_at_def)
  with assms(1) show ?thesis by (simp add: splits_at_def)
qed

text \<open>
  The search returns a position it probed with success or a place between; on ordered data the
  latter means that no probe would have succeeded.
\<close>

lemma srch_result:
  "a \<le> s + 1 \<Longrightarrow>
     (\<exists>m. a \<le> m \<and> m \<le> s \<and> cmp m = 0 \<and> srch a s = hit m)
   \<or> (\<exists>p. a \<le> p \<and> p \<le> s + 1 \<and> srch a s = miss p \<and> (probe_ordered a s \<longrightarrow> splits_at a s p))"
proof (induction a s rule: srch_induct)
  case (step a s)
  let ?m = "(a + s) div 2"
  show ?case
  proof (cases "a \<le> s")
    case False
    with step.prems show ?thesis by (auto simp: srch_unfold [of a s] splits_at_def)
  next
    case True
    then have m: "a \<le> ?m" "?m \<le> s" by linarith+
    from True show ?thesis
    proof (cases rule: srch_cases)
      case hit
      with m show ?thesis by auto
    next
      case edge
      then show ?thesis by (auto simp: splits_at_def)
    next
      case right
      from step.IH(1) [OF True] m consider
          (h) k where "?m + 1 \<le> k" "k \<le> s" "cmp k = 0" "srch (?m + 1) s = hit k"
        | (x) p where "?m + 1 \<le> p" "p \<le> s + 1" "srch (?m + 1) s = miss p"
            "probe_ordered (?m + 1) s \<longrightarrow> splits_at (?m + 1) s p" by auto
      then show ?thesis
      proof cases
        case h
        with m right show ?thesis by (intro disjI1 exI [of _ k]) auto
      next
        case x
        have "splits_at a s p" if "probe_ordered a s"
        proof (rule splits_at_extend)
          have "probe_ordered (?m + 1) s" by (rule probe_ordered_sub [OF that]) (use m in simp_all)
          with x(4) show "splits_at (?m + 1) s p" by blast
          show "cmp i < 0" if "a \<le> i" "i \<le> ?m" for i
            by (rule probe_ordered_left [OF \<open>probe_ordered a s\<close> m(2) right(1) that])
        qed
        with x m right show ?thesis by (intro disjI2 exI [of _ p]) auto
      qed
    next
      case left
      from step.IH(2) [OF True] m consider
          (h) k where "a \<le> k" "k \<le> ?m - 1" "cmp k = 0" "srch a (?m - 1) = hit k"
        | (x) p where "a \<le> p" "p \<le> ?m" "srch a (?m - 1) = miss p"
            "probe_ordered a (?m - 1) \<longrightarrow> splits_at a (?m - 1) p" by auto
      then show ?thesis
      proof cases
        case h
        with m left show ?thesis by (intro disjI1 exI [of _ k]) auto
      next
        case x
        have "splits_at a s p" if "probe_ordered a s"
        proof (rule splits_at_extend')
          have "probe_ordered a (?m - 1)" by (rule probe_ordered_sub [OF that]) (use m in simp_all)
          with x(4) show "splits_at a (?m - 1) p" by blast
          show "cmp i > 0" if "?m \<le> i" "i \<le> s" for i
            by (rule probe_ordered_right [OF \<open>probe_ordered a s\<close> m(1) left(1) that])
        qed
        with x m left show ?thesis by (intro disjI2 exI [of _ p]) auto
      qed
    qed
  qed
qed

lemma srch_sound:
  "a \<le> s + 1 \<Longrightarrow>
     (\<exists>m. a \<le> m \<and> m \<le> s \<and> cmp m = 0 \<and> srch a s = hit m)
   \<or> (\<exists>p. a \<le> p \<and> p \<le> s + 1 \<and> srch a s = miss p)"
  using srch_result by blast

lemma srch_exact:
  "a \<le> s + 1 \<Longrightarrow> probe_ordered a s \<Longrightarrow>
     (\<exists>m. a \<le> m \<and> m \<le> s \<and> cmp m = 0 \<and> srch a s = hit m)
   \<or> (\<exists>p. a \<le> p \<and> p \<le> s + 1 \<and> srch a s = miss p
        \<and> (\<forall>i. a \<le> i \<and> i < p \<longrightarrow> cmp i < 0) \<and> (\<forall>i. p \<le> i \<and> i \<le> s \<longrightarrow> cmp i > 0))"
  using srch_result unfolding splits_at_def by blast

text \<open>The searches over the first \<open>n\<close> entries of an array.\<close>

lemma srch_nat_sound:
  obtains (found) k where "k < n" "cmp (int k) = 0" "srch 0 (int n - 1) = hit (int k)"
    | (free) p where "p \<le> n" "srch 0 (int n - 1) = miss (int p)"
proof -
  from srch_sound [of 0 "int n - 1"] consider
      (h) m where "0 \<le> m" "m \<le> int n - 1" "cmp m = 0" "srch 0 (int n - 1) = hit m"
    | (x) p where "0 \<le> p" "p \<le> int n" "srch 0 (int n - 1) = miss p" by auto
  then show thesis
  proof cases
    case h
    then show thesis by (intro found [of "nat m"]) auto
  next
    case x
    then show thesis by (intro free [of "nat p"]) auto
  qed
qed

lemma srch_nat_exact:
  assumes "\<And>i j. i < j \<Longrightarrow> j < n \<Longrightarrow> cmp (int j) < 0 \<Longrightarrow> cmp (int i) < 0"
    and "\<And>i j. i < j \<Longrightarrow> j < n \<Longrightarrow> cmp (int i) > 0 \<Longrightarrow> cmp (int j) > 0"
  obtains (found) k where "k < n" "cmp (int k) = 0" "srch 0 (int n - 1) = hit (int k)"
    | (free) p where "p \<le> n" "srch 0 (int n - 1) = miss (int p)"
        "\<forall>i < p. cmp (int i) < 0" "\<forall>i. p \<le> i \<and> i < n \<longrightarrow> cmp (int i) > 0"
proof -
  have "probe_ordered 0 (int n - 1)"
    unfolding probe_ordered_def
  proof (intro allI impI)
    fix i j :: int assume ij: "0 \<le> i \<and> i < j \<and> j \<le> int n - 1"
    then have "nat i < nat j" "nat j < n" by auto
    with ij assms [of "nat i" "nat j"] show "(cmp j < 0 \<longrightarrow> cmp i < 0) \<and> (cmp i > 0 \<longrightarrow> cmp j > 0)" by simp
  qed
  from srch_exact [OF _ this] consider
      (h) m where "0 \<le> m" "m \<le> int n - 1" "cmp m = 0" "srch 0 (int n - 1) = hit m"
    | (x) p where "0 \<le> p" "p \<le> int n" "srch 0 (int n - 1) = miss p"
        "\<forall>i. 0 \<le> i \<and> i < p \<longrightarrow> cmp i < 0" "\<forall>i. p \<le> i \<and> i \<le> int n - 1 \<longrightarrow> cmp i > 0" by auto
  then show thesis
  proof cases
    case h
    then show thesis by (intro found [of "nat m"]) auto
  next
    case x
    then show thesis by (intro free [of "nat p"]) auto
  qed
qed

end

text \<open>
  The two searches that return the value stored under a key are a search with the order of the
  keys as its probe.
\<close>

locale map_search =
  fixes msrch :: "'e list \<Rightarrow> 'k::linorder \<Rightarrow> int \<Rightarrow> int \<Rightarrow> 'v option"
    and key :: "'e \<Rightarrow> 'k"
    and val :: "'e \<Rightarrow> 'v"
  assumes msrch_unfold: "msrch es k a s =
    (if a > s then None
     else let m = (a + s) div 2; e = es ! nat m in
       if key e = k then Some (val e)
       else if key e < k then msrch es k (m + 1) s
       else if a = s then None
       else msrch es k a (m - 1))"
begin

definition key_cmp :: "'e list \<Rightarrow> 'k \<Rightarrow> int \<Rightarrow> int" where
  "key_cmp es k m = (let e = es ! nat m in if key e = k then 0 else if key e < k then - 1 else 1)"

end

sublocale map_search \<subseteq> ks: bin_search "msrch es k" "key_cmp es k" "\<lambda>m. Some (val (es ! nat m))" "\<lambda>p. None"
  for es k
  by unfold_locales (subst msrch_unfold, simp add: key_cmp_def Let_def)

context map_search
begin

text \<open>On a list sorted by key the search finds an entry with the key, or there is none.\<close>

lemma msrch_cases:
  assumes "sorted (map key es)"
  obtains (found) e where "e \<in> set es" "key e = k" "msrch es k 0 (int (length es) - 1) = Some (val e)"
    | (absent) "msrch es k 0 (int (length es) - 1) = None" "\<forall>e \<in> set es. key e \<noteq> k"
proof -
  have mono: "key (es ! i) \<le> key (es ! j)" if "i < j" "j < length es" for i j
    using assms that sorted_nth_mono [of "map key es" i j] by simp
  have c: "key_cmp es k (int i) < 0 \<longleftrightarrow> key (es ! i) < k"
    "key_cmp es k (int i) > 0 \<longleftrightarrow> k < key (es ! i)"
    "key_cmp es k (int i) = 0 \<longleftrightarrow> key (es ! i) = k" for i
    by (auto simp: key_cmp_def Let_def)
  show thesis
  proof (rule ks.srch_nat_exact [of "length es" es k], unfold c)
    show "key (es ! i) < k" if "i < j" "j < length es" "key (es ! j) < k" for i j
      using mono [OF that(1,2)] that(3) by order
    show "k < key (es ! j)" if "i < j" "j < length es" "k < key (es ! i)" for i j
      using mono [OF that(1,2)] that(3) by order
    show thesis if "n < length es" "key (es ! n) = k"
      "msrch es k 0 (int (length es) - 1) = Some (val (es ! nat (int n)))" for n
      using that by (intro found [of "es ! n"]) simp_all
    show thesis if "p \<le> length es" "msrch es k 0 (int (length es) - 1) = None"
      "\<forall>i<p. key (es ! i) < k" "\<forall>i. p \<le> i \<and> i < length es \<longrightarrow> k < key (es ! i)" for p
    proof (rule absent)
      show "\<forall>e \<in> set es. key e \<noteq> k" using that(3,4) by (metis in_set_conv_nth less_irrefl not_le)
    qed (rule that(2))
  qed
qed

end

end
