(* ===== verification/E2_String.thy ===== *)
theory E2_String
  imports E2_Prelude
begin

text \<open>
  The class \<^verbatim>\<open>String\<close> of \<^verbatim>\<open>src/src/String.cpp\<close>. A method that changes the object returns
  the new string; a method that also returns a value returns both. The operations are in the
  order of the source.

  The lemmas give the decompositions behind \<open>before\<close> and \<open>after\<close>, the exact effect of the
  clean-up operations (white space, repeated characters, paths), and the order-independence of
  the search-term canonicalisation \<open>sort_search\<close>.
\<close>

section \<open>Numbers\<close>

text \<open>\<^verbatim>\<open>String(const int)\<close> and its siblings.\<close>

definition String_num :: "int \<Rightarrow> string" where
  "String_num num = int_str num"

definition String_bool :: "bool \<Rightarrow> string" where
  "String_bool flag = (if flag then ''1'' else ''0'')"


section \<open>Replacing\<close>

text \<open>\<^verbatim>\<open>find (what, pos)\<close>.\<close>

definition find_from :: "string \<Rightarrow> string \<Rightarrow> nat \<Rightarrow> nat option" where
  "find_from s what pos =
     (if pos \<le> length s then map_option (\<lambda>i. pos + i) (find_sub what (drop pos s)) else None)"

text \<open>The loop ends only when the text is not found any more; \<open>None\<close> is a loop that never ends.\<close>

partial_function (option) replaceall_loop :: "string \<Rightarrow> string \<Rightarrow> string \<Rightarrow> nat \<Rightarrow> string option" where
  "replaceall_loop what repl s pos =
     (case find_from s what pos of
        None \<Rightarrow> Some s
      | Some p \<Rightarrow>
          replaceall_loop what repl (take p s @ repl @ drop (p + length what) s) (p + length repl))"

definition replaceall :: "string \<Rightarrow> string \<Rightarrow> string \<Rightarrow> string option" where
  "replaceall s what repl = replaceall_loop what repl s 0"


section \<open>Conversions\<close>

definition is_ws :: "char \<Rightarrow> bool" where
  "is_ws c = (c \<in> set [CHR '' '', CHR 0x09, CHR 0x0D, CHR 0x0A])"

text \<open>
  \<^verbatim>\<open>removeWhiteSpace\<close>: \<^verbatim>\<open>find_first_not_of\<close> and \<^verbatim>\<open>find_last_not_of\<close>; when nothing but
  white space is there, start and end are the whole string.
\<close>

definition removeWhiteSpace :: "string \<Rightarrow> string" where
  "removeWhiteSpace s =
     (if \<forall>c \<in> set s. is_ws c then s
      else let start = length (takeWhile is_ws s);
               en = length s - 1 - length (takeWhile is_ws (rev s))
           in take (en - start + 1) (drop start s))"

definition toOffset :: "string \<Rightarrow> int" where
  "toOffset s = (if s = [] then 0 else c_atol (removeWhiteSpace s))"

definition toInteger :: "string \<Rightarrow> int" where
  "toInteger s = (if s = [] then 0 else c_atoi s)"

definition toLong :: "string \<Rightarrow> int" where
  "toLong s = (if s = [] then 0 else c_atol s)"

text \<open>
  \<^verbatim>\<open>hexToInteger\<close>: at most nine digits are read into \<^verbatim>\<open>digit[]\<close>, then or-ed together. With
  nine digits the first shift is by 32, which C++ leaves undefined: \<open>None\<close>.
\<close>

definition hex_digit :: "char \<Rightarrow> nat" where
  "hex_digit c = (if c_isdigit c then of_char c mod 16 else of_char c mod 16 + 9)"

fun hex_digits :: "string \<Rightarrow> nat \<Rightarrow> nat list" where
  "hex_digits s 0 = []"
| "hex_digits [] (Suc n) = []"
| "hex_digits (c # s) (Suc n) = (if c_isxdigit c then hex_digit c # hex_digits s n else [])"

fun hex_or :: "nat list \<Rightarrow> 32 word" where
  "hex_or [] = 0"
| "hex_or (d # ds) = or (push_bit (4 * length ds) (of_nat d)) (hex_or ds)"

definition hexToInteger :: "string \<Rightarrow> 32 word option" where
  "hexToInteger s = (let ds = hex_digits s 9 in if length ds = 9 then None else Some (hex_or ds))"


section \<open>Character-wise changes\<close>

definition toLower :: "string \<Rightarrow> string" where
  "toLower s = map c_tolower s"

definition toUpper :: "string \<Rightarrow> string" where
  "toUpper s = map c_toupper s"

definition swapChar :: "string \<Rightarrow> char \<Rightarrow> char \<Rightarrow> string" where
  "swapChar s old new = map (\<lambda>c. if c = old then new else c) s"

text \<open>\<^verbatim>\<open>removeChar\<close> rebuilds the object from a C string, so it also ends at the first NUL.\<close>

definition removeChar :: "string \<Rightarrow> char \<Rightarrow> string" where
  "removeChar s old = cstr (filter (\<lambda>c. c \<noteq> old) s)"


section \<open>Prefixes, suffixes, substrings\<close>

definition startsWith :: "string \<Rightarrow> string \<Rightarrow> bool" where
  "startsWith this s = strncmp_eq (cstr this) (cstr s) (length s)"

definition endsWith :: "string \<Rightarrow> string \<Rightarrow> bool" where
  "endsWith this s =
     (if length s > length this then False
      else strncmp_eq (cstr (drop (length this - length s) this)) (cstr s) (length s))"

definition startsWithLower :: "string \<Rightarrow> string \<Rightarrow> bool" where
  "startsWithLower this s =
     (if length s > length this then False
      else \<forall>i \<in> set [0..<length s]. c_tolower (this ! i) = s ! i)"

definition indexOf :: "string \<Rightarrow> string \<Rightarrow> int" where
  "indexOf this s = (case find_sub s this of Some i \<Rightarrow> int i | None \<Rightarrow> - 1)"

definition contains :: "string \<Rightarrow> string \<Rightarrow> bool" where
  "contains this s = (if length this \<ge> length s then indexOf this s \<noteq> - 1 else False)"

definition after :: "string \<Rightarrow> string \<Rightarrow> string" where
  "after this bs =
     (if length this < length bs then []
      else case find_sub bs this of None \<Rightarrow> [] | Some i \<Rightarrow> drop (i + length bs) this)"

definition before :: "string \<Rightarrow> string \<Rightarrow> string" where
  "before this bs =
     (if length this < length bs then []
      else case find_sub bs this of None \<Rightarrow> [] | Some i \<Rightarrow> take i this)"

definition headerVal :: "string \<Rightarrow> bool \<times> string" where
  "headerVal this = (let t = removeWhiteSpace (after this '':'') in (0 < length t, t))"

definition chop :: "string \<Rightarrow> string" where
  "chop this = (if length this > 0 then take (length this - 1) this else this)"

definition lop :: "string \<Rightarrow> string" where
  "lop this = (if length this > 0 then drop 1 this else this)"


section \<open>Paths and host names\<close>

text \<open>
  \<^verbatim>\<open>baseDir\<close>: \<^verbatim>\<open>find_last_of\<close> gives \<^verbatim>\<open>npos\<close> (the largest \<^verbatim>\<open>size_t\<close>) without a slash, and
  incrementing that wraps to 0.
\<close>

definition baseDir :: "string \<Rightarrow> string" where
  "baseDir this =
     (let pre = dropWhile (\<lambda>c. c \<noteq> CHR ''/'') (rev this) in
      if pre = [] then []
      else if length pre - 1 > 0 then take (length pre) this
      else this)"

definition fullPath :: "string \<Rightarrow> string \<Rightarrow> string" where
  "fullPath this base_dir = (if \<not> startsWith this ''/'' then base_dir @ this else this)"

fun hexDecode_loop :: "string \<Rightarrow> string" where
  "hexDecode_loop (c1 # c2 # c3 # r) =
     (if c1 = CHR ''%'' \<and> c_isxdigit c2 \<and> c_isxdigit c3
      then char_of (16 * hex_digit c2 + hex_digit c3) # hexDecode_loop r
      else c1 # hexDecode_loop (c2 # c3 # r))"
| "hexDecode_loop r = r"

definition hexDecode :: "string \<Rightarrow> string" where
  "hexDecode this = (if length this < 3 then this else hexDecode_loop this)"

definition is_punct :: "char \<Rightarrow> bool" where
  "is_punct c = (let t = (of_char c :: nat) in
     t < 47 \<or> t = 58 \<or> t = 59 \<or> t = 61 \<or> t = 63 \<or> t = 64 \<or> (t > 90 \<and> t < 97))"

fun removePunctuation_loop :: "bool \<Rightarrow> string \<Rightarrow> string" where
  "removePunctuation_loop lastspace [] = []"
| "removePunctuation_loop lastspace (c # s) =
     (let t = (if is_punct c then CHR '' '' else c) in
      if t = CHR '' '' then
        (if lastspace then removePunctuation_loop True s else t # removePunctuation_loop True s)
      else t # removePunctuation_loop False s)"

definition removePunctuation :: "string \<Rightarrow> string" where
  "removePunctuation this = removePunctuation_loop False this"

definition removePTP :: "string \<Rightarrow> string" where
  "removePTP this =
     (if startsWith this ''http://'' \<or> startsWith this ''https://'' \<or> startsWith this ''ftp://''
      then after this ''://'' else this)"

definition getHostname :: "string \<Rightarrow> string" where
  "getHostname this =
     (let h1 = (if contains this ''://'' then after this ''://'' else this);
          h2 = (if contains h1 ''/'' then before h1 ''/'' else h1)
      in if contains h2 ''@'' then after h2 ''@'' else h2)"

definition limitLength :: "string \<Rightarrow> nat \<Rightarrow> string" where
  "limitLength this l = take l this"

fun removeMultiChar_loop :: "char \<Rightarrow> bool \<Rightarrow> string \<Rightarrow> string" where
  "removeMultiChar_loop c wasslash [] = []"
| "removeMultiChar_loop c wasslash (t # s) =
     (if t \<noteq> c then t # removeMultiChar_loop c False s
      else if wasslash then removeMultiChar_loop c wasslash s
      else t # removeMultiChar_loop c True s)"

definition removeMultiChar :: "string \<Rightarrow> char \<Rightarrow> string" where
  "removeMultiChar this c = removeMultiChar_loop c False this"

text \<open>
  \<^verbatim>\<open>realPath\<close>: the written part of the buffer is the second argument. \<open>path_up\<close> is the
  \<^verbatim>\<open>while (offset > 0)\<close> loop that steps back over one component.
\<close>

fun path_up_loop :: "string \<Rightarrow> string" where
  "path_up_loop [] = []"
| "path_up_loop (c # rest) =
     (if c = CHR ''/'' then rest else if c = CHR 0x5C then rest else path_up_loop rest)"

definition path_up :: "string \<Rightarrow> string" where
  "path_up out = rev (path_up_loop (tl (rev out)))"

fun realPath_loop :: "string \<Rightarrow> string \<Rightarrow> string" where
  "realPath_loop [] out = out"
| "realPath_loop (b # r) out =
     (let c = char_at r 0; d = char_at r 1 in
      if b = CHR ''/'' \<and> c = CHR ''/'' then realPath_loop r out
      else if b = CHR ''.'' \<and> (c = nul \<or> c = CHR ''/'') then realPath_loop r out
      else if b = CHR ''.'' \<and> c = CHR ''.'' \<and> (d = nul \<or> d = CHR ''/'' \<or> d = CHR 0x5C)
      then realPath_loop (tl r) (path_up out)
      else realPath_loop r (out @ [b]))"

definition realPath :: "string \<Rightarrow> string" where
  "realPath this = (if length this < 3 then this else cstr (realPath_loop this []))"


section \<open>Search terms\<close>

text \<open>Splitting at the plus signs (the second loop of \<^verbatim>\<open>sort_search\<close>).\<close>

fun split_plus :: "string \<Rightarrow> string list" where
  "split_plus [] = [[]]"
| "split_plus (c # s) =
     (if c = CHR ''+'' then [] # split_plus s
      else case split_plus s of w # ws \<Rightarrow> (c # w) # ws | [] \<Rightarrow> [[c]])"

text \<open>One sweep of the inner loop: the swapped array and whether anything was swapped.
  \<^verbatim>\<open>strcmp\<close> compares bytes as unsigned, which is the library order on strings.\<close>

fun bubble_pass :: "string list \<Rightarrow> bool \<times> string list" where
  "bubble_pass (x # y # zs) =
     (if x > y then (True, y # snd (bubble_pass (x # zs)))
      else (let (sw, r) = bubble_pass (y # zs) in (sw, x # r)))"
| "bubble_pass xs = (False, xs)"

fun inversions :: "string list \<Rightarrow> nat" where
  "inversions [] = 0"
| "inversions (x # xs) = length (filter (\<lambda>y. y < x) xs) + inversions xs"

lemma mset_bubble_pass: "mset (snd (bubble_pass xs)) = mset xs"
  by (induction xs rule: bubble_pass.induct) (auto split: prod.splits)

lemma length_filter_mset: "mset xs = mset ys \<Longrightarrow> length (filter P xs) = length (filter P ys)"
  by (metis mset_filter size_mset)

lemma inversions_bubble_pass:
  "inversions (snd (bubble_pass xs)) + (if fst (bubble_pass xs) then 1 else 0) \<le> inversions xs"
proof (induction xs rule: bubble_pass.induct)
  case (1 x y zs)
  have f: "length (filter P (snd (bubble_pass (w # zs)))) = length (filter P (w # zs))" for P w
    by (rule length_filter_mset) (rule mset_bubble_pass)
  show ?case
  proof (cases "x > y")
    case True
    with "1.IH"(1) show ?thesis by (auto simp: f split: if_splits)
  next
    case False
    obtain sw r where bp: "bubble_pass (y # zs) = (sw, r)" by fastforce
    with f [of "\<lambda>u. u < x" y] "1.IH"(2) [OF False] False show ?thesis
      by (auto split: if_splits)
  qed
qed auto

function bubble_sort :: "string list \<Rightarrow> string list" where
  "bubble_sort ps = (case bubble_pass ps of (swap, ps') \<Rightarrow> if swap then bubble_sort ps' else ps')"
  by pat_completeness auto
termination
proof (relation "measure inversions", goal_cases)
  case (2 ps x swap)
  with inversions_bubble_pass [of ps] show ?case by (cases "bubble_pass ps") auto
qed simp

declare bubble_sort.simps [simp del]

text \<open>The last loop: words are joined with plus signs, but not after an empty beginning.\<close>

fun join_words :: "string \<Rightarrow> string list \<Rightarrow> string" where
  "join_words ret [] = ret"
| "join_words ret (w # ws) = join_words (if ret = [] then w else ret @ ''+'' @ w) ws"

text \<open>\<^verbatim>\<open>sort_search\<close>: the returned string and the object, which is left in lower case. The code works on
  a copy made with \<^verbatim>\<open>strcpy\<close>: a term with a NUL byte would leave the rest of the copy unset, which is
  outside the model.\<close>

definition sort_search :: "string \<Rightarrow> string \<times> string" where
  "sort_search this =
     (let t = toLower this in
      if length t < 3 then (t, t)
      else if CHR ''+'' \<notin> set t then (t, t)
      else case bubble_sort (split_plus t) of
          [] \<Rightarrow> ([], t)
        | w # ws \<Rightarrow> (join_words w ws, t))"


section \<open>Certificate names and redaction\<close>

function CN_loop :: "string \<Rightarrow> string" where
  "CN_loop ret = (if length ret > 62 then CN_loop (after ret ''.'') else ret)"
  by pat_completeness auto
termination
  by (relation "measure length") (auto simp: after_def split: option.splits)

declare CN_loop.simps [simp del]

definition CN :: "string \<Rightarrow> string" where
  "CN this = (if length this < 64 then this else ''*.'' @ CN_loop this)"

definition anonimise :: "string \<Rightarrow> string" where
  "anonimise this = map (\<lambda>c. if \<not> is_punct c then CHR ''x'' else c) this"


section \<open>Lemmas: conversions\<close>

lemma toInteger_String_num:
  assumes "- (2 ^ 31) \<le> i" and "i < 2 ^ 31"
  shows "toInteger (String_num i) = i"
proof -
  have "int_str i \<noteq> []" using length_nat_str by (auto simp: int_str_def)
  then show ?thesis using c_atoi_int_str [OF assms] by (simp add: toInteger_def String_num_def)
qed

lemma startsWith_prefix: "nul_free t \<Longrightarrow> nul_free s \<Longrightarrow> startsWith s t = prefix t s"
  by (simp add: startsWith_def strncmp_eq_prefix)

lemma endsWith_suffix: "nul_free t \<Longrightarrow> nul_free s \<Longrightarrow> endsWith s t = suffix t s"
proof -
  assume "nul_free t" "nul_free s"
  moreover have "nul_free (drop n s)" for n
    using \<open>nul_free s\<close> by (meson in_set_dropD)
  moreover have "prefix t (drop (length s - length t) s) \<longleftrightarrow> suffix t s" if "length t \<le> length s"
  proof
    assume "prefix t (drop (length s - length t) s)"
    moreover have "length (drop (length s - length t) s) = length t" using that by simp
    ultimately have "drop (length s - length t) s = t"
      by (metis append_eq_conv_conj prefix_def take_all order_refl)
    then show "suffix t s" using suffix_drop [of "length s - length t" s] by simp
  next
    assume "suffix t s"
    then show "prefix t (drop (length s - length t) s)" by (auto simp: suffix_def)
  qed
  ultimately show ?thesis
    by (auto simp: endsWith_def strncmp_eq_prefix dest: suffix_length_le)
qed

lemma contains_iff: "contains this s \<longleftrightarrow> sublist s this"
proof (cases "find_sub s this")
  case None
  then have "\<not> sublist s this" by (simp add: find_sub_None)
  with None show ?thesis by (simp add: contains_def indexOf_def)
next
  case (Some i)
  then have "sublist s this" using find_sub_None [of s this] by auto
  with Some show ?thesis using sublist_length_le by (auto simp: contains_def indexOf_def)
qed

lemma before_after:
  assumes "sublist bs this"
  shows "this = before this bs @ bs @ after this bs"
    and "j < length (before this bs) \<Longrightarrow> \<not> prefix bs (drop j this)"
proof -
  from assms obtain i where i: "find_sub bs this = Some i"
    using find_sub_None [of bs this] by auto
  from find_sub_Some_le [OF i] have l: "i \<le> length this" "length bs \<le> length this" by simp_all
  with i have b: "before this bs = take i this" and a: "after this bs = drop (i + length bs) this"
    by (simp_all add: before_def after_def)
  show "this = before this bs @ bs @ after this bs"
    using find_sub_Some [OF i] by (simp add: a b)
  show "j < length (before this bs) \<Longrightarrow> \<not> prefix bs (drop j this)"
    using find_sub_least [OF i] l by (simp add: b)
qed

lemma before_after_unique:
  assumes "this = a @ bs @ b" and "\<And>j. j < length a \<Longrightarrow> \<not> prefix bs (drop j this)"
  shows "before this bs = a" and "after this bs = b"
proof -
  have sub: "sublist bs this" using assms(1) by auto
  note eq = before_after(1) [OF sub] and least = before_after(2) [OF sub]
  have "\<not> length a < length (before this bs)"
    using least [of "length a"] assms(1) by auto
  moreover have "\<not> length (before this bs) < length a"
  proof
    assume "length (before this bs) < length a"
    then have "\<not> prefix bs (drop (length (before this bs)) this)" by (rule assms(2))
    moreover have "drop (length (before this bs)) this = bs @ after this bs"
      by (subst eq) simp
    ultimately show False by simp
  qed
  ultimately have "length a = length (before this bs)" by simp
  moreover have "before this bs @ bs @ after this bs = a @ bs @ b"
    using eq assms(1) by simp
  ultimately show "before this bs = a" "after this bs = b" by simp_all
qed


section \<open>Lemmas: replacing\<close>

lemma find_from_Some:
  assumes "find_from s what pos = Some p"
  shows "pos \<le> p" and "p + length what \<le> length s"
  using assms find_sub_Some_le [of what "drop pos s"] by (fastforce simp: find_from_def split: if_splits)+

text \<open>Everything after \<open>pos\<close> gets shorter when the text looked for is not empty.\<close>

lemma replaceall_loop_terminates:
  "what \<noteq> [] \<Longrightarrow> \<exists>r. replaceall_loop what repl s pos = Some r"
proof (induction "length s - pos" arbitrary: s pos rule: less_induct)
  case less
  show ?case
  proof (cases "find_from s what pos")
    case None
    then show ?thesis by (subst replaceall_loop.simps) simp
  next
    case (Some p)
    let ?s = "take p s @ repl @ drop (p + length what) s"
    from find_from_Some [OF Some] less.prems
    have "length ?s - (p + length repl) < length s - pos" by (cases what) auto
    then obtain r where "replaceall_loop what repl ?s (p + length repl) = Some r"
      using less by blast
    with Some show ?thesis by (subst replaceall_loop.simps) simp
  qed
qed

text \<open>Replacing a single byte is a substitution on every byte.\<close>

lemma find_sub_single:
  "find_sub [c] s = (if c \<in> set s then Some (length (takeWhile (\<lambda>x. x \<noteq> c) s)) else None)"
  by (induction s) auto

lemma subst_absent: "c \<notin> set s \<Longrightarrow> concat (map (\<lambda>x. if x = c then repl else [x]) s) = s"
  by (induction s) auto

lemma replaceall_loop_single:
  "replaceall_loop [c] repl (done @ s) (length done)
     = Some (done @ concat (map (\<lambda>x. if x = c then repl else [x]) s))"
proof (induction "length s" arbitrary: s "done" rule: less_induct)
  case less
  show ?case
  proof (cases "c \<in> set s")
    case False
    then show ?thesis
      by (subst replaceall_loop.simps) (simp add: find_from_def find_sub_single subst_absent)
  next
    case True
    define a where "a = takeWhile (\<lambda>x. x \<noteq> c) s"
    define b where "b = tl (dropWhile (\<lambda>x. x \<noteq> c) s)"
    from True have "hd (dropWhile (\<lambda>x. x \<noteq> c) s) = c" "dropWhile (\<lambda>x. x \<noteq> c) s \<noteq> []"
      by (auto simp: dropWhile_eq_Nil_conv intro: hd_dropWhile [where P = "\<lambda>x. x \<noteq> c", simplified])
    then have s: "s = a @ c # b"
      by (metis a_def b_def list.collapse takeWhile_dropWhile_id)
    have na: "c \<notin> set a" by (auto simp: a_def dest: set_takeWhileD)
    have "find_from (done @ s) [c] (length done) = Some (length done + length a)"
      using True by (simp add: find_from_def find_sub_single a_def)
    moreover have "replaceall_loop [c] repl ((done @ a @ repl) @ b) (length (done @ a @ repl))
        = Some ((done @ a @ repl) @ concat (map (\<lambda>x. if x = c then repl else [x]) b))"
      by (rule less) (simp add: s)
    ultimately show ?thesis
      by (subst replaceall_loop.simps) (simp add: s subst_absent [OF na] add.assoc)
  qed
qed

lemma replaceall_single:
  "replaceall s [c] repl = Some (concat (map (\<lambda>x. if x = c then repl else [x]) s))"
  using replaceall_loop_single [of c repl "[]" s] by (simp add: replaceall_def)


section \<open>Lemmas: cleaning up\<close>

lemma takeWhile_rev_split:
  assumes "x \<in> set s" and "\<not> P x"
  obtains a m b where "s = a @ m @ b" "\<forall>c \<in> set a. P c" "\<forall>c \<in> set b. P c" "m \<noteq> []"
    "\<not> P (hd m)" "\<not> P (last m)"
    "length a = length (takeWhile P s)" "length b = length (takeWhile P (rev s))"
proof -
  from split_list_first_prop [of s "\<lambda>c. \<not> P c"] assms
  obtain a y r where s: "s = a @ y # r" and a: "\<forall>c \<in> set a. P c" and y: "\<not> P y" by blast
  from split_list_last_prop [of "y # r" "\<lambda>c. \<not> P c"] y
  obtain m z b where r: "y # r = m @ z # b" and z: "\<not> P z" and b: "\<forall>c \<in> set b. P c" by auto
  show thesis
  proof (rule that [of a "m @ [z]" b])
    show "s = a @ (m @ [z]) @ b" using s r by simp
    show "\<not> P (hd (m @ [z]))" using r y by (metis append.assoc append_Cons append_Nil hd_append2 list.sel(1) snoc_eq_iff_butlast)
    show "length a = length (takeWhile P s)" using s a y by (simp add: takeWhile_append2)
    show "length b = length (takeWhile P (rev s))" using s r b z by (auto simp: takeWhile_append)
  qed (use a b z in auto)
qed

lemma removeWhiteSpace_trims:
  assumes "c \<in> set s" and "\<not> is_ws c"
  obtains a b where "s = a @ removeWhiteSpace s @ b" "\<forall>c \<in> set a. is_ws c" "\<forall>c \<in> set b. is_ws c"
    "removeWhiteSpace s \<noteq> []" "\<not> is_ws (hd (removeWhiteSpace s))" "\<not> is_ws (last (removeWhiteSpace s))"
proof -
  from takeWhile_rev_split [of c s is_ws] assms obtain a m b where
    d: "s = a @ m @ b" "\<forall>c \<in> set a. is_ws c" "\<forall>c \<in> set b. is_ws c" "m \<noteq> []"
    "\<not> is_ws (hd m)" "\<not> is_ws (last m)"
    "length a = length (takeWhile is_ws s)" "length b = length (takeWhile is_ws (rev s))"
    by metis
  have "length s - 1 - length b - length a + 1 = length m"
    using d(1,4) by (cases m) auto
  moreover have "drop (length a) s = m @ b" using d(1) by simp
  ultimately have "removeWhiteSpace s = m"
    using assms d(7,8) by (auto simp: removeWhiteSpace_def Let_def)
  with d that show thesis by metis
qed


lemma removeMultiChar_loop_spec:
  "successively (\<lambda>x y. \<not> (x = c \<and> y = c)) (removeMultiChar_loop c w s)
   \<and> filter (\<lambda>x. x \<noteq> c) (removeMultiChar_loop c w s) = filter (\<lambda>x. x \<noteq> c) s
   \<and> (w \<longrightarrow> removeMultiChar_loop c w s = [] \<or> hd (removeMultiChar_loop c w s) \<noteq> c)"
  by (induction s arbitrary: w) (auto simp: successively_Cons)

lemma removeMultiChar_loop_id:
  "successively (\<lambda>x y. \<not> (x = c \<and> y = c)) s \<Longrightarrow> \<not> w \<or> s = [] \<or> hd s \<noteq> c \<Longrightarrow>
     removeMultiChar_loop c w s = s"
  by (induction s arbitrary: w) (auto simp: successively_Cons)


section \<open>Lemmas: search terms\<close>

lemma bubble_pass_sorted: "\<not> fst (bubble_pass xs) \<Longrightarrow> sorted xs \<and> snd (bubble_pass xs) = xs"
  by (induction xs rule: bubble_pass.induct) (auto split: prod.splits if_splits)

lemma bubble_sort_sort: "bubble_sort xs = sort xs"
proof (induction xs rule: bubble_sort.induct)
  case (1 ps)
  obtain sw r where bp: "bubble_pass ps = (sw, r)" by fastforce
  have m: "mset r = mset ps" using mset_bubble_pass [of ps] bp by simp
  show ?case
  proof (cases sw)
    case True
    then have "bubble_sort ps = sort r"
      using "1" [OF bp [symmetric]] bp by (subst bubble_sort.simps) simp
    also have "\<dots> = sort ps" using m by (simp add: properties_for_sort)
    finally show ?thesis .
  next
    case False
    with bp bubble_pass_sorted [of ps] show ?thesis
      by (subst bubble_sort.simps) (simp add: sorted_sort_id)
  qed
qed

text \<open>The reference result: the non-empty words in order, separated by plus signs.\<close>

fun plus_join :: "string list \<Rightarrow> string" where
  "plus_join [] = []"
| "plus_join [w] = w"
| "plus_join (w # ws) = w @ ''+'' @ plus_join ws"

lemma plus_join_Cons: "ws \<noteq> [] \<Longrightarrow> plus_join (w # ws) = w @ ''+'' @ plus_join ws"
  by (cases ws) auto

lemma plus_join_append: "plus_join ((a @ b) # ws) = a @ plus_join (b # ws)"
  by (cases ws) auto

lemma join_words_nonempty: "ret \<noteq> [] \<Longrightarrow> join_words ret ws = plus_join (ret # ws)"
proof (induction ws arbitrary: ret)
  case (Cons w ws)
  then show ?case using plus_join_append [of "ret @ ''+''" w ws] by simp
qed simp

lemma join_words_sorted:
  "sorted (w # ws) \<Longrightarrow> join_words w ws = plus_join (filter (\<lambda>x. x \<noteq> []) (w # ws))"
proof (induction ws arbitrary: w)
  case (Cons v ws)
  show ?case
  proof (cases "w = []")
    case True
    with Cons show ?thesis by simp
  next
    case False
    with Cons.prems have "[] \<notin> set (v # ws)" by auto
    then have "filter (\<lambda>x. x \<noteq> []) (w # v # ws) = w # v # ws"
      using False by (auto intro!: filter_True)
    with False show ?thesis by (metis join_words_nonempty)
  qed
qed simp

lemma split_plus_nonempty [simp]: "split_plus s \<noteq> []"
  by (cases s) (auto split: list.splits)

lemma sort_search_several:
  assumes "3 \<le> length s" and "CHR ''+'' \<in> set (toLower s)"
  shows "fst (sort_search s) = plus_join (sort (filter (\<lambda>w. w \<noteq> []) (split_plus (toLower s))))"
proof -
  obtain w ws where b: "sort (split_plus (toLower s)) = w # ws"
    by (metis split_plus_nonempty neq_Nil_conv set_empty set_sort)
  have "sorted (w # ws)" by (metis b sorted_sort)
  then have "join_words w ws = plus_join (filter (\<lambda>x. x \<noteq> []) (sort (split_plus (toLower s))))"
    using join_words_sorted b by simp
  also have "\<dots> = plus_join (sort (filter (\<lambda>x. x \<noteq> []) (split_plus (toLower s))))"
    by (simp add: filter_sort)
  finally have "join_words w ws = \<dots>" .
  moreover have "length (toLower s) = length s" by (simp add: toLower_def)
  ultimately show ?thesis
    using assms b by (simp add: sort_search_def Let_def bubble_sort_sort)
qed

lemma split_plus_single: "CHR ''+'' \<notin> set s \<Longrightarrow> split_plus s = [s]"
  by (induction s) auto

lemma sort_search_reference:
  assumes "3 \<le> length s"
  shows "fst (sort_search s) = plus_join (sort (filter (\<lambda>w. w \<noteq> []) (split_plus (toLower s))))"
proof (cases "CHR ''+'' \<in> set (toLower s)")
  case True
  with assms show ?thesis by (rule sort_search_several)
next
  case False
  moreover have "length (toLower s) = length s" by (simp add: toLower_def)
  ultimately show ?thesis
    using assms by (auto simp: sort_search_def Let_def split_plus_single)
qed

lemma split_plus_join:
  "ws \<noteq> [] \<Longrightarrow> \<forall>w \<in> set ws. CHR ''+'' \<notin> set w \<Longrightarrow> split_plus (plus_join ws) = ws"
proof (induction ws rule: plus_join.induct)
  case (2 w)
  then show ?case by (induction w) auto
next
  case (3 w v vs)
  have "split_plus (u @ CHR ''+'' # plus_join (v # vs)) = u # (v # vs)" if "CHR ''+'' \<notin> set u" for u
    using that 3 by (induction u) auto
  with 3 show ?case by simp
qed simp


section \<open>Lemmas: certificate names\<close>

lemma suffix_after: "suffix (after s t) s"
  by (auto simp: after_def suffix_drop split: option.splits)

lemma CN_loop_suffix: "suffix (CN_loop s) s \<and> length (CN_loop s) \<le> 62"
proof (induction s rule: CN_loop.induct)
  case (1 ret)
  then show ?case
    using suffix_after [of ret "''.''"] CN_loop.simps [of ret]
    by (auto intro: suffix_order.trans split: if_splits)
qed


section \<open>Lemmas: paths\<close>

text \<open>
  A path as its components, each behind a slash. A component is plain when no byte of it is
  special and it does not end in a dot; \<open>resolve\<close> is what a path means: a stack of components.
\<close>

definition path_of :: "string list \<Rightarrow> string" where
  "path_of segs = concat (map (\<lambda>s. CHR ''/'' # s) segs)"

definition plain_seg :: "string \<Rightarrow> bool" where
  "plain_seg s \<longleftrightarrow> s \<noteq> [] \<and> CHR ''/'' \<notin> set s \<and> CHR 0x5C \<notin> set s \<and> nul \<notin> set s \<and> last s \<noteq> CHR ''.''"

fun resolve :: "string list \<Rightarrow> string list \<Rightarrow> string list" where
  "resolve stack [] = stack"
| "resolve stack (s # segs) =
     (if s = ''..'' then resolve (butlast stack) segs else resolve (stack @ [s]) segs)"

lemma path_of_simps [simp]: "path_of [] = []" "path_of (s # ss) = CHR ''/'' # s @ path_of ss"
  "path_of (ss @ [s]) = path_of ss @ CHR ''/'' # s"
  by (simp_all add: path_of_def)

text \<open>The path that is left starts with a slash, or there is none.\<close>

lemma path_of_ends: "char_at (path_of ss) 0 = (if ss = [] then nul else CHR ''/'')"
  by (cases ss) (auto simp: char_at_def)

lemma realPath_loop_seg:
  assumes "s \<noteq> []" and "CHR ''/'' \<notin> set s" and "CHR 0x5C \<notin> set s" and "nul \<notin> set s"
    and "last s \<noteq> CHR ''.''"
  shows "realPath_loop (s @ path_of ss) out = realPath_loop (path_of ss) (out @ s)"
  using assms
proof (induction s arbitrary: out)
  case (Cons b r)
  note IH = Cons.IH
  show ?case
  proof (cases r)
    case Nil
    with Cons.prems show ?thesis by (simp add: Let_def nul_def)
  next
    case (Cons c r')
    have c: "char_at (r @ path_of ss) 0 = c" by (simp add: Cons char_at_def)
    have "c \<noteq> CHR ''/''" "b \<noteq> CHR ''/''" "c \<noteq> nul" using Cons.prems Cons by auto
    moreover have "\<not> (c = CHR ''.'' \<and> (char_at (r @ path_of ss) 1 = nul
        \<or> char_at (r @ path_of ss) 1 = CHR ''/'' \<or> char_at (r @ path_of ss) 1 = CHR 0x5C))"
      using Cons.prems Cons by (cases r') (auto simp: char_at_def)
    moreover have "realPath_loop (r @ path_of ss) (out @ [b]) = realPath_loop (path_of ss) ((out @ [b]) @ r)"
      using Cons.prems Cons by (intro IH) auto
    ultimately show ?thesis using c by (auto simp: Let_def)
  qed
qed simp

lemma path_up_loop_seg:
  "CHR ''/'' \<notin> set s \<Longrightarrow> CHR 0x5C \<notin> set s \<Longrightarrow> path_up_loop (s @ CHR ''/'' # r) = r"
  by (induction s) auto

lemma path_up_path_of:
  assumes "\<forall>s \<in> set st. plain_seg s"
  shows "path_up (path_of st @ ''/'') = path_of (butlast st)"
proof (cases st rule: rev_cases)
  case Nil
  then show ?thesis by (simp add: path_up_def)
next
  case (snoc st' s)
  then have "CHR ''/'' \<notin> set (rev s)" "CHR 0x5C \<notin> set (rev s)" using assms by (auto simp: plain_seg_def)
  with snoc show ?thesis using path_up_loop_seg [of "rev s" "rev (path_of st')"]
    by (simp add: path_up_def)
qed

lemma realPath_loop_path_of:
  assumes "\<forall>s \<in> set st. plain_seg s" and "\<forall>s \<in> set ss. plain_seg s \<or> s = ''..''"
  shows "realPath_loop (path_of ss) (path_of st) = path_of (resolve st ss)"
  using assms
proof (induction ss arbitrary: st)
  case (Cons s ss)
  have slash: "realPath_loop (CHR ''/'' # s @ path_of ss) out = realPath_loop (s @ path_of ss) (out @ ''/'')"
    for out
    using Cons.prems(2) by (cases s) (auto simp: char_at_def plain_seg_def Let_def)
  show ?case
  proof (cases "s = ''..''")
    case True
    have "char_at (CHR ''.'' # path_of ss) 0 = CHR ''.''"
      "char_at (CHR ''.'' # path_of ss) 1 = (if ss = [] then nul else CHR ''/'')"
      using path_of_ends [of ss] by (auto simp: char_at_def)
    then have "realPath_loop (''..'' @ path_of ss) (path_of st @ ''/'')
        = realPath_loop (path_of ss) (path_of (butlast st))"
      by (auto simp: Let_def nul_def path_up_path_of [OF Cons.prems(1)])
    moreover have "\<forall>s \<in> set (butlast st). plain_seg s"
      using Cons.prems(1) by (meson in_set_butlastD)
    ultimately show ?thesis using Cons True slash by simp
  next
    case False
    then have "plain_seg s" using Cons.prems(2) by auto
    then have "realPath_loop (s @ path_of ss) (path_of st @ ''/'')
        = realPath_loop (path_of ss) (path_of (st @ [s]))"
      by (simp add: realPath_loop_seg plain_seg_def)
    moreover have "realPath_loop (path_of ss) (path_of (st @ [s])) = path_of (resolve (st @ [s]) ss)"
      using Cons.prems \<open>plain_seg s\<close> by (intro Cons.IH) auto
    ultimately show ?thesis using False slash by (simp del: realPath_loop.simps path_of_simps(3))
  qed
qed simp

lemma nul_free_path_of: "\<forall>s \<in> set ss. nul \<notin> set s \<Longrightarrow> nul_free (path_of ss)"
  by (induction ss) (auto simp: nul_def)

lemma resolve_subset: "set (resolve st ss) \<subseteq> set st \<union> (set ss - {''..''})"
proof (induction ss arbitrary: st)
  case (Cons s ss)
  have "set (butlast st) \<subseteq> set st" by (meson in_set_butlastD subsetI)
  with Cons [of "butlast st"] Cons [of "st @ [s]"] show ?case by auto
qed simp


section \<open>Lemmas: percent decoding and host names\<close>

definition hex_char :: "nat \<Rightarrow> char" where
  "hex_char n = (if n < 10 then char_of (48 + n) else char_of (55 + n))"

text \<open>Every byte written as a percent sign and two hexadecimal digits.\<close>

definition percent_encode :: "string \<Rightarrow> string" where
  "percent_encode s = concat (map (\<lambda>c. let n = (of_char c :: nat) in
     [CHR ''%'', hex_char (n div 16), hex_char (n mod 16)]) s)"

lemma hex_char_digit: "n < 16 \<Longrightarrow> c_isxdigit (hex_char n) \<and> hex_digit (hex_char n) = n"
proof (cases "n < 10")
  case True
  then have "(48 + n) mod 16 = n" by (simp add: mod_add_left_eq [of 48 16 n, symmetric])
  with True show ?thesis by (simp add: hex_char_def c_isxdigit_def c_isdigit_def hex_digit_def)
next
  case False
  assume "n < 16"
  then have "(55 + n) mod 16 = n - 9" using False by (simp add: mod_if)
  with False \<open>n < 16\<close> show ?thesis by (simp add: hex_char_def c_isxdigit_def c_isdigit_def hex_digit_def)
qed

lemma hexDecode_loop_encode: "hexDecode_loop (percent_encode s @ t) = s @ hexDecode_loop t"
proof (induction s)
  case (Cons c s)
  let ?n = "(of_char c :: nat)"
  have "?n < 256" by simp
  then have "?n div 16 < 16" by (simp add: less_mult_imp_div_less)
  then have hi: "c_isxdigit (hex_char (?n div 16)) \<and> hex_digit (hex_char (?n div 16)) = ?n div 16"
    by (rule hex_char_digit)
  have lo: "c_isxdigit (hex_char (?n mod 16)) \<and> hex_digit (hex_char (?n mod 16)) = ?n mod 16"
    by (rule hex_char_digit) simp
  have n: "char_of (16 * (?n div 16) + ?n mod 16) = c" by (metis char_of_char mult_div_mod_eq)
  have "percent_encode (c # s) @ t
      = CHR ''%'' # hex_char (?n div 16) # hex_char (?n mod 16) # (percent_encode s @ t)"
    unfolding percent_encode_def Let_def by (simp only: list.map concat.simps append.simps append.assoc)
  then show ?case
    by (simp only: hexDecode_loop.simps hi lo n Cons.IH HOL.simp_thms if_True append.simps)
qed (simp add: percent_encode_def)

lemma find_sub_skip:
  assumes "\<And>j. j < length a \<Longrightarrow> \<not> prefix p (drop j (a @ p @ b))"
  shows "before (a @ p @ b) p = a" "after (a @ p @ b) p = b"
  using before_after_unique [of "a @ p @ b" a p b] assms by blast+

lemma single_absent: "c \<notin> set a \<Longrightarrow> j < length a \<Longrightarrow> \<not> prefix [c] (drop j (a @ b))"
proof
  assume c: "c \<notin> set a" and j: "j < length a" and "prefix [c] (drop j (a @ b))"
  then obtain zs where "drop j (a @ b) = c # zs" by (auto simp: prefix_def simp del: drop_append)
  then have "(a @ b) ! j = c" by (rule nth_via_drop)
  with j have "a ! j = c" by (simp add: nth_append)
  with c j show False by auto
qed

lemma sublist_single: "sublist [c] s \<longleftrightarrow> c \<in> set s"
  by (auto simp: sublist_def in_set_conv_decomp)


lemma replaceall_loop_empty: "pos \<le> length s \<Longrightarrow> replaceall_loop [] repl s pos = None"
proof -
  have "what = [] \<longrightarrow> \<not> pos \<le> length s" if "replaceall_loop what repl s pos = Some y" for what repl s pos y
    using _ that
  proof (rule replaceall_loop.raw_induct)
    fix f what repl s pos y
    assume IH: "\<And>what repl s pos y. f what repl s pos = Some y \<Longrightarrow> what = [] \<longrightarrow> \<not> pos \<le> length s"
      and step: "(case find_from s what pos of None \<Rightarrow> Some s
        | Some p \<Rightarrow> f what repl (take p s @ repl @ drop (p + length what) s) (p + length repl)) = Some y"
    have "find_sub [] t = Some 0" for t by (cases t) auto
    then have "find_from s [] pos = Some pos" if "pos \<le> length s" using that by (simp add: find_from_def)
    with step IH [of what repl "take pos s @ repl @ drop pos s" "pos + length repl" y]
    show "what = [] \<longrightarrow> \<not> pos \<le> length s" by (auto split: option.splits)
  qed
  then show "pos \<le> length s \<Longrightarrow> replaceall_loop [] repl s pos = None"
    by (cases "replaceall_loop [] repl s pos") auto
qed


lemma split_plus_free: "w \<in> set (split_plus u) \<Longrightarrow> CHR ''+'' \<notin> set w"
proof (induction u arbitrary: w)
  case (Cons c u)
  obtain v vs where v: "split_plus u = v # vs" by (meson neq_Nil_conv split_plus_nonempty)
  with Cons.IH [of w] Cons.IH [of v] Cons.prems show ?case by (auto split: if_splits)
qed simp

lemma sort_eq_iff: "sort x = sort y \<longleftrightarrow> mset x = mset (y :: 'a::linorder list)"
proof
  assume "sort x = sort y"
  then have "mset (sort x) = mset (sort y)" by (rule arg_cong)
  then show "mset x = mset y" by simp
next
  assume "mset x = mset y"
  then show "sort x = sort y" by (intro properties_for_sort) simp_all
qed

lemma plus_join_Nil: "[] \<notin> set c \<Longrightarrow> plus_join c = [] \<longleftrightarrow> c = []"
  by (cases c rule: plus_join.cases) auto

lemma plus_join_inj:
  assumes "plus_join a = plus_join b" and "\<forall>w \<in> set a. w \<noteq> [] \<and> CHR ''+'' \<notin> set w"
    and "\<forall>w \<in> set b. w \<noteq> [] \<and> CHR ''+'' \<notin> set w"
  shows "a = b"
proof -
  have na: "[] \<notin> set a" and nb: "[] \<notin> set b" using assms(2,3) by blast+
  have nil: "a = [] \<longleftrightarrow> b = []" using plus_join_Nil [OF na] plus_join_Nil [OF nb] assms(1) by simp
  show ?thesis
  proof (cases "a = []")
    case False
    have a: "split_plus (plus_join a) = a" and b: "split_plus (plus_join b) = b"
      by (rule split_plus_join; use False nil assms(2,3) in blast)+
    from a [symmetric] show ?thesis unfolding assms(1) b .
  qed (use nil in simp)
qed


section \<open>Properties\<close>

text \<open>C40: two search terms of at least three bytes have the same canonical form exactly when they
  have the same words up to case, order and empty words; a shorter term is only put into lower case,
  so that its words are not sorted. The terms have no NUL byte, at which the code's copy of the term
  would end.\<close>

theorem sort_search_canonical:
  assumes "nul \<notin> set s" and "nul \<notin> set t"
  shows "(length s < 3 \<longrightarrow> fst (sort_search s) = toLower s) \<and>
    (3 \<le> length s \<and> 3 \<le> length t \<longrightarrow>
      (fst (sort_search s) = fst (sort_search t) \<longleftrightarrow>
       mset (filter (\<lambda>w. w \<noteq> []) (split_plus (toLower s))) = mset (filter (\<lambda>w. w \<noteq> []) (split_plus (toLower t)))))"
    (is "_ \<and> (_ \<longrightarrow> (_ \<longleftrightarrow> mset ?x = mset ?y))")
proof (intro conjI impI)
  show "fst (sort_search s) = toLower s" if "length s < 3"
    using that by (simp add: sort_search_def toLower_def Let_def)
next
  assume long: "3 \<le> length s \<and> 3 \<le> length t"
  have ws: "\<forall>w \<in> set (sort (filter (\<lambda>w. w \<noteq> []) (split_plus u))). w \<noteq> [] \<and> CHR ''+'' \<notin> set w" for u
    by (auto dest: split_plus_free)
  have "fst (sort_search s) = fst (sort_search t) \<longleftrightarrow> plus_join (sort ?x) = plus_join (sort ?y)"
    using long by (simp only: sort_search_reference)
  also have "\<dots> \<longleftrightarrow> sort ?x = sort ?y"
    by (rule iffI, erule plus_join_inj [OF _ ws ws], erule arg_cong)
  also have "\<dots> \<longleftrightarrow> mset ?x = mset ?y"
    by (rule sort_eq_iff)
  finally show "fst (sort_search s) = fst (sort_search t) \<longleftrightarrow> mset ?x = mset ?y" .
qed

theorem sort_search_canonical_witness:
  "fst (sort_search ''Red+hot'') = fst (sort_search ''hot++red'') \<and> fst (sort_search ''A+'') = ''a+''"
proof -
  have "toLower ''Red+hot'' = ''red+hot''" "toLower ''hot++red'' = ''hot++red''" "toLower ''A+'' = ''a+''" by code_simp+
  with sort_search_canonical [of "''Red+hot''" "''hot++red''"] sort_search_canonical [of "''A+''" "''A+''"]
  show ?thesis by (simp add: nul_def)
qed

text \<open>white space is cut off at both ends and nowhere else; a string of nothing but white
  space is left as it is.\<close>

theorem removeWhiteSpace_exact:
  "if \<forall>c \<in> set s. is_ws c then removeWhiteSpace s = s
   else (\<exists>a b. s = a @ removeWhiteSpace s @ b \<and> list_all is_ws a \<and> list_all is_ws b
      \<and> removeWhiteSpace s \<noteq> [] \<and> \<not> is_ws (hd (removeWhiteSpace s)) \<and> \<not> is_ws (last (removeWhiteSpace s)))"
proof (cases "\<forall>c \<in> set s. is_ws c")
  case True
  then show ?thesis by (simp add: removeWhiteSpace_def)
next
  case False
  then obtain c where "c \<in> set s" "\<not> is_ws c" by blast
  from removeWhiteSpace_trims [OF this] show ?thesis using False by (metis list_all_iff)
qed

theorem removeWhiteSpace_exact_witness:
  "removeWhiteSpace ''  '' = ''  '' \<and> (\<exists>a b. '' x '' = a @ removeWhiteSpace '' x '' @ b \<and> list_all is_ws a)"
  using removeWhiteSpace_exact [of "''  ''"] removeWhiteSpace_exact [of "'' x ''"]
  by (auto simp: is_ws_def)

text \<open>a path of plain components and parent references is rewritten to the path it means, and
  no parent reference is left in it.\<close>

theorem realPath_resolves:
  assumes "\<forall>s \<in> set segs. plain_seg s \<or> s = ''..''" and "3 \<le> length (path_of segs)"
  shows "realPath (path_of segs) = path_of (resolve [] segs) \<and> ''..'' \<notin> set (resolve [] segs)"
proof -
  have "nul_free (path_of (resolve [] segs))"
    using assms(1) resolve_subset [of "[]" segs] by (intro nul_free_path_of) (auto simp: plain_seg_def)
  then show ?thesis
    using assms realPath_loop_path_of [of "[]" segs] resolve_subset [of "[]" segs]
    by (auto simp: realPath_def)
qed

theorem realPath_resolves_witness: "realPath ''/a/../../etc'' = ''/etc''"
  using realPath_resolves [of "[''a'', ''..'', ''..'', ''etc'']"]
  by (simp add: plain_seg_def nul_def)

text \<open>runs of the byte are squeezed to one, every other byte is kept in place.\<close>

theorem removeMultiChar_exact:
  "successively (\<lambda>x y. \<not> (x = c \<and> y = c)) (removeMultiChar s c)
   \<and> filter (\<lambda>x. x \<noteq> c) (removeMultiChar s c) = filter (\<lambda>x. x \<noteq> c) s
   \<and> removeMultiChar (removeMultiChar s c) c = removeMultiChar s c"
  using removeMultiChar_loop_spec [of c False s] removeMultiChar_loop_id [of c _ False]
  by (simp add: removeMultiChar_def)

text \<open>replacing returns exactly when the text looked for is not empty.\<close>

theorem replaceall_returns_iff: "(\<exists>r. replaceall s what repl = Some r) \<longleftrightarrow> what \<noteq> []"
  using replaceall_loop_terminates [of what repl s 0] replaceall_loop_empty [of 0 s repl]
  by (auto simp: replaceall_def)

text \<open>the escaping of single bytes the block pages are built with is a substitution on every
  byte; the replacement is not searched again.\<close>

theorem replaceall_single_byte:
  "replaceall s [c] repl = Some (concat (map (\<lambda>x. if x = c then repl else [x]) s))"
  by (rule replaceall_single)

text \<open>percent decoding undoes percent encoding, for every byte string.\<close>

theorem hexDecode_encode: "hexDecode (percent_encode s) = s"
proof (cases "length (percent_encode s) < 3")
  case True
  then have "s = []" by (cases s) (auto simp: percent_encode_def Let_def)
  then show ?thesis by (simp add: hexDecode_def percent_encode_def)
next
  case False
  then show ?thesis using hexDecode_loop_encode [of s "[]"] by (simp add: hexDecode_def)
qed

text \<open>a certificate name longer than the limit becomes a wildcard of at most 64 bytes over a
  tail of the name; without a dot nothing is left but the wildcard.\<close>

theorem CN_long:
  assumes "64 \<le> length s"
  shows "length (CN s) \<le> 64 \<and> (\<exists>t. CN s = ''*.'' @ t \<and> suffix t s)
    \<and> (CHR ''.'' \<notin> set s \<longrightarrow> CN s = ''*.'')"
proof -
  have cn: "CN s = ''*.'' @ CN_loop s" using assms by (simp add: CN_def)
  have "CN_loop s = []" if "CHR ''.'' \<notin> set s"
  proof -
    have "after s ''.'' = []" using that by (simp add: after_def find_sub_single)
    then show ?thesis using assms CN_loop.simps [of s] CN_loop.simps [of "[]"] by simp
  qed
  with cn CN_loop_suffix [of s] show ?thesis by simp
qed

theorem CN_long_witness: "CN (replicate 64 (CHR ''a'')) = ''*.''"
  using CN_long [of "replicate 64 (CHR ''a'')"] by simp

text \<open>the host is found in a URL with any scheme, with or without a user part and a path.\<close>

theorem getHostname_url:
  assumes "CHR '':'' \<notin> set scheme" and "CHR ''/'' \<notin> set host" and "CHR ''@'' \<notin> set host"
    and "user = [] \<or> (\<exists>u. user = u @ ''@'' \<and> CHR ''@'' \<notin> set u \<and> CHR ''/'' \<notin> set u)"
    and "rest = [] \<or> (\<exists>r. rest = CHR ''/'' # r)"
  shows "getHostname (scheme @ ''://'' @ user @ host @ rest) = host"
proof -
  let ?h1 = "user @ host @ rest"
  have "\<not> prefix ''://'' (drop j (scheme @ ''://'' @ ?h1))" if "j < length scheme" for j
    using single_absent [OF assms(1) that, of "''://'' @ ?h1"] by (auto simp: prefix_def)
  then have h1: "after (scheme @ ''://'' @ ?h1) ''://'' = ?h1" by (rule find_sub_skip)
  have nu: "CHR ''/'' \<notin> set (user @ host)" using assms(2,4) by auto
  have h2: "(if contains ?h1 ''/'' then before ?h1 ''/'' else ?h1) = user @ host"
    using assms(5)
  proof
    assume "rest = []"
    with nu show ?thesis by (simp add: contains_iff sublist_single)
  next
    assume "\<exists>r. rest = CHR ''/'' # r"
    then obtain r where r: "rest = ''/'' @ r" by auto
    then have "before ((user @ host) @ ''/'' @ r) ''/'' = user @ host"
      using single_absent [OF nu] by (intro find_sub_skip(1))
    with r show ?thesis by (simp add: contains_iff sublist_single)
  qed
  have h3: "(if contains (user @ host) ''@'' then after (user @ host) ''@'' else user @ host) = host"
    using assms(4)
  proof
    assume "user = []"
    with assms(3) show ?thesis by (simp add: contains_iff sublist_single)
  next
    assume "\<exists>u. user = u @ ''@'' \<and> CHR ''@'' \<notin> set u \<and> CHR ''/'' \<notin> set u"
    then obtain u where u: "user = u @ ''@''" "CHR ''@'' \<notin> set u" by blast
    have "after (u @ ''@'' @ host) ''@'' = host"
      using single_absent [OF u(2)] by (intro find_sub_skip(2))
    with u show ?thesis by (simp add: contains_iff sublist_single)
  qed
  have c: "contains (scheme @ ''://'' @ ?h1) ''://''"
    unfolding contains_iff by (rule sublist_appendI)
  show ?thesis unfolding getHostname_def Let_def by (simp only: c if_True h1 h2 h3)
qed

theorem getHostname_url_witness: "getHostname ''ftp://me@e.com/x@y'' = ''e.com''"
  using getHostname_url [of "''ftp''" "''e.com''" "''me@''" "''/x@y''"] by auto

end
