(* ===== verification/Dyn_IP_List.thy ===== *)
theory Dyn_IP_List
  imports E2_Prelude
begin

text \<open>
  The class \<^verbatim>\<open>DynamicIPList\<close> (\<^verbatim>\<open>src/src/DynamicIPList.cpp\<close>): the table of client addresses
  that limits the number of concurrent users. Two arrays of fixed length hold the addresses, in
  descending order, and the time each was seen; \<open>time(NULL)\<close> is the argument \<open>now\<close>.

  The lemmas show that the order and the bounds are kept, and that the table is a bounded map from
  addresses to times (\<open>dip_map\<close>) of which \<open>inList\<close> is the guarded update and the purge the
  restriction to the young entries.
\<close>

section \<open>Data and operations\<close>

record dyn_ip =
  dip_data :: "64 word list"
  dip_datatime :: "64 word list"
  dip_size :: int
  dip_items :: int
  dip_maxage :: int

definition DynamicIPList_new :: "int \<Rightarrow> int \<Rightarrow> dyn_ip" where
  "DynamicIPList_new maxitems maxitemage =
     \<lparr>dip_data = replicate (nat maxitems) 0, dip_datatime = replicate (nat maxitems) 0,
      dip_size = maxitems, dip_items = 0, dip_maxage = maxitemage\<rparr>"

definition dip_stamp :: "64 word \<Rightarrow> nat \<Rightarrow> dyn_ip \<Rightarrow> dyn_ip" where
  "dip_stamp now pos d = d\<lparr>dip_datatime := (dip_datatime d)[pos := now]\<rparr>"

text \<open>The bounds stay non-negative while they differ, so \<open>div\<close> is the division of C++.\<close>

function dip_search :: "64 word list \<Rightarrow> 64 word \<Rightarrow> int \<Rightarrow> int \<Rightarrow> int" where
  "dip_search dat ip a s =
     (if a > s then - 1 - a
      else let m = (a + s) div 2; i = dat ! nat m in
        if ip = i then m
        else if ip < i then dip_search dat ip (m + 1) s
        else if a = s then - 1 - a
        else dip_search dat ip a (m - 1))"
  by pat_completeness auto
termination
  by (relation "measure (\<lambda>(dat, ip, a, s). nat (s - a + 1))") auto

declare dip_search.simps [simp del]

definition dip_posInList :: "64 word \<Rightarrow> dyn_ip \<Rightarrow> int" where
  "dip_posInList ip d =
     (if dip_items d = 0 then - 1 else dip_search (dip_data d) ip 0 (dip_items d - 1))"

definition dip_inList :: "64 word \<Rightarrow> 64 word \<Rightarrow> dyn_ip \<Rightarrow> bool \<times> dyn_ip" where
  "dip_inList now ip d =
     (let pos = dip_posInList ip d in
      if pos > - 1 then (True, dip_stamp now (nat pos) d)
      else if dip_items d \<ge> dip_size d then (False, d)
      else
        let p = nat (0 - pos - 1); n = nat (dip_items d);
            d1 = d\<lparr>dip_data := (shift_up (dip_data d) p n)[p := ip],
                   dip_datatime := shift_up (dip_datatime d) p n\<rparr>;
            d2 = dip_stamp now p d1
        in (True, d2\<lparr>dip_items := dip_items d + 1\<rparr>))"

text \<open>
  \<^verbatim>\<open>empties\<close>: the loop from index \<open>i\<close>, with \<open>n\<close> iterations left; the arrays are compacted
  in place.
\<close>

fun dip_empties_loop :: "nat \<Rightarrow> nat \<Rightarrow> nat \<Rightarrow> 64 word list \<Rightarrow> 64 word list
    \<Rightarrow> 64 word list \<times> 64 word list \<times> nat" where
  "dip_empties_loop 0 i dec dat tim = (dat, tim, dec)"
| "dip_empties_loop (Suc n) i dec dat tim =
     (let t = dat ! i in
      if t = 0 then dip_empties_loop n (Suc i) (Suc dec) dat tim
      else if dec > 0
      then dip_empties_loop n (Suc i) dec (dat[i - dec := t]) (tim[i - dec := tim ! i])
      else dip_empties_loop n (Suc i) dec dat tim)"

definition dip_empties :: "dyn_ip \<Rightarrow> dyn_ip" where
  "dip_empties d =
     (let dec = (if dip_data d ! 0 = 0 then 1 else 0);
          (dat, tim, dec') =
            dip_empties_loop (nat (dip_items d - 1)) 1 dec (dip_data d) (dip_datatime d)
      in d\<lparr>dip_data := dat, dip_datatime := tim, dip_items := dip_items d - int dec'\<rparr>)"

text \<open>\<^verbatim>\<open>(timenow - datatime[i]) > (unsigned) maxage\<close>, in 64-bit unsigned arithmetic.\<close>

definition dip_old :: "64 word \<Rightarrow> int \<Rightarrow> 64 word \<Rightarrow> bool" where
  "dip_old now maxage t = (now - t > (ucast (word_of_int maxage :: 32 word) :: 64 word))"

fun dip_mark_loop :: "64 word \<Rightarrow> int \<Rightarrow> nat \<Rightarrow> nat \<Rightarrow> 64 word list \<Rightarrow> 64 word list \<Rightarrow> 64 word list" where
  "dip_mark_loop now maxage 0 i dat tim = dat"
| "dip_mark_loop now maxage (Suc n) i dat tim =
     dip_mark_loop now maxage n (Suc i)
       (if dip_old now maxage (tim ! i) then dat[i := 0] else dat) tim"

definition dip_purgeOldEntries :: "64 word \<Rightarrow> dyn_ip \<Rightarrow> dyn_ip" where
  "dip_purgeOldEntries now d =
     (if dip_items d < 1 then d
      else dip_empties (d\<lparr>dip_data :=
        dip_mark_loop now (dip_maxage d) (nat (dip_items d)) 0 (dip_data d) (dip_datatime d)\<rparr>))"


section \<open>Invariant and abstraction\<close>

text \<open>The used part of the arrays.\<close>

definition dip_entries :: "dyn_ip \<Rightarrow> (64 word \<times> 64 word) list" where
  "dip_entries d = zip (take (nat (dip_items d)) (dip_data d)) (take (nat (dip_items d)) (dip_datatime d))"

definition dip_inv :: "dyn_ip \<Rightarrow> bool" where
  "dip_inv d \<longleftrightarrow> length (dip_data d) = nat (dip_size d) \<and> length (dip_datatime d) = nat (dip_size d)
     \<and> 0 \<le> dip_items d \<and> dip_items d \<le> dip_size d
     \<and> sorted_wrt (>) (take (nat (dip_items d)) (dip_data d))"

definition dip_map :: "dyn_ip \<Rightarrow> 64 word \<rightharpoonup> 64 word" where
  "dip_map d = map_of (dip_entries d)"

lemma dip_new_inv: "0 \<le> n \<Longrightarrow> dip_inv (DynamicIPList_new n age)"
  by (simp add: dip_inv_def DynamicIPList_new_def)

lemma dip_entries_keys:
  "dip_inv d \<Longrightarrow> map fst (dip_entries d) = take (nat (dip_items d)) (dip_data d)"
  by (simp add: dip_entries_def dip_inv_def)

lemma dip_map_dom: "dip_inv d \<Longrightarrow> dom (dip_map d) = set (take (nat (dip_items d)) (dip_data d))"
  by (metis dip_entries_keys dip_map_def dom_map_of_conv_image_fst list.set_map)

lemma dip_keys_distinct: "dip_inv d \<Longrightarrow> distinct (take (nat (dip_items d)) (dip_data d))"
  by (auto simp: dip_inv_def distinct_conv_nth sorted_wrt_iff_nth_less) (metis less_irrefl nat_neq_iff)

lemma dip_map_card: "dip_inv d \<Longrightarrow> card (dom (dip_map d)) = nat (dip_items d)"
  using dip_map_dom [of d] dip_keys_distinct [of d] distinct_card [of "take (nat (dip_items d)) (dip_data d)"]
  by (auto simp: dip_inv_def min_def)


section \<open>Searching\<close>

definition dip_cmp :: "64 word list \<Rightarrow> 64 word \<Rightarrow> int \<Rightarrow> int" where
  "dip_cmp dat ip m = (let i = dat ! nat m in if ip = i then 0 else if ip < i then - 1 else 1)"

interpretation dip: bin_search "dip_search dat ip" "dip_cmp dat ip" "\<lambda>m. m" "\<lambda>p. - 1 - p" for dat ip
  by unfold_locales (subst dip_search.simps, simp add: dip_cmp_def Let_def)

lemma dip_descending:
  "dip_inv d \<Longrightarrow> i < j \<Longrightarrow> j < nat (dip_items d) \<Longrightarrow> dip_data d ! j < dip_data d ! i"
  by (auto simp: dip_inv_def sorted_wrt_iff_nth_less)

text \<open>Where an address is in the table, or where it belongs.\<close>

lemma dip_posInList_cases:
  assumes "dip_inv d"
  obtains (found) k where "k < nat (dip_items d)" "dip_data d ! k = ip" "dip_posInList ip d = int k"
    | (free) p where "p \<le> nat (dip_items d)" "dip_posInList ip d = - 1 - int p"
        "\<forall>i < p. ip < dip_data d ! i" "\<forall>i. p \<le> i \<and> i < nat (dip_items d) \<longrightarrow> dip_data d ! i < ip"
proof (cases "dip_items d = 0")
  case True
  then show thesis by (intro free [of 0]) (auto simp: dip_posInList_def)
next
  case False
  with assms have s: "dip_posInList ip d = dip_search (dip_data d) ip 0 (int (nat (dip_items d)) - 1)"
    by (simp add: dip_posInList_def dip_inv_def)
  have c: "dip_cmp (dip_data d) ip (int i) < 0 \<longleftrightarrow> ip < dip_data d ! i"
    "dip_cmp (dip_data d) ip (int i) > 0 \<longleftrightarrow> dip_data d ! i < ip"
    "dip_cmp (dip_data d) ip (int i) = 0 \<longleftrightarrow> dip_data d ! i = ip" for i
    by (auto simp: dip_cmp_def Let_def)
  show thesis
  proof (rule dip.srch_nat_exact [of "nat (dip_items d)" "dip_data d" ip], unfold c)
    show "ip < dip_data d ! i" if "i < j" "j < nat (dip_items d)" "ip < dip_data d ! j" for i j
      using dip_descending [OF assms that(1,2)] that(3) by order
    show "dip_data d ! j < ip" if "i < j" "j < nat (dip_items d)" "dip_data d ! i < ip" for i j
      using dip_descending [OF assms that(1,2)] that(3) by order
  qed (use s found free in auto)
qed


section \<open>Inserting\<close>

lemma sorted_insert_at:
  assumes "sorted_wrt (>) (take n xs)" and "p \<le> n" and "n \<le> length xs"
    and "\<forall>i < p. v < xs ! i" and "\<forall>i. p \<le> i \<and> i < n \<longrightarrow> xs ! i < v"
  shows "sorted_wrt (>) (take p xs @ v # drop p (take n xs))"
proof -
  have tn: "take n xs = take p xs @ drop p (take n xs)"
    using assms(2) by (metis append_take_drop_id min_absorb1 take_take)
  have "sorted_wrt (>) (take p xs @ drop p (take n xs))" using assms(1) tn by simp
  moreover have "x > v" if "x \<in> set (take p xs)" for x
    using that assms(2-4) by (auto simp: in_set_conv_nth)
  moreover have "x < v" if "x \<in> set (drop p (take n xs))" for x
    using that assms(2,3,5) by (auto simp: in_set_conv_nth)
  ultimately show ?thesis by (fastforce simp: sorted_wrt_append)
qed

lemma dip_stamp_inv: "dip_inv d \<Longrightarrow> dip_inv (dip_stamp now k d)"
  by (simp add: dip_inv_def dip_stamp_def)

lemma dip_stamp_map:
  assumes "dip_inv d" and "k < nat (dip_items d)"
  shows "dip_map (dip_stamp now k d) = (dip_map d)(dip_data d ! k \<mapsto> now)"
proof -
  let ?n = "nat (dip_items d)"
  have "map_of (zip (take ?n (dip_data d)) ((take ?n (dip_datatime d))[k := now]))
      = (map_of (zip (take ?n (dip_data d)) (take ?n (dip_datatime d))))(take ?n (dip_data d) ! k \<mapsto> now)"
    by (rule map_of_zip_update [OF dip_keys_distinct [OF assms(1)]]) (use assms in \<open>auto simp: dip_inv_def\<close>)
  with assms(2) show ?thesis
    by (simp add: dip_map_def dip_entries_def dip_stamp_def take_update_swap)
qed

text \<open>The table after an address has been added at its place.\<close>

definition dip_insert_at :: "64 word \<Rightarrow> 64 word \<Rightarrow> nat \<Rightarrow> dyn_ip \<Rightarrow> dyn_ip" where
  "dip_insert_at now ip p d =
     d\<lparr>dip_data := (shift_up (dip_data d) p (nat (dip_items d)))[p := ip],
       dip_datatime := (shift_up (dip_datatime d) p (nat (dip_items d)))[p := now],
       dip_items := dip_items d + 1\<rparr>"

lemma dip_insert_at_ok:
  assumes "dip_inv d" and "dip_items d < dip_size d" and p: "p \<le> nat (dip_items d)"
    and "\<forall>i < p. ip < dip_data d ! i" and "\<forall>i. p \<le> i \<and> i < nat (dip_items d) \<longrightarrow> dip_data d ! i < ip"
  shows "dip_inv (dip_insert_at now ip p d)"
    and "dip_map (dip_insert_at now ip p d) = (dip_map d)(ip \<mapsto> now)"
proof -
  let ?n = "nat (dip_items d)"
  have n: "?n < length (dip_data d)" "?n < length (dip_datatime d)"
    and suc: "nat (dip_items d + 1) = Suc ?n"
    using assms(1,2) by (auto simp: dip_inv_def)
  have srt: "sorted_wrt (>) (take p (dip_data d) @ ip # drop p (take ?n (dip_data d)))"
    by (rule sorted_insert_at) (use assms n in \<open>auto simp: dip_inv_def\<close>)
  note ins = shift_up_insert [OF p n(1), of ip] shift_up_insert [OF p n(2), of now]
  show "dip_inv (dip_insert_at now ip p d)"
    using assms(1,2) srt by (simp add: dip_inv_def dip_insert_at_def suc ins)
  have "dip_entries (dip_insert_at now ip p d) = take p (dip_entries d) @ (ip, now) # drop p (dip_entries d)"
    using p n by (simp add: dip_entries_def dip_insert_at_def suc ins take_zip drop_zip zip_append min_def)
  moreover have "ip \<notin> fst ` set (take p (dip_entries d))"
  proof -
    have "fst ` set (take p (dip_entries d)) = set (take p (dip_data d))"
      using dip_entries_keys [OF assms(1)] p by (metis list.set_map min.absorb1 take_map take_take)
    with assms(4) n p show ?thesis by (auto simp: in_set_conv_nth)
  qed
  ultimately show "dip_map (dip_insert_at now ip p d) = (dip_map d)(ip \<mapsto> now)"
    using map_of_insert_at [of ip p "dip_entries d" now] by (simp add: dip_map_def)
qed

lemma dip_inList_cases:
  assumes "dip_inv d"
  obtains (found) k where "k < nat (dip_items d)" "dip_data d ! k = ip"
      "dip_inList now ip d = (True, dip_stamp now k d)"
    | (full) "ip \<notin> dom (dip_map d)" "dip_items d = dip_size d" "dip_inList now ip d = (False, d)"
    | (added) p where "ip \<notin> dom (dip_map d)" "dip_items d < dip_size d" "p \<le> nat (dip_items d)"
        "\<forall>i < p. ip < dip_data d ! i" "\<forall>i. p \<le> i \<and> i < nat (dip_items d) \<longrightarrow> dip_data d ! i < ip"
        "dip_inList now ip d = (True, dip_insert_at now ip p d)"
proof (cases rule: dip_posInList_cases [OF assms, of ip])
  case (1 k)
  then show thesis by (intro found [of k]) (auto simp: dip_inList_def)
next
  case (2 p)
  have "ip \<noteq> dip_data d ! i" if "i < nat (dip_items d)" for i
    using 2(3,4) that by (metis less_irrefl not_le)
  then have out: "ip \<notin> dom (dip_map d)"
    using assms by (auto simp: dip_map_dom dip_inv_def in_set_conv_nth)
  show thesis
  proof (cases "dip_items d \<ge> dip_size d")
    case True
    with 2 out assms show thesis by (intro full) (auto simp: dip_inList_def dip_inv_def)
  next
    case False
    with 2 out show thesis
      by (intro added [of p]) (auto simp: dip_inList_def dip_insert_at_def dip_stamp_def Let_def)
  qed
qed


section \<open>Purging\<close>

lemma length_dip_mark_loop [simp]: "length (dip_mark_loop now maxage n i dat tim) = length dat"
  by (induction n arbitrary: i dat) auto

lemma dip_mark_loop_nth:
  "i + n \<le> length dat \<Longrightarrow> j < length dat \<Longrightarrow>
   dip_mark_loop now maxage n i dat tim ! j
     = (if i \<le> j \<and> j < i + n \<and> dip_old now maxage (tim ! j) then 0 else dat ! j)"
proof (induction n arbitrary: i dat)
  case (Suc n)
  show ?case
    using Suc.prems by (subst dip_mark_loop.simps, subst Suc.IH) (auto simp: nth_list_update)
qed auto

lemma dip_empties_loop_spec:
  assumes "dip_empties_loop n i dec dat tim = (dat', tim', dec')"
    and "dec \<le> i" and "i + n \<le> length dat" and "length tim = length dat"
  shows "length dat' = length dat \<and> length tim' = length dat \<and> dec' \<le> i + n
    \<and> zip (take (i + n - dec') dat') (take (i + n - dec') tim')
      = zip (take (i - dec) dat) (take (i - dec) tim)
        @ filter (\<lambda>(a, t). a \<noteq> 0) (zip (take n (drop i dat)) (take n (drop i tim)))"
  using assms
proof (induction n arbitrary: i dec dat tim)
  case (Suc n)
  have hd: "take (Suc n) (drop i dat) = dat ! i # take n (drop (Suc i) dat)"
    "take (Suc n) (drop i tim) = tim ! i # take n (drop (Suc i) tim)"
    using Suc.prems by (simp_all flip: Cons_nth_drop_Suc)
  show ?case
  proof (cases "dat ! i = 0")
    case True
    with Suc.prems(1) have "dip_empties_loop n (Suc i) (Suc dec) dat tim = (dat', tim', dec')" by simp
    from Suc.IH [OF this] Suc.prems True hd show ?thesis by simp
  next
    case False
    let ?d = "dat[i - dec := dat ! i]" and ?t = "tim[i - dec := tim ! i]"
    have "dip_empties_loop n (Suc i) dec ?d ?t = (dat', tim', dec')"
      using Suc.prems(1) False by (cases "dec = 0") (simp_all add: Let_def)
    from Suc.IH [OF this] Suc.prems
    have IH: "length dat' = length dat \<and> length tim' = length dat \<and> dec' \<le> Suc i + n
      \<and> zip (take (Suc i + n - dec') dat') (take (Suc i + n - dec') tim')
        = zip (take (Suc i - dec) ?d) (take (Suc i - dec) ?t)
          @ filter (\<lambda>(a, t). a \<noteq> 0) (zip (take n (drop (Suc i) ?d)) (take n (drop (Suc i) ?t)))"
      by simp
    have "take (Suc i - dec) ?d = take (i - dec) dat @ [dat ! i]"
      "take (Suc i - dec) ?t = take (i - dec) tim @ [tim ! i]"
      using Suc.prems by (simp_all add: Suc_diff_le take_Suc_conv_app_nth)
    with IH hd False Suc.prems show ?thesis by simp
  qed
qed simp


lemma dip_empties_ok:
  assumes len: "length (dip_data d) = nat (dip_size d)" "length (dip_datatime d) = nat (dip_size d)"
    and items: "1 \<le> dip_items d" "dip_items d \<le> dip_size d"
  shows "dip_entries (dip_empties d) = filter (\<lambda>(a, t). a \<noteq> 0) (dip_entries d)"
    and "0 \<le> dip_items (dip_empties d)" and "dip_items (dip_empties d) \<le> dip_items d"
    and "length (dip_data (dip_empties d)) = nat (dip_size d)"
    and "length (dip_datatime (dip_empties d)) = nat (dip_size d)"
    and "dip_size (dip_empties d) = dip_size d"
proof -
  let ?n = "nat (dip_items d - 1)"
  define dec where "dec = (if dip_data d ! 0 = 0 then 1 else 0 :: nat)"
  obtain dat tim dec' where l: "dip_empties_loop ?n 1 dec (dip_data d) (dip_datatime d) = (dat, tim, dec')"
    using prod_cases3 by blast
  have e: "dip_empties d = d\<lparr>dip_data := dat, dip_datatime := tim, dip_items := dip_items d - int dec'\<rparr>"
    using l by (simp add: dip_empties_def dec_def)
  have n: "1 + ?n = nat (dip_items d)" using items by simp
  have spec: "length dat = length (dip_data d) \<and> length tim = length (dip_data d) \<and> dec' \<le> nat (dip_items d)
    \<and> zip (take (nat (dip_items d) - dec') dat) (take (nat (dip_items d) - dec') tim)
      = zip (take (1 - dec) (dip_data d)) (take (1 - dec) (dip_datatime d))
        @ filter (\<lambda>(a, t). a \<noteq> 0) (zip (take ?n (drop 1 (dip_data d))) (take ?n (drop 1 (dip_datatime d))))"
    using dip_empties_loop_spec [OF l] len items n by (simp add: dec_def)
  show "0 \<le> dip_items (dip_empties d)" "dip_items (dip_empties d) \<le> dip_items d"
    "length (dip_data (dip_empties d)) = nat (dip_size d)"
    "length (dip_datatime (dip_empties d)) = nat (dip_size d)"
    "dip_size (dip_empties d) = dip_size d"
    using spec len items by (auto simp: e)
  have "nat (dip_items d - int dec') = nat (dip_items d) - dec'" by simp
  moreover obtain x xs y ys where "dip_data d = x # xs" "dip_datatime d = y # ys"
    using len items by (cases "dip_data d"; cases "dip_datatime d") auto
  ultimately show "dip_entries (dip_empties d) = filter (\<lambda>(a, t). a \<noteq> 0) (dip_entries d)"
    using spec n [symmetric] by (simp add: dip_entries_def e dec_def)
qed

lemma dip_purge_entries:
  assumes "dip_inv d"
  shows "dip_entries (dip_purgeOldEntries now d)
      = filter (\<lambda>(a, t). a \<noteq> 0 \<and> \<not> dip_old now (dip_maxage d) t) (dip_entries d)"
    and "dip_inv (dip_purgeOldEntries now d)"
proof -
  let ?d = "d\<lparr>dip_data := dip_mark_loop now (dip_maxage d) (nat (dip_items d)) 0 (dip_data d) (dip_datatime d)\<rparr>"
  let ?mark = "\<lambda>(a, t). (if dip_old now (dip_maxage d) t then 0 else a, t)"
  have marked: "dip_entries ?d = map ?mark (dip_entries d)"
    using assms by (intro nth_equalityI) (auto simp: dip_entries_def dip_inv_def dip_mark_loop_nth)
  have mf: "filter (\<lambda>(a, t). a \<noteq> 0) (map ?mark es)
      = filter (\<lambda>(a, t). a \<noteq> 0 \<and> \<not> dip_old now (dip_maxage d) t) es" for es
    by (induction es) auto
  show ent: "dip_entries (dip_purgeOldEntries now d)
      = filter (\<lambda>(a, t). a \<noteq> 0 \<and> \<not> dip_old now (dip_maxage d) t) (dip_entries d)"
  proof (cases "dip_items d < 1")
    case True
    then show ?thesis by (simp add: dip_purgeOldEntries_def dip_entries_def)
  next
    case False
    then show ?thesis
      using assms dip_empties_ok(1) [of ?d] marked mf
      by (simp add: dip_purgeOldEntries_def dip_inv_def)
  qed
  show "dip_inv (dip_purgeOldEntries now d)"
  proof (cases "dip_items d < 1")
    case True
    with assms show ?thesis by (simp add: dip_purgeOldEntries_def)
  next
    case False
    let ?p = "dip_purgeOldEntries now d"
    have p: "?p = dip_empties ?d" using False by (simp add: dip_purgeOldEntries_def)
    have b: "0 \<le> dip_items ?p" "dip_items ?p \<le> dip_size ?p" "length (dip_data ?p) = nat (dip_size ?p)"
      "length (dip_datatime ?p) = nat (dip_size ?p)"
      using dip_empties_ok [of ?d] assms False unfolding p by (auto simp: dip_inv_def)
    then have "take (nat (dip_items ?p)) (dip_data ?p) = map fst (dip_entries ?p)"
      by (simp add: dip_entries_def)
    moreover have "sorted_wrt (>) (map fst (dip_entries d))"
      using assms by (simp add: dip_entries_keys [OF assms] dip_inv_def)
    then have "sorted_wrt (>) (map fst (dip_entries ?p))"
      unfolding ent sorted_wrt_map by (rule sorted_wrt_filter)
    ultimately show ?thesis using b by (simp add: dip_inv_def)
  qed
qed


section \<open>Properties\<close>

text \<open>The tables the program can have: a new one, and what the two public operations make of it.\<close>

inductive dip_reachable :: "int \<Rightarrow> int \<Rightarrow> dyn_ip \<Rightarrow> bool" for maxitems maxage where
  dip_start: "dip_reachable maxitems maxage (DynamicIPList_new maxitems maxage)"
| dip_lookup: "dip_reachable maxitems maxage d \<Longrightarrow> dip_reachable maxitems maxage (snd (dip_inList now ip d))"
| dip_purge: "dip_reachable maxitems maxage d \<Longrightarrow> dip_reachable maxitems maxage (dip_purgeOldEntries now d)"

lemma dip_inList_inv: "dip_inv d \<Longrightarrow> dip_inv (snd (dip_inList now ip d))"
  by (rule dip_inList_cases [of d ip now]) (auto simp: dip_stamp_inv dip_insert_at_ok)

lemma dip_card_items: "dip_inv d \<Longrightarrow> int (card (dom (dip_map d))) = dip_items d"
  by (simp add: dip_map_card) (simp add: dip_inv_def)

lemma dip_size_new: "dip_size (DynamicIPList_new n age) = n"
  by (simp add: DynamicIPList_new_def)

lemma dip_size_kept:
  "dip_size (snd (dip_inList now ip d)) = dip_size d" "dip_size (dip_purgeOldEntries now d) = dip_size d"
  by (auto simp: dip_inList_def dip_stamp_def Let_def dip_purgeOldEntries_def dip_empties_def
      split: prod.splits)

text \<open>C39: in every history of lookups and purges the table is in order, within its arrays, and holds
  at most the configured number of addresses.\<close>

theorem dip_reachable_inv:
  assumes "dip_reachable maxitems maxage d" and "0 \<le> maxitems"
  shows "dip_inv d \<and> card (dom (dip_map d)) \<le> nat maxitems"
proof -
  have "dip_inv d \<and> dip_size d = maxitems" using assms
    by (induction rule: dip_reachable.induct)
      (auto simp: dip_new_inv dip_inList_inv dip_purge_entries dip_size_kept dip_size_new)
  then show ?thesis by (auto simp: dip_map_card dip_inv_def)
qed

theorem dip_reachable_inv_witness:
  "dip_inv (snd (dip_inList 7 5 (DynamicIPList_new 2 60)))"
  using dip_reachable_inv [OF dip_lookup [OF dip_start], of 2 7 5 60] by simp

text \<open>\<open>inList\<close> admits an address exactly when it is known or there is room, records the time of
  an admitted address and changes nothing else.\<close>

theorem dip_inList_refines:
  assumes "dip_inv d" and "dip_inList now ip d = (r, d')"
  shows "dip_inv d' \<and> r = (ip \<in> dom (dip_map d) \<or> int (card (dom (dip_map d))) < dip_size d)
    \<and> dip_map d' = (if r then (dip_map d)(ip \<mapsto> now) else dip_map d)"
proof (cases rule: dip_inList_cases [OF assms(1), of ip now])
  case (1 k)
  then have "ip \<in> dom (dip_map d)"
    using assms(1) by (auto simp: dip_map_dom dip_inv_def in_set_conv_nth intro!: exI [of _ k])
  with 1 assms show ?thesis by (auto simp: dip_stamp_inv dip_stamp_map)
next
  case 2
  with assms dip_card_items [OF assms(1)] show ?thesis by simp
next
  case (3 p)
  with assms dip_card_items [OF assms(1)] show ?thesis by (auto simp: dip_insert_at_ok)
qed

theorem dip_inList_refines_witness:
  "fst (dip_inList 7 5 (snd (dip_inList 6 5 (DynamicIPList_new 1 60))))"
proof -
  let ?d = "\<lparr>dip_data = [5], dip_datatime = [6], dip_size = 1, dip_items = 1, dip_maxage = 60\<rparr>"
  have d: "snd (dip_inList 6 5 (DynamicIPList_new 1 60)) = ?d"
    by (simp add: dip_inList_def dip_posInList_def DynamicIPList_new_def dip_stamp_def)
  have "dip_inv ?d" by (simp add: dip_inv_def)
  then show ?thesis unfolding d
    using dip_inList_refines [of ?d 7 5 "fst (dip_inList 7 5 ?d)" "snd (dip_inList 7 5 ?d)"]
    by (simp add: dip_map_def dip_entries_def)
qed

text \<open>the purge keeps the order and exactly the entries that are not too old (and not address 0).\<close>

theorem dip_purge_refines:
  assumes "dip_inv d"
  shows "dip_inv (dip_purgeOldEntries now d) \<and> dip_map (dip_purgeOldEntries now d) =
    (\<lambda>ip. case dip_map d ip of None \<Rightarrow> None
       | Some t \<Rightarrow> if ip \<noteq> 0 \<and> \<not> dip_old now (dip_maxage d) t then Some t else None)"
  using dip_purge_entries [OF assms, of now] dip_keys_distinct [OF assms]
  by (auto simp: dip_map_def fun_eq_iff map_of_filter_distinct dip_entries_keys [OF assms] split: option.splits)

theorem dip_purge_refines_witness:
  "dip_map (dip_purgeOldEntries 100 (snd (dip_inList 6 5 (DynamicIPList_new 1 60)))) 5 = None"
proof -
  have "dip_inv (snd (dip_inList 6 5 (DynamicIPList_new 1 60)))"
    by (intro dip_inList_inv dip_new_inv) simp
  from dip_purge_refines [OF this, of 100] show ?thesis
    by (simp add: dip_inList_def dip_posInList_def DynamicIPList_new_def dip_stamp_def dip_map_def
        dip_entries_def dip_old_def)
qed

end
