(* ===== verification/Dyn_URL_List.thy ===== *)
theory Dyn_URL_List
  imports E2_Prelude
begin

text \<open>
  The class \<^verbatim>\<open>DynamicURLList\<close> (\<^verbatim>\<open>src/src/DynamicURLList.cpp\<close>): the cache of URLs found
  clean. The URLs are a ring buffer (\<open>agepos\<close> is the oldest entry once the buffer is full); a
  separate index lists the entries in alphabetical order for binary search.

  A slot of the buffer \<^verbatim>\<open>urls\<close> (1000 bytes) is the C string it holds. \<open>time(NULL)\<close> and the
  option \<^verbatim>\<open>o.filter_groups\<close> are arguments.

  The lemmas show that the index stays a sorted permutation of the used slots, that a lookup
  answers from the recorded time and groups, and that the cache is a first-in-first-out map.
\<close>

section \<open>Data and operations\<close>

record dyn_url =
  durl_index :: "nat list"
  durl_urlreftime :: "64 word list"
  durl_urls :: "string list"
  durl_groups :: "string list"
  durl_size :: nat
  durl_agepos :: nat
  durl_timeout :: "32 word"
  durl_items :: nat

definition DynamicURLList_new :: dyn_url where
  "DynamicURLList_new = \<lparr>durl_index = [], durl_urlreftime = [], durl_urls = [], durl_groups = [],
     durl_size = 0, durl_agepos = 0, durl_timeout = 0, durl_items = 0\<rparr>"

fun durl_flush_loop :: "nat list \<Rightarrow> 64 word list \<Rightarrow> 64 word list" where
  "durl_flush_loop [] tim = tim"
| "durl_flush_loop (i # is) tim = durl_flush_loop is (tim[i := 0])"

definition durl_flush :: "dyn_url \<Rightarrow> dyn_url" where
  "durl_flush d = d\<lparr>durl_urlreftime :=
     durl_flush_loop (take (durl_items d) (durl_index d)) (durl_urlreftime d)\<rparr>"

text \<open>The comparison inside \<^verbatim>\<open>search\<close>: the loop over the common length, then the lengths.\<close>

fun cmp_bytes :: "string \<Rightarrow> string \<Rightarrow> int" where
  "cmp_bytes (a # as) (b # bs) =
     (if (of_char a :: nat) > of_char b then 1
      else if (of_char a :: nat) < of_char b then - 1
      else cmp_bytes as bs)"
| "cmp_bytes as bs = 0"

definition durl_compare :: "string \<Rightarrow> string \<Rightarrow> int" where
  "durl_compare a b =
     (let c = cmp_bytes a b in
      if c = 0 then (if length a > length b then 1 else if length a < length b then - 1 else 0) else c)"

function durl_search :: "string list \<Rightarrow> nat list \<Rightarrow> string \<Rightarrow> int \<Rightarrow> int \<Rightarrow> int" where
  "durl_search us idx url a s =
     (if a > s then - 1 - a
      else let m = (a + s) div 2; c = durl_compare (us ! (idx ! nat m)) url in
        if c = 0 then m
        else if c = - 1 then durl_search us idx url (m + 1) s
        else if a = s then - 1 - a
        else durl_search us idx url a (m - 1))"
  by pat_completeness auto
termination
  by (relation "measure (\<lambda>(us, idx, url, a, s). nat (s - a + 1))") auto

declare durl_search.simps [simp del]

definition durl_posInList :: "string \<Rightarrow> dyn_url \<Rightarrow> int" where
  "durl_posInList url d =
     (if durl_items d = 0 then - 1
      else durl_search (durl_urls d) (durl_index d) url 0 (int (durl_items d) - 1))"

definition durl_setListSize :: "nat \<Rightarrow> nat \<Rightarrow> dyn_url \<Rightarrow> bool \<times> dyn_url" where
  "durl_setListSize s t d =
     (if s < 2 then (False, d)
      else if t < 2 then (False, d)
      else (True, \<lparr>durl_index = replicate s 0, durl_urlreftime = replicate s 0,
              durl_urls = replicate s [], durl_groups = replicate s [],
              durl_size = s, durl_agepos = 0, durl_timeout = of_nat t, durl_items = 0\<rparr>))"

text \<open>\<^verbatim>\<open>(char) fg\<close>, and the two bytes searched for in the groups of an entry.\<close>

definition char_of_int :: "int \<Rightarrow> char" where
  "char_of_int i = char_of (nat (i mod 256))"

definition durl_trunc :: "string \<Rightarrow> string" where
  "durl_trunc url = take 999 (cstr url)"

definition durl_inURLList :: "64 word \<Rightarrow> int \<Rightarrow> string \<Rightarrow> int \<Rightarrow> dyn_url \<Rightarrow> bool" where
  "durl_inURLList now filter_groups url fg d =
     (if durl_items d = 0 then False
      else
        let pos = durl_posInList (durl_trunc url) d in
        if pos > - 1 then
          let e = durl_index d ! nat pos in
          if now - durl_urlreftime d ! e > ucast (durl_timeout d) then False
          else list_ex (\<lambda>g. g = char_of_int fg \<or> g = char_of_int (filter_groups + 1)) (durl_groups d ! e)
        else False)"

definition durl_refresh :: "64 word \<Rightarrow> int \<Rightarrow> nat \<Rightarrow> dyn_url \<Rightarrow> dyn_url" where
  "durl_refresh now fg e d =
     d\<lparr>durl_urlreftime := (durl_urlreftime d)[e := now],
       durl_groups := (if char_of_int fg \<notin> set (durl_groups d ! e)
         then (durl_groups d)[e := durl_groups d ! e @ [char_of_int fg]] else durl_groups d)\<rparr>"

definition durl_append :: "64 word \<Rightarrow> int \<Rightarrow> string \<Rightarrow> nat \<Rightarrow> dyn_url \<Rightarrow> dyn_url" where
  "durl_append now fg u pos d =
     (let n = durl_items d in
      d\<lparr>durl_urls := (durl_urls d)[n := u],
        durl_urlreftime := (durl_urlreftime d)[n := now],
        durl_index := (shift_up (durl_index d) pos n)[pos := n],
        durl_groups := (durl_groups d)[n := [char_of_int fg]],
        durl_items := n + 1\<rparr>)"

text \<open>The index after the entry at \<open>delpos\<close> is gone and the slot \<open>agepos\<close> belongs at \<open>pos\<close>.\<close>

definition durl_reindex :: "nat list \<Rightarrow> int \<Rightarrow> int \<Rightarrow> nat \<Rightarrow> nat list" where
  "durl_reindex idx delpos pos agepos =
     (if delpos = pos then idx[nat pos := agepos]
      else if delpos < pos
      then (shift_down idx (nat delpos) (nat (pos - 1 - delpos)))[nat (pos - 1) := agepos]
      else (shift_up idx (nat pos) (nat delpos))[nat pos := agepos])"

definition durl_replace :: "64 word \<Rightarrow> int \<Rightarrow> string \<Rightarrow> int \<Rightarrow> dyn_url \<Rightarrow> dyn_url" where
  "durl_replace now fg u pos d =
     (let ap = durl_agepos d; delpos = durl_posInList (durl_urls d ! ap) d in
      d\<lparr>durl_urls := (durl_urls d)[ap := u],
        durl_urlreftime := (durl_urlreftime d)[ap := now],
        durl_groups := (durl_groups d)[ap := [char_of_int fg]],
        durl_index := durl_reindex (durl_index d) delpos pos ap,
        durl_agepos := (if ap + 1 = durl_size d then 0 else ap + 1)\<rparr>)"

definition durl_addEntry :: "64 word \<Rightarrow> string \<Rightarrow> int \<Rightarrow> dyn_url \<Rightarrow> dyn_url" where
  "durl_addEntry now url fg d =
     (let u = durl_trunc url; pos = durl_posInList u d in
      if pos \<ge> 0 then durl_refresh now fg (durl_index d ! nat pos) d
      else let p = 0 - pos - 1 in
        if durl_items d < durl_size d then durl_append now fg u (nat p) d
        else durl_replace now fg u p d)"


section \<open>Invariant and abstraction\<close>

definition durl_key :: "dyn_url \<Rightarrow> nat \<Rightarrow> string" where
  "durl_key d i = durl_urls d ! i"

definition durl_idx :: "dyn_url \<Rightarrow> nat list" where
  "durl_idx d = take (durl_items d) (durl_index d)"

definition durl_inv :: "dyn_url \<Rightarrow> bool" where
  "durl_inv d \<longleftrightarrow> length (durl_index d) = durl_size d \<and> length (durl_urlreftime d) = durl_size d
     \<and> length (durl_urls d) = durl_size d \<and> length (durl_groups d) = durl_size d
     \<and> durl_items d \<le> durl_size d
     \<and> (durl_items d < durl_size d \<longrightarrow> durl_agepos d = 0) \<and> (0 < durl_size d \<longrightarrow> durl_agepos d < durl_size d)
     \<and> distinct (durl_idx d) \<and> set (durl_idx d) = {..<durl_items d}
     \<and> sorted_wrt (\<lambda>i j. durl_urls d ! i < durl_urls d ! j) (durl_idx d)"

text \<open>The cache as a map from URLs to the time and the groups recorded for them, and the URLs from
  the oldest to the newest.\<close>

definition durl_entry :: "dyn_url \<Rightarrow> nat \<Rightarrow> string \<times> 64 word \<times> string" where
  "durl_entry d i = (durl_urls d ! i, durl_urlreftime d ! i, durl_groups d ! i)"

definition durl_map :: "dyn_url \<Rightarrow> string \<rightharpoonup> 64 word \<times> string" where
  "durl_map d = map_of (map (durl_entry d) [0..<durl_items d])"

definition durl_order :: "dyn_url \<Rightarrow> string list" where
  "durl_order d = rotate (durl_agepos d) (take (durl_items d) (durl_urls d))"


section \<open>Searching\<close>

lemma Nil_less_iff: "[] < bs \<longleftrightarrow> bs \<noteq> ([] :: 'a::linorder list)"
  by (cases bs) auto

lemma cmp_bytes_less:
  "cmp_bytes a b = 0 \<Longrightarrow> a \<noteq> b \<Longrightarrow> length a \<noteq> length b \<and> (a < b \<longleftrightarrow> length a < length b)"
  "cmp_bytes a b \<noteq> 0 \<Longrightarrow> cmp_bytes a b = (if a < b then - 1 else 1) \<and> a \<noteq> b"
  by (induction a b rule: cmp_bytes.induct) (auto simp: less_char_def Nil_less_iff split: if_splits)

lemma durl_compare_order: "durl_compare a b = (if a = b then 0 else if a < b then - 1 else 1)"
proof (cases "cmp_bytes a b = 0")
  case True
  then show ?thesis using cmp_bytes_less(1) [of a b] by (auto simp: durl_compare_def)
next
  case False
  then show ?thesis using cmp_bytes_less(2) [of a b] by (auto simp: durl_compare_def)
qed

definition durl_probe :: "string list \<Rightarrow> nat list \<Rightarrow> string \<Rightarrow> int \<Rightarrow> int" where
  "durl_probe us idx url m = durl_compare (us ! (idx ! nat m)) url"

interpretation durl: bin_search "durl_search us idx url" "durl_probe us idx url" "\<lambda>m. m" "\<lambda>p. - 1 - p"
  for us idx url
  by unfold_locales
    (subst durl_search.simps, auto simp: durl_probe_def durl_compare_order Let_def)

lemma durl_sorted:
  "durl_inv d \<Longrightarrow> i < j \<Longrightarrow> j < durl_items d \<Longrightarrow>
     durl_urls d ! (durl_index d ! i) < durl_urls d ! (durl_index d ! j)"
  by (auto simp: durl_inv_def durl_idx_def sorted_wrt_iff_nth_less)

lemma durl_posInList_cases:
  assumes "durl_inv d"
  obtains (found) k where "k < durl_items d" "durl_urls d ! (durl_index d ! k) = u" "durl_posInList u d = int k"
    | (free) p where "p \<le> durl_items d" "durl_posInList u d = - 1 - int p"
        "\<forall>i < p. durl_urls d ! (durl_index d ! i) < u"
        "\<forall>i. p \<le> i \<and> i < durl_items d \<longrightarrow> u < durl_urls d ! (durl_index d ! i)"
proof (cases "durl_items d = 0")
  case True
  then show thesis by (intro free [of 0]) (auto simp: durl_posInList_def)
next
  case False
  then have s: "durl_posInList u d = durl_search (durl_urls d) (durl_index d) u 0 (int (durl_items d) - 1)"
    by (simp add: durl_posInList_def)
  have c: "durl_probe (durl_urls d) (durl_index d) u (int i) < 0 \<longleftrightarrow> durl_urls d ! (durl_index d ! i) < u"
    "durl_probe (durl_urls d) (durl_index d) u (int i) > 0 \<longleftrightarrow> u < durl_urls d ! (durl_index d ! i)"
    "durl_probe (durl_urls d) (durl_index d) u (int i) = 0 \<longleftrightarrow> durl_urls d ! (durl_index d ! i) = u" for i
    by (auto simp: durl_probe_def durl_compare_order)
  show thesis
  proof (rule durl.srch_nat_exact [of "durl_items d" "durl_urls d" "durl_index d" u], unfold c)
    show "durl_urls d ! (durl_index d ! i) < u"
      if "i < j" "j < durl_items d" "durl_urls d ! (durl_index d ! j) < u" for i j
      using durl_sorted [OF assms that(1,2)] that(3) by order
    show "u < durl_urls d ! (durl_index d ! j)"
      if "i < j" "j < durl_items d" "u < durl_urls d ! (durl_index d ! i)" for i j
      using durl_sorted [OF assms that(1,2)] that(3) by order
  qed (use s found free in auto)
qed

text \<open>The slots in use are those the index names, and every URL is in one slot.\<close>

lemma durl_slot:
  assumes "durl_inv d" and "i < durl_items d"
  obtains k where "k < durl_items d" "durl_index d ! k = i"
proof -
  from assms have "i \<in> set (durl_idx d)" by (auto simp: durl_inv_def)
  then show thesis using that assms(1) by (auto simp: durl_idx_def durl_inv_def in_set_conv_nth)
qed

lemma durl_index_less: "durl_inv d \<Longrightarrow> k < durl_items d \<Longrightarrow> durl_index d ! k < durl_items d"
  unfolding durl_inv_def durl_idx_def
  by (metis lessThan_iff length_take min.absorb2 nth_mem nth_take order.trans)

lemma durl_urls_inj:
  assumes "durl_inv d" and "i < durl_items d" and "j < durl_items d" and "durl_urls d ! i = durl_urls d ! j"
  shows "i = j"
proof -
  obtain k where k: "k < durl_items d" "durl_index d ! k = i" using durl_slot assms(1,2) .
  obtain l where l: "l < durl_items d" "durl_index d ! l = j" using durl_slot assms(1,3) .
  have "k = l"
    using durl_sorted [OF assms(1), of k l] durl_sorted [OF assms(1), of l k] k l assms(4)
    by (metis less_irrefl nat_neq_iff)
  with k l show ?thesis by simp
qed


lemma durl_map_Some_iff:
  assumes "durl_inv d"
  shows "durl_map d u = Some v \<longleftrightarrow>
    (\<exists>i < durl_items d. durl_urls d ! i = u \<and> v = (durl_urlreftime d ! i, durl_groups d ! i))"
proof -
  have "distinct (map fst (map (durl_entry d) [0..<durl_items d]))"
    using durl_urls_inj [OF assms] by (auto simp: distinct_map inj_on_def durl_entry_def)
  then show ?thesis
    by (auto simp: durl_map_def map_of_eq_Some_iff durl_entry_def)
qed

lemma durl_map_None_iff:
  "durl_inv d \<Longrightarrow> durl_map d u = None \<longleftrightarrow> (\<forall>i < durl_items d. durl_urls d ! i \<noteq> u)"
  by (auto simp: durl_map_def map_of_eq_None_iff durl_entry_def image_iff)

lemma map_eqI: "(\<And>k v. m k = Some v \<longleftrightarrow> m' k = Some v) \<Longrightarrow> m = m'"
  by (rule ext) (metis not_None_eq)

text \<open>Where \<open>posInList\<close> points, in terms of the map.\<close>

lemma durl_pos_map:
  assumes "durl_inv d"
  obtains (found) k where "k < durl_items d" "durl_posInList u d = int k" "durl_urls d ! (durl_index d ! k) = u"
      "durl_map d u = Some (durl_urlreftime d ! (durl_index d ! k), durl_groups d ! (durl_index d ! k))"
    | (free) p where "p \<le> durl_items d" "durl_posInList u d = - 1 - int p" "durl_map d u = None"
        "\<forall>i < p. durl_urls d ! (durl_index d ! i) < u"
        "\<forall>i. p \<le> i \<and> i < durl_items d \<longrightarrow> u < durl_urls d ! (durl_index d ! i)"
proof (cases rule: durl_posInList_cases [OF assms, of u])
  case (1 k)
  with durl_index_less [OF assms 1(1)] show thesis
    by (intro found [of k]) (auto simp: durl_map_Some_iff [OF assms])
next
  case (2 p)
  have "durl_urls d ! i \<noteq> u" if lt: "i < durl_items d" for i
  proof -
    obtain k where "k < durl_items d" "durl_index d ! k = i" by (rule durl_slot [OF assms lt])
    with 2(3,4) show ?thesis by (metis less_irrefl not_le)
  qed
  with 2 show thesis by (intro free [of p]) (auto simp: durl_map_None_iff [OF assms])
qed


section \<open>The index after an insertion\<close>

lemma sorted_key_insert:
  fixes key :: "nat \<Rightarrow> 'k::linorder"
  assumes "sorted_wrt (\<lambda>i j. key i < key j) (A @ B)" and "v \<notin> set (A @ B)"
    and "\<forall>a \<in> set A. key a < u" and "\<forall>b \<in> set B. u < key b"
  shows "sorted_wrt (\<lambda>i j. (key(v := u)) i < (key(v := u)) j) (A @ v # B)"
proof -
  have "sorted_wrt (\<lambda>i j. (key(v := u)) i < (key(v := u)) j) (A @ B)"
    using assms(1) by (rule sorted_wrt_mono_rel [rotated]) (use assms(2) in auto)
  with assms(2-4) show ?thesis by (auto simp: sorted_wrt_append)
qed

lemma nth_update_fun: "v < length us \<Longrightarrow> (\<lambda>i. us[v := u] ! i) = (\<lambda>i. us ! i)(v := u)"
  by (auto simp: fun_eq_iff nth_list_update)

text \<open>The index of a full buffer after the slot \<open>idx ! k\<close> moves to position \<open>p\<close>.\<close>

lemma durl_reindex_split:
  assumes "k < length idx" and "p \<le> length idx"
  obtains A B where "durl_reindex idx (int k) (int p) (idx ! k) = A @ idx ! k # B"
    "mset (A @ B) = mset idx - {#idx ! k#}"
    "\<And>P. sorted_wrt P idx \<Longrightarrow> sorted_wrt P (A @ B)"
    "\<forall>a \<in> set A. \<exists>i < p. a = idx ! i" "\<forall>b \<in> set B. \<exists>i. p \<le> i \<and> i < length idx \<and> b = idx ! i"
proof (cases "k < p")
  case True
  let ?A = "take k idx @ drop (Suc k) (take p idx)" and ?B = "drop p idx"
  have "p = Suc (k + (p - 1 - k))" using True by simp
  with shift_down_fill [of k "p - 1 - k" idx "idx ! k"] assms True
  have r: "durl_reindex idx (int k) (int p) (idx ! k) = ?A @ idx ! k # ?B"
    by (auto simp: durl_reindex_def nat_diff_distrib)
  have tp: "take p idx = take k idx @ idx ! k # drop (Suc k) (take p idx)"
    using True assms id_take_nth_drop [of k "take p idx"] by (simp add: min_def)
  then have s: "idx = take k idx @ idx ! k # drop (Suc k) (take p idx) @ drop p idx"
    by (metis append_take_drop_id append.assoc append_Cons)
  show thesis
  proof (rule that [OF r])
    show "mset (?A @ ?B) = mset idx - {#idx ! k#}" by (subst (4) s) simp
    show "sorted_wrt P (?A @ ?B)" if "sorted_wrt P idx" for P
      using that by (subst (asm) s) (auto simp: sorted_wrt_append)
    have "set ?A \<subseteq> set (take p idx)" by (subst tp) auto
    then show "\<forall>a \<in> set ?A. \<exists>i < p. a = idx ! i" by (blast dest: in_take_nth)
    show "\<forall>b \<in> set ?B. \<exists>i. p \<le> i \<and> i < length idx \<and> b = idx ! i" by (blast dest: in_drop_nth)
  qed
next
  case False
  let ?A = "take p idx" and ?B = "drop p (take k idx) @ drop (Suc k) idx"
  have r: "durl_reindex idx (int k) (int p) (idx ! k) = ?A @ idx ! k # ?B"
  proof (cases "k = p")
    case True
    then show ?thesis using id_take_nth_drop [OF assms(1)] by (simp add: durl_reindex_def)
  next
    case neq: False
    then show ?thesis using False assms shift_up_fill [of p k idx "idx ! k"] by (simp add: durl_reindex_def)
  qed
  have "take k idx = take p idx @ drop p (take k idx)"
    using False by (metis append_take_drop_id min.absorb1 not_less take_take)
  then have s: "idx = take p idx @ drop p (take k idx) @ idx ! k # drop (Suc k) idx"
    using assms by (metis append.assoc id_take_nth_drop)
  show thesis
  proof (rule that [OF r])
    show "mset (?A @ ?B) = mset idx - {#idx ! k#}" by (subst (4) s) simp
    show "sorted_wrt P (?A @ ?B)" if "sorted_wrt P idx" for P
      using that by (subst (asm) s) (auto simp: sorted_wrt_append)
    show "\<forall>a \<in> set ?A. \<exists>i < p. a = idx ! i" by (blast dest: in_take_nth)
    have "drop p idx = drop p (take k idx) @ idx ! k # drop (Suc k) idx"
      using False assms by (subst (1) s) (simp add: min_def)
    then have "set ?B \<subseteq> set (drop p idx)" by auto
    then show "\<forall>b \<in> set ?B. \<exists>i. p \<le> i \<and> i < length idx \<and> b = idx ! i" by (blast dest: in_drop_nth)
  qed
qed


section \<open>The operations keep the invariant and implement the map\<close>

definition add_group :: "int \<Rightarrow> string \<Rightarrow> string" where
  "add_group fg g = (if char_of_int fg \<in> set g then g else g @ [char_of_int fg])"

lemma durl_refresh_ok:
  assumes "durl_inv d" and "e < durl_items d"
  shows "durl_inv (durl_refresh now fg e d)"
    and "durl_map (durl_refresh now fg e d)
      = (durl_map d)(durl_urls d ! e \<mapsto> (now, add_group fg (durl_groups d ! e)))"
    and "durl_order (durl_refresh now fg e d) = durl_order d"
proof -
  let ?d = "durl_refresh now fg e d"
  show inv: "durl_inv ?d" using assms(1) by (simp add: durl_refresh_def durl_inv_def durl_idx_def)
  show "durl_order ?d = durl_order d" by (simp add: durl_refresh_def durl_order_def)
  have len: "durl_items d \<le> length (durl_urlreftime d)" "durl_items d \<le> length (durl_groups d)"
    using assms(1) by (auto simp: durl_inv_def)
  have g: "durl_groups ?d ! i = (if i = e then add_group fg (durl_groups d ! e) else durl_groups d ! i)"
    "durl_urlreftime ?d ! i = (if i = e then now else durl_urlreftime d ! i)" if "i < durl_items d" for i
    using that len by (auto simp: durl_refresh_def add_group_def)
  have "durl_urls ?d = durl_urls d" "durl_items ?d = durl_items d" by (simp_all add: durl_refresh_def)
  then show "durl_map ?d = (durl_map d)(durl_urls d ! e \<mapsto> (now, add_group fg (durl_groups d ! e)))"
    using g assms durl_urls_inj [OF assms(1) _ assms(2)]
    by (intro map_eqI) (auto simp: durl_map_Some_iff [OF inv] durl_map_Some_iff [OF assms(1)])
qed

lemma durl_append_ok:
  assumes "durl_inv d" and "durl_items d < durl_size d" and p: "p \<le> durl_items d"
    and "durl_map d u = None" and "\<forall>i < p. durl_urls d ! (durl_index d ! i) < u"
    and "\<forall>i. p \<le> i \<and> i < durl_items d \<longrightarrow> u < durl_urls d ! (durl_index d ! i)"
  shows "durl_inv (durl_append now fg u p d)"
    and "durl_map (durl_append now fg u p d) = (durl_map d)(u \<mapsto> (now, [char_of_int fg]))"
    and "durl_order (durl_append now fg u p d) = durl_order d @ [u]"
proof -
  let ?d = "durl_append now fg u p d" and ?n = "durl_items d"
  have n: "?n < length (durl_index d)" "?n < length (durl_urls d)" "?n < length (durl_urlreftime d)"
    "?n < length (durl_groups d)" using assms(1,2) by (auto simp: durl_inv_def)
  have idx: "durl_idx ?d = take p (durl_idx d) @ ?n # drop p (durl_idx d)"
    using shift_up_insert [OF p n(1), of ?n] p by (simp add: durl_idx_def durl_append_def Let_def min_def)
  have nth: "durl_idx d ! i = durl_index d ! i" if "i < ?n" for i using that by (simp add: durl_idx_def)
  have lens: "length (durl_idx d) = ?n" using n by (simp add: durl_idx_def)
  have out: "?n \<notin> set (durl_idx d)" and dis: "distinct (take p (durl_idx d) @ drop p (durl_idx d))"
    using assms(1) by (auto simp: durl_inv_def)
  have "\<forall>a \<in> set (take p (durl_idx d)). durl_urls d ! a < u"
    using assms(5) p nth by (auto dest!: in_take_nth simp: lens)
  moreover have "\<forall>b \<in> set (drop p (durl_idx d)). u < durl_urls d ! b"
    using assms(6) nth by (auto dest!: in_drop_nth simp: lens)
  ultimately have "sorted_wrt (\<lambda>i j. ((\<lambda>i. durl_urls d ! i)(?n := u)) i < ((\<lambda>i. durl_urls d ! i)(?n := u)) j) (durl_idx ?d)"
    unfolding idx using assms(1) out by (intro sorted_key_insert) (auto simp: durl_inv_def)
  then have srt: "sorted_wrt (\<lambda>i j. durl_urls ?d ! i < durl_urls ?d ! j) (durl_idx ?d)"
    using nth_update_fun [OF n(2), of u] by (simp add: durl_append_def Let_def fun_eq_iff)
  have "set (durl_idx ?d) = insert ?n (set (durl_idx d))"
    unfolding idx by (metis append_take_drop_id list.simps(15) set_append Un_insert_right)
  moreover have "distinct (durl_idx ?d)" unfolding idx
    using dis [unfolded distinct_append] out by (auto dest: in_set_takeD in_set_dropD)
  moreover have "set (durl_idx d) = {..<?n}" using assms(1) by (simp add: durl_inv_def)
  moreover have "durl_agepos d = 0" using assms(1,2) by (simp add: durl_inv_def)
  ultimately show inv: "durl_inv ?d"
    using srt assms(1,2) by (auto simp: durl_inv_def durl_append_def Let_def lessThan_Suc)
  show "durl_map ?d = (durl_map d)(u \<mapsto> (now, [char_of_int fg]))"
  proof (rule map_eqI)
    fix w v
    have f: "durl_urls ?d = (durl_urls d)[?n := u]" "durl_urlreftime ?d = (durl_urlreftime d)[?n := now]"
      "durl_groups ?d = (durl_groups d)[?n := [char_of_int fg]]" "durl_items ?d = Suc ?n"
      by (simp_all add: durl_append_def Let_def)
    have new: "\<forall>i < ?n. durl_urls d ! i \<noteq> u" using assms(4) durl_map_None_iff [OF assms(1)] by simp
    show "durl_map ?d w = Some v \<longleftrightarrow> ((durl_map d)(u \<mapsto> (now, [char_of_int fg]))) w = Some v"
      unfolding durl_map_Some_iff [OF inv] f fun_upd_apply
      using n new by (auto simp: durl_map_Some_iff [OF assms(1)] less_Suc_eq)
  qed
  show "durl_order ?d = durl_order d @ [u]"
    using \<open>durl_agepos d = 0\<close> n by (simp add: durl_order_def durl_append_def Let_def take_Suc_conv_app_nth)
qed


lemma rotate1_upd:
  assumes "k < length us"
  shows "rotate (if Suc k = length us then 0 else Suc k) (us[k := u]) = tl (rotate k us) @ [u]"
proof -
  have r: "rotate k us = drop k us @ take k us" using assms by (simp add: rotate_drop_take)
  have "drop k us = us ! k # drop (Suc k) us" using assms by (simp add: Cons_nth_drop_Suc)
  with r have t: "tl (rotate k us) = drop (Suc k) us @ take k us" by simp
  show ?thesis
  proof (cases "Suc k = length us")
    case True
    then show ?thesis using t by (simp add: take_Suc_conv_app_nth upd_conv_take_nth_drop)
  next
    case False
    with assms t show ?thesis by (simp add: rotate_drop_take take_Suc_conv_app_nth)
  qed
qed

lemma durl_delpos:
  assumes "durl_inv d" and a: "a < durl_items d"
  obtains k where "k < durl_items d" "durl_index d ! k = a" "durl_posInList (durl_urls d ! a) d = int k"
proof (cases rule: durl_posInList_cases [OF assms(1), of "durl_urls d ! a"])
  case (1 j)
  then have "durl_index d ! j = a"
    using durl_urls_inj [OF assms(1) durl_index_less [OF assms(1) 1(1)] a] by blast
  with 1 show thesis by (intro that) auto
next
  case (2 q)
  obtain k where k: "k < durl_items d" "durl_index d ! k = a" by (rule durl_slot [OF assms])
  with 2(3,4) show thesis by (metis less_irrefl not_le)
qed

lemma durl_replace_index:
  fixes now :: "64 word" and fg :: int
  assumes "durl_inv d" and full: "durl_items d = durl_size d" and a: "durl_agepos d < durl_items d"
    and p: "p \<le> durl_items d" and "\<forall>i < p. durl_urls d ! (durl_index d ! i) < u"
    and "\<forall>i. p \<le> i \<and> i < durl_items d \<longrightarrow> u < durl_urls d ! (durl_index d ! i)"
  defines "idx \<equiv> durl_index (durl_replace now fg u (int p) d)"
  shows "distinct idx" and "set idx = {..<durl_items d}" and "length idx = durl_items d"
    and "sorted_wrt (\<lambda>i j. (durl_urls d)[durl_agepos d := u] ! i < (durl_urls d)[durl_agepos d := u] ! j) idx"
proof -
  let ?n = "durl_items d" and ?a = "durl_agepos d"
  have len: "length (durl_index d) = ?n" "length (durl_urls d) = ?n"
    using assms(1) full by (simp_all add: durl_inv_def)
  then have "durl_idx d = durl_index d" by (simp add: durl_idx_def)
  with assms(1) have old: "distinct (durl_index d)" "set (durl_index d) = {..<?n}"
    "sorted_wrt (\<lambda>i j. durl_urls d ! i < durl_urls d ! j) (durl_index d)"
    unfolding durl_inv_def by metis+
  obtain k where k: "k < ?n" "durl_index d ! k = ?a" "durl_posInList (durl_urls d ! ?a) d = int k"
    by (rule durl_delpos [OF assms(1) a])
  have kl: "k < length (durl_index d)" "p \<le> length (durl_index d)" using k(1) p len by simp_all
  obtain A B where i: "durl_reindex (durl_index d) (int k) (int p) (durl_index d ! k) = A @ durl_index d ! k # B"
    and ms: "mset (A @ B) = mset (durl_index d) - {#durl_index d ! k#}"
    and srt: "\<And>P. sorted_wrt P (durl_index d) \<Longrightarrow> sorted_wrt P (A @ B)"
    and A: "\<forall>a \<in> set A. \<exists>i < p. a = durl_index d ! i"
    and B: "\<forall>b \<in> set B. \<exists>i. p \<le> i \<and> i < length (durl_index d) \<and> b = durl_index d ! i"
    using durl_reindex_split [OF kl] by blast
  have idx: "idx = A @ ?a # B" using i k by (simp add: idx_def durl_replace_def Let_def)
  have "?a \<in># mset (durl_index d)" using old(2) a by simp
  then have perm: "mset idx = mset (durl_index d)" using ms unfolding idx k(2) by simp
  show d': "distinct idx" using mset_eq_imp_distinct_iff [OF perm] old(1) by simp
  show "set idx = {..<?n}" using mset_eq_setD [OF perm] old(2) by simp
  show "length idx = ?n" using perm len by (metis size_mset)
  have "sorted_wrt (\<lambda>i j. ((\<lambda>i. durl_urls d ! i)(?a := u)) i < ((\<lambda>i. durl_urls d ! i)(?a := u)) j) (A @ ?a # B)"
  proof (rule sorted_key_insert)
    show "?a \<notin> set (A @ B)" using d' by (simp add: idx)
    show "\<forall>a \<in> set A. durl_urls d ! a < u"
    proof
      fix x assume "x \<in> set A"
      with A obtain i where "i < p" "x = durl_index d ! i" by meson
      with assms(5) show "durl_urls d ! x < u" by simp
    qed
    show "\<forall>b \<in> set B. u < durl_urls d ! b"
    proof
      fix x assume "x \<in> set B"
      with B obtain i where "p \<le> i" "i < length (durl_index d)" "x = durl_index d ! i" by meson
      with assms(6) len show "u < durl_urls d ! x" by simp
    qed
  qed (rule srt [OF old(3)])
  then show "sorted_wrt (\<lambda>i j. (durl_urls d)[?a := u] ! i < (durl_urls d)[?a := u] ! j) idx"
    using nth_update_fun [of ?a "durl_urls d" u] a len unfolding idx by (simp add: fun_eq_iff)
qed

lemma durl_replace_ok:
  assumes "durl_inv d" and full: "durl_items d = durl_size d" and "0 < durl_size d" and p: "p \<le> durl_items d"
    and "durl_map d u = None" and "\<forall>i < p. durl_urls d ! (durl_index d ! i) < u"
    and "\<forall>i. p \<le> i \<and> i < durl_items d \<longrightarrow> u < durl_urls d ! (durl_index d ! i)"
  shows "durl_inv (durl_replace now fg u (int p) d)"
    and "durl_map (durl_replace now fg u (int p) d)
      = ((durl_map d)(hd (durl_order d) := None))(u \<mapsto> (now, [char_of_int fg]))"
    and "durl_order (durl_replace now fg u (int p) d) = tl (durl_order d) @ [u]"
proof -
  let ?d = "durl_replace now fg u (int p) d" and ?n = "durl_items d" and ?a = "durl_agepos d"
  have len: "length (durl_urls d) = ?n" "length (durl_urlreftime d) = ?n" "length (durl_groups d) = ?n"
    and a: "?a < ?n" using assms(1) full assms(3) by (simp_all add: durl_inv_def)
  have f: "durl_urls ?d = (durl_urls d)[?a := u]" "durl_urlreftime ?d = (durl_urlreftime d)[?a := now]"
    "durl_groups ?d = (durl_groups d)[?a := [char_of_int fg]]" "durl_items ?d = ?n" "durl_size ?d = durl_size d"
    "durl_agepos ?d = (if ?a + 1 = durl_size d then 0 else ?a + 1)"
    by (simp_all add: durl_replace_def Let_def)
  note idx = durl_replace_index [OF assms(1) full a p assms(6,7), of now fg]
  show inv: "durl_inv ?d"
    unfolding durl_inv_def durl_idx_def using idx len a full by (auto simp: f)
  have hd: "hd (durl_order d) = durl_urls d ! ?a"
    using a len by (simp add: durl_order_def rotate_drop_take hd_drop_conv_nth)
  show "durl_map ?d = ((durl_map d)(hd (durl_order d) := None))(u \<mapsto> (now, [char_of_int fg]))"
  proof (rule map_eqI)
    fix w v
    have new: "\<forall>i < ?n. durl_urls d ! i \<noteq> u" using assms(5) durl_map_None_iff [OF assms(1)] by simp
    have inj: "\<forall>i < ?n. durl_urls d ! i = durl_urls d ! ?a \<longrightarrow> i = ?a"
      using durl_urls_inj [OF assms(1) _ a] by blast
    show "durl_map ?d w = Some v
        \<longleftrightarrow> (((durl_map d)(hd (durl_order d) := None))(u \<mapsto> (now, [char_of_int fg]))) w = Some v"
      unfolding durl_map_Some_iff [OF inv] f fun_upd_apply hd
      using a len new inj by (auto simp: durl_map_Some_iff [OF assms(1)] nth_list_update) metis
  qed
  show "durl_order ?d = tl (durl_order d) @ [u]"
    using rotate1_upd [of ?a "durl_urls d" u] a len full unfolding durl_order_def f
    by (cases "Suc ?a = durl_size d") simp_all
qed


lemma durl_flush_loop_length [simp]: "length (durl_flush_loop is tim) = length tim"
  by (induction "is" tim rule: durl_flush_loop.induct) auto

lemma durl_flush_loop_nth:
  "i < length tim \<Longrightarrow> durl_flush_loop is tim ! i = (if i \<in> set is then 0 else tim ! i)"
  by (induction "is" tim rule: durl_flush_loop.induct) (auto simp: nth_list_update)

lemma durl_flush_inv: "durl_inv d \<Longrightarrow> durl_inv (durl_flush d)"
  by (simp add: durl_inv_def durl_flush_def durl_idx_def)

lemma durl_flush_map:
  assumes "durl_inv d"
  shows "durl_map (durl_flush d) u = map_option (\<lambda>(t, g). (0, g)) (durl_map d u)"
proof -
  have t: "durl_urlreftime (durl_flush d) ! i = 0" if "i < durl_items d" for i
    using assms that by (auto simp: durl_flush_def durl_inv_def durl_idx_def durl_flush_loop_nth)
  have f: "durl_urls (durl_flush d) = durl_urls d" "durl_groups (durl_flush d) = durl_groups d"
    "durl_items (durl_flush d) = durl_items d" by (simp_all add: durl_flush_def)
  show ?thesis
  proof (cases "durl_map d u")
    case None
    then have "durl_map (durl_flush d) u = None"
      unfolding durl_map_None_iff [OF assms] durl_map_None_iff [OF durl_flush_inv [OF assms]] f .
    with None show ?thesis by simp
  next
    case (Some v)
    then have "durl_map (durl_flush d) u = Some (0, snd v)"
      unfolding durl_map_Some_iff [OF assms] durl_map_Some_iff [OF durl_flush_inv [OF assms]] f
      using t by fastforce
    with Some show ?thesis by (cases v) simp
  qed
qed

lemma durl_setListSize_ok:
  "durl_setListSize s t d = (True, d') \<Longrightarrow> durl_inv d' \<and> durl_map d' = Map.empty \<and> durl_order d' = []
     \<and> durl_size d' = s \<and> 2 \<le> s"
  by (auto simp: durl_setListSize_def durl_inv_def durl_idx_def durl_map_def durl_order_def split: if_splits)

lemma durl_order_set: "durl_inv d \<Longrightarrow> set (durl_order d) = dom (durl_map d)"
proof -
  assume inv: "durl_inv d"
  then have "set (durl_order d) = nth (durl_urls d) ` {0..<durl_items d}"
    by (simp add: durl_order_def durl_inv_def nth_image)
  also have "\<dots> = dom (durl_map d)" by (auto simp: dom_def durl_map_Some_iff [OF inv])
  finally show ?thesis .
qed


section \<open>Properties\<close>

lemma durl_lookup:
  assumes "durl_inv d"
  shows "durl_inURLList now fgs url fg d \<longleftrightarrow>
    (\<exists>t g. durl_map d (durl_trunc url) = Some (t, g) \<and> now - t \<le> ucast (durl_timeout d)
      \<and> (char_of_int fg \<in> set g \<or> char_of_int (fgs + 1) \<in> set g))"
proof (cases rule: durl_pos_map [OF assms, of "durl_trunc url"])
  case (1 k)
  then show ?thesis by (auto simp: durl_inURLList_def Let_def list_ex_iff not_less)
next
  case (2 p)
  then show ?thesis by (simp add: durl_inURLList_def)
qed

lemma durl_add:
  fixes url :: string and now :: "64 word" and fg :: int
  assumes "durl_inv d" and "0 < durl_size d"
  defines "u \<equiv> durl_trunc url" and "d' \<equiv> durl_addEntry now url fg d"
  shows "durl_inv d' \<and> (case durl_map d u of
      Some (t, g) \<Rightarrow> durl_map d' = (durl_map d)(u \<mapsto> (now, add_group fg g)) \<and> durl_order d' = durl_order d
    | None \<Rightarrow>
        if durl_items d < durl_size d
        then durl_map d' = (durl_map d)(u \<mapsto> (now, [char_of_int fg])) \<and> durl_order d' = durl_order d @ [u]
        else durl_map d' = ((durl_map d)(hd (durl_order d) := None))(u \<mapsto> (now, [char_of_int fg]))
          \<and> durl_order d' = tl (durl_order d) @ [u])"
proof (cases rule: durl_pos_map [OF assms(1), of u])
  case (1 k)
  then have "d' = durl_refresh now fg (durl_index d ! k) d"
    by (simp add: d'_def durl_addEntry_def u_def [symmetric] Let_def)
  with 1 durl_refresh_ok [OF assms(1) durl_index_less [OF assms(1) 1(1)], of now fg] show ?thesis by simp
next
  case (2 p)
  show ?thesis
  proof (cases "durl_items d < durl_size d")
    case True
    with 2 have "d' = durl_append now fg u p d"
      by (simp add: d'_def durl_addEntry_def u_def [symmetric] Let_def)
    with 2 True durl_append_ok [OF assms(1) True 2(1,3-5), of now fg] show ?thesis by simp
  next
    case False
    with assms(1) have full: "durl_items d = durl_size d" by (auto simp: durl_inv_def)
    from 2 False have "d' = durl_replace now fg u (int p) d"
      by (simp add: d'_def durl_addEntry_def u_def [symmetric] Let_def)
    with 2 False durl_replace_ok [OF assms(1) full assms(2) 2(1,3-5), of now fg] show ?thesis by simp
  qed
qed

text \<open>A cache of two entries for the witnesses.\<close>

definition durl_two :: dyn_url where
  "durl_two = snd (durl_setListSize 2 10 DynamicURLList_new)"

lemma durl_two_inv: "durl_inv durl_two" "0 < durl_size durl_two" "durl_map durl_two = Map.empty"
  "durl_timeout durl_two = 10" "durl_items durl_two < durl_size durl_two"
  by (simp_all add: durl_two_def durl_setListSize_def durl_inv_def durl_idx_def durl_map_def)

text \<open>a URL is reported clean exactly when it was recorded, its record is within the time limit,
  and the record names the group or stands for all groups.\<close>

theorem durl_inURLList_correct:
  assumes "durl_inv d"
  shows "durl_inURLList now fgs url fg d \<longleftrightarrow>
    (\<exists>t g. durl_map d (durl_trunc url) = Some (t, g) \<and> now - t \<le> ucast (durl_timeout d)
      \<and> (char_of_int fg \<in> set g \<or> char_of_int (fgs + 1) \<in> set g))"
  by (rule durl_lookup [OF assms])

theorem durl_inURLList_correct_witness: "\<not> durl_inURLList 5 3 ''e.com'' 1 durl_two"
  using durl_inURLList_correct [OF durl_two_inv(1), of 5 3 "''e.com''" 1] by (simp add: durl_two_inv)

text \<open>C38: recording a URL keeps the index in order and makes the cache the first-in-first-out map it
  should be: a known URL is refreshed, a new one is added, and only a full cache loses its oldest.\<close>

theorem durl_addEntry_refines:
  assumes "durl_inv d" and "0 < durl_size d" and "u = durl_trunc url" and "d' = durl_addEntry now url fg d"
  shows "durl_inv d' \<and> (case durl_map d u of
      Some (t, g) \<Rightarrow> durl_map d' = (durl_map d)(u \<mapsto> (now, add_group fg g)) \<and> durl_order d' = durl_order d
    | None \<Rightarrow>
        if durl_items d < durl_size d
        then durl_map d' = (durl_map d)(u \<mapsto> (now, [char_of_int fg])) \<and> durl_order d' = durl_order d @ [u]
        else durl_map d' = ((durl_map d)(hd (durl_order d) := None))(u \<mapsto> (now, [char_of_int fg]))
          \<and> durl_order d' = tl (durl_order d) @ [u])"
  unfolding assms(3,4) by (rule durl_add [OF assms(1,2)])

theorem durl_addEntry_refines_witness:
  "durl_map (durl_addEntry 5 ''e.com'' 1 durl_two) ''e.com'' = Some (5, [char_of_int 1])"
proof -
  have "durl_trunc ''e.com'' = ''e.com''" by (simp add: durl_trunc_def cstr_def nul_def)
  with durl_addEntry_refines [OF durl_two_inv(1,2) refl refl, where url = "''e.com''" and now = 5 and fg = 1] durl_two_inv
  show ?thesis by simp
qed

text \<open>a URL just recorded for a group is reported clean to that group until the time limit is over.\<close>

theorem durl_add_then_found:
  assumes "durl_inv d" and "0 < durl_size d" and "now' - now \<le> ucast (durl_timeout d)"
  shows "durl_inURLList now' fgs url fg (durl_addEntry now url fg d)"
proof -
  let ?d = "durl_addEntry now url fg d" and ?u = "durl_trunc url"
  note add = durl_add [OF assms(1,2), where url = url and now = now and fg = fg]
  have "\<exists>g. durl_map ?d ?u = Some (now, g) \<and> char_of_int fg \<in> set g"
    using add by (auto simp: add_group_def split: option.splits prod.splits if_splits)
  moreover have "durl_timeout ?d = durl_timeout d"
    by (simp add: durl_addEntry_def durl_refresh_def durl_append_def durl_replace_def Let_def)
  ultimately show ?thesis using add assms(3) by (auto simp: durl_lookup)
qed

theorem durl_add_then_found_witness: "durl_inURLList 12 3 ''e.com'' 1 (durl_addEntry 5 ''e.com'' 1 durl_two)"
  using durl_add_then_found [OF durl_two_inv(1,2), of 12 5 3 "''e.com''" 1] by (simp add: durl_two_inv)

text \<open>after a flush nothing is reported clean any more, at any time later than the time limit.\<close>

theorem durl_flush_empties:
  assumes "durl_inv d" and "ucast (durl_timeout d) < now"
  shows "\<not> durl_inURLList now fgs url fg (durl_flush d) \<and> durl_inv (durl_flush d)"
  using assms durl_flush_inv [OF assms(1)] durl_flush_map [OF assms(1), of "durl_trunc url"]
  by (auto simp: durl_lookup durl_flush_def)

theorem durl_flush_empties_witness:
  "\<not> durl_inURLList 12 3 ''e.com'' 1 (durl_flush (durl_addEntry 5 ''e.com'' 1 durl_two))"
proof -
  have "durl_inv (durl_addEntry 5 ''e.com'' 1 durl_two)" using durl_add [OF durl_two_inv(1,2)] by blast
  moreover have "durl_timeout (durl_addEntry 5 ''e.com'' 1 durl_two) = 10"
    by (simp add: durl_addEntry_def durl_refresh_def durl_append_def durl_replace_def Let_def durl_two_inv)
  ultimately show ?thesis using durl_flush_empties [of "durl_addEntry 5 ''e.com'' 1 durl_two" 12] by simp
qed

end
