(* ===== verification/Time_Band.thy ===== *)
theory Time_Band
  imports E2_String
begin

text \<open>
  Time limits on lists (\<^verbatim>\<open>src/src/ListContainer.cpp\<close>, \<^verbatim>\<open>readTimeTag\<close>, \<^verbatim>\<open>readTimeBand\<close>,
  \<^verbatim>\<open>isNow\<close>): a band of the day, from a start to an end minute, on some days of the week.

  The local time is an argument, as the fields of \<^verbatim>\<open>struct tm\<close> the code reads. The fields of
  a band are \<^verbatim>\<open>unsigned int\<close>: a negative number in the file is read as a large one.
\<close>

section \<open>Data and operations\<close>

record time_limit =
  sthour :: nat
  stmin :: nat
  endhour :: nat
  endmin :: nat
  tl_days :: string
  timetag :: string

record local_tm =
  tm_hour :: nat
  tm_min :: nat
  tm_wday :: nat

definition to_unsigned :: "int \<Rightarrow> nat" where
  "to_unsigned i = nat (i mod 2 ^ 32)"

text \<open>The next number of the tag, and what follows it.\<close>

definition tag_number :: "string \<Rightarrow> nat \<times> string" where
  "tag_number temp = (let t = removeWhiteSpace temp in
     (to_unsigned (toInteger (before t '' '')), after t '' ''))"

definition readTimeBand :: "string \<Rightarrow> time_limit option" where
  "readTimeBand tag =
     (let (tsthour, t1) = tag_number tag;
          (tstmin, t2) = tag_number t1;
          (tendhour, t3) = tag_number t2;
          (tendmin, t4) = tag_number t3;
          tdays = removeWhiteSpace t4
      in if tsthour > 23 then None
         else if tendhour > 23 then None
         else if tstmin > 59 then None
         else if tendmin > 59 then None
         else if length tdays > 7 then None
         else Some \<lparr>sthour = tsthour, stmin = tstmin, endhour = tendhour, endmin = tendmin,
                    tl_days = tdays, timetag = tag\<rparr>)"

definition readTimeTag :: "string \<Rightarrow> time_limit option" where
  "readTimeTag tag = readTimeBand (after tag ''#time: '')"

text \<open>The day as the code counts it: Monday is 0.\<close>

definition cday :: "local_tm \<Rightarrow> char" where
  "cday now = (let w = (if tm_wday now = 0 then 7 else tm_wday now) - 1 in char_of (48 + w))"

definition isNow_tl :: "local_tm \<Rightarrow> time_limit \<Rightarrow> bool" where
  "isNow_tl now lim =
     (if \<not> list_ex (\<lambda>c. c = cday now) (tl_days lim) then False
      else if tm_hour now < sthour lim then False
      else if tm_hour now > endhour lim then False
      else if tm_hour now = sthour lim \<and> tm_min now < stmin lim then False
      else if tm_hour now = endhour lim \<and> tm_min now > endmin lim then False
      else True)"

fun isNowInTimelist :: "local_tm \<Rightarrow> time_limit list \<Rightarrow> bool" where
  "isNowInTimelist now [] = False"
| "isNowInTimelist now (lim # lims) = (if isNow_tl now lim then True else isNowInTimelist now lims)"


section \<open>Lemmas\<close>

definition minute_of :: "nat \<Rightarrow> nat \<Rightarrow> nat" where
  "minute_of h m = 60 * h + m"

definition band_ok :: "time_limit \<Rightarrow> bool" where
  "band_ok lim \<longleftrightarrow> sthour lim \<le> 23 \<and> endhour lim \<le> 23 \<and> stmin lim \<le> 59 \<and> endmin lim \<le> 59
     \<and> length (tl_days lim) \<le> 7"

lemma readTimeBand_ok: "readTimeBand tag = Some lim \<Longrightarrow> band_ok lim \<and> timetag lim = tag"
  by (auto simp: readTimeBand_def band_ok_def Let_def split: prod.splits if_splits)

lemma isNow_tl_minutes:
  assumes "stmin lim \<le> 59" and "endmin lim \<le> 59" and "tm_min now \<le> 59"
  shows "isNow_tl now lim \<longleftrightarrow> cday now \<in> set (tl_days lim)
    \<and> minute_of (sthour lim) (stmin lim) \<le> minute_of (tm_hour now) (tm_min now)
    \<and> minute_of (tm_hour now) (tm_min now) \<le> minute_of (endhour lim) (endmin lim)"
  using assms by (auto simp: isNow_tl_def minute_of_def list_ex_iff)

lemma isNowInTimelist_iff: "isNowInTimelist now lims \<longleftrightarrow> (\<exists>lim \<in> set lims. isNow_tl now lim)"
  by (induction lims) auto

text \<open>A text without white space at its ends is left alone.\<close>

lemma trim_ends:
  assumes "s \<noteq> []" and "\<not> is_ws (hd s)" and "\<not> is_ws (last s)"
  shows "removeWhiteSpace s = s"
proof -
  have "takeWhile is_ws s = []" using assms by (cases s) auto
  moreover have "takeWhile is_ws (rev s) = []"
    using assms by (metis hd_rev list.collapse rev_is_Nil_conv takeWhile.simps(2))
  moreover have "\<not> (\<forall>c \<in> set s. is_ws c)" using assms(1,2) hd_in_set by blast
  ultimately show ?thesis using assms(1) by (simp add: removeWhiteSpace_def Let_def)
qed

lemma ws_free_trim: "\<forall>c \<in> set s. \<not> is_ws c \<Longrightarrow> removeWhiteSpace s = s"
  by (cases "s = []") (simp_all add: trim_ends, simp add: removeWhiteSpace_def)

text \<open>How a band is written.\<close>

definition band_text :: "nat \<Rightarrow> nat \<Rightarrow> nat \<Rightarrow> nat \<Rightarrow> string \<Rightarrow> string" where
  "band_text h1 m1 h2 m2 days =
     nat_str h1 @ '' '' @ nat_str m1 @ '' '' @ nat_str h2 @ '' '' @ nat_str m2 @ '' '' @ days"

lemma nat_str_no_ws: "c \<in> set (nat_str n) \<Longrightarrow> \<not> is_ws c"
  by (auto dest!: nat_str_digits simp: is_ws_def c_isdigit_def)

lemma nat_str_hd: "nat_str n \<noteq> []" "\<not> is_ws (hd (nat_str n))"
  using length_nat_str [of n] nat_str_no_ws [of "hd (nat_str n)" n] by auto

lemma tag_number_text:
  assumes "n < 2 ^ 31" and "rest \<noteq> []" and "\<not> is_ws (last rest)"
  shows "tag_number (nat_str n @ '' '' @ rest) = (n, rest)"
proof -
  have t: "removeWhiteSpace (nat_str n @ '' '' @ rest) = nat_str n @ '' '' @ rest"
    using assms(2,3) nat_str_hd [of n] by (intro trim_ends) auto
  have sp: "CHR '' '' \<notin> set (nat_str n)" using nat_str_no_ws [of "CHR '' ''" n] by (auto simp: is_ws_def)
  have "before (nat_str n @ '' '' @ rest) '' '' = nat_str n" "after (nat_str n @ '' '' @ rest) '' '' = rest"
    by (rule find_sub_skip, rule single_absent [OF sp], assumption)+
  moreover have "toInteger (nat_str n) = int n"
    using toInteger_String_num [of "int n"] assms(1) by (simp add: String_num_def int_str_def)
  ultimately show ?thesis using t assms(1) by (simp add: tag_number_def to_unsigned_def Let_def)
qed


lemma readTimeBand_band_text:
  assumes "h1 \<le> 23" and "m1 \<le> 59" and "h2 \<le> 23" and "m2 \<le> 59"
    and "days \<noteq> []" and "length days \<le> 7" and "\<forall>c \<in> set days. \<not> is_ws c"
  shows "readTimeBand (band_text h1 m1 h2 m2 days) = Some \<lparr>sthour = h1, stmin = m1, endhour = h2,
    endmin = m2, tl_days = days, timetag = band_text h1 m1 h2 m2 days\<rparr>"
proof -
  have l: "\<not> is_ws (last days)" using assms(5,7) by simp
  have "tag_number (band_text h1 m1 h2 m2 days)
      = (h1, nat_str m1 @ '' '' @ nat_str h2 @ '' '' @ nat_str m2 @ '' '' @ days)"
    unfolding band_text_def by (rule tag_number_text) (use assms l in auto)
  moreover have "tag_number (nat_str m1 @ '' '' @ nat_str h2 @ '' '' @ nat_str m2 @ '' '' @ days)
      = (m1, nat_str h2 @ '' '' @ nat_str m2 @ '' '' @ days)"
    by (rule tag_number_text) (use assms l in auto)
  moreover have "tag_number (nat_str h2 @ '' '' @ nat_str m2 @ '' '' @ days) = (h2, nat_str m2 @ '' '' @ days)"
    by (rule tag_number_text) (use assms l in auto)
  moreover have "tag_number (nat_str m2 @ '' '' @ days) = (m2, days)"
    by (rule tag_number_text) (use assms l in auto)
  ultimately show ?thesis using assms by (simp add: readTimeBand_def ws_free_trim)
qed


section \<open>Properties\<close>

text \<open>C37: a band read from a list is in force exactly on its days and between its first and its last
  minute, both included.\<close>

theorem isNow_interval:
  assumes "readTimeBand tag = Some lim" and "tm_min now \<le> 59"
  shows "isNow_tl now lim \<longleftrightarrow> cday now \<in> set (tl_days lim)
    \<and> minute_of (sthour lim) (stmin lim) \<le> minute_of (tm_hour now) (tm_min now)
    \<and> minute_of (tm_hour now) (tm_min now) \<le> minute_of (endhour lim) (endmin lim)"
  using readTimeBand_ok [OF assms(1)] assms(2) by (intro isNow_tl_minutes) (auto simp: band_ok_def)

text \<open>a band within the limits is read back from its text as it was written.\<close>

theorem readTimeBand_text:
  assumes "h1 \<le> 23" and "m1 \<le> 59" and "h2 \<le> 23" and "m2 \<le> 59"
    and "days \<noteq> []" and "length days \<le> 7" and "\<forall>c \<in> set days. \<not> is_ws c"
  shows "readTimeBand (band_text h1 m1 h2 m2 days) = Some \<lparr>sthour = h1, stmin = m1, endhour = h2,
    endmin = m2, tl_days = days, timetag = band_text h1 m1 h2 m2 days\<rparr>"
  using assms by (rule readTimeBand_band_text)

theorem readTimeBand_text_witness:
  "readTimeBand (band_text 9 0 17 30 ''01234'') = Some \<lparr>sthour = 9, stmin = 0, endhour = 17,
    endmin = 30, tl_days = ''01234'', timetag = band_text 9 0 17 30 ''01234''\<rparr>"
  by (rule readTimeBand_text) (simp_all add: is_ws_def)

theorem isNow_interval_witness:
  "\<not> isNow_tl \<lparr>tm_hour = 23, tm_min = 0, tm_wday = 1\<rparr> \<lparr>sthour = 22, stmin = 0, endhour = 6,
    endmin = 0, tl_days = ''0'', timetag = band_text 22 0 6 0 ''0''\<rparr>"
proof -
  have "readTimeBand (band_text 22 0 6 0 ''0'') = Some \<lparr>sthour = 22, stmin = 0, endhour = 6,
      endmin = 0, tl_days = ''0'', timetag = band_text 22 0 6 0 ''0''\<rparr>"
    by (rule readTimeBand_band_text) (simp_all add: is_ws_def)
  from isNow_interval [OF this, of "\<lparr>tm_hour = 23, tm_min = 0, tm_wday = 1\<rparr>"] show ?thesis
    by (simp add: minute_of_def)
qed

end
