(* ===== verification/IP_Match.thy ===== *)
theory IP_Match
  imports E2_String
begin

text \<open>
  Lists of addresses, subnets and ranges: the class \<^verbatim>\<open>IPList\<close> (\<^verbatim>\<open>src/src/IPList.cpp\<close>) and
  the address lists and maps of \<^verbatim>\<open>ListContainer\<close> (\<^verbatim>\<open>src/src/ListContainer.cpp\<close>).

  The resolver functions and the regular-expression library are parameters, the record \<open>netlib\<close>:
  \<open>inet_aton\<close> is the address in host order (after \<^verbatim>\<open>ntohl\<close>) or \<open>None\<close>, \<open>rx\<close> the
  match of a pattern with a text, \<open>ipToHostname\<close> the reverse lookup. Addresses are 32-bit words.

  The lemmas give the meaning of a list as the set of addresses its lines cover, of a CIDR line as
  the addresses with the same leading bits, and of the maps as lookups by exact address, then
  subnet, then range.
\<close>

section \<open>Entries\<close>

record netlib =
  inet_aton :: "string \<Rightarrow> 32 word option"
  rx :: "string \<Rightarrow> string \<Rightarrow> bool"
  ipToHostname :: "string \<Rightarrow> string list"

record ipl_subnetstruct =
  maskedaddr :: "32 word"
  mask :: "32 word"

record ipl_rangestruct =
  startaddr :: "32 word"
  endaddr :: "32 word"

text \<open>The four patterns, as they are when the program is built with PCRE (\<^verbatim>\<open>HAVE_PCRE\<close>; the POSIX
  variants have other texts and are not modelled); a backslash is written as its code.\<close>

definition rx_octet :: string where
  "rx_octet = CHR 0x5C # ''d{1,3}''"

definition rx_quad :: string where
  "rx_quad = rx_octet @ CHR 0x5C # ''.'' @ rx_octet @ CHR 0x5C # ''.'' @ rx_octet @ CHR 0x5C # ''.'' @ rx_octet"

definition matchIP :: string where
  "matchIP = ''^'' @ rx_quad @ ''$''"

definition matchSubnet :: string where
  "matchSubnet = ''^'' @ rx_quad @ ''/'' @ rx_quad @ ''$''"

definition matchCIDR :: string where
  "matchCIDR = ''^'' @ rx_quad @ ''/'' @ CHR 0x5C # ''d{1,2}$''"

definition matchRange :: string where
  "matchRange = ''^'' @ rx_quad @ ''-'' @ rx_quad @ ''$''"

text \<open>What a line is: \<open>Ignored\<close> is one whose form is recognised but that gives no entry.\<close>

datatype ip_item =
    Straight "32 word"
  | Subnet ipl_subnetstruct
  | Range ipl_rangestruct
  | Ignored
  | Unrecognised

definition cidr_mask :: "int \<Rightarrow> 32 word" where
  "cidr_mask m = (if m = 0 then 0 else push_bit (nat (32 - m)) 0xFFFFFFFF)"

definition masked :: "32 word \<Rightarrow> 32 word \<Rightarrow> ipl_subnetstruct" where
  "masked addr m = \<lparr>maskedaddr = and addr m, mask = m\<rparr>"

definition classify_ip :: "netlib \<Rightarrow> string \<Rightarrow> ip_item" where
  "classify_ip nl line =
     (if rx nl matchIP line then
        (case inet_aton nl line of None \<Rightarrow> Ignored | Some addr \<Rightarrow> Straight addr)
      else if rx nl matchSubnet line then
        (case (inet_aton nl (before line ''/''), inet_aton nl (after line ''/'')) of
           (Some addr, Some m) \<Rightarrow> Subnet (masked addr m)
         | _ \<Rightarrow> Ignored)
      else if rx nl matchCIDR line then
        (let m = toInteger (after line ''/'') in
         if m < 0 \<or> m > 32 then Ignored
         else case inet_aton nl (before line ''/'') of
             None \<Rightarrow> Ignored
           | Some addr \<Rightarrow> Subnet (masked addr (cidr_mask m)))
      else if rx nl matchRange line then
        (case (inet_aton nl (before line ''-''), inet_aton nl (after line ''-'')) of
           (Some a, Some b) \<Rightarrow> Range \<lparr>startaddr = a, endaddr = b\<rparr>
         | _ \<Rightarrow> Ignored)
      else Unrecognised)"

definition in_subnet :: "32 word \<Rightarrow> ipl_subnetstruct \<Rightarrow> bool" where
  "in_subnet ip s = (maskedaddr s = and ip (mask s))"

definition in_range :: "32 word \<Rightarrow> ipl_rangestruct \<Rightarrow> bool" where
  "in_range ip r = (ip \<ge> startaddr r \<and> ip \<le> endaddr r)"


section \<open>The class IPList\<close>

record ip_list =
  ipl_iplist :: "32 word list"
  ipl_hostlist :: "string list"
  ipl_iprangelist :: "ipl_rangestruct list"
  ipl_ipsubnetlist :: "ipl_subnetstruct list"

definition ipl_reset :: ip_list where
  "ipl_reset = \<lparr>ipl_iplist = [], ipl_hostlist = [], ipl_iprangelist = [], ipl_ipsubnetlist = []\<rparr>"

definition ipl_add :: "netlib \<Rightarrow> string \<Rightarrow> ip_list \<Rightarrow> ip_list" where
  "ipl_add nl line l =
     (case classify_ip nl line of
        Straight a \<Rightarrow> l\<lparr>ipl_iplist := ipl_iplist l @ [a]\<rparr>
      | Subnet s \<Rightarrow> l\<lparr>ipl_ipsubnetlist := ipl_ipsubnetlist l @ [s]\<rparr>
      | Range r \<Rightarrow> l\<lparr>ipl_iprangelist := ipl_iprangelist l @ [r]\<rparr>
      | Ignored \<Rightarrow> l
      | Unrecognised \<Rightarrow> l\<lparr>ipl_hostlist := ipl_hostlist l @ [toLower line]\<rparr>)"

text \<open>
  The reading loop over the lines of the file. A line that does not fit the buffer of 2048 bytes
  sets the fail bit, which ends the loop; \<open>endstring\<close> is \<open>None\<close> when it is not checked.
\<close>

fun ipl_read_loop :: "netlib \<Rightarrow> string option \<Rightarrow> string list \<Rightarrow> ip_list \<Rightarrow> ip_list" where
  "ipl_read_loop nl endstring [] l = l"
| "ipl_read_loop nl endstring (raw # rest) l =
     (let line = cstr raw in
      if length raw \<ge> 2048 then l
      else if (case endstring of None \<Rightarrow> False | Some e \<Rightarrow> startsWith line e) then l
      else if char_at line 0 = CHR ''#'' then ipl_read_loop nl endstring rest l
      else if length line < 7 then ipl_read_loop nl endstring rest l
      else ipl_read_loop nl endstring rest (ipl_add nl line l))"

definition ifsreadIPMelangeList :: "netlib \<Rightarrow> string option \<Rightarrow> string list \<Rightarrow> ip_list \<Rightarrow> ip_list" where
  "ifsreadIPMelangeList nl endstring lines l =
     (let l' = ipl_read_loop nl endstring lines l
      in l'\<lparr>ipl_iplist := sort (ipl_iplist l'), ipl_hostlist := sort (ipl_hostlist l')\<rparr>)"

text \<open>\<open>None\<close> is a file that cannot be opened.\<close>

definition readIPMelangeList :: "netlib \<Rightarrow> string list option \<Rightarrow> ip_list \<Rightarrow> bool \<times> ip_list" where
  "readIPMelangeList nl file l =
     (case file of None \<Rightarrow> (False, l) | Some lines \<Rightarrow> (True, ifsreadIPMelangeList nl None lines l))"

text \<open>
  \<^verbatim>\<open>inList\<close>: the answer and the host name that is set. \<open>None\<close> is a text that is no address:
  the code then goes on with an uninitialised one.
\<close>

definition ipl_inList :: "netlib \<Rightarrow> bool \<Rightarrow> bool \<Rightarrow> string \<Rightarrow> string option \<Rightarrow> ip_list
    \<Rightarrow> (bool \<times> string option) option" where
  "ipl_inList nl reverse_client_ip_lookups log_client_hostnames ipstr host l =
     (case inet_aton nl (cstr ipstr) of
        None \<Rightarrow> None
      | Some ip \<Rightarrow> Some (
          if std_binary_search (ipl_iplist l) ip then (True, None)
          else if list_ex (in_range ip) (ipl_iprangelist l) then (True, None)
          else if list_ex (in_subnet ip) (ipl_ipsubnetlist l) then (True, None)
          else if reverse_client_ip_lookups then
            (let hostnames = (case host of None \<Rightarrow> ipToHostname nl (cstr ipstr) | Some h \<Rightarrow> [h]) in
             case find (std_binary_search (ipl_hostlist l)) hostnames of
               Some h \<Rightarrow> (True, Some h)
             | None \<Rightarrow> (False,
                 if log_client_hostnames \<and> host = None \<and> hostnames \<noteq> [] then Some (hd hostnames) else host))
          else (False, host)))"


section \<open>Address lists of a ListContainer\<close>

record lc_ip =
  iplist :: "32 word list"
  iprangelist :: "ipl_rangestruct list"
  ipsubnetlist :: "ipl_subnetstruct list"

definition addToIPList :: "netlib \<Rightarrow> string \<Rightarrow> lc_ip \<Rightarrow> lc_ip" where
  "addToIPList nl line l =
     (case classify_ip nl line of
        Straight a \<Rightarrow> l\<lparr>iplist := iplist l @ [a]\<rparr>
      | Subnet s \<Rightarrow> l\<lparr>ipsubnetlist := ipsubnetlist l @ [s]\<rparr>
      | Range r \<Rightarrow> l\<lparr>iprangelist := iprangelist l @ [r]\<rparr>
      | Ignored \<Rightarrow> l
      | Unrecognised \<Rightarrow> l)"

definition inIPList :: "netlib \<Rightarrow> string \<Rightarrow> lc_ip \<Rightarrow> bool" where
  "inIPList nl ipstr l =
     (case inet_aton nl (removeWhiteSpace (cstr ipstr)) of
        None \<Rightarrow> False
      | Some ip \<Rightarrow>
          if iplist l \<noteq> [] \<and> std_binary_search (iplist l) ip then True
          else if list_ex (in_range ip) (iprangelist l) then True
          else list_ex (in_subnet ip) (ipsubnetlist l))"


section \<open>Group labels\<close>

definition normalise_group_label :: "string \<Rightarrow> string" where
  "normalise_group_label value = map c_tolower (filter c_isalnum value)"

text \<open>The first run of digits in a text (the loops of \<^verbatim>\<open>parse_group_number_token\<close>,
  \<^verbatim>\<open>addToDataMap\<close> and \<^verbatim>\<open>addToIPMap\<close>).\<close>

definition first_digits :: "string \<Rightarrow> string" where
  "first_digits s = takeWhile c_isdigit (dropWhile (\<lambda>c. \<not> c_isdigit c) s)"

definition parse_group_number_token :: "int \<Rightarrow> string \<Rightarrow> int" where
  "parse_group_number_token filter_groups token =
     (let digits = first_digits token in
      if digits = [] then 0
      else let number = toInteger digits in
        if number < 1 \<or> number > filter_groups then 0 else number)"

fun resolve_prefixes :: "int \<Rightarrow> (string \<rightharpoonup> int) \<Rightarrow> string \<Rightarrow> string list \<Rightarrow> int" where
  "resolve_prefixes filter_groups name_lookup key [] = 0"
| "resolve_prefixes filter_groups name_lookup key (p # ps) =
     (if take (length p) key \<noteq> p then resolve_prefixes filter_groups name_lookup key ps
      else
        let remainder = drop (length p) key in
        if remainder = [] then resolve_prefixes filter_groups name_lookup key ps
        else
          let number = parse_group_number_token filter_groups remainder in
          if number > 0 then number
          else case name_lookup remainder of
              Some g \<Rightarrow> g
            | None \<Rightarrow> resolve_prefixes filter_groups name_lookup key ps)"

definition resolve_group_number :: "int \<Rightarrow> (string \<rightharpoonup> int) \<Rightarrow> string \<Rightarrow> int" where
  "resolve_group_number filter_groups name_lookup value =
     (if value = [] then 0
      else
        let number = parse_group_number_token filter_groups value in
        if number > 0 then number
        else
          let key = normalise_group_label value in
          if key = [] then 0
          else case name_lookup key of
              Some g \<Rightarrow> g
            | None \<Rightarrow> resolve_prefixes filter_groups name_lookup key
                [''filtergroup'', ''filter'', ''group'', ''grp''])"

datatype SpecialIpGroup = NoSpecial | Exception | Banned

definition classify_special_group :: "string \<Rightarrow> SpecialIpGroup" where
  "classify_special_group token =
     (let t = removeChar (removeChar (removePunctuation (removeWhiteSpace (toLower token))) (CHR ''_'')) (CHR ''-'') in
      if t = [] then NoSpecial
      else if t \<in> set [''exceptioniplist'', ''exceptionlist'', ''exceptionip''] then Exception
      else if t \<in> set [''bannediplist'', ''bannedlist'', ''bannedip''] then Banned
      else NoSpecial)"

definition normalise_group_value :: "string \<Rightarrow> string" where
  "normalise_group_value value =
     (let n0 = toLower value;
          n1 = (if startsWith n0 ''filter'' then after n0 ''filter'' else n0);
          n2 = (if startsWith n1 ''group'' then after n1 ''group'' else n1);
          n3 = removeWhiteSpace n2;
          digits = first_digits (cstr n3)
      in removeWhiteSpace (if digits \<noteq> [] then digits else n3))"


section \<open>Maps from keys and addresses to groups\<close>

record datamap =
  dm_key :: string
  dm_group :: string

text \<open>\<^verbatim>\<open>addToDataMap\<close>: an entry without a group is logged and left out.\<close>

definition addToDataMap :: "string \<Rightarrow> datamap list \<Rightarrow> datamap list" where
  "addToDataMap line dml =
     (if contains line ''='' then
        let key = toLower (removeWhiteSpace (before line ''=''));
            group_value = after line ''='';
            value =
              (if classify_special_group group_value \<noteq> NoSpecial then []
               else let v = normalise_group_value (removeWhiteSpace group_value)
                    in if startsWith v ''filter'' then after v ''filter'' else v)
        in dml @ [\<lparr>dm_key = key, dm_group = value\<rparr>]
      else dml)"

record ipmap =
  im_addr :: "32 word"
  im_group :: string

record subnetstruct =
  sub_net :: ipl_subnetstruct
  sub_group :: string

record rangestruct =
  ran_range :: ipl_rangestruct
  ran_group :: string

record lc_ipmap =
  ipmaplist :: "ipmap list"
  ipmaprangelist :: "rangestruct list"
  ipmapsubnetlist :: "subnetstruct list"

definition addToIPMap :: "netlib \<Rightarrow> int \<Rightarrow> string \<Rightarrow> lc_ipmap \<Rightarrow> lc_ipmap" where
  "addToIPMap nl filter_groups line m =
     (if contains line ''='' then
        let key = removeWhiteSpace (before line ''='');
            group_value = after line ''='';
            is_special = (classify_special_group group_value \<noteq> NoSpecial);
            v0 = (if is_special then [] else normalise_group_value (removeWhiteSpace group_value));
            value = (if startsWith v0 ''filter'' then after v0 ''filter'' else v0)
        in if \<not> is_special \<and> (toInteger value < 1 \<or> toInteger value > filter_groups) then m
           else case classify_ip nl key of
               Straight a \<Rightarrow> m\<lparr>ipmaplist := ipmaplist m @ [\<lparr>im_addr = a, im_group = value\<rparr>]\<rparr>
             | Subnet s \<Rightarrow> m\<lparr>ipmapsubnetlist := ipmapsubnetlist m @ [\<lparr>sub_net = s, sub_group = value\<rparr>]\<rparr>
             | Range r \<Rightarrow> m\<lparr>ipmaprangelist := ipmaprangelist m @ [\<lparr>ran_range = r, ran_group = value\<rparr>]\<rparr>
             | Ignored \<Rightarrow> m
             | Unrecognised \<Rightarrow> m
      else m)"

definition sort_ipmap :: "ipmap list \<Rightarrow> ipmap list" where
  "sort_ipmap ms = stable_sort (\<lambda>x y. im_addr x < im_addr y) ms"

definition sort_datamap :: "datamap list \<Rightarrow> datamap list" where
  "sort_datamap ds = stable_sort (\<lambda>x y. dm_key x < dm_key y) ds"

function searchIPMap :: "ipmap list \<Rightarrow> 32 word \<Rightarrow> int \<Rightarrow> int \<Rightarrow> string option" where
  "searchIPMap ms ip a s =
     (if a > s then None
      else let m = (a + s) div 2; e = ms ! nat m in
        if im_addr e = ip then Some (im_group e)
        else if im_addr e < ip then searchIPMap ms ip (m + 1) s
        else if a = s then None
        else searchIPMap ms ip a (m - 1))"
  by pat_completeness auto
termination
  by (relation "measure (\<lambda>(ms, ip, a, s). nat (s - a + 1))") auto

declare searchIPMap.simps [simp del]

definition inIPMap :: "32 word \<Rightarrow> ipmap list \<Rightarrow> string option" where
  "inIPMap ip ms = (if ms \<noteq> [] then searchIPMap ms ip 0 (int (length ms) - 1) else None)"

fun inSubnetMap :: "32 word \<Rightarrow> subnetstruct list \<Rightarrow> string option" where
  "inSubnetMap ip [] = None"
| "inSubnetMap ip (s # ss) = (if in_subnet ip (sub_net s) then Some (sub_group s) else inSubnetMap ip ss)"

fun inIPRangeMap :: "32 word \<Rightarrow> rangestruct list \<Rightarrow> string option" where
  "inIPRangeMap ip [] = None"
| "inIPRangeMap ip (r # rs) = (if in_range ip (ran_range r) then Some (ran_group r) else inIPRangeMap ip rs)"

definition getIPMapData :: "netlib \<Rightarrow> string \<Rightarrow> lc_ipmap \<Rightarrow> string option" where
  "getIPMapData nl ip m =
     (case inet_aton nl (removeWhiteSpace (cstr ip)) of
        None \<Rightarrow> None
      | Some addr \<Rightarrow>
          (case inIPMap addr (ipmaplist m) of
             Some g \<Rightarrow> Some g
           | None \<Rightarrow>
               (case inSubnetMap addr (ipmapsubnetlist m) of
                  Some g \<Rightarrow> Some g
                | None \<Rightarrow> inIPRangeMap addr (ipmaprangelist m))))"

function searchDataMap :: "datamap list \<Rightarrow> string \<Rightarrow> int \<Rightarrow> int \<Rightarrow> string option" where
  "searchDataMap ds key a s =
     (if a > s then None
      else let m = (a + s) div 2; e = ds ! nat m in
        if dm_key e = key then Some (dm_group e)
        else if dm_key e < key then searchDataMap ds key (m + 1) s
        else if a = s then None
        else searchDataMap ds key a (m - 1))"
  by pat_completeness auto
termination
  by (relation "measure (\<lambda>(ds, key, a, s). nat (s - a + 1))") auto

declare searchDataMap.simps [simp del]

definition getMapData :: "string \<Rightarrow> datamap list \<Rightarrow> string option" where
  "getMapData key ds = (if ds = [] then None else searchDataMap ds key 0 (int (length ds) - 1))"

text \<open>One entry of the loop in \<^verbatim>\<open>normaliseDataMapGroups\<close>: the entry and whether it changed.\<close>

definition normalise_entry :: "int \<Rightarrow> (string \<rightharpoonup> int) \<Rightarrow> datamap \<Rightarrow> datamap \<times> bool" where
  "normalise_entry filter_groups name_lookup e =
     (if dm_group e = [] then (e, False)
      else
        let resolved = resolve_group_number filter_groups name_lookup (dm_group e) in
        if resolved > 0 then
          (if toInteger (dm_group e) \<noteq> resolved then (e\<lparr>dm_group := String_num resolved\<rparr>, True) else (e, False))
        else (e\<lparr>dm_group := []\<rparr>, True))"

definition normaliseDataMapGroups :: "int \<Rightarrow> (string \<rightharpoonup> int) \<Rightarrow> bool \<Rightarrow> bool \<Rightarrow> datamap list \<Rightarrow> datamap list" where
  "normaliseDataMapGroups filter_groups name_lookup is_map is_iplist ds =
     (if \<not> is_map \<or> is_iplist then ds
      else
        let es = map (normalise_entry filter_groups name_lookup) ds; ds' = map fst es
        in if list_ex snd es then sort_datamap ds' else ds')"


section \<open>What a list covers\<close>

fun item_covers :: "ip_item \<Rightarrow> 32 word \<Rightarrow> bool" where
  "item_covers (Straight a) ip = (ip = a)"
| "item_covers (Subnet s) ip = in_subnet ip s"
| "item_covers (Range r) ip = in_range ip r"
| "item_covers Ignored ip = False"
| "item_covers Unrecognised ip = False"

text \<open>The lines of a file that are taken as entries.\<close>

fun ipl_effective :: "string option \<Rightarrow> string list \<Rightarrow> string list" where
  "ipl_effective endstring [] = []"
| "ipl_effective endstring (raw # rest) =
     (if length raw \<ge> 2048 \<or> (\<exists>e. endstring = Some e \<and> startsWith (cstr raw) e) then []
      else if char_at (cstr raw) 0 = CHR ''#'' \<or> length (cstr raw) < 7 then ipl_effective endstring rest
      else cstr raw # ipl_effective endstring rest)"

lemma ipl_read_loop_fold: "ipl_read_loop nl e lines l = fold (ipl_add nl) (ipl_effective e lines) l"
  by (induction lines arbitrary: l) (auto simp: Let_def split: option.splits)

lemma ipl_add_parts:
  "set (ipl_iplist (ipl_add nl line l)) = set (ipl_iplist l) \<union> {a. classify_ip nl line = Straight a}"
  "set (ipl_iprangelist (ipl_add nl line l)) = set (ipl_iprangelist l) \<union> {r. classify_ip nl line = Range r}"
  "set (ipl_ipsubnetlist (ipl_add nl line l)) = set (ipl_ipsubnetlist l) \<union> {s. classify_ip nl line = Subnet s}"
  "set (ipl_hostlist (ipl_add nl line l))
     = set (ipl_hostlist l) \<union> {h. classify_ip nl line = Unrecognised \<and> h = toLower line}"
  by (auto simp: ipl_add_def split: ip_item.splits)

lemma ipl_fold_parts:
  "set (ipl_iplist (fold (ipl_add nl) ls l)) = set (ipl_iplist l) \<union> {a. \<exists>x \<in> set ls. classify_ip nl x = Straight a}"
  "set (ipl_iprangelist (fold (ipl_add nl) ls l))
     = set (ipl_iprangelist l) \<union> {r. \<exists>x \<in> set ls. classify_ip nl x = Range r}"
  "set (ipl_ipsubnetlist (fold (ipl_add nl) ls l))
     = set (ipl_ipsubnetlist l) \<union> {s. \<exists>x \<in> set ls. classify_ip nl x = Subnet s}"
  "set (ipl_hostlist (fold (ipl_add nl) ls l))
     = set (ipl_hostlist l) \<union> {h. \<exists>x \<in> set ls. classify_ip nl x = Unrecognised \<and> h = toLower x}"
  by (induction ls arbitrary: l) (auto simp: ipl_add_parts)

lemma find_answer:
  "(\<exists>h. (case find P xs of Some x \<Rightarrow> (True, f x) | None \<Rightarrow> (False, y)) = (True, h)) \<longleftrightarrow> (\<exists>x \<in> set xs. P x)"
  by (auto simp: find_Some_iff find_None_iff split: option.splits)

lemma item_covers_iff:
  "item_covers i ip \<longleftrightarrow> i = Straight ip \<or> (\<exists>s. i = Subnet s \<and> in_subnet ip s) \<or> (\<exists>r. i = Range r \<and> in_range ip r)"
  by (cases i) auto

lemma addToIPList_parts:
  "set (iplist (addToIPList nl line l)) = set (iplist l) \<union> {a. classify_ip nl line = Straight a}"
  "set (iprangelist (addToIPList nl line l)) = set (iprangelist l) \<union> {r. classify_ip nl line = Range r}"
  "set (ipsubnetlist (addToIPList nl line l)) = set (ipsubnetlist l) \<union> {s. classify_ip nl line = Subnet s}"
  by (auto simp: addToIPList_def split: ip_item.splits)

text \<open>The addresses an address list stands for.\<close>

definition lc_ip_covers :: "lc_ip \<Rightarrow> 32 word \<Rightarrow> bool" where
  "lc_ip_covers l ip \<longleftrightarrow> ip \<in> set (iplist l) \<or> (\<exists>r \<in> set (iprangelist l). in_range ip r)
     \<or> (\<exists>s \<in> set (ipsubnetlist l). in_subnet ip s)"

definition lc_ip_empty :: lc_ip where
  "lc_ip_empty = \<lparr>iplist = [], iprangelist = [], ipsubnetlist = []\<rparr>"

lemma lc_ip_covers_add: "lc_ip_covers (addToIPList nl line l) ip \<longleftrightarrow> lc_ip_covers l ip \<or> item_covers (classify_ip nl line) ip"
  by (auto simp: lc_ip_covers_def addToIPList_parts item_covers_iff)

lemma lc_ip_covers_fold:
  "lc_ip_covers (fold (addToIPList nl) ls l) ip \<longleftrightarrow> lc_ip_covers l ip \<or> (\<exists>x \<in> set ls. item_covers (classify_ip nl x) ip)"
  by (induction ls arbitrary: l) (auto simp: lc_ip_covers_add)

lemma inIPList_covers:
  assumes "sorted (iplist l)"
  shows "inIPList nl ipstr l \<longleftrightarrow>
    (\<exists>ip. inet_aton nl (removeWhiteSpace (cstr ipstr)) = Some ip \<and> lc_ip_covers l ip)"
  using std_binary_search_iff [OF assms]
  by (auto simp: inIPList_def lc_ip_covers_def list_ex_iff split: option.splits)


section \<open>CIDR masks\<close>

lemma bit_cidr_mask:
  assumes "0 \<le> m" and "m \<le> 32"
  shows "bit (cidr_mask m) n \<longleftrightarrow> nat (32 - m) \<le> n \<and> n < 32"
proof (cases "m = 0")
  case True
  then show ?thesis by (simp add: cidr_mask_def)
next
  case False
  have ones: "(0xFFFFFFFF :: 32 word) = - 1" by simp
  show ?thesis using False assms unfolding cidr_mask_def ones by (auto simp: bit_simps)
qed

lemma cidr_same_bits:
  fixes a b :: "32 word"
  assumes "0 \<le> m" and "m \<le> 32"
  shows "and a (cidr_mask m) = and b (cidr_mask m) \<longleftrightarrow> drop_bit (nat (32 - m)) a = drop_bit (nat (32 - m)) b"
    (is "?l \<longleftrightarrow> ?r")
proof -
  let ?k = "nat (32 - m)"
  have "?l \<longleftrightarrow> (\<forall>n. ?k \<le> n \<and> n < 32 \<longrightarrow> bit a n = bit b n)"
    by (auto simp: bit_eq_iff bit_and_iff bit_cidr_mask [OF assms])
  also have "\<dots> \<longleftrightarrow> (\<forall>n. bit a (?k + n) = bit b (?k + n))"
  proof
    assume l: "\<forall>n. ?k \<le> n \<and> n < 32 \<longrightarrow> bit a n = bit b n"
    have "bit a (?k + n) = bit b (?k + n)" for n
    proof (cases "?k + n < 32")
      case True
      with l show ?thesis by simp
    next
      case False
      then show ?thesis using bit_imp_le_length [of a "?k + n"] bit_imp_le_length [of b "?k + n"] by auto
    qed
    then show "\<forall>n. bit a (?k + n) = bit b (?k + n)" by blast
  next
    assume r: "\<forall>n. bit a (?k + n) = bit b (?k + n)"
    have "bit a n = bit b n" if "?k \<le> n" for n
      using r [rule_format, of "n - ?k"] that by simp
    then show "\<forall>n. ?k \<le> n \<and> n < 32 \<longrightarrow> bit a n = bit b n" by blast
  qed
  also have "\<dots> \<longleftrightarrow> ?r"
  proof
    assume "\<forall>n. bit a (?k + n) = bit b (?k + n)"
    then show ?r by (intro bit_eqI) (simp add: bit_drop_bit_eq)
  next
    assume ?r
    then have "bit (drop_bit ?k a) n = bit (drop_bit ?k b) n" for n by (rule arg_cong)
    then show "\<forall>n. bit a (?k + n) = bit b (?k + n)" by (simp add: bit_drop_bit_eq)
  qed
  finally show ?thesis .
qed


section \<open>The maps\<close>

interpretation ipms: map_search searchIPMap im_addr im_group
  by unfold_locales (rule searchIPMap.simps)

interpretation dms: map_search searchDataMap dm_key dm_group
  by unfold_locales (rule searchDataMap.simps)

definition ipmap_sorted :: "ipmap list \<Rightarrow> bool" where
  "ipmap_sorted ms \<longleftrightarrow> sorted (map im_addr ms)"

definition datamap_sorted :: "datamap list \<Rightarrow> bool" where
  "datamap_sorted ds \<longleftrightarrow> sorted (map dm_key ds)"

lemma sorted_by_key:
  fixes key :: "'a \<Rightarrow> 'b::linorder"
  shows "sorted (map key (stable_sort (\<lambda>x y. key x < key y) xs))"
  using ordered_by_stable_sort [of "\<lambda>x y. key x < key y" xs] by (auto simp: sorted_wrt_map not_less)

lemma sort_ipmap_sorted: "ipmap_sorted (sort_ipmap ms)"
  unfolding ipmap_sorted_def sort_ipmap_def by (rule sorted_by_key)

lemma sort_datamap_sorted: "datamap_sorted (sort_datamap ds)"
  unfolding datamap_sorted_def sort_datamap_def by (rule sorted_by_key)

lemma inIPMap_search: "inIPMap ip ms = searchIPMap ms ip 0 (int (length ms) - 1)"
  by (cases ms) (simp_all add: inIPMap_def searchIPMap.simps [of "[]"])

lemma getMapData_search: "getMapData key ds = searchDataMap ds key 0 (int (length ds) - 1)"
  by (cases ds) (simp_all add: getMapData_def searchDataMap.simps [of "[]"])

lemma inIPMap_cases:
  assumes "ipmap_sorted ms"
  obtains (found) e where "e \<in> set ms" "im_addr e = ip" "inIPMap ip ms = Some (im_group e)"
    | (absent) "inIPMap ip ms = None" "\<forall>e \<in> set ms. im_addr e \<noteq> ip"
proof (cases rule: ipms.msrch_cases [OF assms [unfolded ipmap_sorted_def], of ip])
  case (1 e)
  then show thesis by (intro found [of e]) (simp_all add: inIPMap_search)
next
  case 2
  then show thesis by (intro absent) (simp_all add: inIPMap_search)
qed

lemma getMapData_cases:
  assumes "datamap_sorted ds"
  obtains (found) e where "e \<in> set ds" "dm_key e = key" "getMapData key ds = Some (dm_group e)"
    | (absent) "getMapData key ds = None" "\<forall>e \<in> set ds. dm_key e \<noteq> key"
proof (cases rule: dms.msrch_cases [OF assms [unfolded datamap_sorted_def], of key])
  case (1 e)
  then show thesis by (intro found [of e]) (simp_all add: getMapData_search)
next
  case 2
  then show thesis by (intro absent) (simp_all add: getMapData_search)
qed

text \<open>A group as the maps store it: none (a special entry), or a number of a filter group.\<close>

definition valid_group :: "int \<Rightarrow> string \<Rightarrow> bool" where
  "valid_group filter_groups g \<longleftrightarrow> g = [] \<or> (1 \<le> toInteger g \<and> toInteger g \<le> filter_groups)"

definition ipmap_groups :: "lc_ipmap \<Rightarrow> string set" where
  "ipmap_groups m = im_group ` set (ipmaplist m) \<union> sub_group ` set (ipmapsubnetlist m) \<union> ran_group ` set (ipmaprangelist m)"

lemma addToIPMap_groups:
  assumes "\<forall>g \<in> ipmap_groups m. valid_group fgs g"
  shows "\<forall>g \<in> ipmap_groups (addToIPMap nl fgs line m). valid_group fgs g"
proof -
  have sp: "startsWith [] ''filter'' = False" by (simp add: startsWith_def cstr_def nul_def)
  show ?thesis
    using assms by (auto simp: addToIPMap_def ipmap_groups_def valid_group_def Let_def sp split: ip_item.splits)
qed

lemma inSubnetMap_Some: "inSubnetMap ip ss = Some g \<Longrightarrow> \<exists>s \<in> set ss. in_subnet ip (sub_net s) \<and> sub_group s = g"
  by (induction ss) (auto split: if_splits)

lemma inSubnetMap_None: "inSubnetMap ip ss = None \<longleftrightarrow> (\<forall>s \<in> set ss. \<not> in_subnet ip (sub_net s))"
  by (induction ss) auto

lemma inIPRangeMap_Some: "inIPRangeMap ip rs = Some g \<Longrightarrow> \<exists>r \<in> set rs. in_range ip (ran_range r) \<and> ran_group r = g"
  by (induction rs) (auto split: if_splits)

lemma inIPRangeMap_None: "inIPRangeMap ip rs = None \<longleftrightarrow> (\<forall>r \<in> set rs. \<not> in_range ip (ran_range r))"
  by (induction rs) auto

text \<open>An address map after a file has been read: the entries of its lines, sorted.\<close>

definition ipmap_of_lines :: "netlib \<Rightarrow> int \<Rightarrow> string list \<Rightarrow> lc_ipmap" where
  "ipmap_of_lines nl fgs ls =
     (let m = fold (addToIPMap nl fgs) ls \<lparr>ipmaplist = [], ipmaprangelist = [], ipmapsubnetlist = []\<rparr>
      in m\<lparr>ipmaplist := sort_ipmap (ipmaplist m)\<rparr>)"

lemma ipmap_of_lines_ok:
  "ipmap_sorted (ipmaplist (ipmap_of_lines nl fgs ls)) \<and> (\<forall>g \<in> ipmap_groups (ipmap_of_lines nl fgs ls). valid_group fgs g)"
proof -
  let ?e = "\<lparr>ipmaplist = [], ipmaprangelist = [], ipmapsubnetlist = []\<rparr>"
  have "\<forall>g \<in> ipmap_groups (fold (addToIPMap nl fgs) ls m). valid_group fgs g"
    if "\<forall>g \<in> ipmap_groups m. valid_group fgs g" for m
    using that
  proof (induction ls arbitrary: m)
    case (Cons x xs)
    from Cons.IH [OF addToIPMap_groups [OF Cons.prems]] show ?case by simp
  qed simp
  from this [of ?e] have "\<forall>g \<in> ipmap_groups (fold (addToIPMap nl fgs) ls ?e). valid_group fgs g"
    by (simp add: ipmap_groups_def)
  moreover have "ipmap_groups (ipmap_of_lines nl fgs ls) = ipmap_groups (fold (addToIPMap nl fgs) ls ?e)"
    by (simp add: ipmap_of_lines_def Let_def ipmap_groups_def sort_ipmap_def)
  moreover have "ipmap_sorted (ipmaplist (ipmap_of_lines nl fgs ls))"
    by (simp add: ipmap_of_lines_def Let_def sort_ipmap_sorted)
  ultimately show ?thesis by simp
qed

lemma getIPMapData_covering:
  assumes "ipmap_sorted (ipmaplist m)" and "inet_aton nl (removeWhiteSpace (cstr ip)) = Some a"
  shows "case getIPMapData nl ip m of
      Some g \<Rightarrow> (\<exists>e \<in> set (ipmaplist m). im_addr e = a \<and> im_group e = g)
        \<or> (\<forall>e \<in> set (ipmaplist m). im_addr e \<noteq> a) \<and>
          ((\<exists>s \<in> set (ipmapsubnetlist m). in_subnet a (sub_net s) \<and> sub_group s = g)
           \<or> (\<forall>s \<in> set (ipmapsubnetlist m). \<not> in_subnet a (sub_net s))
             \<and> (\<exists>r \<in> set (ipmaprangelist m). in_range a (ran_range r) \<and> ran_group r = g))
    | None \<Rightarrow> (\<forall>e \<in> set (ipmaplist m). im_addr e \<noteq> a) \<and> (\<forall>s \<in> set (ipmapsubnetlist m). \<not> in_subnet a (sub_net s))
        \<and> (\<forall>r \<in> set (ipmaprangelist m). \<not> in_range a (ran_range r))"
proof (cases rule: inIPMap_cases [OF assms(1), of a])
  case (1 e)
  with assms(2) show ?thesis by (auto simp: getIPMapData_def)
next
  case 2
  then show ?thesis
  proof (cases "inSubnetMap a (ipmapsubnetlist m)")
    case (Some g)
    with 2 assms(2) inSubnetMap_Some [OF Some] show ?thesis by (simp add: getIPMapData_def)
  next
    case None
    with 2 assms(2) inSubnetMap_None [of a "ipmapsubnetlist m"] inIPRangeMap_Some [of a "ipmaprangelist m"]
      inIPRangeMap_None [of a "ipmaprangelist m"]
    show ?thesis by (cases "inIPRangeMap a (ipmaprangelist m)") (simp_all add: getIPMapData_def)
  qed
qed


lemma resolve_prefixes_range:
  assumes "\<forall>g \<in> ran name_lookup. 1 \<le> g \<and> g \<le> fgs"
  shows "resolve_prefixes fgs name_lookup key ps = 0
    \<or> 1 \<le> resolve_prefixes fgs name_lookup key ps \<and> resolve_prefixes fgs name_lookup key ps \<le> fgs"
proof (induction ps)
  case (Cons p ps)
  have "1 \<le> g \<and> g \<le> fgs" if "name_lookup k = Some g" for k g using assms that by (meson ranI)
  with Cons show ?case
    by (auto simp: Let_def parse_group_number_token_def split: option.splits if_splits)
qed simp

lemma resolve_group_number_range:
  assumes "\<forall>g \<in> ran name_lookup. 1 \<le> g \<and> g \<le> fgs"
  shows "resolve_group_number fgs name_lookup value = 0
    \<or> 1 \<le> resolve_group_number fgs name_lookup value \<and> resolve_group_number fgs name_lookup value \<le> fgs"
proof -
  let ?n = "parse_group_number_token fgs value" and ?k = "normalise_group_label value"
  have n: "?n = 0 \<or> 1 \<le> ?n \<and> ?n \<le> fgs" by (auto simp: parse_group_number_token_def Let_def)
  consider "value = []" | "value \<noteq> []" "?n > 0" | "value \<noteq> []" "?n \<le> 0" "?k = []"
    | g where "value \<noteq> []" "?n \<le> 0" "?k \<noteq> []" "name_lookup ?k = Some g"
    | "value \<noteq> []" "?n \<le> 0" "?k \<noteq> []" "name_lookup ?k = None" by fastforce
  then show ?thesis
  proof cases
    case 4
    then have "1 \<le> g \<and> g \<le> fgs" using assms by (meson ranI)
    with 4 show ?thesis by (simp add: resolve_group_number_def)
  next
    case 5
    with resolve_prefixes_range [OF assms, of ?k "[''filtergroup'', ''filter'', ''group'', ''grp'']"]
    show ?thesis by (simp add: resolve_group_number_def del: resolve_prefixes.simps)
  qed (use n in \<open>simp_all add: resolve_group_number_def\<close>)
qed

lemma normalise_entry_valid:
  assumes "\<forall>g \<in> ran name_lookup. 1 \<le> g \<and> g \<le> fgs" and "fgs < 2 ^ 31"
  shows "valid_group fgs (dm_group (fst (normalise_entry fgs name_lookup e))) \<and> dm_key (fst (normalise_entry fgs name_lookup e)) = dm_key e"
  using resolve_group_number_range [OF assms(1), of "dm_group e"] assms(2)
  by (auto simp: normalise_entry_def valid_group_def Let_def toInteger_String_num)


section \<open>Properties\<close>

text \<open>A resolver that knows a few texts, for the witnesses.\<close>

definition net_test :: netlib where
  "net_test = \<lparr>inet_aton = (\<lambda>t. if t = ''10.0.0.1'' then Some 0x0A000001 else if t = ''10.9.9.9'' then Some 0x0A090909 else None),
     rx = (\<lambda>p t. p = matchIP \<and> t = ''10.0.0.1'' \<or> p = matchCIDR \<and> t = ''10.0.0.1/8''),
     ipToHostname = (\<lambda>t. [])\<rparr>"

text \<open>C36: a list read from a file matches an address exactly when one of its entry lines, in
  whatever order and mixture, covers the address as an address, subnet or range, or, when reverse
  look-ups of clients are on, is (in lower case) the host name given for the client or one of those
  the resolver knows for the address.\<close>

theorem ipl_inList_covers:
  assumes "inet_aton nl (cstr ipstr) = Some ip"
  shows "(\<exists>h. ipl_inList nl reverse log ipstr host (ifsreadIPMelangeList nl e lines ipl_reset) = Some (True, h))
    \<longleftrightarrow> (\<exists>line \<in> set (ipl_effective e lines). item_covers (classify_ip nl line) ip
      \<or> reverse \<and> classify_ip nl line = Unrecognised
        \<and> toLower line \<in> set (case host of None \<Rightarrow> ipToHostname nl (cstr ipstr) | Some h \<Rightarrow> [h]))"
proof -
  let ?l = "fold (ipl_add nl) (ipl_effective e lines) ipl_reset"
  have parts: "set (ipl_iplist ?l) = {a. \<exists>x \<in> set (ipl_effective e lines). classify_ip nl x = Straight a}"
    "set (ipl_iprangelist ?l) = {r. \<exists>x \<in> set (ipl_effective e lines). classify_ip nl x = Range r}"
    "set (ipl_ipsubnetlist ?l) = {s. \<exists>x \<in> set (ipl_effective e lines). classify_ip nl x = Subnet s}"
    "set (ipl_hostlist ?l) = {h. \<exists>x \<in> set (ipl_effective e lines). classify_ip nl x = Unrecognised \<and> h = toLower x}"
    by (simp_all add: ipl_fold_parts ipl_reset_def)
  have search: "std_binary_search (sort (ipl_iplist ?l)) ip \<longleftrightarrow> ip \<in> set (ipl_iplist ?l)"
    "std_binary_search (sort (ipl_hostlist ?l)) = (\<lambda>h. h \<in> set (ipl_hostlist ?l))"
    by (simp_all add: std_binary_search_iff fun_eq_iff)
  show ?thesis
    using assms
    by (auto simp: ipl_inList_def ifsreadIPMelangeList_def ipl_read_loop_fold Let_def list_ex_iff item_covers_iff
        search parts find_answer)
qed

theorem ipl_inList_covers_witness:
  "(\<exists>h. ipl_inList net_test True False ''10.0.0.1'' (Some ''pc.local'')
      (ifsreadIPMelangeList net_test None [''# hosts'', ''PC.local''] ipl_reset) = Some (True, h))
   \<and> (\<exists>h. ipl_inList net_test False False ''10.0.0.1'' None
      (ifsreadIPMelangeList net_test None [''# hosts'', ''10.0.0.1''] ipl_reset) = Some (True, h))"
proof -
  have c: "cstr ''10.0.0.1'' = ''10.0.0.1''" "cstr ''# hosts'' = ''# hosts''" "cstr ''PC.local'' = ''PC.local''"
    by (simp_all add: cstr_def nul_def)
  have a: "inet_aton net_test (cstr ''10.0.0.1'') = Some 0x0A000001" by (simp add: c net_test_def)
  have "classify_ip net_test ''10.0.0.1'' = Straight 0x0A000001" by (simp add: classify_ip_def net_test_def)
  moreover have "classify_ip net_test ''PC.local'' = Unrecognised" by (simp add: classify_ip_def net_test_def)
  moreover have "toLower ''PC.local'' = ''pc.local''" by code_simp
  ultimately show ?thesis
    using ipl_inList_covers [OF a, of False False None None "[''# hosts'', ''10.0.0.1'']"]
      ipl_inList_covers [OF a, of True False "Some ''pc.local''" None "[''# hosts'', ''PC.local'']"]
    by (simp add: c char_at_def)
qed

text \<open>the entry of a CIDR line with prefix length \<open>m\<close> covers exactly the addresses that agree
  with it in their first \<open>m\<close> bits, for every \<open>m\<close> from 0 to 32.\<close>

theorem cidr_same_prefix:
  assumes "\<not> rx nl matchIP line" and "\<not> rx nl matchSubnet line" and "rx nl matchCIDR line"
    and "inet_aton nl (before line ''/'') = Some addr" and "toInteger (after line ''/'') = m"
    and "0 \<le> m" and "m \<le> 32"
  shows "item_covers (classify_ip nl line) ip \<longleftrightarrow> drop_bit (nat (32 - m)) ip = drop_bit (nat (32 - m)) addr"
  using assms cidr_same_bits [OF assms(6,7), of ip addr]
  by (auto simp: classify_ip_def masked_def in_subnet_def)

theorem cidr_same_prefix_witness: "item_covers (classify_ip net_test ''10.0.0.1/8'') 0x0A090909"
proof -
  have "before ''10.0.0.1/8'' ''/'' = ''10.0.0.1''" "after ''10.0.0.1/8'' ''/'' = ''8''"
    by (simp_all add: before_def after_def)
  moreover have "toInteger ''8'' = 8" by code_simp
  moreover have "matchCIDR \<noteq> matchSubnet" "matchIP \<noteq> matchCIDR" by (simp_all add: matchCIDR_def matchSubnet_def matchIP_def rx_quad_def rx_octet_def)
  ultimately show ?thesis
    using cidr_same_prefix [of net_test "''10.0.0.1/8''" "0x0A000001" 8 "0x0A090909"]
    by (simp add: net_test_def)
qed


text \<open>a lookup in an address map answers with an entry for the address itself, else with a subnet
  that contains it, else with a range, and with nothing only when no entry covers it; the group is
  that of a special entry or the number of an existing filter group.\<close>

theorem getIPMapData_correct:
  assumes "inet_aton nl (removeWhiteSpace (cstr ip)) = Some a" and "m = ipmap_of_lines nl fgs ls"
  shows "(getIPMapData nl ip m = None \<longleftrightarrow>
      (\<forall>e \<in> set (ipmaplist m). im_addr e \<noteq> a) \<and> (\<forall>s \<in> set (ipmapsubnetlist m). \<not> in_subnet a (sub_net s))
      \<and> (\<forall>r \<in> set (ipmaprangelist m). \<not> in_range a (ran_range r)))
    \<and> (\<forall>g. getIPMapData nl ip m = Some g \<longrightarrow> g \<in> ipmap_groups m \<and> valid_group fgs g)
    \<and> (\<forall>e \<in> set (ipmaplist m). im_addr e = a \<longrightarrow> (\<exists>e' \<in> set (ipmaplist m). im_addr e' = a \<and> getIPMapData nl ip m = Some (im_group e')))"
proof -
  note ok = ipmap_of_lines_ok [of nl fgs ls, folded assms(2)]
  note cov = getIPMapData_covering [OF conjunct1 [OF ok] assms(1)]
  show ?thesis
  proof (cases "getIPMapData nl ip m")
    case None
    with cov show ?thesis by simp
  next
    case (Some g)
    with cov have "g \<in> ipmap_groups m" by (auto simp: ipmap_groups_def)
    with cov Some ok show ?thesis by auto
  qed
qed

theorem getIPMapData_correct_witness:
  "getIPMapData net_test ''10.0.0.1'' (ipmap_of_lines net_test 3 []) = None"
proof -
  have "cstr ''10.0.0.1'' = ''10.0.0.1''" "removeWhiteSpace ''10.0.0.1'' = ''10.0.0.1''"
    by (simp_all add: cstr_def nul_def removeWhiteSpace_def is_ws_def)
  then have "inet_aton net_test (removeWhiteSpace (cstr ''10.0.0.1'')) = Some 0x0A000001" by (simp add: net_test_def)
  from getIPMapData_correct [OF this refl, of 3 "[]"] show ?thesis
    by (simp add: ipmap_of_lines_def Let_def sort_ipmap_def stable_sort_def)
qed

text \<open>after the group labels of a map have been resolved, every entry keeps its key and has no
  group or the number of an existing one.\<close>

theorem normaliseDataMapGroups_valid:
  assumes "\<forall>g \<in> ran name_lookup. 1 \<le> g \<and> g \<le> fgs" and "fgs < 2 ^ 31" and "datamap_sorted ds"
  shows "let ds' = normaliseDataMapGroups fgs name_lookup True False ds in
    mset (map dm_key ds') = mset (map dm_key ds) \<and> datamap_sorted ds' \<and> (\<forall>e \<in> set ds'. valid_group fgs (dm_group e))"
proof -
  let ?ds = "map fst (map (normalise_entry fgs name_lookup) ds)"
  note ne = normalise_entry_valid [OF assms(1,2)]
  have keys: "map dm_key ?ds = map dm_key ds" using ne by simp
  have vals: "\<forall>e \<in> set ?ds. valid_group fgs (dm_group e)" using ne by auto
  have "mset (map dm_key (sort_datamap xs)) = mset (map dm_key xs)" for xs
    by (simp only: mset_map sort_datamap_def mset_stable_sort)
  from this [of ?ds] have "mset (map dm_key (sort_datamap ?ds)) = mset (map dm_key ds)" unfolding keys .
  moreover have "set (sort_datamap ?ds) = set ?ds" by (simp add: sort_datamap_def)
  ultimately have P1: "mset (map dm_key (sort_datamap ?ds)) = mset (map dm_key ds)
      \<and> datamap_sorted (sort_datamap ?ds) \<and> (\<forall>e \<in> set (sort_datamap ?ds). valid_group fgs (dm_group e))"
    using vals sort_datamap_sorted by metis
  have P2: "mset (map dm_key ?ds) = mset (map dm_key ds) \<and> datamap_sorted ?ds \<and> (\<forall>e \<in> set ?ds. valid_group fgs (dm_group e))"
    using vals assms(3) unfolding datamap_sorted_def keys by blast
  have "normaliseDataMapGroups fgs name_lookup True False ds \<in> {sort_datamap ?ds, ?ds}"
    by (simp add: normaliseDataMapGroups_def Let_def)
  then consider "normaliseDataMapGroups fgs name_lookup True False ds = sort_datamap ?ds"
    | "normaliseDataMapGroups fgs name_lookup True False ds = ?ds" by blast
  then show ?thesis
  proof cases
    case 1
    show ?thesis unfolding Let_def 1 by (rule P1)
  next
    case 2
    show ?thesis unfolding Let_def 2 by (rule P2)
  qed
qed

theorem normaliseDataMapGroups_valid_witness:
  "list_all (\<lambda>e. valid_group 3 (dm_group e))
     (normaliseDataMapGroups 3 [''staff'' \<mapsto> 2] True False [\<lparr>dm_key = ''kim'', dm_group = ''Staff''\<rparr>])"
  using normaliseDataMapGroups_valid [of "[''staff'' \<mapsto> 2]" 3 "[\<lparr>dm_key = ''kim'', dm_group = ''Staff''\<rparr>]"]
  by (simp add: Let_def datamap_sorted_def list_all_iff)

text \<open>digits anywhere in a label win over the name of a group: a group called \<open>year7\<close> that is
  number 3 is resolved to group 7.\<close>

theorem label_digits_beat_name: "resolve_group_number 10 [''year7'' \<mapsto> 3] ''Year7'' = 7"
  by code_simp

end
