(* ===== verification/Item_List.thy ===== *)
theory Item_List
  imports E2_String
begin

text \<open>
  The items of a \<^verbatim>\<open>ListContainer\<close> (\<^verbatim>\<open>src/src/ListContainer.cpp\<close>): sites, URLs, extensions
  and phrases are kept one after the other, each with a closing NUL, in one buffer \<^verbatim>\<open>data\<close>; the
  vector \<^verbatim>\<open>list\<close> has the offset of each item, and sorting permutes only the offsets. Plain
  \<^verbatim>\<open>char\<close> is signed, and so is the order of the items.

  The size \<^verbatim>\<open>data_memory\<close> of the buffer is the length of the list of its bytes. A write past
  the end of the buffer is undefined in C++: the operations that write return \<open>None\<close> there.

  The lemmas show that items are read back as they were written, that sorting permutes them into
  the order the binary search needs, that the exact search is then right, and what the searches
  for a beginning or an end find and miss.
\<close>

section \<open>The buffer\<close>

record item_store =
  data_buf :: string
  data_length :: nat
  offsets :: "nat list"
  lengthlist :: "nat list"
  items :: nat
  isSW :: bool
  issorted :: bool

definition item_store_new :: item_store where
  "item_store_new = \<lparr>data_buf = [], data_length = 0, offsets = [], lengthlist = [], items = 0,
     isSW = False, issorted = False\<rparr>"

definition data_memory :: "item_store \<Rightarrow> nat" where
  "data_memory s = length (data_buf s)"

definition increaseMemoryBy :: "nat \<Rightarrow> item_store \<Rightarrow> item_store" where
  "increaseMemoryBy bytes s =
     (if data_memory s > 0 then s\<lparr>data_buf := data_buf s @ replicate bytes nul\<rparr>
      else s\<lparr>data_buf := replicate bytes nul\<rparr>)"

definition write_bytes :: "nat \<Rightarrow> string \<Rightarrow> string \<Rightarrow> string option" where
  "write_bytes off bs buf =
     (if off + length bs \<le> length buf then Some (take off buf @ bs @ drop (off + length bs) buf) else None)"

definition addToItemList :: "string \<Rightarrow> item_store \<Rightarrow> item_store option" where
  "addToItemList str s =
     (case write_bytes (data_length s) (str @ [nul]) (data_buf s) of
        None \<Rightarrow> None
      | Some buf \<Rightarrow> Some (s\<lparr>data_buf := buf, offsets := offsets s @ [data_length s],
          lengthlist := lengthlist s @ [length str],
          data_length := data_length s + length str + 1, items := items s + 1\<rparr>))"

text \<open>The C string at an offset, and the items in the order of the offsets.\<close>

definition item_at :: "string \<Rightarrow> nat \<Rightarrow> string" where
  "item_at buf off = cstr (drop off buf)"

definition item_list :: "item_store \<Rightarrow> string list" where
  "item_list s = map (item_at (data_buf s)) (offsets s)"

definition getItemAtInt :: "nat \<Rightarrow> item_store \<Rightarrow> string" where
  "getItemAtInt index s = take (lengthlist s ! index) (drop (offsets s ! index) (data_buf s))"


section \<open>Comparators\<close>

text \<open>The comparison loop over the common length, byte by byte as signed characters.\<close>

fun cmp_schars :: "string \<Rightarrow> string \<Rightarrow> int" where
  "cmp_schars (a # as) (b # bs) =
     (if schar a > schar b then 1 else if schar a < schar b then - 1 else cmp_schars as bs)"
| "cmp_schars as bs = 0"

definition lessThanEWF :: "string \<Rightarrow> string \<Rightarrow> bool" where
  "lessThanEWF a b =
     (let c = cmp_schars (rev a) (rev b) in
      if c = 1 then True else if c = - 1 then False else length a > length b)"

definition lessThanSWF :: "string \<Rightarrow> string \<Rightarrow> bool" where
  "lessThanSWF a b =
     (let c = cmp_schars a b in
      if c = 1 then True else if c = - 1 then False else length a > length b)"

definition greaterThanEWF :: "string \<Rightarrow> string \<Rightarrow> int" where
  "greaterThanEWF a b =
     (let c = cmp_schars (rev a) (rev b) in
      if c \<noteq> 0 then c else if length a > length b then 1 else if length a < length b then - 1 else 0)"

definition greaterThanSWF :: "string \<Rightarrow> string \<Rightarrow> int" where
  "greaterThanSWF a b =
     (let c = cmp_schars a b in
      if c \<noteq> 0 then c else if length a > length b then 1 else if length a < length b then - 1 else 0)"

definition is_sep :: "char \<Rightarrow> bool" where
  "is_sep c = (c = CHR ''/'' \<or> c = CHR ''?'' \<or> c = CHR ''&'' \<or> c = CHR ''='')"

definition greaterThanSW :: "string \<Rightarrow> string \<Rightarrow> int" where
  "greaterThanSW a b =
     (let c = cmp_schars a b in
      if c \<noteq> 0 then c
      else if length a > length b \<and> \<not> is_sep (a ! length b) then 1
      else if length b > length a then - 1
      else 0)"

definition greaterThanEW :: "string \<Rightarrow> string \<Rightarrow> int" where
  "greaterThanEW a b =
     (let c = cmp_schars (rev a) (rev b) in
      if c \<noteq> 0 then c else if length b > length a then - 1 else 0)"


section \<open>Searching and sorting\<close>

function lc_search :: "(string \<Rightarrow> string \<Rightarrow> int) \<Rightarrow> string list \<Rightarrow> string \<Rightarrow> int \<Rightarrow> int \<Rightarrow> int" where
  "lc_search comparitor its p a s =
     (if a > s then - 1 - a
      else let m = (a + s) div 2; r = comparitor p (its ! nat m) in
        if r = 0 then m
        else if r = - 1 then lc_search comparitor its p (m + 1) s
        else if a = s then - 1 - a
        else lc_search comparitor its p a (m - 1))"
  by pat_completeness auto
termination
  by (relation "measure (\<lambda>(c, its, p, a, s). nat (s - a + 1))") auto

declare lc_search.simps [simp del]

text \<open>The search over all items of a store.\<close>

definition search_items :: "(string \<Rightarrow> string \<Rightarrow> int) \<Rightarrow> string \<Rightarrow> item_store \<Rightarrow> int" where
  "search_items comparitor p s = lc_search comparitor (item_list s) p 0 (int (items s) - 1)"

definition doSort_items :: "bool \<Rightarrow> item_store \<Rightarrow> item_store" where
  "doSort_items starts s =
     (if items s < 2 \<or> issorted s then s
      else if starts then
        s\<lparr>offsets := stable_sort (\<lambda>i j. lessThanSWF (item_at (data_buf s) i) (item_at (data_buf s) j)) (offsets s),
          isSW := True, issorted := True\<rparr>
      else
        s\<lparr>offsets := stable_sort (\<lambda>i j. lessThanEWF (item_at (data_buf s) i) (item_at (data_buf s) j)) (offsets s),
          isSW := False, issorted := True\<rparr>)"

text \<open>\<^verbatim>\<open>findInList\<close>, \<^verbatim>\<open>findStartsWith\<close>, \<^verbatim>\<open>findStartsWithPartial\<close> and
  \<^verbatim>\<open>findEndsWith\<close> on the items of one list: the item the returned pointer points to.\<close>

definition find_item :: "string \<Rightarrow> item_store \<Rightarrow> string option" where
  "find_item p s =
     (if items s > 0 then
        let r = (if isSW s then search_items greaterThanSWF p s else search_items greaterThanEWF p s)
        in if r \<ge> 0 then Some (item_list s ! nat r) else None
      else None)"

definition find_starts :: "string \<Rightarrow> item_store \<Rightarrow> string option" where
  "find_starts p s =
     (if items s > 0 then
        let r = search_items greaterThanSW p s in if r \<ge> 0 then Some (item_list s ! nat r) else None
      else None)"

definition find_starts_partial :: "string \<Rightarrow> item_store \<Rightarrow> string option" where
  "find_starts_partial p s =
     (if items s > 0 then
        let r = search_items greaterThanSW p s in
        if r \<ge> 0 then Some (item_list s ! nat r)
        else if r < - 1 then Some (item_list s ! nat (0 - r - 2))
        else None
      else None)"

definition find_ends :: "string \<Rightarrow> item_store \<Rightarrow> string option" where
  "find_ends p s =
     (if items s > 0 then
        let r = search_items greaterThanEW p s in if r \<ge> 0 then Some (item_list s ! nat r) else None
      else None)"

fun self_check_count :: "item_store \<Rightarrow> string list \<Rightarrow> nat" where
  "self_check_count s [] = 0"
| "self_check_count s (x # xs) =
     (let r = (if isSW s then search_items greaterThanSWF x s else search_items greaterThanEWF x s)
      in (if r \<ge> 0 then 1 else 0) + self_check_count s xs)"

definition self_check :: "item_store \<Rightarrow> bool" where
  "self_check s =
     (if length (offsets s) > 0 then self_check_count s (item_list s) < length (offsets s) else True)"


section \<open>The order of the items\<close>

lemma cmp_schars_cases:
  "cmp_schars a b = 0 \<Longrightarrow> prefix a b \<or> prefix b a"
  "cmp_schars a b \<noteq> 0 \<Longrightarrow> (cmp_schars a b = 1 \<and> map schar b < map schar a \<or> cmp_schars a b = - 1 \<and> map schar a < map schar b)
     \<and> \<not> prefix a b \<and> \<not> prefix b a"
  by (induction a b rule: cmp_schars.induct) (auto simp: schar_inj split: if_splits)

lemma map_schar_inj: "map schar a = map schar b \<longleftrightarrow> a = b"
  using inj_map_eq_map [of schar a b] by (auto simp: inj_def schar_inj)

lemma prefix_schar_less: "prefix a b \<Longrightarrow> a \<noteq> b \<Longrightarrow> map schar a < map schar b"
proof -
  assume "prefix a b" "a \<noteq> b"
  then obtain zs where "b = a @ zs" "zs \<noteq> []" by (auto simp: prefix_def)
  then obtain c cs where b: "b = a @ c # cs" by (cases zs) auto
  show ?thesis unfolding b by (induction a) auto
qed

lemma prefix_length_less: "prefix a b \<Longrightarrow> a \<noteq> b \<Longrightarrow> length a < length b"
  by (auto simp: prefix_def)

lemma greaterThanSWF_order:
  "greaterThanSWF a b = (if a = b then 0 else if map schar b < map schar a then 1 else - 1)"
proof (cases "cmp_schars a b = 0")
  case True
  then consider "a = b" | "prefix a b" "a \<noteq> b" | "prefix b a" "a \<noteq> b" using cmp_schars_cases(1) by blast
  then show ?thesis
  proof cases
    case 2
    with True prefix_schar_less [of a b] prefix_length_less [of a b] show ?thesis
      by (auto simp: greaterThanSWF_def)
  next
    case 3
    with True prefix_schar_less [of b a] prefix_length_less [of b a] show ?thesis
      by (auto simp: greaterThanSWF_def)
  qed (use True in \<open>simp add: greaterThanSWF_def\<close>)
next
  case False
  then show ?thesis using cmp_schars_cases(2) [OF False] by (auto simp: greaterThanSWF_def)
qed

lemma greaterThanEWF_rev: "greaterThanEWF a b = greaterThanSWF (rev a) (rev b)"
  by (simp add: greaterThanEWF_def greaterThanSWF_def)

lemma lessThanSWF_order: "lessThanSWF a b \<longleftrightarrow> map schar b < map schar a"
proof -
  have "lessThanSWF a b \<longleftrightarrow> greaterThanSWF a b = 1"
    using cmp_schars_cases(2) [of a b] by (auto simp: lessThanSWF_def greaterThanSWF_def Let_def)
  then show ?thesis by (auto simp: greaterThanSWF_order)
qed

lemma lessThanEWF_rev: "lessThanEWF a b = lessThanSWF (rev a) (rev b)"
  by (simp add: lessThanEWF_def lessThanSWF_def)

text \<open>What the partial comparators accept.\<close>

definition url_begins :: "string \<Rightarrow> string \<Rightarrow> bool" where
  "url_begins p b \<longleftrightarrow> prefix b p \<and> (length b < length p \<longrightarrow> is_sep (p ! length b))"

lemma greaterThanSW_order:
  "greaterThanSW p b = (if url_begins p b then 0 else if map schar b < map schar p then 1 else - 1)"
proof (cases "cmp_schars p b = 0")
  case True
  then consider "p = b" | "prefix p b" "p \<noteq> b" | "prefix b p" "p \<noteq> b" using cmp_schars_cases(1) by blast
  then show ?thesis
  proof cases
    case 1
    with True show ?thesis by (simp add: greaterThanSW_def url_begins_def)
  next
    case 2
    then have "\<not> prefix b p" by (metis prefix_order.antisym)
    with 2 True prefix_schar_less [of p b] prefix_length_less [of p b] show ?thesis
      by (auto simp: greaterThanSW_def url_begins_def)
  next
    case 3
    with True prefix_schar_less [of b p] prefix_length_less [of b p] show ?thesis
      by (auto simp: greaterThanSW_def url_begins_def)
  qed
next
  case False
  then show ?thesis using cmp_schars_cases(2) [OF False] by (auto simp: greaterThanSW_def url_begins_def)
qed

lemma greaterThanEW_order:
  "greaterThanEW p b = (if suffix b p then 0 else if map schar (rev b) < map schar (rev p) then 1 else - 1)"
proof (cases "cmp_schars (rev p) (rev b) = 0")
  case True
  then consider "prefix (rev p) (rev b)" "p \<noteq> b" | "prefix (rev b) (rev p)"
    using cmp_schars_cases(1) [OF True] by blast
  then show ?thesis
  proof cases
    case 1
    then have "\<not> suffix b p" by (metis prefix_order.antisym rev_swap suffix_to_prefix rev_rev_ident)
    with 1 True prefix_schar_less [of "rev p" "rev b"] prefix_length_less [of "rev p" "rev b"] show ?thesis
      by (auto simp: greaterThanEW_def)
  next
    case 2
    then show ?thesis using True prefix_length_le [OF 2] by (auto simp: greaterThanEW_def suffix_to_prefix)
  qed
next
  case False
  then show ?thesis
    using cmp_schars_cases(2) [OF False] by (auto simp: greaterThanEW_def suffix_to_prefix)
qed


section \<open>The searches\<close>

text \<open>A comparator for \<^verbatim>\<open>search\<close>: the code tests its result for 0 and for -1 only.\<close>

locale item_cmp =
  fixes cmpf :: "string \<Rightarrow> string \<Rightarrow> int"
  assumes cmp_range: "cmpf a b = - 1 \<or> cmpf a b = 0 \<or> cmpf a b = 1"

sublocale item_cmp \<subseteq> ls: bin_search "lc_search cmpf its p" "\<lambda>m. cmpf p (its ! nat m)" "\<lambda>m. m" "\<lambda>q. - 1 - q"
  for its p
proof unfold_locales
  fix its p and a s :: int
  have "cmpf p x = - 1 \<longleftrightarrow> cmpf p x < 0" for x using cmp_range [of p x] by auto
  then show "lc_search cmpf its p a s =
    (if a > s then - 1 - a
     else let m = (a + s) div 2 in
       if cmpf p (its ! nat m) = 0 then m
       else if cmpf p (its ! nat m) < 0 then lc_search cmpf its p (m + 1) s
       else if a = s then - 1 - a
       else lc_search cmpf its p a (m - 1))"
    by (subst lc_search.simps) (simp add: Let_def)
qed

context item_cmp
begin

lemma search_sound:
  assumes "lc_search cmpf its p 0 (int (length its) - 1) = r" and "r \<ge> 0"
  shows "nat r < length its \<and> cmpf p (its ! nat r) = 0"
  using assms by (cases rule: ls.srch_nat_sound [of "length its" p its]) auto

lemma search_exact:
  assumes "\<And>i j. i < j \<Longrightarrow> j < length its \<Longrightarrow> cmpf p (its ! j) < 0 \<Longrightarrow> cmpf p (its ! i) < 0"
    and "\<And>i j. i < j \<Longrightarrow> j < length its \<Longrightarrow> cmpf p (its ! i) > 0 \<Longrightarrow> cmpf p (its ! j) > 0"
  shows "lc_search cmpf its p 0 (int (length its) - 1) \<ge> 0 \<longleftrightarrow> (\<exists>x \<in> set its. cmpf p x = 0)"
proof (rule ls.srch_nat_exact [of "length its" p its], unfold nat_int)
  fix k assume "k < length its" "cmpf p (its ! k) = 0" "lc_search cmpf its p 0 (int (length its) - 1) = int k"
  then show ?thesis by auto
next
  fix q assume q: "lc_search cmpf its p 0 (int (length its) - 1) = - 1 - int q"
    "\<forall>i<q. cmpf p (its ! i) < 0" "\<forall>i. q \<le> i \<and> i < length its \<longrightarrow> cmpf p (its ! i) > 0"
  have "cmpf p x \<noteq> 0" if "x \<in> set its" for x
  proof -
    from that obtain i where "i < length its" "x = its ! i" by (auto simp: in_set_conv_nth)
    moreover have "cmpf p (its ! i) < 0 \<or> cmpf p (its ! i) > 0"
      using q(2,3) \<open>i < length its\<close> by (meson not_le)
    ultimately show ?thesis by auto
  qed
  with q(1) show ?thesis by auto
qed (use assms in auto)

end

interpretation swf: item_cmp greaterThanSWF
  by unfold_locales (simp add: greaterThanSWF_order)

interpretation ewf: item_cmp greaterThanEWF
  by unfold_locales (simp add: greaterThanEWF_rev greaterThanSWF_order)

interpretation sw: item_cmp greaterThanSW
  by unfold_locales (simp add: greaterThanSW_order)

interpretation ew: item_cmp greaterThanEW
  by unfold_locales (simp add: greaterThanEW_order)


section \<open>Writing and sorting\<close>

definition item_ok :: "string \<Rightarrow> nat \<Rightarrow> nat \<Rightarrow> bool" where
  "item_ok buf dl off \<longleftrightarrow> (\<exists>w. nul_free w \<and> prefix (w @ [nul]) (drop off buf) \<and> off + length w + 1 \<le> dl)"

definition store_inv :: "item_store \<Rightarrow> bool" where
  "store_inv s \<longleftrightarrow> items s = length (offsets s) \<and> items s = length (lengthlist s)
     \<and> data_length s \<le> data_memory s \<and> (\<forall>off \<in> set (offsets s). item_ok (data_buf s) (data_length s) off)"

lemma item_store_new_inv: "store_inv item_store_new \<and> item_list item_store_new = []"
  by (simp add: store_inv_def item_store_new_def data_memory_def item_list_def)

lemma item_at_prefix: "nul_free w \<Longrightarrow> prefix (w @ [nul]) (drop off buf) \<Longrightarrow> item_at buf off = w"
  unfolding item_at_def prefix_def by (auto simp: cstr_append_nul)

lemma prefix_drop_kept:
  assumes "prefix u (drop off buf)" and "off + length u \<le> n" and "take n buf' = take n buf"
  shows "prefix u (drop off buf')"
proof -
  have "take (length u) (drop off buf) = u" using assms(1) by (auto simp: prefix_def)
  moreover have "take (off + length u) buf' = take (off + length u) buf"
    using assms(2,3) by (metis min.absorb1 take_take)
  ultimately have "take (length u) (drop off buf') = u" by (simp add: take_drop add.commute)
  then show ?thesis by (metis take_is_prefix)
qed

lemma item_ok_kept:
  assumes "item_ok buf dl off" and "take dl buf' = take dl buf" and "dl \<le> dl'"
  shows "item_ok buf' dl' off \<and> item_at buf' off = item_at buf off"
proof -
  from assms(1) obtain w where w: "nul_free w" "prefix (w @ [nul]) (drop off buf)" "off + length w + 1 \<le> dl"
    by (auto simp: item_ok_def)
  have "prefix (w @ [nul]) (drop off buf')" by (rule prefix_drop_kept [OF w(2) _ assms(2)]) (use w(3) in simp)
  with w assms(3) show ?thesis by (auto simp: item_ok_def item_at_prefix intro!: exI [of _ w])
qed

lemma addToItemList_ok:
  assumes "store_inv s" and "nul_free str" and "addToItemList str s = Some s'"
  shows "store_inv s'" and "item_list s' = item_list s @ [str]" and "data_memory s' = data_memory s"
    and "data_length s' = data_length s + length str + 1"
proof -
  let ?n = "data_length s"
  from assms(3) obtain buf where b: "write_bytes ?n (str @ [nul]) (data_buf s) = Some buf"
    and s': "s' = s\<lparr>data_buf := buf, offsets := offsets s @ [?n], lengthlist := lengthlist s @ [length str],
      data_length := ?n + length str + 1, items := items s + 1\<rparr>"
    by (auto simp: addToItemList_def split: option.splits)
  have le: "?n + length str + 1 \<le> data_memory s"
    and buf: "buf = take ?n (data_buf s) @ (str @ [nul]) @ drop (?n + length str + 1) (data_buf s)"
    using b by (auto simp: write_bytes_def data_memory_def split: if_splits)
  have len: "length buf = data_memory s" and tk: "take ?n buf = take ?n (data_buf s)"
    and dr: "prefix (str @ [nul]) (drop ?n buf)"
    using le unfolding buf by (auto simp: data_memory_def min_def)
  have old: "item_ok buf (?n + length str + 1) off \<and> item_at buf off = item_at (data_buf s) off"
    if "off \<in> set (offsets s)" for off
    using assms(1) that tk by (intro item_ok_kept [of _ ?n]) (auto simp: store_inv_def)
  have new: "item_ok buf (?n + length str + 1) ?n" using dr assms(2) by (auto simp: item_ok_def)
  show "store_inv s'"
    using assms(1) old new len le unfolding s' by (auto simp: store_inv_def data_memory_def)
  show "item_list s' = item_list s @ [str]"
    using old item_at_prefix [OF assms(2) dr] unfolding s' by (simp add: item_list_def)
  show "data_memory s' = data_memory s" "data_length s' = ?n + length str + 1"
    using len unfolding s' by (simp_all add: data_memory_def)
qed

lemma addToItemList_None: "addToItemList str s = None \<longleftrightarrow> data_length s + length str + 1 > data_memory s"
  by (auto simp: addToItemList_def write_bytes_def data_memory_def split: option.splits)

lemma increaseMemoryBy_ok:
  assumes "store_inv s"
  shows "store_inv (increaseMemoryBy n s)" and "item_list (increaseMemoryBy n s) = item_list s"
    and "data_memory (increaseMemoryBy n s) = data_memory s + n" and "data_length (increaseMemoryBy n s) = data_length s"
proof -
  have b: "increaseMemoryBy n s = s\<lparr>data_buf := data_buf s @ replicate n nul\<rparr>"
    by (auto simp: increaseMemoryBy_def data_memory_def)
  have old: "item_ok (data_buf s @ replicate n nul) (data_length s) off
      \<and> item_at (data_buf s @ replicate n nul) off = item_at (data_buf s) off" if "off \<in> set (offsets s)" for off
    using assms that by (intro item_ok_kept [of _ "data_length s"]) (auto simp: store_inv_def data_memory_def)
  show "store_inv (increaseMemoryBy n s)" using assms old by (auto simp: b store_inv_def data_memory_def)
  show "item_list (increaseMemoryBy n s) = item_list s" using old by (simp add: b item_list_def)
  show "data_memory (increaseMemoryBy n s) = data_memory s + n" "data_length (increaseMemoryBy n s) = data_length s"
    by (simp_all add: b data_memory_def)
qed


text \<open>The order established by sorting: descending in the signed bytes, from the front or the back.\<close>

definition item_key :: "bool \<Rightarrow> string \<Rightarrow> int list" where
  "item_key starts x = map schar (if starts then x else rev x)"

definition items_sorted :: "bool \<Rightarrow> string list \<Rightarrow> bool" where
  "items_sorted starts xs \<longleftrightarrow> sorted_wrt (\<lambda>a b. item_key starts b \<le> item_key starts a) xs"

lemma map_stable_sort:
  "map f (stable_sort (\<lambda>i j. lt (f i) (f j)) xs) = stable_sort lt (map f xs)"
proof -
  have "map f (stable_insert (\<lambda>i j. lt (f i) (f j)) x ys) = stable_insert lt (f x) (map f ys)" for x ys
    by (induction ys) auto
  then show ?thesis by (induction xs) (simp_all add: stable_sort_def)
qed

lemma item_list_doSort:
  "2 \<le> items s \<Longrightarrow> \<not> issorted s \<Longrightarrow>
     item_list (doSort_items starts s) = stable_sort (\<lambda>a b. item_key starts b < item_key starts a) (item_list s)"
  by (auto simp: doSort_items_def item_list_def map_stable_sort lessThanEWF_rev lessThanSWF_order item_key_def
      map_stable_sort [where lt = "\<lambda>a b. map schar b < map schar a"]
      map_stable_sort [where lt = "\<lambda>a b. map schar (rev b) < map schar (rev a)"])

lemma doSort_ok:
  fixes starts :: bool
  assumes "store_inv s" and "\<not> issorted s"
  defines "s' \<equiv> doSort_items starts s"
  shows "store_inv s'" and "mset (item_list s') = mset (item_list s)" and "items_sorted starts (item_list s')"
    and "2 \<le> items s \<Longrightarrow> isSW s' = starts"
proof -
  show "store_inv s'" using assms(1) by (auto simp: s'_def doSort_items_def store_inv_def data_memory_def)
  show "mset (item_list s') = mset (item_list s)"
  proof (cases "2 \<le> items s")
    case True
    with assms(2) show ?thesis by (simp add: s'_def item_list_doSort)
  qed (simp add: s'_def doSort_items_def)
  show "items_sorted starts (item_list s')"
  proof (cases "2 \<le> items s")
    case True
    have "ordered_by (\<lambda>a b. item_key starts b < item_key starts a)
        (stable_sort (\<lambda>a b. item_key starts b < item_key starts a) (item_list s))"
      by (rule ordered_by_stable_sort) auto
    with True assms(2) show ?thesis by (simp add: s'_def item_list_doSort items_sorted_def not_less)
  next
    case False
    then have "length (item_list s') < 2"
      using assms(1) by (simp add: s'_def doSort_items_def item_list_def store_inv_def)
    then show ?thesis by (cases "item_list s'") (auto simp: items_sorted_def)
  qed
  show "2 \<le> items s \<Longrightarrow> isSW s' = starts" using assms(2) by (simp add: s'_def doSort_items_def)
qed

lemma items_sorted_nth:
  "items_sorted starts xs \<Longrightarrow> i < j \<Longrightarrow> j < length xs \<Longrightarrow> item_key starts (xs ! j) \<le> item_key starts (xs ! i)"
  by (auto simp: items_sorted_def sorted_wrt_iff_nth_less)

lemma search_full:
  assumes "items_sorted starts xs"
  shows "lc_search (if starts then greaterThanSWF else greaterThanEWF) xs p 0 (int (length xs) - 1) \<ge> 0 \<longleftrightarrow> p \<in> set xs"
proof -
  note mono = items_sorted_nth [OF assms]
  show ?thesis
  proof (cases starts)
    case True
    have "lc_search greaterThanSWF xs p 0 (int (length xs) - 1) \<ge> 0 \<longleftrightarrow> (\<exists>x \<in> set xs. greaterThanSWF p x = 0)"
      by (rule swf.search_exact; drule (1) mono; unfold greaterThanSWF_order)
        (use True in \<open>auto simp: item_key_def map_schar_inj split: if_splits\<close>)
    with True show ?thesis by (auto simp: greaterThanSWF_order split: if_splits)
  next
    case False
    have "lc_search greaterThanEWF xs p 0 (int (length xs) - 1) \<ge> 0 \<longleftrightarrow> (\<exists>x \<in> set xs. greaterThanEWF p x = 0)"
      by (rule ewf.search_exact; drule (1) mono; unfold greaterThanEWF_rev greaterThanSWF_order)
        (use False in \<open>auto simp: item_key_def map_schar_inj split: if_splits\<close>)
    with False show ?thesis by (auto simp: greaterThanEWF_rev greaterThanSWF_order split: if_splits)
  qed
qed


lemma length_item_list: "store_inv s \<Longrightarrow> length (item_list s) = items s"
  by (simp add: item_list_def store_inv_def)

text \<open>A list that is in the order its flag says, as after sorting.\<close>

definition searchable :: "item_store \<Rightarrow> bool" where
  "searchable s \<longleftrightarrow> store_inv s \<and> (items s < 2 \<or> items_sorted (isSW s) (item_list s))"

lemma searchable_sorted: "searchable s \<Longrightarrow> items_sorted (isSW s) (item_list s)"
proof -
  assume s: "searchable s"
  show ?thesis
  proof (cases "items s < 2")
    case True
    with s have "length (item_list s) < 2" by (simp add: searchable_def length_item_list)
    then show ?thesis by (cases "item_list s") (auto simp: items_sorted_def)
  qed (use s in \<open>simp add: searchable_def\<close>)
qed

lemma doSort_searchable:
  assumes "store_inv s" and "\<not> issorted s"
  shows "searchable (doSort_items starts s)"
proof (cases "2 \<le> items s")
  case True
  with doSort_ok [OF assms, of starts] show ?thesis by (simp add: searchable_def)
next
  case False
  then show ?thesis using assms(1) by (simp add: searchable_def doSort_items_def)
qed

lemma find_item_exact:
  assumes "searchable s"
  shows "find_item p s = (if p \<in> set (item_list s) then Some p else None)"
proof -
  have inv: "store_inv s" and len: "int (items s) = int (length (item_list s))"
    using assms by (simp_all add: searchable_def length_item_list)
  let ?c = "if isSW s then greaterThanSWF else greaterThanEWF"
  let ?r = "lc_search ?c (item_list s) p 0 (int (items s) - 1)"
  have f: "find_item p s = (if items s > 0 then if ?r \<ge> 0 then Some (item_list s ! nat ?r) else None else None)"
    by (simp add: find_item_def search_items_def)
  have r: "?r \<ge> 0 \<longleftrightarrow> p \<in> set (item_list s)"
    using search_full [OF searchable_sorted [OF assms], of p] unfolding len .
  have "item_list s ! nat ?r = p" if r0: "?r \<ge> 0"
  proof (cases "isSW s")
    case True
    have "greaterThanSWF p (item_list s ! nat ?r) = 0"
      using swf.search_sound [OF _ r0, of "item_list s" p] True len by simp
    then show ?thesis by (simp add: greaterThanSWF_order split: if_splits)
  next
    case False
    have "greaterThanEWF p (item_list s ! nat ?r) = 0"
      using ewf.search_sound [OF _ r0, of "item_list s" p] False len by simp
    then show ?thesis by (simp add: greaterThanEWF_rev greaterThanSWF_order split: if_splits)
  qed
  moreover have "items s > 0" if "p \<in> set (item_list s)"
    using that len by (cases "item_list s") auto
  ultimately show ?thesis using r by (auto simp: f)
qed

lemma find_starts_sound:
  assumes "store_inv s" and "find_starts p s = Some b"
  shows "b \<in> set (item_list s) \<and> url_begins p b"
  using assms sw.search_sound [of "item_list s" p] length_item_list [OF assms(1)]
  by (auto simp: find_starts_def search_items_def greaterThanSW_order Let_def split: if_splits)

lemma find_ends_sound:
  assumes "store_inv s" and "find_ends p s = Some b"
  shows "b \<in> set (item_list s) \<and> suffix b p"
  using assms ew.search_sound [of "item_list s" p] length_item_list [OF assms(1)]
  by (auto simp: find_ends_def search_items_def greaterThanEW_order Let_def split: if_splits)

text \<open>Between a beginning of a text and the text itself there are only texts with that beginning.\<close>

lemma prefix_between:
  "prefix b p \<Longrightarrow> map schar b \<le> map schar x \<Longrightarrow> map schar x < map schar p \<Longrightarrow> prefix b x"
proof (induction b arbitrary: p x)
  case (Cons c b)
  from Cons.prems(1) obtain p' where p: "p = c # p'" "prefix b p'" by (auto simp: prefix_def)
  obtain d x' where x: "x = d # x'" using Cons.prems(2) by (cases x) auto
  have "schar d = schar c" using Cons.prems(2,3) p x by auto
  then have "d = c" by (simp add: schar_inj)
  with Cons p x show ?case by auto
qed simp

lemma find_starts_complete:
  assumes "store_inv s" and srt: "items_sorted True (item_list s)"
    and b: "b \<in> set (item_list s)" "url_begins p b"
    and solo: "\<forall>x \<in> set (item_list s). \<forall>y \<in> set (item_list s). url_begins p x \<and> prefix x y \<longrightarrow> y = x"
  shows "\<exists>b'. find_starts p s = Some b'"
proof -
  let ?xs = "item_list s"
  note mono = items_sorted_nth [OF srt, unfolded item_key_def if_True]
  have "lc_search greaterThanSW ?xs p 0 (int (length ?xs) - 1) \<ge> 0 \<longleftrightarrow> (\<exists>x \<in> set ?xs. greaterThanSW p x = 0)"
  proof (rule sw.search_exact)
    fix i j assume ij: "i < j" "j < length ?xs"
    show "greaterThanSW p (?xs ! i) < 0" if "greaterThanSW p (?xs ! j) < 0"
    proof -
      have "map schar p \<le> map schar (?xs ! j)" "\<not> url_begins p (?xs ! j)"
        using that by (auto simp: greaterThanSW_order split: if_splits)
      moreover have "map schar p \<noteq> map schar (?xs ! j)"
        using calculation(2) by (auto simp: map_schar_inj url_begins_def)
      ultimately have lt: "map schar p < map schar (?xs ! i)" using mono [OF ij] by order
      then have "\<not> prefix (?xs ! i) p" using prefix_schar_less [of "?xs ! i" p] by (metis less_asym less_irrefl)
      with lt show ?thesis by (auto simp: greaterThanSW_order url_begins_def)
    qed
    show "greaterThanSW p (?xs ! j) > 0" if "greaterThanSW p (?xs ! i) > 0"
    proof -
      have lt: "map schar (?xs ! i) < map schar p" "\<not> url_begins p (?xs ! i)"
        using that by (auto simp: greaterThanSW_order split: if_splits)
      then have lt': "map schar (?xs ! j) < map schar p" using mono [OF ij] by order
      have "\<not> url_begins p (?xs ! j)"
      proof
        assume u: "url_begins p (?xs ! j)"
        then have "prefix (?xs ! j) (?xs ! i)"
          using prefix_between [OF _ mono [OF ij] lt(1)] by (simp add: url_begins_def)
        with u solo ij have "?xs ! i = ?xs ! j" by (meson nth_mem order_less_trans)
        with u lt(2) show False by simp
      qed
      with lt' show ?thesis by (simp add: greaterThanSW_order)
    qed
  qed
  moreover have "items s = length ?xs" "?xs \<noteq> []" using assms(1) b length_item_list by auto
  ultimately show ?thesis using b by (auto simp: find_starts_def search_items_def greaterThanSW_order)
qed


section \<open>Properties\<close>

text \<open>A list of the given items with enough memory for them, as the reading code builds it.\<close>

fun add_items :: "string list \<Rightarrow> item_store \<Rightarrow> item_store option" where
  "add_items [] s = Some s"
| "add_items (x # xs) s = (case addToItemList x s of None \<Rightarrow> None | Some s' \<Rightarrow> add_items xs s')"

lemma add_items_ok:
  "store_inv s \<Longrightarrow> list_all (\<lambda>x. nul_free x) xs \<Longrightarrow> data_length s + sum_list (map (\<lambda>x. length x + 1) xs) \<le> data_memory s \<Longrightarrow>
   \<exists>s'. add_items xs s = Some s' \<and> store_inv s' \<and> item_list s' = item_list s @ xs \<and> issorted s' = issorted s"
proof (induction xs arbitrary: s)
  case (Cons x xs)
  then have "addToItemList x s \<noteq> None" by (simp add: addToItemList_None)
  then obtain t where t: "addToItemList x s = Some t" by auto
  note ok = addToItemList_ok [OF Cons.prems(1) _ t]
  have "issorted t = issorted s" using t by (auto simp: addToItemList_def split: option.splits)
  with Cons.IH [of t] Cons.prems ok t show ?case by simp
qed simp

text \<open>items that fit the memory are all written without a fault, and after sorting, in either
  order, a search finds a text exactly when it was written.\<close>

theorem sorted_list_lookup:
  assumes "list_all (\<lambda>x. nul_free x) xs" and "sum_list (map (\<lambda>x. length x + 1) xs) \<le> n"
  shows "\<exists>s. add_items xs (increaseMemoryBy n item_store_new) = Some s \<and> item_list s = xs
    \<and> mset (item_list (doSort_items starts s)) = mset xs
    \<and> find_item p (doSort_items starts s) = (if p \<in> set xs then Some p else None)"
proof -
  let ?e = "increaseMemoryBy n item_store_new"
  have e: "store_inv ?e" "item_list ?e = []" "data_length ?e = 0" "data_memory ?e = n" "\<not> issorted ?e"
    using increaseMemoryBy_ok [OF conjunct1 [OF item_store_new_inv], of n] item_store_new_inv
    by (auto simp: item_store_new_def data_memory_def increaseMemoryBy_def)
  with add_items_ok [of ?e xs] assms obtain s where s: "add_items xs ?e = Some s" "store_inv s" "item_list s = xs" "\<not> issorted s"
    by auto
  have m: "mset (item_list (doSort_items starts s)) = mset xs" using doSort_ok(2) [OF s(2,4)] s(3) by simp
  then have "set (item_list (doSort_items starts s)) = set xs" by (rule mset_eq_setD)
  with s m find_item_exact [OF doSort_searchable [OF s(2,4)], of p starts] show ?thesis by auto
qed

theorem sorted_list_lookup_witness:
  "\<exists>s. add_items [''b.org'', ''a.com''] (increaseMemoryBy 20 item_store_new) = Some s
    \<and> find_item ''a.com'' (doSort_items False s) = Some ''a.com''"
  using sorted_list_lookup [of "[''b.org'', ''a.com'']" 20 False "''a.com''"] by (auto simp: nul_def)

text \<open>A list of a few items.\<close>

definition store_of :: "string list \<Rightarrow> item_store" where
  "store_of xs = the (add_items xs (increaseMemoryBy 80 item_store_new))"

lemma store_of_items:
  assumes "list_all (\<lambda>x. nul_free x) xs" and "sum_list (map (\<lambda>x. length x + 1) xs) \<le> 80"
  shows "store_inv (store_of xs)" and "item_list (store_of xs) = xs" and "\<not> issorted (store_of xs)"
    and "items (store_of xs) = length xs"
proof -
  have e: "store_inv (increaseMemoryBy 80 item_store_new)" "item_list (increaseMemoryBy 80 item_store_new) = []"
    "data_length (increaseMemoryBy 80 item_store_new) = 0" "data_memory (increaseMemoryBy 80 item_store_new) = 80"
    "\<not> issorted (increaseMemoryBy 80 item_store_new)"
    using increaseMemoryBy_ok [OF conjunct1 [OF item_store_new_inv], of 80] item_store_new_inv
    by (auto simp: item_store_new_def data_memory_def increaseMemoryBy_def)
  then obtain t where t: "store_of xs = t" "store_inv t" "item_list t = xs" "\<not> issorted t"
    using add_items_ok [OF e(1), of xs] assms by (auto simp: store_of_def)
  then show "store_inv (store_of xs)" "item_list (store_of xs) = xs" "\<not> issorted (store_of xs)"
    "items (store_of xs) = length xs" using length_item_list [of t] by auto
qed

definition nested_list :: item_store where
  "nested_list = doSort_items True (store_of [''e.com/foo/bar'', ''e.com/foo''])"

lemma nested_list_items:
  "store_inv nested_list" "item_list nested_list = [''e.com/foo/bar'', ''e.com/foo'']" "items nested_list = 2"
proof -
  let ?s = "store_of [''e.com/foo/bar'', ''e.com/foo'']"
  have s: "store_inv ?s" "item_list ?s = [''e.com/foo/bar'', ''e.com/foo'']" "\<not> issorted ?s" "items ?s = 2"
    using store_of_items [of "[''e.com/foo/bar'', ''e.com/foo'']"] by (simp_all add: nul_def)
  show "store_inv nested_list" unfolding nested_list_def using s by (intro doSort_ok(1)) auto
  show "item_list nested_list = [''e.com/foo/bar'', ''e.com/foo'']"
    using s by (simp add: nested_list_def item_list_doSort stable_sort_def item_key_def schar_def)
  show "items nested_list = 2" using s by (simp add: nested_list_def doSort_items_def)
qed

lemma nested_list_find:
  "find_starts ''e.com/foo/bar?x'' nested_list = Some ''e.com/foo/bar''"
  "find_starts ''e.com/foo/zzz'' nested_list = None"
  by (simp_all add: find_starts_def search_items_def nested_list_items lc_search.simps greaterThanSW_def
      schar_def is_sep_def Let_def)

text \<open>what the search for a beginning returns is an item of the list that begins the text and ends
  there or before a separator.\<close>

theorem findStartsWith_sound:
  assumes "store_inv s" and "find_starts p s = Some b"
  shows "b \<in> set (item_list s) \<and> prefix b p \<and> (length b < length p \<longrightarrow> is_sep (p ! length b))"
  using find_starts_sound [OF assms] by (simp add: url_begins_def)

theorem findStartsWith_sound_witness: "prefix ''e.com/foo/bar'' ''e.com/foo/bar?x''"
  using findStartsWith_sound [OF nested_list_items(1) nested_list_find(1)] by simp

text \<open>the search for a beginning does not miss an item of a sorted list when no other item
  continues a matching one.\<close>

theorem findStartsWith_complete:
  assumes "store_inv s" and "\<not> issorted s" and "b \<in> set (item_list s)" and "url_begins p b"
    and "\<forall>x \<in> set (item_list s). \<forall>y \<in> set (item_list s). url_begins p x \<and> prefix x y \<longrightarrow> y = x"
  shows "\<exists>b'. find_starts p (doSort_items True s) = Some b'"
proof -
  note ok = doSort_ok [OF assms(1,2), of True]
  have "set (item_list (doSort_items True s)) = set (item_list s)" by (rule mset_eq_setD [OF ok(2)])
  with assms(3-5) show ?thesis by (intro find_starts_complete [OF ok(1,3)]) auto
qed

theorem findStartsWith_complete_witness:
  "\<exists>b. find_starts ''e.com/foo/zzz'' (doSort_items True (store_of [''f.org'', ''e.com/foo''])) = Some b"
proof -
  let ?s = "store_of [''f.org'', ''e.com/foo'']"
  have "store_inv ?s" "item_list ?s = [''f.org'', ''e.com/foo'']" "\<not> issorted ?s"
    using store_of_items [of "[''f.org'', ''e.com/foo'']"] by (simp_all add: nul_def)
  then show ?thesis
    by (intro findStartsWith_complete [of ?s "''e.com/foo''"]) (auto simp: url_begins_def is_sep_def prefix_def)
qed

text \<open>with an entry and a longer entry below it in the list, a URL below the first is missed.\<close>

theorem findStartsWith_misses:
  "''e.com/foo'' \<in> set (item_list nested_list) \<and> url_begins ''e.com/foo/zzz'' ''e.com/foo''
   \<and> find_starts ''e.com/foo/zzz'' nested_list = None"
  by (simp add: nested_list_items nested_list_find url_begins_def is_sep_def)

end
