(* ===== verification/Phrase_List.thy ===== *)
theory Phrase_List
  imports Item_List Time_Band "HOL-Library.Signed_Division"
begin

text \<open>
  Phrase lists (\<^verbatim>\<open>src/src/ListContainer.cpp\<close>): the lines of a phrase file, with weights,
  categories, time limits and combinations of phrases, and the search for the phrases in a
  document by the Quick Search variant of Boyer-Moore (\<^verbatim>\<open>bmsearch\<close>). The search tree that the
  code builds when quick search is not forced is in the theory \<open>Phrase_Tree\<close>.

  The document is the list of the \<open>fl\<close> bytes before the extra space that the caller provides;
  \<^verbatim>\<open>bmsearch\<close> writes the phrase there.

  The lemmas show that \<^verbatim>\<open>bmsearch\<close> ends and what it counts, that reading ends without a write
  past the buffer and leaves a well-formed combination list, and what the phrase search reports.
\<close>

section \<open>Data\<close>

text \<open>A node of the search tree: its letter, whether a phrase ends there, its children and the phrase that
  made it. The tree is a vector of nodes, with the root first.\<close>

record gnode =
  g_char :: char
  g_last :: bool
  g_links :: "nat list"
  g_item :: nat

definition gnode_new :: gnode where
  "gnode_new = \<lparr>g_char = CHR 0x00, g_last = False, g_links = [], g_item = 0\<rparr>"

record phrase_store =
  p_items :: item_store
  combilist :: "int list"
  weight :: "int list"
  itemtype :: "int list"
  categoryindex :: "int list"
  timelimitindex :: "int list"
  listcategory :: "string list"
  timelimits :: "time_limit list"
  slowgraph :: "nat list"
  force_quick_search :: bool
  p_graph :: "gnode list"

definition phrase_store_new :: phrase_store where
  "phrase_store_new = \<lparr>p_items = item_store_new, combilist = [], weight = [], itemtype = [],
     categoryindex = [], timelimitindex = [], listcategory = [], timelimits = [], slowgraph = [],
     force_quick_search = False, p_graph = []\<rparr>"


section \<open>Categories\<close>

fun index_of :: "'a \<Rightarrow> 'a list \<Rightarrow> nat" where
  "index_of x [] = 0"
| "index_of x (y # ys) = (if x = y then 0 else Suc (index_of x ys))"

definition getCategoryIndex :: "string \<Rightarrow> phrase_store \<Rightarrow> int \<times> phrase_store" where
  "getCategoryIndex lcat ps =
     (if length lcat < 2 then (0, ps)
      else
        let i = index_of lcat (listcategory ps) in
        if i < length (listcategory ps) then (int i, ps)
        else (int (length (listcategory ps)), ps\<lparr>listcategory := listcategory ps @ [lcat]\<rparr>))"

text \<open>\<open>None\<close> is an access past the end of \<^verbatim>\<open>listcategory\<close>.\<close>

definition getListCategoryAt :: "nat \<Rightarrow> phrase_store \<Rightarrow> string option" where
  "getListCategoryAt index ps =
     (if index \<ge> length (categoryindex ps) \<or> categoryindex ps ! index < 0 then Some []
      else if nat (categoryindex ps ! index) < length (listcategory ps)
      then Some (listcategory ps ! nat (categoryindex ps ! index))
      else None)"

definition getListCategoryAtD :: "nat \<Rightarrow> phrase_store \<Rightarrow> string" where
  "getListCategoryAtD index ps =
     (if index \<ge> length (listcategory ps) then [] else listcategory ps ! index)"


section \<open>Reading phrases\<close>

definition addToItemListPhrase :: "string \<Rightarrow> int \<Rightarrow> int \<Rightarrow> bool \<Rightarrow> int \<Rightarrow> int \<Rightarrow> phrase_store \<Rightarrow> phrase_store option" where
  "addToItemListPhrase s type weighting combi catindex timeindex ps =
     (case addToItemList s (p_items ps) of
        None \<Rightarrow> None
      | Some st \<Rightarrow> Some (ps\<lparr>p_items := st,
          combilist := (if combi then combilist ps @ [int (items (p_items ps))] else combilist ps),
          weight := weight ps @ [weighting],
          itemtype := itemtype ps @ [type],
          categoryindex := categoryindex ps @ [catindex],
          timelimitindex := timelimitindex ps @ [timeindex]\<rparr>))"

definition readPhraseListHelper2 :: "string \<Rightarrow> int \<Rightarrow> int \<Rightarrow> int \<Rightarrow> int \<Rightarrow> phrase_store \<Rightarrow> phrase_store option" where
  "readPhraseListHelper2 phrase type weighting catindex timeindex ps =
     (if type > 19 then
        Some (ps\<lparr>combilist := combilist ps @ [- 2, type - 21, timeindex, weighting, catindex]\<rparr>)
      else
        let p1 = removePunctuation phrase;
            p2 = (if length p1 > 127 then take 127 p1 else p1)
        in if length p2 < 1 then Some ps
           else if type < 10 then addToItemListPhrase p2 type weighting False catindex timeindex ps
           else addToItemListPhrase p2 type weighting True catindex timeindex ps)"

text \<open>The phrases of a combination line, in order (the \<^verbatim>\<open>while (line.length() > 2)\<close> loop).\<close>

lemma length_after: "length (after s t) \<le> length s"
  by (auto simp: after_def split: option.splits)

lemma length_after_less: "t \<noteq> [] \<Longrightarrow> s \<noteq> [] \<Longrightarrow> length (after s t) < length s"
  by (auto simp: after_def split: option.splits)

function combi_parts :: "string \<Rightarrow> string list" where
  "combi_parts line =
     (if length line > 2 then
        let l1 = after line ''<'' in before l1 ''>'' # combi_parts (after l1 ''>,'')
      else [])"
  by pat_completeness auto
termination
proof (relation "measure length", goal_cases)
  case (2 line l1)
  then show ?case using length_after [of l1 "''>,''"] length_after_less [of "''<''" line] by force
qed simp

declare combi_parts.simps [simp del]

fun add_parts :: "string list \<Rightarrow> int \<Rightarrow> int \<Rightarrow> int \<Rightarrow> int \<Rightarrow> phrase_store \<Rightarrow> phrase_store option" where
  "add_parts [] type weighting catindex timeindex ps = Some ps"
| "add_parts (x # xs) type weighting catindex timeindex ps =
     (case readPhraseListHelper2 x type weighting catindex timeindex ps of
        None \<Rightarrow> None
      | Some ps' \<Rightarrow> add_parts xs type weighting catindex timeindex ps')"

text \<open>
  \<^verbatim>\<open>readPhraseListHelper\<close>: a percentage weight is taken of the limit \<open>nlimit\<close>; the division
  of C++ truncates towards zero.
\<close>

definition phrase_weight :: "string \<Rightarrow> int \<Rightarrow> int" where
  "phrase_weight line nlimit =
     (let pc = toInteger (before (after line ''><'') ''%>'') in
      if pc \<noteq> 0 then wrap_int (pc * nlimit) sdiv 100
      else toInteger (before (after line ''><'') ''>''))"

definition readPhraseListHelper :: "string \<Rightarrow> bool \<Rightarrow> int \<Rightarrow> int \<Rightarrow> int \<Rightarrow> phrase_store \<Rightarrow> phrase_store option" where
  "readPhraseListHelper line isexception catindex timeindex nlimit ps =
     (let weighting = phrase_weight line nlimit;
          type = (if weighting \<noteq> 0 then 1 else if isexception then - 1 else 0);
          line1 = (if weighting \<noteq> 0 then before line ''><'' @ ''>'' else line)
      in if length (after line1 ''>,'') > 2 then
           (case add_parts (combi_parts line1) (type + 11) weighting catindex timeindex ps of
              None \<Rightarrow> None
            | Some ps' \<Rightarrow> readPhraseListHelper2 [] (type + 21) weighting catindex timeindex ps')
         else readPhraseListHelper2 (before (after line1 ''<'') ''>'') type weighting catindex timeindex ps)"


section \<open>Phrase files\<close>

text \<open>
  A file is its length and its lines, or \<open>None\<close> when it cannot be read. The outcomes of reading:
  \<open>Read\<close> with the boolean the code returns, a write past the buffer, or includes that are
  nested deeper than the fuel.
\<close>

datatype phrase_read = Read bool phrase_store | Mem_fault | Too_deep

record read_state =
  rs_cat :: int
  rs_time :: int
  rs_ci :: bool

definition phrase_line :: "string \<Rightarrow> bool \<Rightarrow> string" where
  "phrase_line raw caseinsensitive =
     (let l = removeWhiteSpace (cstr raw) in if caseinsensitive then toLower l else l)"

text \<open>A line that is neither a phrase nor an include.\<close>

definition phrase_directive :: "string \<Rightarrow> string \<Rightarrow> read_state \<Rightarrow> phrase_store \<Rightarrow> (read_state \<times> phrase_store) option" where
  "phrase_directive raw line rs ps =
     (if startsWith line ''#listcategory:'' then
        let q = [CHR 0x22]; (c, ps') = getCategoryIndex (before (after (cstr raw) q) q) ps
        in Some (rs\<lparr>rs_cat := c\<rparr>, ps')
      else if startsWith line ''#noconvert'' then Some (rs\<lparr>rs_ci := False\<rparr>, ps)
      else if startsWith line ''#time: '' then
        (case readTimeTag line of
           None \<Rightarrow> None
         | Some lim \<Rightarrow> Some (rs\<lparr>rs_time := int (length (timelimits ps))\<rparr>, ps\<lparr>timelimits := timelimits ps @ [lim]\<rparr>))
      else Some (rs, ps))"

fun readPhraseList :: "nat \<Rightarrow> (string \<Rightarrow> (nat \<times> string list) option) \<Rightarrow> string \<Rightarrow> bool \<Rightarrow> int \<Rightarrow> int \<Rightarrow> int
      \<Rightarrow> phrase_store \<Rightarrow> phrase_read"
  and readPhraseLines :: "nat \<Rightarrow> (string \<Rightarrow> (nat \<times> string list) option) \<Rightarrow> bool \<Rightarrow> int \<Rightarrow> string list
      \<Rightarrow> read_state \<Rightarrow> phrase_store \<Rightarrow> phrase_read" where
  "readPhraseList 0 fs filename isexception catindex timeindex nlimit ps = Too_deep"
| "readPhraseList (Suc n) fs filename isexception catindex timeindex nlimit ps =
     (case fs filename of
        None \<Rightarrow> Read False ps
      | Some (len, lines) \<Rightarrow>
          if len < 2 then Read True ps
          else readPhraseLines n fs isexception nlimit lines
            \<lparr>rs_cat = catindex, rs_time = timeindex, rs_ci = True\<rparr>
            (ps\<lparr>p_items := increaseMemoryBy (len + 2) (p_items ps)\<rparr>))"
| "readPhraseLines n fs isexception nlimit [] rs ps = Read True ps"
| "readPhraseLines n fs isexception nlimit (raw # rest) rs ps =
     (if raw = [] then readPhraseLines n fs isexception nlimit rest rs ps
      else
        let line = phrase_line raw (rs_ci rs) in
        if startsWith line ''<'' then
          (case readPhraseListHelper line isexception (rs_cat rs) (rs_time rs) nlimit ps of
             None \<Rightarrow> Mem_fault
           | Some ps' \<Rightarrow> readPhraseLines n fs isexception nlimit rest rs ps')
        else if startsWith line ''.'' then
          let temp = before (after line ''.include<'') ''>'' in
          if length temp > 0 then
            (case readPhraseList n fs temp isexception (rs_cat rs) (rs_time rs) nlimit ps of
               Read ok ps' \<Rightarrow> readPhraseLines n fs isexception nlimit rest rs ps'
             | Mem_fault \<Rightarrow> Mem_fault
             | Too_deep \<Rightarrow> Too_deep)
          else readPhraseLines n fs isexception nlimit rest rs ps
        else
          (case phrase_directive raw line rs ps of
             None \<Rightarrow> Read False ps
           | Some (rs', ps') \<Rightarrow> readPhraseLines n fs isexception nlimit rest rs' ps'))"


section \<open>Quick search\<close>

text \<open>The shift table: the distance from the last occurrence of a byte to the end of the phrase.\<close>

fun qsBc_loop :: "string \<Rightarrow> nat \<Rightarrow> nat \<Rightarrow> (char \<Rightarrow> nat) \<Rightarrow> (char \<Rightarrow> nat)" where
  "qsBc_loop [] pl j tab = tab"
| "qsBc_loop (c # cs) pl j tab = qsBc_loop cs pl (Suc j) (tab(c := pl - j))"

definition qsBc :: "string \<Rightarrow> char \<Rightarrow> nat" where
  "qsBc phrase = qsBc_loop phrase (length phrase) 0 (\<lambda>_. length phrase + 1)"

text \<open>The search loop at position \<open>j\<close>; \<open>text\<close> is the document with the phrase behind it.\<close>

partial_function (option) bm_loop :: "string \<Rightarrow> string \<Rightarrow> nat \<Rightarrow> nat \<Rightarrow> nat \<Rightarrow> nat option" where
  "bm_loop phrase text fl j cnt =
     (if take (length phrase) (drop j text) = phrase then
        if j \<ge> fl then Some cnt
        else bm_loop phrase text fl (j + qsBc phrase (text ! (j + length phrase))) (cnt + 1)
      else bm_loop phrase text fl (j + qsBc phrase (text ! (j + length phrase))) cnt)"

definition bmsearch :: "string \<Rightarrow> string \<Rightarrow> nat option" where
  "bmsearch file s =
     (if length file < length s then Some 0
      else if length s > 126 then Some 0
      else bm_loop s (file @ s) (length file) 0 0)"

text \<open>
  Duplicates of a phrase: the new entry overrides the values of the one that is kept when the
  latter is part of a combination, or weighs less, or is weighted and the new one banned, or the
  new one is an exception.
\<close>

definition overrides :: "phrase_store \<Rightarrow> nat \<Rightarrow> nat \<Rightarrow> bool" where
  "overrides ps found i =
     ((itemtype ps ! found > 9 \<and> itemtype ps ! i < 10)
      \<or> (itemtype ps ! found = 1 \<and> itemtype ps ! i = 1 \<and> weight ps ! i > weight ps ! found)
      \<or> (itemtype ps ! found = 1 \<and> itemtype ps ! i = 0)
      \<or> itemtype ps ! i = - 1)"

definition copy_values :: "nat \<Rightarrow> nat \<Rightarrow> phrase_store \<Rightarrow> phrase_store" where
  "copy_values found i ps =
     ps\<lparr>itemtype := (itemtype ps)[found := itemtype ps ! i],
        weight := (weight ps)[found := weight ps ! i],
        categoryindex := (categoryindex ps)[found := categoryindex ps ! i],
        timelimitindex := (timelimitindex ps)[found := timelimitindex ps ! i]\<rparr>"

definition find_same :: "phrase_store \<Rightarrow> nat \<Rightarrow> nat option" where
  "find_same ps i = find (\<lambda>j. getItemAtInt j (p_items ps) = getItemAtInt i (p_items ps)) (slowgraph ps)"

definition slow_add :: "nat \<Rightarrow> phrase_store \<Rightarrow> phrase_store" where
  "slow_add i ps =
     (case find_same ps i of
        None \<Rightarrow> ps\<lparr>slowgraph := slowgraph ps @ [i]\<rparr>
      | Some found \<Rightarrow> if overrides ps found i then copy_values found i ps else ps)"

text \<open>\<^verbatim>\<open>makeGraph (true)\<close>.\<close>

definition makeGraph_quick :: "phrase_store \<Rightarrow> phrase_store" where
  "makeGraph_quick ps =
     (let ps1 = ps\<lparr>force_quick_search := True\<rparr> in
      if data_length (p_items ps1) = 0 then ps1
      else fold slow_add [0..<items (p_items ps1)] ps1)"

text \<open>\<^verbatim>\<open>graphSearch\<close> with quick search forced: the phrases found, the index of the phrase and
  how often it was found.\<close>

fun bump :: "string \<Rightarrow> nat \<Rightarrow> nat \<Rightarrow> (string \<rightharpoonup> nat \<times> nat) \<Rightarrow> (string \<rightharpoonup> nat \<times> nat)" where
  "bump phrase i 0 res = res"
| "bump phrase i (Suc k) res =
     bump phrase i k (case res phrase of
        None \<Rightarrow> res(phrase \<mapsto> (i, 1))
      | Some (e, n) \<Rightarrow> res(phrase \<mapsto> (e, n + 1)))"

fun graphSearch_slow :: "phrase_store \<Rightarrow> string \<Rightarrow> nat list \<Rightarrow> (string \<rightharpoonup> nat \<times> nat) \<Rightarrow> (string \<rightharpoonup> nat \<times> nat) option" where
  "graphSearch_slow ps doc [] res = Some res"
| "graphSearch_slow ps doc (i # is) res =
     (let phrase = getItemAtInt i (p_items ps) in
      case bmsearch doc phrase of
        None \<Rightarrow> None
      | Some j \<Rightarrow> graphSearch_slow ps doc is (bump phrase i j res))"

definition graphSearch_quick :: "phrase_store \<Rightarrow> string \<Rightarrow> (string \<rightharpoonup> nat \<times> nat) \<Rightarrow> (string \<rightharpoonup> nat \<times> nat) option" where
  "graphSearch_quick ps doc res = graphSearch_slow ps doc (slowgraph ps) res"


section \<open>Lemmas: quick search\<close>

lemma qsBc_loop_absent: "c \<notin> set cs \<Longrightarrow> qsBc_loop cs pl j tab c = tab c"
  by (induction cs arbitrary: j tab) auto

lemma qsBc_loop_le: "i < length cs \<Longrightarrow> qsBc_loop cs pl j tab (cs ! i) \<le> pl - (j + i)"
proof (induction cs arbitrary: i j tab)
  case (Cons c cs)
  show ?case
  proof (cases "\<exists>k < length cs. cs ! k = (c # cs) ! i \<and> i \<le> Suc k")
    case True
    then obtain k where k: "k < length cs" "cs ! k = (c # cs) ! i" "i \<le> Suc k" by blast
    have "qsBc_loop cs pl (Suc j) (tab(c := pl - j)) ((c # cs) ! i) \<le> pl - (Suc j + k)"
      using Cons.IH [OF k(1), of "Suc j" "tab(c := pl - j)"] unfolding k(2) .
    also have "\<dots> \<le> pl - (j + i)" using k(3) by simp
    finally show ?thesis by simp
  next
    case False
    then have "i = 0" using Cons.prems by (cases i) auto
    moreover have "c \<notin> set cs" using False \<open>i = 0\<close> by (auto simp: in_set_conv_nth)
    ultimately show ?thesis by (simp add: qsBc_loop_absent)
  qed
qed simp

lemma qsBc_loop_pos: "\<forall>c. 0 < tab c \<Longrightarrow> j + length cs \<le> pl \<Longrightarrow> 0 < qsBc_loop cs pl j tab c"
  by (induction cs arbitrary: j tab) auto

lemma qsBc_loop_max: "\<forall>c. tab c \<le> m \<Longrightarrow> pl \<le> m \<Longrightarrow> qsBc_loop cs pl j tab c \<le> m"
  by (induction cs arbitrary: j tab) auto

lemma qsBc_bounds: "0 < qsBc phrase c" "qsBc phrase c \<le> length phrase + 1"
  "i < length phrase \<Longrightarrow> qsBc phrase (phrase ! i) \<le> length phrase - i"
  using qsBc_loop_pos [of "\<lambda>_. length phrase + 1" 0 phrase "length phrase" c]
    qsBc_loop_max [of "\<lambda>_. length phrase + 1" "length phrase + 1" "length phrase" phrase 0 c]
    qsBc_loop_le [of i phrase "length phrase" 0 "\<lambda>_. length phrase + 1"]
  by (simp_all add: qsBc_def)

definition occurs_at :: "string \<Rightarrow> string \<Rightarrow> nat \<Rightarrow> bool" where
  "occurs_at phrase text i \<longleftrightarrow> take (length phrase) (drop i text) = phrase"

lemma occurs_at_nth: "occurs_at phrase text i \<Longrightarrow> k < length phrase \<Longrightarrow> i + k < length text \<and> text ! (i + k) = phrase ! k"
proof -
  assume o: "occurs_at phrase text i" and k: "k < length phrase"
  then have "length (take (length phrase) (drop i text)) = length phrase" by (simp add: occurs_at_def)
  with k have l: "i + k < length text" by simp
  have "take (length phrase) (drop i text) ! k = phrase ! k" using o by (simp add: occurs_at_def)
  with k l show ?thesis by simp
qed

text \<open>No occurrence lies strictly between two positions the search looks at.\<close>

lemma shift_skips_nothing:
  assumes "0 < d" and "d < qsBc phrase (text ! (j + length phrase))"
  shows "\<not> occurs_at phrase text (j + d)"
proof
  assume o: "occurs_at phrase text (j + d)"
  have d: "d \<le> length phrase" using assms(2) qsBc_bounds(2) [of phrase "text ! (j + length phrase)"] by simp
  then have i: "length phrase - d < length phrase" using assms(1) by simp
  from occurs_at_nth [OF o i] d have "text ! (j + length phrase) = phrase ! (length phrase - d)" by simp
  with qsBc_bounds(3) [OF i] assms(2) d show False by simp
qed

lemma bm_loop_counts:
  assumes "occurs_at phrase text fl" and "j \<le> fl"
  shows "bm_loop phrase text fl j cnt = Some (cnt + card {i. j \<le> i \<and> i < fl \<and> occurs_at phrase text i})"
  using assms(2)
proof (induction "fl - j" arbitrary: j cnt rule: less_induct)
  case less
  show ?case
  proof (cases "j = fl")
    case True
    with assms(1) show ?thesis by (subst bm_loop.simps) (simp add: occurs_at_def)
  next
    case False
    with less.prems have j: "j < fl" by simp
    define k where "k = qsBc phrase (text ! (j + length phrase))"
    have k: "0 < k" by (simp add: k_def qsBc_bounds)
    have skip: "\<not> occurs_at phrase text (j + d)" if "0 < d" "d < k" for d
      using shift_skips_nothing that by (simp add: k_def)
    have le: "j + k \<le> fl"
    proof (rule ccontr)
      assume "\<not> j + k \<le> fl"
      then have "0 < fl - j" "fl - j < k" using j by simp_all
      from skip [OF this] j assms(1) show False by simp
    qed
    let ?S = "\<lambda>a. {i. a \<le> i \<and> i < fl \<and> occurs_at phrase text i}"
    have IH: "bm_loop phrase text fl (j + k) c = Some (c + card (?S (j + k)))" for c
      using less.hyps [of "j + k" c] k j le by simp
    have split: "i = j \<or> j + k \<le> i" if "j \<le> i" "occurs_at phrase text i" for i
      using skip [of "i - j"] that by force
    have "?S j = (if occurs_at phrase text j then insert j (?S (j + k)) else ?S (j + k))"
      using split j k by auto
    then have "card (?S j) = (if occurs_at phrase text j then 1 else 0) + card (?S (j + k))"
      using k by auto
    with IH [of cnt] IH [of "cnt + 1"] j show ?thesis
      by (subst bm_loop.simps) (auto simp: occurs_at_def [symmetric] k_def)
  qed
qed

text \<open>A phrase has a border when a proper part of it, at least one byte, both begins and ends it.\<close>

definition bordered :: "string \<Rightarrow> bool" where
  "bordered s \<longleftrightarrow> (\<exists>k. 0 < k \<and> k < length s \<and> take k s = drop (length s - k) s)"

lemma occurs_sentinel: "occurs_at s (doc @ s) (length doc)"
  by (simp add: occurs_at_def)

lemma occurs_inside:
  assumes "\<not> bordered s" and "i < length doc" and "occurs_at s (doc @ s) i"
  shows "i + length s \<le> length doc"
proof (rule ccontr)
  assume "\<not> i + length s \<le> length doc"
  define k where "k = i + length s - length doc"
  have k: "0 < k" "k < length s" using \<open>\<not> i + length s \<le> length doc\<close> assms(2) by (auto simp: k_def)
  have "s = take (length s) (drop i doc @ s)" using assms(2,3) by (simp add: occurs_at_def)
  also have "\<dots> = drop i doc @ take k s"
    using assms(2) \<open>\<not> i + length s \<le> length doc\<close> by (simp add: k_def add.commute)
  finally have "drop (length s - k) s = take k s"
    using assms(2) \<open>\<not> i + length s \<le> length doc\<close>
    by (metis (no_types) append_eq_conv_conj k(2) length_append length_take less_imp_le min.absorb2 add_diff_cancel_right')
  with k assms(1) show False unfolding bordered_def by metis
qed


section \<open>Lemmas: reading\<close>

definition p_size :: "phrase_store \<Rightarrow> nat" where
  "p_size ps = items (p_items ps)"

text \<open>The vectors of a phrase list run in parallel, and its combination list is a sequence of
  combinations: the indices of the phrases, the marker, and the type, time, weight and category.\<close>

type_synonym combi_block = "nat list \<times> int \<times> int \<times> int \<times> int"

definition block_ints :: "combi_block \<Rightarrow> int list" where
  "block_ints b = (case b of (ids, t, ti, w, c) \<Rightarrow> map int ids @ [- 2, t, ti, w, c])"

definition block_ok :: "nat \<Rightarrow> combi_block \<Rightarrow> bool" where
  "block_ok n b \<longleftrightarrow> (case b of (ids, t, ti, w, c) \<Rightarrow> (\<forall>i \<in> set ids. i < n) \<and> t \<in> {- 1, 0, 1})"

definition combi_wf :: "nat \<Rightarrow> int list \<Rightarrow> bool" where
  "combi_wf n cl \<longleftrightarrow> (\<exists>bs. cl = concat (map block_ints bs) \<and> list_all (block_ok n) bs)"

definition phrase_vecs :: "phrase_store \<Rightarrow> bool" where
  "phrase_vecs ps \<longleftrightarrow> store_inv (p_items ps) \<and> length (weight ps) = p_size ps \<and> length (itemtype ps) = p_size ps
     \<and> length (categoryindex ps) = p_size ps \<and> length (timelimitindex ps) = p_size ps"

definition phrase_inv :: "phrase_store \<Rightarrow> bool" where
  "phrase_inv ps \<longleftrightarrow> phrase_vecs ps \<and> combi_wf (p_size ps) (combilist ps)"

text \<open>Free bytes of the buffer.\<close>

definition slack :: "phrase_store \<Rightarrow> int" where
  "slack ps = int (data_memory (p_items ps)) - int (data_length (p_items ps))"

lemma block_ok_mono: "block_ok n b \<Longrightarrow> n \<le> m \<Longrightarrow> block_ok m b"
  by (cases b) (auto simp: block_ok_def intro: less_le_trans)

lemma combi_wf_mono:
  assumes "combi_wf n cl" and "n \<le> m"
  shows "combi_wf m cl"
proof -
  obtain bs where "cl = concat (map block_ints bs)" "list_all (block_ok n) bs"
    using assms(1) unfolding combi_wf_def by blast
  moreover have "list_all (block_ok m) bs"
    using calculation(2) block_ok_mono assms(2) by (auto simp: list_all_iff)
  ultimately show ?thesis unfolding combi_wf_def by blast
qed

lemma combi_wf_snoc:
  assumes "combi_wf n cl" and "block_ok n b"
  shows "combi_wf n (cl @ block_ints b)"
proof -
  obtain bs where "cl = concat (map block_ints bs)" "list_all (block_ok n) bs"
    using assms(1) unfolding combi_wf_def by blast
  with assms(2) have "cl @ block_ints b = concat (map block_ints (bs @ [b]))" "list_all (block_ok n) (bs @ [b])" by simp_all
  then show ?thesis unfolding combi_wf_def by blast
qed

lemma removePunctuation_loop_length: "length (removePunctuation_loop b s) \<le> length s"
  by (induction b s rule: removePunctuation_loop.induct) (auto simp: Let_def)

lemma removePunctuation_nul_free: "nul_free (removePunctuation s)"
proof -
  have "nul_free (removePunctuation_loop b s)" for b
    by (induction b s rule: removePunctuation_loop.induct) (auto simp: Let_def nul_def is_punct_def)
  then show ?thesis by (simp add: removePunctuation_def)
qed

text \<open>What one call of the helper does: a phrase of at most so many bytes is added, or none.\<close>

lemma helper2_phrase:
  assumes "phrase_vecs ps" and "type \<le> 19" and "int (length phrase) + 1 \<le> slack ps"
  obtains ps' where "readPhraseListHelper2 phrase type w c ti ps = Some ps'" "phrase_vecs ps'"
    "slack ps' \<ge> slack ps - (int (length phrase) + 1)"
    "p_size ps' = p_size ps \<and> combilist ps' = combilist ps
     \<or> p_size ps' = p_size ps + 1 \<and> combilist ps' = combilist ps @ (if type < 10 then [] else [int (p_size ps)])"
proof -
  define p1 where "p1 = removePunctuation phrase"
  define p2 where "p2 = (if length p1 > 127 then take 127 p1 else p1)"
  have nf: "nul_free p2" using removePunctuation_nul_free [of phrase] by (auto simp: p2_def p1_def dest: in_set_takeD)
  have len: "length p2 \<le> length phrase"
    using removePunctuation_loop_length [of False phrase] by (auto simp: p2_def p1_def removePunctuation_def)
  have h: "readPhraseListHelper2 phrase type w c ti ps =
      (if length p2 < 1 then Some ps else addToItemListPhrase p2 type w (\<not> type < 10) c ti ps)"
    using assms(2) by (simp add: readPhraseListHelper2_def Let_def p2_def p1_def)
  show thesis
  proof (cases "length p2 < 1")
    case True
    with h assms(1) show thesis by (intro that [of ps]) auto
  next
    case False
    have "addToItemList p2 (p_items ps) \<noteq> None" using assms(3) len by (simp add: addToItemList_None slack_def)
    then obtain st where st: "addToItemList p2 (p_items ps) = Some st" by auto
    have inv: "store_inv (p_items ps)" using assms(1) by (simp add: phrase_vecs_def)
    note ok = addToItemList_ok [OF inv nf st]
    have "items st = items (p_items ps) + 1" using st by (auto simp: addToItemList_def split: option.splits)
    with h False st ok assms(1) len show thesis
      by (intro that [of "ps\<lparr>p_items := st, combilist := (if \<not> type < 10 then combilist ps @ [int (items (p_items ps))] else combilist ps),
        weight := weight ps @ [w], itemtype := itemtype ps @ [type], categoryindex := categoryindex ps @ [c],
        timelimitindex := timelimitindex ps @ [ti]\<rparr>"])
        (auto simp: addToItemListPhrase_def phrase_vecs_def p_size_def slack_def)
  qed
qed

lemma helper2_end:
  "type > 19 \<Longrightarrow> readPhraseListHelper2 x type w c ti ps
     = Some (ps\<lparr>combilist := combilist ps @ [- 2, type - 21, ti, w, c]\<rparr>)"
  by (simp add: readPhraseListHelper2_def)

definition parts_bytes :: "string list \<Rightarrow> int" where
  "parts_bytes xs = sum_list (map (\<lambda>x. int (length x) + 1) xs)"

lemma add_parts_ok:
  assumes "phrase_vecs ps" and "10 \<le> type" and "type \<le> 19" and "parts_bytes xs \<le> slack ps"
  shows "\<exists>ps' ids. add_parts xs type w c ti ps = Some ps' \<and> phrase_vecs ps' \<and> slack ps' \<ge> slack ps - parts_bytes xs
    \<and> p_size ps \<le> p_size ps' \<and> combilist ps' = combilist ps @ map int ids \<and> (\<forall>i \<in> set ids. i < p_size ps')"
  using assms(1,4)
proof (induction xs arbitrary: ps)
  case Nil
  then show ?case by (auto simp: parts_bytes_def)
next
  case (Cons x xs)
  have nn: "0 \<le> parts_bytes xs" by (auto simp: parts_bytes_def intro!: sum_list_nonneg)
  have x: "int (length x) + 1 \<le> slack ps" using Cons.prems(2) nn by (simp add: parts_bytes_def)
  obtain ps1 where p1: "readPhraseListHelper2 x type w c ti ps = Some ps1" "phrase_vecs ps1"
    "slack ps1 \<ge> slack ps - (int (length x) + 1)"
    and ch: "p_size ps1 = p_size ps \<and> combilist ps1 = combilist ps
     \<or> p_size ps1 = p_size ps + 1 \<and> combilist ps1 = combilist ps @ (if type < 10 then [] else [int (p_size ps)])"
    by (rule helper2_phrase [OF Cons.prems(1) assms(3) x])
  have "parts_bytes xs \<le> slack ps1" using p1(3) Cons.prems(2) by (simp add: parts_bytes_def)
  from Cons.IH [OF p1(2) this] obtain ps2 ids where
    p2: "add_parts xs type w c ti ps1 = Some ps2" "phrase_vecs ps2" "slack ps2 \<ge> slack ps1 - parts_bytes xs"
      "p_size ps1 \<le> p_size ps2" "combilist ps2 = combilist ps1 @ map int ids" "\<forall>i \<in> set ids. i < p_size ps2" by blast
  have r: "add_parts (x # xs) type w c ti ps = Some ps2" "slack ps2 \<ge> slack ps - parts_bytes (x # xs)"
    using p1 p2 by (auto simp: parts_bytes_def)
  from ch show ?case
  proof
    assume "p_size ps1 = p_size ps \<and> combilist ps1 = combilist ps"
    with r p2 show ?thesis by (intro exI [of _ ps2] exI [of _ ids]) auto
  next
    assume "p_size ps1 = p_size ps + 1 \<and> combilist ps1 = combilist ps @ (if type < 10 then [] else [int (p_size ps)])"
    with r p2 assms(2) show ?thesis by (intro exI [of _ ps2] exI [of _ "p_size ps # ids"]) auto
  qed
qed

lemma before_length: "length (before s t) \<le> length s"
  by (auto simp: before_def split: option.splits)

lemma before_after_lt: "s \<noteq> [] \<Longrightarrow> length (before (after s [c]) t) < length s"
  using before_length [of "after s [c]" t] length_after_less [of "[c]" s] by simp

lemma gt_split_length: "length (before s ''>'') + length (after s ''>,'') \<le> length s"
proof (cases "find_sub ''>,'' s")
  case None
  then show ?thesis using before_length [of s "''>''"] by (simp add: after_def)
next
  case (Some j)
  then have j: "prefix ''>'' (drop j s)" "j + 2 \<le> length s"
    using find_sub_Some [of "''>,''" s j] find_sub_Some_le [of "''>,''" s j]
    by (auto simp: prefix_def) (metis append_Cons append_Nil append_take_drop_id same_append_eq)
  have "length (before s ''>'') \<le> j"
  proof (cases "find_sub ''>'' s")
    case (Some i)
    then have "i \<le> j" using find_sub_least [of "''>''" s i j] j(1) by force
    then show ?thesis using Some by (auto simp: before_def)
  qed (simp add: before_def)
  then show ?thesis using Some j(2) by (simp add: after_def)
qed

text \<open>The phrases of a combination, with their terminators, are not longer than the line.\<close>

lemma combi_parts_bytes: "parts_bytes (combi_parts line) \<le> int (length line)"
proof (induction line rule: combi_parts.induct)
  case (1 line)
  show ?case
  proof (cases "length line > 2")
    case True
    define l1 where "l1 = after line ''<''"
    have l1: "length l1 < length line" using True length_after_less [of "''<''" line] by (force simp: l1_def)
    have IH: "parts_bytes (combi_parts (after l1 ''>,'')) \<le> int (length (after l1 ''>,''))"
      using 1 [OF True l1_def] .
    have "length (before l1 ''>'') + length (after l1 ''>,'') \<le> length l1" by (rule gt_split_length)
    with l1 IH True show ?thesis by (subst combi_parts.simps) (simp add: parts_bytes_def Let_def flip: l1_def)
  next
    case False
    then show ?thesis by (subst combi_parts.simps) (simp add: parts_bytes_def)
  qed
qed


lemma helper_ok:
  assumes "phrase_inv ps" and "line \<noteq> []" and "int (length line) \<le> slack ps"
  shows "\<exists>ps'. readPhraseListHelper line ex c ti nl ps = Some ps' \<and> phrase_inv ps'
    \<and> slack ps' \<ge> slack ps - int (length line)"
proof -
  define w where "w = phrase_weight line nl"
  define type where "type = (if w \<noteq> 0 then 1 else if ex then - 1 else 0 :: int)"
  define l1 where "l1 = (if w \<noteq> 0 then before line ''><'' @ ''>'' else line)"
  have len: "length l1 \<le> length line" "l1 \<noteq> []"
    using assms(2) find_sub_Some_le [of "''><''" line]
    by (auto simp: l1_def before_def Suc_le_eq split: option.splits)
  have t: "type \<in> {- 1, 0, 1}" by (auto simp: type_def)
  have vecs: "phrase_vecs ps" "combi_wf (p_size ps) (combilist ps)" using assms(1) by (simp_all add: phrase_inv_def)
  have eq: "readPhraseListHelper line ex c ti nl ps =
      (if length (after l1 ''>,'') > 2 then
         (case add_parts (combi_parts l1) (type + 11) w c ti ps of
            None \<Rightarrow> None | Some ps' \<Rightarrow> readPhraseListHelper2 [] (type + 21) w c ti ps')
       else readPhraseListHelper2 (before (after l1 ''<'') ''>'') type w c ti ps)"
    unfolding readPhraseListHelper_def Let_def w_def type_def l1_def ..
  show ?thesis
  proof (cases "length (after l1 ''>,'') > 2")
    case True
    have b: "parts_bytes (combi_parts l1) \<le> int (length line)" using combi_parts_bytes [of l1] len by simp
    have "10 \<le> type + 11" "type + 11 \<le> 19" using t by auto
    moreover have "parts_bytes (combi_parts l1) \<le> slack ps" using b assms(3) by linarith
    ultimately obtain ps1 ids where
      p: "add_parts (combi_parts l1) (type + 11) w c ti ps = Some ps1" "phrase_vecs ps1"
        "slack ps1 \<ge> slack ps - parts_bytes (combi_parts l1)" "p_size ps \<le> p_size ps1"
        "combilist ps1 = combilist ps @ map int ids" "\<forall>i \<in> set ids. i < p_size ps1"
      using add_parts_ok [OF vecs(1), of "type + 11" "combi_parts l1" w c ti] by blast
    let ?b = "(ids, type, ti, w, c) :: combi_block"
    let ?r = "ps1\<lparr>combilist := combilist ps1 @ [- 2, type, ti, w, c]\<rparr>"
    have "readPhraseListHelper line ex c ti nl ps = Some ?r"
      using True p(1) t by (auto simp: eq helper2_end)
    moreover have "combi_wf (p_size ps1) (combilist ps @ block_ints ?b)"
      using p(6) t by (intro combi_wf_snoc combi_wf_mono [OF vecs(2) p(4)]) (simp add: block_ok_def)
    then have "phrase_inv ?r" using p(2,5) by (simp add: phrase_inv_def phrase_vecs_def p_size_def block_ints_def)
    moreover have "slack ?r = slack ps1" by (simp add: slack_def)
    ultimately show ?thesis using p(3) b by (intro exI [of _ ?r]) simp
  next
    case False
    let ?p = "before (after l1 ''<'') ''>''"
    have l: "int (length ?p) + 1 \<le> int (length line)" using before_after_lt [OF len(2), of "CHR ''<''" "''>''"] len(1) by simp
    have ty: "type \<le> 19" "type < 10" using t by auto
    have fits: "int (length ?p) + 1 \<le> slack ps" using l assms(3) by simp
    obtain ps' where ps': "readPhraseListHelper2 ?p type w c ti ps = Some ps'" "phrase_vecs ps'"
      "slack ps' \<ge> slack ps - (int (length ?p) + 1)"
      and ch: "p_size ps' = p_size ps \<and> combilist ps' = combilist ps
        \<or> p_size ps' = p_size ps + 1 \<and> combilist ps' = combilist ps @ (if type < 10 then [] else [int (p_size ps)])"
      by (rule helper2_phrase [OF vecs(1) ty(1) fits])
    have "p_size ps \<le> p_size ps'" "combilist ps' = combilist ps" using ch ty by auto
    then have "phrase_inv ps'" using ps'(2) combi_wf_mono [OF vecs(2)] by (simp add: phrase_inv_def)
    moreover have "slack ps - int (length line) \<le> slack ps'" using ps'(3) l by linarith
    ultimately show ?thesis using False ps'(1) by (intro exI [of _ ps']) (simp add: eq)
  qed
qed


lemma phrase_line_length: "length (phrase_line raw ci) \<le> length raw"
  using cstr_length [of raw] by (auto simp: phrase_line_def Let_def removeWhiteSpace_def toLower_def intro: le_trans)

lemma directive_keeps:
  assumes "phrase_inv ps" and "phrase_directive raw line rs ps = Some (rs', ps')"
  shows "phrase_inv ps'" and "slack ps' = slack ps"
  using assms by (auto simp: phrase_directive_def getCategoryIndex_def Let_def phrase_inv_def phrase_vecs_def
    p_size_def slack_def split: if_splits option.splits)

text \<open>A file has room for its lines: getline takes each byte of it once.\<close>

definition files_fit :: "(string \<Rightarrow> (nat \<times> string list) option) \<Rightarrow> bool" where
  "files_fit fs \<longleftrightarrow> (\<forall>f len ls. fs f = Some (len, ls) \<longrightarrow> sum_list (map length ls) \<le> len)"

definition read_safe :: "int \<Rightarrow> phrase_read \<Rightarrow> bool" where
  "read_safe n r \<longleftrightarrow> (case r of Read ok ps \<Rightarrow> phrase_inv ps \<and> n \<le> slack ps | Mem_fault \<Rightarrow> False | Too_deep \<Rightarrow> True)"

lemma read_safe_mono: "read_safe n r \<Longrightarrow> m \<le> n \<Longrightarrow> read_safe m r"
  by (auto simp: read_safe_def split: phrase_read.splits)

abbreviation line_bytes :: "string list \<Rightarrow> int" where
  "line_bytes ls \<equiv> int (sum_list (map length ls))"

lemma increase_inv:
  assumes "phrase_inv ps"
  shows "phrase_inv (ps\<lparr>p_items := increaseMemoryBy n (p_items ps)\<rparr>)"
    and "slack (ps\<lparr>p_items := increaseMemoryBy n (p_items ps)\<rparr>) = slack ps + int n"
proof -
  have s: "store_inv (p_items ps)" using assms by (simp add: phrase_inv_def phrase_vecs_def)
  have i: "items (increaseMemoryBy n (p_items ps)) = items (p_items ps)" by (simp add: increaseMemoryBy_def)
  show "phrase_inv (ps\<lparr>p_items := increaseMemoryBy n (p_items ps)\<rparr>)"
    using assms increaseMemoryBy_ok [OF s] i by (simp add: phrase_inv_def phrase_vecs_def p_size_def)
  show "slack (ps\<lparr>p_items := increaseMemoryBy n (p_items ps)\<rparr>) = slack ps + int n"
    using increaseMemoryBy_ok [OF s] by (simp add: slack_def)
qed

lemma read_never_faults:
  assumes "files_fit fs"
  shows "phrase_inv ps \<Longrightarrow> 0 \<le> slack ps \<Longrightarrow> read_safe (slack ps) (readPhraseList n fs f ex c ti nl ps)"
    and "phrase_inv ps \<Longrightarrow> line_bytes ls \<le> slack ps \<Longrightarrow>
      read_safe (slack ps - line_bytes ls) (readPhraseLines n fs ex nl ls rs ps)"
  using assms
proof (induction n fs f ex c ti nl ps and n fs ex nl ls rs ps rule: readPhraseList_readPhraseLines.induct)
  case (1 fs f ex c ti nl ps)
  then show ?case by (simp add: read_safe_def)
next
  case (2 n fs f ex c ti nl ps)
  show ?case
  proof (cases "fs f")
    case None
    with 2 show ?thesis by (simp add: read_safe_def)
  next
    case (Some p)
    obtain len ls where p: "p = (len, ls)" by (cases p)
    let ?ps = "ps\<lparr>p_items := increaseMemoryBy (len + 2) (p_items ps)\<rparr>"
    have fit: "line_bytes ls \<le> int len" using 2(4) Some p by (auto simp: files_fit_def)
    note inc = increase_inv [OF 2(2), of "len + 2"]
    show ?thesis
    proof (cases "len < 2")
      case False
      have "read_safe (slack ?ps - line_bytes ls) (readPhraseLines n fs ex nl ls \<lparr>rs_cat = c, rs_time = ti, rs_ci = True\<rparr> ?ps)"
        using 2(1) [OF Some p [symmetric] False inc(1) _ 2(4)] inc(2) fit 2(3) by simp
      from read_safe_mono [OF this] inc(2) fit Some p False show ?thesis by simp
    qed (use 2 Some p in \<open>simp add: read_safe_def\<close>)
  qed
next
  case (3 n fs ex nl rs ps)
  then show ?case by (simp add: read_safe_def)
next
  case (4 n fs ex nl raw rest rs ps)
  define line where "line = phrase_line raw (rs_ci rs)"
  have len: "int (length line) \<le> int (length raw)" using phrase_line_length by (simp add: line_def)
  have prems: "phrase_inv ps" "line_bytes rest \<le> slack ps - int (length raw)" using "4.prems"(1,2) by simp_all
  note rest = read_safe_mono [where m = "slack ps - line_bytes (raw # rest)"]
  consider (empty) "raw = []" | (phrase) "raw \<noteq> []" "startsWith line ''<''"
    | (incl) "raw \<noteq> []" "\<not> startsWith line ''<''" "startsWith line ''.''"
    | (dir) "raw \<noteq> []" "\<not> startsWith line ''<''" "\<not> startsWith line ''.''" by blast
  then show ?case
  proof cases
    case empty
    with "4.IH"(1) "4.prems" show ?thesis by simp
  next
    case phrase
    have "line \<noteq> []" using phrase(2) startsWith_prefix [of "''<''" "[]"] by (auto simp: nul_def)
    from helper_ok [OF prems(1) this, of ex "rs_cat rs" "rs_time rs" nl] prems(2) len obtain ps' where
      h: "readPhraseListHelper line ex (rs_cat rs) (rs_time rs) nl ps = Some ps'" "phrase_inv ps'"
        "slack ps' \<ge> slack ps - int (length line)" by force
    have fit: "line_bytes rest \<le> slack ps'" using h(3) prems(2) len by linarith
    have "read_safe (slack ps' - line_bytes rest) (readPhraseLines n fs ex nl rest rs ps')"
      using "4.IH"(2) [OF phrase(1) line_def phrase(2) h(1) h(2) fit "4.prems"(3)] .
    then have "read_safe (slack ps - line_bytes (raw # rest)) (readPhraseLines n fs ex nl rest rs ps')"
      by (rule rest) (use h(3) len in simp)
    then show ?thesis using phrase h(1) by (simp add: Let_def flip: line_def)
  next
    case incl
    define temp where "temp = before (after line ''.include<'') ''>''"
    show ?thesis
    proof (cases "length temp > 0")
      case True
      have nn: "0 \<le> slack ps" using prems(2) by linarith
      have sub: "read_safe (slack ps) (readPhraseList n fs temp ex (rs_cat rs) (rs_time rs) nl ps)"
        using "4.IH"(3) [OF incl(1) line_def incl(2,3) temp_def True prems(1) nn "4.prems"(3)] .
      show ?thesis
      proof (cases "readPhraseList n fs temp ex (rs_cat rs) (rs_time rs) nl ps")
        case (Read ok ps')
        with sub have p: "phrase_inv ps'" "slack ps \<le> slack ps'" by (simp_all add: read_safe_def)
        have fit: "line_bytes rest \<le> slack ps'" using p(2) prems(2) by linarith
        have "read_safe (slack ps' - line_bytes rest) (readPhraseLines n fs ex nl rest rs ps')"
          using "4.IH"(4) [OF incl(1) line_def incl(2,3) temp_def True Read p(1) fit "4.prems"(3)] .
        then have "read_safe (slack ps - line_bytes (raw # rest)) (readPhraseLines n fs ex nl rest rs ps')"
          by (rule rest) (use p(2) in simp)
        then show ?thesis using incl True Read by (simp add: Let_def flip: line_def temp_def)
      next
        case Mem_fault
        with sub show ?thesis by (simp add: read_safe_def)
      next
        case Too_deep
        then show ?thesis using incl True by (simp add: Let_def read_safe_def flip: line_def temp_def)
      qed
    next
      case False
      have "line_bytes rest \<le> slack ps" using prems(2) by linarith
      from "4.IH"(5) [OF incl(1) line_def incl(2,3) temp_def False prems(1) this "4.prems"(3)]
      have "read_safe (slack ps - line_bytes (raw # rest)) (readPhraseLines n fs ex nl rest rs ps)"
        by (rule rest) simp
      then show ?thesis using incl False by (simp add: Let_def flip: line_def temp_def)
    qed
  next
    case dir
    show ?thesis
    proof (cases "phrase_directive raw line rs ps")
      case None
      then show ?thesis using dir prems by (simp add: Let_def read_safe_def flip: line_def)
    next
      case (Some p)
      obtain rs' ps' where p: "p = (rs', ps')" by (cases p)
      note k = directive_keeps [OF prems(1) Some [unfolded p]]
      have fit: "line_bytes rest \<le> slack ps'" using k(2) prems(2) by linarith
      have "read_safe (slack ps' - line_bytes rest) (readPhraseLines n fs ex nl rest rs' ps')"
        using "4.IH"(6) [OF dir(1) line_def dir(2,3) Some p [symmetric] k(1) fit "4.prems"(3)] .
      then have "read_safe (slack ps - line_bytes (raw # rest)) (readPhraseLines n fs ex nl rest rs' ps')"
        by (rule rest) (use k(2) in simp)
      then show ?thesis using dir Some p by (simp add: Let_def flip: line_def)
    qed
  qed
qed

text \<open>Includes that are nested: every file a line may include has a smaller rank.\<close>

definition line_include :: "bool \<Rightarrow> string \<Rightarrow> string" where
  "line_include ci raw = before (after (phrase_line raw ci) ''.include<'') ''>''"

definition includes_ranked :: "(string \<Rightarrow> nat) \<Rightarrow> (string \<Rightarrow> (nat \<times> string list) option) \<Rightarrow> bool" where
  "includes_ranked r fs \<longleftrightarrow> (\<forall>f len ls. fs f = Some (len, ls) \<longrightarrow>
     (\<forall>raw \<in> set ls. \<forall>ci. line_include ci raw \<noteq> [] \<longrightarrow> r (line_include ci raw) < r f))"

lemma read_returns:
  assumes "includes_ranked r fs"
  shows "r f < n \<Longrightarrow> readPhraseList n fs f ex c ti nl ps \<noteq> Too_deep"
    and "(\<forall>raw \<in> set ls. \<forall>ci. line_include ci raw \<noteq> [] \<longrightarrow> r (line_include ci raw) < n)
      \<Longrightarrow> readPhraseLines n fs ex nl ls rs ps \<noteq> Too_deep"
  using assms
proof (induction n fs f ex c ti nl ps and n fs ex nl ls rs ps rule: readPhraseList_readPhraseLines.induct)
  case (2 n fs f ex c ti nl ps)
  show ?case
  proof (cases "fs f")
    case (Some p)
    obtain len ls where p: "p = (len, ls)" by (cases p)
    have "\<forall>raw \<in> set ls. \<forall>ci. line_include ci raw \<noteq> [] \<longrightarrow> r (line_include ci raw) < r f"
      using "2.prems"(2) Some p unfolding includes_ranked_def by blast
    then have "\<forall>raw \<in> set ls. \<forall>ci. line_include ci raw \<noteq> [] \<longrightarrow> r (line_include ci raw) < n"
      using "2.prems"(1) by (meson less_Suc_eq_le less_le_trans)
    then show ?thesis using Some p "2.IH" [OF Some p [symmetric]] "2.prems"(2) by auto
  qed simp
next
  case (4 n fs ex nl raw rest rs ps)
  define line where "line = phrase_line raw (rs_ci rs)"
  define temp where "temp = before (after line ''.include<'') ''>''"
  have t: "temp = line_include (rs_ci rs) raw" by (simp add: temp_def line_def line_include_def)
  have rest: "\<forall>raw \<in> set rest. \<forall>ci. line_include ci raw \<noteq> [] \<longrightarrow> r (line_include ci raw) < n"
    and this_line: "temp \<noteq> [] \<Longrightarrow> r temp < n" using "4.prems"(1) t by auto
  note IH = "4.IH" [unfolded Let_def, folded line_def, folded temp_def]
  show ?case
  proof (cases "raw = [] \<or> startsWith line ''<''")
    case True
    then show ?thesis using IH(1,2) rest "4.prems"(2) by (auto simp: Let_def line_def split: option.splits)
  next
    case False
    show ?thesis
    proof (cases "startsWith line ''.''")
      case True
      with False IH(3-5) rest this_line "4.prems"(2) show ?thesis
        by (auto simp: Let_def simp flip: line_def temp_def split: phrase_read.splits)
    next
      case F2: False
      with False IH(6) rest "4.prems"(2) show ?thesis
        by (auto simp: Let_def simp flip: line_def split: option.splits)
    qed
  qed
qed simp_all

section \<open>Lemmas: the quick graph\<close>

abbreviation p_text :: "phrase_store \<Rightarrow> nat \<Rightarrow> string" where
  "p_text ps i \<equiv> getItemAtInt i (p_items ps)"

text \<open>What holds after the items below \<open>k\<close> have been added, \<open>ps0\<close> being the list as it was read.\<close>

definition quick_inv :: "phrase_store \<Rightarrow> nat \<Rightarrow> phrase_store \<Rightarrow> bool" where
  "quick_inv ps0 k ps \<longleftrightarrow> p_items ps = p_items ps0 \<and> phrase_vecs ps
     \<and> (\<forall>i \<in> set (slowgraph ps). i < k) \<and> distinct (map (p_text ps0) (slowgraph ps))
     \<and> p_text ps0 ` set (slowgraph ps) = p_text ps0 ` {..<k}
     \<and> (\<forall>i. k \<le> i \<longrightarrow> itemtype ps ! i = itemtype ps0 ! i)
     \<and> (\<forall>i \<in> set (slowgraph ps). itemtype ps ! i = - 1 \<longleftrightarrow>
          (\<exists>j < k. p_text ps0 j = p_text ps0 i \<and> itemtype ps0 ! j = - 1))"

lemma quick_inv_vals:
  assumes "quick_inv ps0 k ps" and "i < k" and "itemtype ps0 ! i = - 1"
    and "j \<in> set (slowgraph ps)" and "p_text ps0 j = p_text ps0 i"
  shows "itemtype ps ! j = - 1"
  using assms unfolding quick_inv_def by metis

lemma find_same_None: "find_same ps i = None \<longleftrightarrow> p_text ps i \<notin> p_text ps ` set (slowgraph ps)"
  unfolding find_same_def find_None_iff by (metis (no_types, lifting) image_iff)

lemma find_same_Some: "find_same ps i = Some f \<Longrightarrow> f \<in> set (slowgraph ps) \<and> p_text ps f = p_text ps i"
  by (auto simp: find_same_def find_Some_iff)

lemma slow_add_new:
  assumes "quick_inv ps0 k ps" and "k < p_size ps0" and "find_same ps k = None"
  shows "quick_inv ps0 (Suc k) (ps\<lparr>slowgraph := slowgraph ps @ [k]\<rparr>)"
proof -
  have ni: "p_text ps0 k \<notin> p_text ps0 ` {..<k}" using assms by (simp add: find_same_None quick_inv_def)
  then have nj: "p_text ps0 j \<noteq> p_text ps0 k" if "j < k" for j using that by (metis imageI lessThan_iff)
  have tx: "p_text ps0 ` set (slowgraph ps) = p_text ps0 ` {..<k}" using assms(1) by (simp add: quick_inv_def)
  have old: "(\<exists>j < Suc k. p_text ps0 j = p_text ps0 i \<and> itemtype ps0 ! j = - 1) \<longleftrightarrow>
      (\<exists>j < k. p_text ps0 j = p_text ps0 i \<and> itemtype ps0 ! j = - 1)" if "i < k" for i
    using nj that by (metis less_Suc_eq)
  have new: "(\<exists>j < Suc k. p_text ps0 j = p_text ps0 k \<and> itemtype ps0 ! j = - 1) \<longleftrightarrow> itemtype ps0 ! k = - 1"
    using nj by (metis less_Suc_eq)
  from assms(1) ni tx show ?thesis
    unfolding quick_inv_def by (auto simp: old new phrase_vecs_def p_size_def less_Suc_eq lessThan_Suc dest: nj)
qed

lemma slow_add_dup:
  assumes "quick_inv ps0 k ps" and "k < p_size ps0" and "find_same ps k = Some f"
  shows "quick_inv ps0 (Suc k) (if overrides ps f k then copy_values f k ps else ps)" (is "quick_inv _ _ ?r")
proof -
  have f: "f \<in> set (slowgraph ps)" "p_text ps0 f = p_text ps0 k"
    using find_same_Some [OF assms(3)] assms(1) by (simp_all add: quick_inv_def)
  have fk: "f < k" using f assms(1) by (auto simp: quick_inv_def)
  have len: "length (itemtype ps) = p_size ps0" using assms(1) by (simp add: quick_inv_def phrase_vecs_def p_size_def)
  have ty: "itemtype ps ! k = itemtype ps0 ! k" using assms(1) by (simp add: quick_inv_def)
  have rf: "itemtype ?r ! f = - 1 \<longleftrightarrow> itemtype ps ! f = - 1 \<or> itemtype ps0 ! k = - 1"
    using fk len assms(2) ty by (auto simp: overrides_def copy_values_def)
  have ro: "itemtype ?r ! i = itemtype ps ! i" if "i \<noteq> f" for i using that by (simp add: copy_values_def)
  have same: "slowgraph ?r = slowgraph ps" "p_items ?r = p_items ps" "phrase_vecs ?r = phrase_vecs ps"
    by (simp_all add: copy_values_def phrase_vecs_def p_size_def)
  have dis: "p_text ps0 i \<noteq> p_text ps0 f" if "i \<in> set (slowgraph ps)" "i \<noteq> f" for i
    using assms(1) that f(1) by (auto simp: quick_inv_def distinct_map dest: inj_onD)
  have step: "itemtype ?r ! i = - 1 \<longleftrightarrow> (\<exists>j < Suc k. p_text ps0 j = p_text ps0 i \<and> itemtype ps0 ! j = - 1)"
    if i: "i \<in> set (slowgraph ps)" for i
  proof -
    have "itemtype ps ! i = - 1 \<longleftrightarrow> (\<exists>j < k. p_text ps0 j = p_text ps0 i \<and> itemtype ps0 ! j = - 1)"
      using assms(1) i by (simp add: quick_inv_def)
    then show ?thesis using rf ro [of i] dis [OF i] f(2) by (metis less_Suc_eq)
  qed
  have "p_text ps0 k \<in> p_text ps0 ` {..<k}" using f(2) fk by (metis imageI lessThan_iff)
  then have img: "p_text ps0 ` {..<Suc k} = p_text ps0 ` {..<k}" by (simp add: lessThan_Suc insert_absorb)
  have later: "itemtype ?r ! i = itemtype ps0 ! i" if "Suc k \<le> i" for i
    using that ro [of i] fk assms(1) by (simp add: quick_inv_def)
  show ?thesis unfolding quick_inv_def
  proof (intro conjI ballI allI impI)
    show "i < Suc k" if "i \<in> set (slowgraph ?r)" for i using assms(1) that by (simp add: same quick_inv_def less_SucI)
  qed (use assms(1) step later img in \<open>simp_all only: same quick_inv_def\<close>)
qed

lemma slow_add_inv: "quick_inv ps0 k ps \<Longrightarrow> k < p_size ps0 \<Longrightarrow> quick_inv ps0 (Suc k) (slow_add k ps)"
  using slow_add_new [of ps0 k ps] slow_add_dup [of ps0 k ps] by (cases "find_same ps k") (simp_all add: slow_add_def)

lemma fold_slow_add: "quick_inv ps0 0 ps \<Longrightarrow> n \<le> p_size ps0 \<Longrightarrow> quick_inv ps0 n (fold slow_add [0..<n] ps)"
  by (induction n) (simp_all add: slow_add_inv)

lemma makeGraph_quick_inv:
  assumes "phrase_vecs ps" and "slowgraph ps = []"
  shows "quick_inv ps (p_size ps) (makeGraph_quick ps)"
proof -
  let ?ps = "ps\<lparr>force_quick_search := True\<rparr>"
  have init: "quick_inv ps 0 ?ps" using assms by (simp add: quick_inv_def phrase_vecs_def p_size_def)
  show ?thesis
  proof (cases "data_length (p_items ps) = 0")
    case True
    then have "p_size ps = 0" using assms(1) by (auto simp: phrase_vecs_def p_size_def store_inv_def item_ok_def)
    with True init show ?thesis by (simp add: makeGraph_quick_def)
  next
    case False
    then show ?thesis using fold_slow_add [OF init, of "p_size ps"] by (simp add: makeGraph_quick_def p_size_def)
  qed
qed

lemma bmsearch_total: "\<exists>n. bmsearch doc s = Some n"
  using bm_loop_counts [OF occurs_sentinel, of 0 doc s 0] by (simp add: bmsearch_def)

lemma bump_value:
  "bump x i n res = (if n = 0 then res else res(x \<mapsto> (case res x of None \<Rightarrow> (i, n) | Some (e, m) \<Rightarrow> (e, m + n))))"
  by (induction x i n res rule: bump.induct) (auto split: option.splits)

lemma graphSearch_slow_result:
  assumes "distinct (map (p_text ps) is)" and "\<forall>i \<in> set is. res (p_text ps i) = None"
  shows "\<exists>out. graphSearch_slow ps doc is res = Some out
    \<and> (\<forall>i \<in> set is. \<exists>n. bmsearch doc (p_text ps i) = Some n \<and> out (p_text ps i) = (if n = 0 then None else Some (i, n)))
    \<and> (\<forall>x. x \<notin> p_text ps ` set is \<longrightarrow> out x = res x)"
  using assms
proof (induction "is" arbitrary: res)
  case (Cons i "is")
  obtain n where n: "bmsearch doc (p_text ps i) = Some n" using bmsearch_total by blast
  let ?res = "bump (p_text ps i) i n res"
  have r: "?res = (if n = 0 then res else res(p_text ps i \<mapsto> (i, n)))" using Cons.prems by (simp add: bump_value)
  have "\<forall>j \<in> set is. ?res (p_text ps j) = None"
    using Cons.prems by (simp add: r) (metis imageI)
  then obtain out where out: "graphSearch_slow ps doc is ?res = Some out"
    "\<forall>j \<in> set is. \<exists>n. bmsearch doc (p_text ps j) = Some n \<and> out (p_text ps j) = (if n = 0 then None else Some (j, n))"
    "\<forall>x. x \<notin> p_text ps ` set is \<longrightarrow> out x = ?res x" using Cons.IH [of ?res] Cons.prems by auto
  have "out (p_text ps i) = (if n = 0 then None else Some (i, n))" using out(3) Cons.prems r by auto
  moreover have "out x = res x" if "x \<notin> p_text ps ` set (i # is)" for x using out(3) that r by auto
  ultimately show ?case using out n by (intro exI [of _ out]) (simp add: Let_def)
qed simp


section \<open>Properties\<close>

text \<open>The positions of the document at which the phrase begins.\<close>

definition occurrences :: "string \<Rightarrow> string \<Rightarrow> nat set" where
  "occurrences s doc = {i. i + length s \<le> length doc \<and> take (length s) (drop i doc) = s}"

text \<open>C33: the quick search ends and counts every occurrence of a phrase of at most 126 bytes in the
  document, overlapping ones included; a phrase with a border may be counted at up to
  \<open>length s - 1\<close> more places, where it runs into the copy of itself behind the document.\<close>

theorem bmsearch_exact:
  assumes "s \<noteq> []" and "length s \<le> 126"
  shows "\<exists>k. bmsearch doc s = Some (card (occurrences s doc) + k) \<and> k < length s \<and> (bordered s \<or> k = 0)"
proof (cases "length doc < length s")
  case True
  then have "occurrences s doc = {}" by (auto simp: occurrences_def)
  with True assms(1) show ?thesis by (intro exI [of _ 0]) (simp add: bmsearch_def)
next
  case False
  let ?A = "{i. i < length doc \<and> occurs_at s (doc @ s) i}"
  let ?B = "{i. length doc < i + length s \<and> i < length doc \<and> occurs_at s (doc @ s) i}"
  have "bmsearch doc s = Some (card ?A)"
    using bm_loop_counts [OF occurs_sentinel, of 0 doc s 0] False assms(2) by (simp add: bmsearch_def)
  moreover have "i \<in> ?A \<longleftrightarrow> i \<in> occurrences s doc \<union> ?B" for i
    using assms(1) by (cases "i + length s \<le> length doc") (auto simp: occurrences_def occurs_at_def Suc_le_eq neq_Nil_conv)
  then have "?A = occurrences s doc \<union> ?B" by blast
  moreover have "occurrences s doc \<inter> ?B = {}" by (auto simp: occurrences_def)
  moreover have "finite (occurrences s doc)" by (rule finite_subset [of _ "{..length doc}"]) (auto simp: occurrences_def)
  moreover have "finite ?B" by simp
  ultimately have c: "bmsearch doc s = Some (card (occurrences s doc) + card ?B)" by (simp add: card_Un_disjoint)
  have "card ?B \<le> card {length doc - (length s - 1)..<length doc}" by (intro card_mono) auto
  then have "card ?B < length s" using assms(1) by (cases s) simp_all
  moreover have "?B = {}" if "\<not> bordered s" using occurs_inside [OF that, of _ doc] by force
  then have "bordered s \<or> card ?B = 0" by (metis card.empty)
  ultimately show ?thesis using c by (intro exI [of _ "card ?B"]) simp
qed

theorem bmsearch_exact_witness:
  "\<exists>k. bmsearch ''sexy sex'' ''sex'' = Some (card (occurrences ''sex'' ''sexy sex'') + k) \<and> k < length ''sex''
     \<and> (bordered ''sex'' \<or> k = 0)"
  by (rule bmsearch_exact) simp_all

text \<open>C34: reading a phrase file, with nested includes that have no cycle, ends and never writes past
  the buffer; the vectors of the list run in parallel, and its combinations are well formed and
  refer to phrases of the list.\<close>

theorem phrase_read_safe:
  assumes "files_fit fs" and "includes_ranked r fs" and "r f < n"
  shows "\<exists>ok ps. readPhraseList n fs f ex c ti nl phrase_store_new = Read ok ps \<and> phrase_inv ps"
proof -
  have "phrase_inv phrase_store_new" "slack phrase_store_new = 0"
    by (auto simp: phrase_inv_def phrase_vecs_def p_size_def phrase_store_new_def combi_wf_def slack_def item_store_new_def
      store_inv_def data_memory_def intro: exI [of _ "[]"])
  then have "read_safe 0 (readPhraseList n fs f ex c ti nl phrase_store_new)"
    using read_never_faults(1) [OF assms(1), of phrase_store_new n f ex c ti nl] by simp
  with read_returns(1) [OF assms(2,3)] show ?thesis
    by (cases "readPhraseList n fs f ex c ti nl phrase_store_new") (auto simp: read_safe_def)
qed

text \<open>A file with a banned, a weighted and an exception phrase, two of them with the same text, and a
  combination.\<close>

definition demo_phrases :: "string \<Rightarrow> (nat \<times> string list) option" where
  "demo_phrases f = (if f = ''p'' then Some (40, [''<ab>'', ''<cd><50>'', ''<ab>,<ef><10>'', ''.include<q>''])
     else if f = ''q'' then Some (10, [''<gh>'']) else None)"

theorem phrase_read_safe_witness:
  "\<exists>ok ps. readPhraseList 2 demo_phrases ''p'' False 0 0 100 phrase_store_new = Read ok ps \<and> phrase_inv ps"
proof (rule phrase_read_safe)
  show "files_fit demo_phrases" by (auto simp: files_fit_def demo_phrases_def split: if_splits)
  let ?ls = "[''<ab>'', ''<cd><50>'', ''<ab>,<ef><10>'', ''.include<q>'', ''<gh>'']"
  have "map (line_include True) ?ls = [[], [], [], ''q'', []]" by code_simp
  moreover have "map (line_include False) ?ls = [[], [], [], ''q'', []]" by code_simp
  ultimately have "map (line_include ci) ?ls = [[], [], [], ''q'', []]" for ci by (cases ci) simp_all
  then show "includes_ranked (\<lambda>f. if f = ''p'' then 1 else 0) demo_phrases"
    by (auto simp: includes_ranked_def demo_phrases_def split: if_splits)
qed simp

text \<open>the quick graph holds each text of the list once, and a text has the exception type in
  it exactly when some line gave it that type: an exception overrides every other entry.\<close>

theorem makeGraph_quick_precedence:
  assumes "phrase_vecs ps" and "slowgraph ps = []"
  shows "distinct (map (p_text ps) (slowgraph (makeGraph_quick ps)))
    \<and> (\<forall>i < p_size ps. \<exists>!j. j \<in> set (slowgraph (makeGraph_quick ps)) \<and> p_text ps j = p_text ps i)
    \<and> (\<forall>j \<in> set (slowgraph (makeGraph_quick ps)). itemtype (makeGraph_quick ps) ! j = - 1 \<longleftrightarrow>
         (\<exists>i < p_size ps. p_text ps i = p_text ps j \<and> itemtype ps ! i = - 1))"
proof -
  let ?r = "makeGraph_quick ps"
  have q: "quick_inv ps (p_size ps) ?r" by (rule makeGraph_quick_inv [OF assms])
  then have ex: "\<exists>j. j \<in> set (slowgraph ?r) \<and> p_text ps j = p_text ps i" if "i < p_size ps" for i
    using that unfolding quick_inv_def by (metis imageE imageI lessThan_iff)
  have d: "distinct (map (p_text ps) (slowgraph ?r))" using q by (simp add: quick_inv_def)
  then have "j = j'" if "j \<in> set (slowgraph ?r)" "j' \<in> set (slowgraph ?r)" "p_text ps j = p_text ps j'" for j j'
    using that by (auto simp: distinct_map dest: inj_onD)
  with ex have "\<forall>i < p_size ps. \<exists>!j. j \<in> set (slowgraph ?r) \<and> p_text ps j = p_text ps i" by metis
  with d q show ?thesis unfolding quick_inv_def by blast
qed

text \<open>the phrase search over the quick graph reports a text exactly when the quick search counts
  it at least once, with that count and its entry in the graph.\<close>

theorem graphSearch_quick_reports:
  assumes "phrase_vecs ps" and "slowgraph ps = []" and "i < p_size ps"
  shows "\<exists>out j n. graphSearch_quick (makeGraph_quick ps) doc Map.empty = Some out
    \<and> bmsearch doc (p_text ps i) = Some n \<and> j \<in> set (slowgraph (makeGraph_quick ps)) \<and> p_text ps j = p_text ps i
    \<and> out (p_text ps i) = (if n = 0 then None else Some (j, n))"
proof -
  let ?r = "makeGraph_quick ps"
  have q: "quick_inv ps (p_size ps) ?r" by (rule makeGraph_quick_inv [OF assms(1,2)])
  then have t: "p_items ?r = p_items ps" and d: "distinct (map (p_text ps) (slowgraph ?r))"
    by (simp_all add: quick_inv_def)
  obtain j where j: "j \<in> set (slowgraph ?r)" "p_text ps j = p_text ps i"
    using q assms(3) unfolding quick_inv_def by (metis imageE imageI lessThan_iff)
  obtain out where out: "graphSearch_slow ?r doc (slowgraph ?r) Map.empty = Some out"
    "\<forall>i \<in> set (slowgraph ?r). \<exists>n. bmsearch doc (p_text ps i) = Some n \<and> out (p_text ps i) = (if n = 0 then None else Some (i, n))"
    using graphSearch_slow_result [of ?r "slowgraph ?r" Map.empty doc] d t by auto
  with j show ?thesis unfolding graphSearch_quick_def by metis
qed


text \<open>A text that is weighted and an exception.\<close>

definition demo_store :: phrase_store where
  "demo_store = phrase_store_new\<lparr>p_items := store_of [''ab'', ''ab''], weight := [5, 0], itemtype := [1, - 1],
     categoryindex := [0, 0], timelimitindex := [- 1, - 1]\<rparr>"

lemma demo_store_vecs: "phrase_vecs demo_store" "slowgraph demo_store = []" "p_size demo_store = 2"
  "item_list (p_items demo_store) = [''ab'', ''ab'']"
  using store_of_items [of "[''ab'', ''ab'']"]
  by (simp_all add: demo_store_def phrase_store_new_def phrase_vecs_def p_size_def nul_def)

theorem makeGraph_quick_precedence_witness:
  "\<exists>!j. j \<in> set (slowgraph (makeGraph_quick demo_store)) \<and> p_text demo_store j = p_text demo_store 1"
  using makeGraph_quick_precedence [OF demo_store_vecs(1,2)] demo_store_vecs(3) by simp

theorem graphSearch_quick_reports_witness:
  "\<exists>out j n. graphSearch_quick (makeGraph_quick demo_store) ''cabs'' Map.empty = Some out
    \<and> bmsearch ''cabs'' (p_text demo_store 1) = Some n \<and> j \<in> set (slowgraph (makeGraph_quick demo_store))
    \<and> p_text demo_store j = p_text demo_store 1 \<and> out (p_text demo_store 1) = (if n = 0 then None else Some (j, n))"
  using demo_store_vecs by (intro graphSearch_quick_reports) simp_all

end
