(* ===== verification/Phrase_Tree.thy ===== *)
theory Phrase_Tree
  imports Phrase_List "HOL-Library.Sublist" "HOL-Library.Multiset"
begin

text \<open>
  The search tree of phrase lists (\<^verbatim>\<open>src/src/ListContainer.cpp\<close>: \<^verbatim>\<open>graphSizeSort\<close>, \<^verbatim>\<open>graphAdd\<close>,
  \<^verbatim>\<open>graphFindBranches\<close>, \<^verbatim>\<open>graphCopyNodePhrases\<close>, \<^verbatim>\<open>makeGraph\<close> and \<^verbatim>\<open>graphSearch\<close>). The phrases are sorted by
  length and entered into a tree; the branches that ramify little are moved to the phrases that are
  searched one by one.

  The array \<^verbatim>\<open>realgraphdata\<close> holds entries of 64 numbers (letter, flag, number of links, phrase, links); an
  entry is a record here and the array the list of the entries, so that \<^verbatim>\<open>graphitems\<close> is its length.
  Running out of memory is not modelled; \<^verbatim>\<open>exit\<close> and an access out of range are \<open>None\<close>.
\<close>

section \<open>Sorting by length\<close>

definition exchange :: "nat \<Rightarrow> nat \<Rightarrow> 'a list \<Rightarrow> 'a list option" where
  "exchange i j a = (if i < length a \<and> j < length a then Some (a[i := a ! j, j := a ! i]) else None)"

text \<open>The two scans of the partition. The first starts at \<open>i\<close>, the second below \<open>j\<close> and stops at \<open>lo\<close>.\<close>

function scan_up :: "(nat \<Rightarrow> nat) \<Rightarrow> nat list \<Rightarrow> nat \<Rightarrow> nat \<Rightarrow> nat option" where
  "scan_up key a v i =
     (if i < length a then (if key (a ! i) < v then scan_up key a v (Suc i) else Some i) else None)"
  by pat_completeness auto
termination
  by (relation "measure (\<lambda>(_, a, _, i). length a - i)") auto

declare scan_up.simps [simp del]

fun scan_down :: "(nat \<Rightarrow> nat) \<Rightarrow> nat list \<Rightarrow> nat \<Rightarrow> nat \<Rightarrow> nat \<Rightarrow> nat option" where
  "scan_down key a v lo 0 = None"
| "scan_down key a v lo (Suc j) =
     (if j < length a then
        (if v < key (a ! j) then (if j = lo then Some j else scan_down key a v lo j) else Some j)
      else None)"

text \<open>One exchange of the partition; \<open>p\<close> counts from the left and \<open>q\<close> from the right the elements equal to
  the pivot.\<close>

definition part_step :: "(nat \<Rightarrow> nat) \<Rightarrow> nat \<Rightarrow> nat \<Rightarrow> nat \<Rightarrow> nat list \<times> nat \<times> nat \<Rightarrow> (nat list \<times> nat \<times> nat) option" where
  "part_step key v i j st =
     (case st of (a, p, q) \<Rightarrow>
        Option.bind (exchange i j a) (\<lambda>a1.
          Option.bind (if key (a1 ! i) = v then map_option (\<lambda>a2. (a2, Suc p)) (exchange p i a1) else Some (a1, p)) (\<lambda>(a2, p2).
            if key (a2 ! j) = v then (if q = 0 then None else map_option (\<lambda>a3. (a3, p2, q - 1)) (exchange (q - 1) j a2))
            else Some (a2, p2, q))))"

lemma scan_down_less: "scan_down key a v lo j = Some j' \<Longrightarrow> j' < j"
  by (induction key a v lo j rule: scan_down.induct) (auto split: if_splits)

function part_loop :: "(nat \<Rightarrow> nat) \<Rightarrow> nat \<Rightarrow> nat \<Rightarrow> nat \<Rightarrow> nat \<Rightarrow> nat list \<times> nat \<times> nat \<Rightarrow> (nat list \<times> nat \<times> nat \<times> nat) option" where
  "part_loop key v lo i j (a, p, q) =
     (case scan_up key a v i of
        None \<Rightarrow> None
      | Some i' \<Rightarrow>
          (case scan_down key a v lo j of
             None \<Rightarrow> None
           | Some j' \<Rightarrow>
               if j' \<le> i' then Some (a, i', p, q)
               else (case part_step key v i' j' (a, p, q) of
                       None \<Rightarrow> None
                     | Some st \<Rightarrow> part_loop key v lo (Suc i') j' st)))"
  by pat_completeness auto
termination
  by (relation "measure (\<lambda>(_, _, _, _, j, _). j)") (auto dest: scan_down_less)

declare part_loop.simps [simp del]

text \<open>The elements equal to the pivot move to the middle, from the left and from the right.\<close>

fun move_left :: "nat list \<Rightarrow> nat \<Rightarrow> 'a list \<Rightarrow> ('a list \<times> nat) option" where
  "move_left [] jj a = Some (a, jj)"
| "move_left (k # ks) jj a =
     (if jj = 0 then None else Option.bind (exchange k (jj - 1) a) (move_left ks (jj - 1)))"

fun move_right :: "nat list \<Rightarrow> nat \<Rightarrow> 'a list \<Rightarrow> ('a list \<times> nat) option" where
  "move_right [] i a = Some (a, i)"
| "move_right (k # ks) i a = Option.bind (exchange k i a) (move_right ks (Suc i))"

text \<open>One level of \<^verbatim>\<open>graphSizeSort\<close> on the places from \<open>lo\<close> to \<open>hi\<close>, \<open>hi\<close> excluded: the list, the end of the
  left part and the beginning of the right part.\<close>

definition size_partition :: "(nat \<Rightarrow> nat) \<Rightarrow> nat \<Rightarrow> nat \<Rightarrow> nat list \<Rightarrow> (nat list \<times> nat \<times> nat) option" where
  "size_partition key lo hi a =
     (let r = hi - 1 in
      if r < length a then
        (case part_loop key (key (a ! r)) lo lo r (a, lo, r) of
           None \<Rightarrow> None
         | Some (a1, i, p, q) \<Rightarrow>
             Option.bind (exchange i r a1) (\<lambda>a2.
               Option.bind (move_left [lo..<p] i a2) (\<lambda>(a3, jj).
                 map_option (\<lambda>(a4, ii). (a4, jj, ii)) (move_right (rev [q..<r]) (Suc i) a3))))
      else None)"

text \<open>The recursion has a bound on its depth; the length of the list is enough.\<close>

fun graphSizeSort :: "nat \<Rightarrow> (nat \<Rightarrow> nat) \<Rightarrow> nat \<Rightarrow> nat \<Rightarrow> nat list \<Rightarrow> nat list option" where
  "graphSizeSort n key lo hi a =
     (if hi \<le> Suc lo then Some a
      else case n of
        0 \<Rightarrow> None
      | Suc m \<Rightarrow>
          (case size_partition key lo hi a of
             None \<Rightarrow> None
           | Some (a1, jj, ii) \<Rightarrow> Option.bind (graphSizeSort m key lo jj a1) (graphSizeSort m key ii hi)))"

declare graphSizeSort.simps [simp del]


section \<open>The tree\<close>

abbreviation (input) MAXROOTLINKS :: nat where "MAXROOTLINKS \<equiv> 256"
abbreviation (input) MAXLINKS :: nat where "MAXLINKS \<equiv> 60"

definition first_char :: "string \<Rightarrow> char" where
  "first_char s = (case s of [] \<Rightarrow> CHR 0x00 | c # cs \<Rightarrow> c)"

text \<open>The children of a node with a letter, in order.\<close>

definition letter_links :: "gnode list \<Rightarrow> nat \<Rightarrow> char \<Rightarrow> nat list" where
  "letter_links g inx p = filter (\<lambda>m. g_char (g ! m) = p) (g_links (g ! inx))"

text \<open>A phrase that is in the tree already.\<close>

definition graph_same :: "nat \<Rightarrow> nat \<Rightarrow> phrase_store \<Rightarrow> phrase_store" where
  "graph_same item m ps =
     (if g_last (p_graph ps ! m) then
        (let px = g_item (p_graph ps ! m) in if overrides ps px item then copy_values px item ps else ps)
      else ps)"

text \<open>The nodes of the rest of a phrase, from the place \<open>i\<close> of the vector on.\<close>

fun graph_chain :: "nat \<Rightarrow> string \<Rightarrow> nat \<Rightarrow> gnode list" where
  "graph_chain i [] item = []"
| "graph_chain i [c] item = [gnode_new\<lparr>g_char := c, g_last := True, g_item := item\<rparr>]"
| "graph_chain i (c # d # cs) item = gnode_new\<lparr>g_char := c, g_links := [Suc i], g_item := item\<rparr> # graph_chain (Suc i) (d # cs) item"

definition graph_new :: "string \<Rightarrow> nat \<Rightarrow> nat \<Rightarrow> gnode list \<Rightarrow> gnode list option" where
  "graph_new s inx item g =
     (let i = length g; links = g_links (g ! inx) in
      if Suc (length links) > (if inx = 0 then MAXROOTLINKS else MAXLINKS) then None
      else Some (g[inx := (g ! inx)\<lparr>g_links := links @ [i]\<rparr>] @ graph_chain i (first_char s # tl s) item))"

function graphAdd :: "string \<Rightarrow> nat \<Rightarrow> nat \<Rightarrow> phrase_store \<Rightarrow> phrase_store option" where
  "graphAdd s inx item ps =
     (let cs = letter_links (p_graph ps) inx (first_char s); t = tl s in
      if cs = [] then map_option (\<lambda>g. ps\<lparr>p_graph := g\<rparr>) (graph_new s inx item (p_graph ps))
      else if t \<noteq> [] then graphAdd t (hd cs) item ps
      else Some (fold (graph_same item) cs ps))"
  by pat_completeness auto
termination
  by (relation "measure (\<lambda>(s, _). length s)") (auto simp: diff_less length_greater_0_conv [symmetric] simp del: length_greater_0_conv)

declare graphAdd.simps [simp del]

text \<open>The number of branches of a node and its phrases; the depth of the recursion is bounded by the number
  of nodes.\<close>

fun graphFindBranches :: "nat \<Rightarrow> gnode list \<Rightarrow> nat \<Rightarrow> nat option" where
  "graphFindBranches 0 g pos = None"
| "graphFindBranches (Suc n) g pos =
     (let links = g_links (g ! pos) in
      map_option (\<lambda>bs. sum_list bs + (length links - 1)) (those (map (graphFindBranches n g) links)))"

fun obind_fold :: "('a \<Rightarrow> 'b \<Rightarrow> 'b option) \<Rightarrow> 'a list \<Rightarrow> 'b \<Rightarrow> 'b option" where
  "obind_fold f [] s = Some s"
| "obind_fold f (x # xs) s = Option.bind (f x s) (obind_fold f xs)"

fun graphCopyNodePhrases :: "nat \<Rightarrow> nat \<Rightarrow> phrase_store \<Rightarrow> phrase_store option" where
  "graphCopyNodePhrases 0 pos ps = None"
| "graphCopyNodePhrases (Suc n) pos ps =
     map_option (slow_add (g_item (p_graph ps ! pos)))
       (obind_fold (graphCopyNodePhrases n) (g_links (p_graph ps ! pos)) ps)"

definition remove_at :: "nat \<Rightarrow> 'a list \<Rightarrow> 'a list" where
  "remove_at i xs = take i xs @ drop (Suc i) xs"

definition prune_root :: "nat \<Rightarrow> phrase_store \<Rightarrow> phrase_store option" where
  "prune_root i ps =
     (let n = length (p_graph ps); c = g_links (p_graph ps ! 0) ! i in
      case graphFindBranches n (p_graph ps) c of
        None \<Rightarrow> None
      | Some b \<Rightarrow>
          if b < 12 then
            map_option (\<lambda>ps1. ps1\<lparr>p_graph := (p_graph ps1)[0 := (p_graph ps1 ! 0)\<lparr>g_links := remove_at i (g_links (p_graph ps1 ! 0))\<rparr>]\<rparr>)
              (graphCopyNodePhrases n c ps)
          else Some ps)"

definition item_size :: "phrase_store \<Rightarrow> nat \<Rightarrow> nat" where
  "item_size ps i = length (getItemAtInt i (p_items ps))"

definition graph_item :: "nat \<Rightarrow> phrase_store \<Rightarrow> phrase_store option" where
  "graph_item i ps = graphAdd (getItemAtInt i (p_items ps)) 0 i ps"

definition makeGraph_tree :: "phrase_store \<Rightarrow> phrase_store option" where
  "makeGraph_tree ps =
     (let ps1 = ps\<lparr>force_quick_search := False\<rparr>; n = items (p_items ps) in
      if data_length (p_items ps1) = 0 then Some ps1
      else
        Option.bind (graphSizeSort n (item_size ps1) 0 n [0..<n]) (\<lambda>sizelist.
          Option.bind (obind_fold graph_item sizelist (ps1\<lparr>p_graph := [gnode_new]\<rparr>)) (\<lambda>ps2.
            obind_fold prune_root (rev [0..<length (g_links (p_graph ps2 ! 0))]) ps2)))"

definition makeGraph :: "bool \<Rightarrow> phrase_store \<Rightarrow> phrase_store option" where
  "makeGraph fqs ps = (if fqs then Some (makeGraph_quick ps) else makeGraph_tree ps)"


section \<open>Search\<close>

text \<open>Each quick search leaves its phrase behind the document.\<close>

definition bm_residue :: "string \<Rightarrow> string \<Rightarrow> string \<Rightarrow> string" where
  "bm_residue doc phrase extra =
     (if length doc < length phrase \<or> length phrase > 126 then extra else phrase @ drop (length phrase) extra)"

definition slow_residue :: "phrase_store \<Rightarrow> string \<Rightarrow> string \<Rightarrow> string" where
  "slow_residue ps doc extra = fold (\<lambda>i. bm_residue doc (getItemAtInt i (p_items ps))) (slowgraph ps) extra"

text \<open>The descent at the place \<open>i\<close> of the buffer: \<open>sl\<close> is the number of children left of the node \<open>currnode\<close>
  that was matched last.\<close>

function tree_walk :: "phrase_store \<Rightarrow> string \<Rightarrow> nat \<Rightarrow> nat \<Rightarrow> int \<Rightarrow> nat \<Rightarrow> nat \<Rightarrow> (string \<rightharpoonup> nat \<times> nat) \<Rightarrow> (string \<rightharpoonup> nat \<times> nat) option" where
  "tree_walk ps buf i pos sl currnode depth res =
     (if i + depth \<ge> length buf then None
      else
        let g = p_graph ps; nd = g ! pos in
        if g_char nd = buf ! (i + depth) then
          (let res1 = (if g_last nd then bump (getItemAtInt (g_item nd) (p_items ps)) (g_item nd) 1 res else res) in
           if g_links nd \<noteq> [] then tree_walk ps buf i (g_links nd ! 0) (int (length (g_links nd))) pos (Suc depth) res1
           else Some res1)
        else if sl - 1 > 0 then
          tree_walk ps buf i (g_links (g ! currnode) ! (length (g_links (g ! currnode)) - nat (sl - 1))) (sl - 1) currnode depth res
        else Some res)"
  by pat_completeness auto
termination
  by (relation "measures [\<lambda>(_, buf, i, _, _, _, depth, _). length buf - (i + depth), \<lambda>(_, _, _, _, sl, _). nat sl]") auto

declare tree_walk.simps [simp del]

definition tree_search :: "phrase_store \<Rightarrow> string \<Rightarrow> nat \<Rightarrow> (string \<rightharpoonup> nat \<times> nat) \<Rightarrow> (string \<rightharpoonup> nat \<times> nat) option" where
  "tree_search ps buf len res =
     obind_fold (\<lambda>i. obind_fold (\<lambda>pos. tree_walk ps buf i pos 0 0 0) (g_links (p_graph ps ! 0))) [0..<len] res"

text \<open>The document and the bytes behind it.\<close>

definition graphSearch :: "phrase_store \<Rightarrow> string \<Rightarrow> string \<Rightarrow> (string \<rightharpoonup> nat \<times> nat) \<Rightarrow> (string \<rightharpoonup> nat \<times> nat) option" where
  "graphSearch ps doc extra res =
     Option.bind (graphSearch_slow ps doc (slowgraph ps) res) (\<lambda>res1.
       if force_quick_search ps \<or> p_graph ps = [] then Some res1
       else tree_search ps (doc @ slow_residue ps doc extra) (length doc) res1)"


section \<open>Lemmas: sorting by length\<close>

text \<open>A list whose elements from \<open>lo\<close> to \<open>hi\<close> were rearranged.\<close>

definition perm_in :: "nat \<Rightarrow> nat \<Rightarrow> 'a list \<Rightarrow> 'a list \<Rightarrow> bool" where
  "perm_in lo hi a b \<longleftrightarrow> mset b = mset a \<and> length b = length a \<and> (\<forall>x. x < lo \<or> hi \<le> x \<longrightarrow> b ! x = a ! x)
     \<and> (\<forall>x. lo \<le> x \<and> x < hi \<longrightarrow> (\<exists>y. lo \<le> y \<and> y < hi \<and> b ! x = a ! y))"

lemma perm_in_refl [simp]: "perm_in lo hi a a"
  by (auto simp: perm_in_def)

lemma perm_in_trans: "perm_in lo hi a b \<Longrightarrow> perm_in lo hi b c \<Longrightarrow> perm_in lo hi a c"
  unfolding perm_in_def by (metis (no_types, lifting))

lemma perm_in_wider:
  assumes "perm_in lo' hi' a b" "lo \<le> lo'" "hi' \<le> hi"
  shows "perm_in lo hi a b"
  using assms unfolding perm_in_def by (metis (no_types, lifting) le_less_linear le_trans less_le_trans)

lemma perm_in_mset: "perm_in lo hi a b \<Longrightarrow> mset b = mset a" "perm_in lo hi a b \<Longrightarrow> length b = length a"
  "perm_in lo hi a b \<Longrightarrow> x < lo \<or> hi \<le> x \<Longrightarrow> b ! x = a ! x"
  by (auto simp: perm_in_def)

lemma perm_in_all:
  "perm_in lo hi a b \<Longrightarrow> \<forall>x. lo \<le> x \<and> x < hi \<longrightarrow> P (a ! x) \<Longrightarrow> \<forall>x. lo \<le> x \<and> x < hi \<longrightarrow> P (b ! x)"
  unfolding perm_in_def by metis

lemma exchange_perm:
  assumes "lo \<le> i" "i < hi" "lo \<le> j" "j < hi" "hi \<le> length a"
  obtains b where "exchange i j a = Some b" "perm_in lo hi a b" "b ! i = a ! j" "b ! j = a ! i"
    "\<And>x. x \<noteq> i \<Longrightarrow> x \<noteq> j \<Longrightarrow> b ! x = a ! x"
proof
  let ?b = "a[i := a ! j, j := a ! i]"
  have len: "i < length a" "j < length a" using assms by auto
  show "exchange i j a = Some ?b" using len by (simp add: exchange_def)
  show nth: "?b ! i = a ! j" "?b ! j = a ! i" "\<And>x. x \<noteq> i \<Longrightarrow> x \<noteq> j \<Longrightarrow> ?b ! x = a ! x"
    using len by (auto simp: nth_list_update)
  have "mset ?b = mset a" using mset_swap [of j a i] len by simp
  moreover have "\<exists>y. lo \<le> y \<and> y < hi \<and> ?b ! x = a ! y" if "lo \<le> x" "x < hi" for x
    using that assms nth by metis
  ultimately show "perm_in lo hi a ?b" using assms nth by (auto simp: perm_in_def)
qed

lemma scan_up_finds:
  assumes "m < length a" "i \<le> m" "v \<le> key (a ! m)"
  shows "\<exists>i'. scan_up key a v i = Some i' \<and> i \<le> i' \<and> i' \<le> m \<and> v \<le> key (a ! i') \<and> (\<forall>x. i \<le> x \<and> x < i' \<longrightarrow> key (a ! x) < v)"
  using assms
proof (induction key a v i rule: scan_up.induct)
  case (1 key a v i)
  show ?case
  proof (cases "key (a ! i) < v")
    case True
    then have "Suc i \<le> m" using "1.prems" by (metis Suc_leI le_neq_implies_less not_less)
    moreover have "i < length a" using "1.prems" by simp
    ultimately obtain i' where i': "scan_up key a v (Suc i) = Some i'" "Suc i \<le> i'" "i' \<le> m" "v \<le> key (a ! i')"
      "\<forall>x. Suc i \<le> x \<and> x < i' \<longrightarrow> key (a ! x) < v" using "1.IH" True "1.prems" by blast
    have "scan_up key a v i = Some i'" using True \<open>i < length a\<close> i'(1) by (subst scan_up.simps) simp
    moreover have "key (a ! x) < v" if "i \<le> x" "x < i'" for x using i'(5) True that by (cases "x = i") auto
    ultimately show ?thesis using i' by (intro exI [of _ i']) simp
  next
    case False
    then show ?thesis using "1.prems" by (subst scan_up.simps) auto
  qed
qed

lemma scan_down_finds:
  assumes "lo < j" "j \<le> length a"
  shows "\<exists>j'. scan_down key a v lo j = Some j' \<and> lo \<le> j' \<and> j' < j \<and> (key (a ! j') \<le> v \<or> j' = lo)
     \<and> (\<forall>x. j' < x \<and> x < j \<longrightarrow> v < key (a ! x))"
  using assms
proof (induction key a v lo j rule: scan_down.induct)
  case (2 key a v lo j)
  show ?case
  proof (cases "v < key (a ! j) \<and> j \<noteq> lo")
    case True
    with 2 obtain j' where "scan_down key a v lo j = Some j'" "lo \<le> j'" "j' < j" "key (a ! j') \<le> v \<or> j' = lo"
      "\<forall>x. j' < x \<and> x < j \<longrightarrow> v < key (a ! x)" by auto
    then show ?thesis using True "2.prems" by (auto simp: less_Suc_eq)
  next
    case False
    then show ?thesis using "2.prems" by auto
  qed
qed simp

text \<open>Between the scans: equal elements at both ends, smaller ones on the left, larger ones on the right.\<close>

definition part_inv :: "(nat \<Rightarrow> nat) \<Rightarrow> nat \<Rightarrow> nat \<Rightarrow> nat \<Rightarrow> nat list \<Rightarrow> nat \<Rightarrow> nat \<Rightarrow> nat \<Rightarrow> nat \<Rightarrow> bool" where
  "part_inv key v lo r a p q i j \<longleftrightarrow> lo \<le> p \<and> p \<le> i \<and> i \<le> j \<and> j \<le> q \<and> q \<le> r \<and> r < length a \<and>
     (\<forall>x. lo \<le> x \<and> x < p \<longrightarrow> key (a ! x) = v) \<and> (\<forall>x. p \<le> x \<and> x < i \<longrightarrow> key (a ! x) < v) \<and>
     (\<forall>x. j \<le> x \<and> x < q \<longrightarrow> v < key (a ! x)) \<and> (\<forall>x. q \<le> x \<and> x < r \<longrightarrow> key (a ! x) = v) \<and> key (a ! r) = v"

lemma part_step_inv:
  assumes inv: "part_inv key v lo r a p q i j"
    and i': "i \<le> i'" "v \<le> key (a ! i')" "\<forall>x. i \<le> x \<and> x < i' \<longrightarrow> key (a ! x) < v"
    and j': "i' < j'" "j' < j" "key (a ! j') \<le> v" "\<forall>x. j' < x \<and> x < j \<longrightarrow> v < key (a ! x)"
  shows "\<exists>b p' q'. part_step key v i' j' (a, p, q) = Some (b, p', q') \<and> perm_in lo r a b \<and> part_inv key v lo r b p' q' (Suc i') j'"
proof -
  note I = inv [unfolded part_inv_def]
  have rng: "lo \<le> i'" "i' < r" "lo \<le> j'" "j' < r" "r \<le> length a" using I i' j' by auto
  obtain a1 where a1: "exchange i' j' a = Some a1" "perm_in lo r a a1" "a1 ! i' = a ! j'" "a1 ! j' = a ! i'"
    "\<And>x. x \<noteq> i' \<Longrightarrow> x \<noteq> j' \<Longrightarrow> a1 ! x = a ! x"
    using exchange_perm [OF rng(1-5)] by metis
  have len1: "r \<le> length a1" using a1(2) rng(5) by (simp add: perm_in_mset)
  have k1: "key (a1 ! i') \<le> v" "v \<le> key (a1 ! j')" using a1 i' j' by simp_all
  have out1: "a1 ! r = a ! r" using a1(2) by (simp add: perm_in_mset)
  have low1: "\<forall>x. p \<le> x \<and> x < i' \<longrightarrow> key (a1 ! x) < v"
    using I i' j' a1(5) by (metis le_less_linear less_irrefl less_trans)
  have eq1: "\<forall>x. lo \<le> x \<and> x < p \<longrightarrow> key (a1 ! x) = v" using I i' j' a1(5) by (metis le_less_trans less_irrefl less_le_trans less_trans)
  have high1: "\<forall>x. j' < x \<and> x < q \<longrightarrow> v < key (a1 ! x)" using I i' j' a1(5) by (metis le_less_linear less_irrefl less_trans)
  have eqr1: "\<forall>x. q \<le> x \<and> x < r \<longrightarrow> key (a1 ! x) = v" using I i' j' a1(5) by (metis le_less_trans less_irrefl less_le_trans less_trans)
  have p: "lo \<le> p" "p < r" "p \<le> i'" using I i' rng by auto
  obtain a2 p2 where a2: "(if key (a1 ! i') = v then map_option (\<lambda>a2. (a2, Suc p)) (exchange p i' a1) else Some (a1, p)) = Some (a2, p2)"
    "perm_in lo r a1 a2" "\<forall>x. i' < x \<longrightarrow> a2 ! x = a1 ! x" "lo \<le> p2" "p2 \<le> Suc i'"
    "\<forall>x. lo \<le> x \<and> x < p2 \<longrightarrow> key (a2 ! x) = v" "\<forall>x. p2 \<le> x \<and> x < Suc i' \<longrightarrow> key (a2 ! x) < v"
  proof (cases "key (a1 ! i') = v")
    case False
    then have "key (a1 ! i') < v" using k1 by simp
    then show ?thesis using that [of a1 p] False p eq1 low1 by (auto simp: less_Suc_eq)
  next
    case True
    obtain b where b: "exchange p i' a1 = Some b" "perm_in lo r a1 b" "b ! p = a1 ! i'" "b ! i' = a1 ! p"
      "\<And>x. x \<noteq> p \<Longrightarrow> x \<noteq> i' \<Longrightarrow> b ! x = a1 ! x"
      using exchange_perm [OF p(1,2) rng(1,2) len1] by metis
    have "key (b ! x) < v" if "Suc p \<le> x" "x < Suc i'" for x
    proof (cases "x = i'")
      case True
      then show ?thesis using b low1 that p by simp
    next
      case False
      then show ?thesis using b(5) [of x] low1 that by simp
    qed
    moreover have "key (b ! x) = v" if "lo \<le> x" "x < Suc p" for x
      using b True eq1 that p by (cases "x = p") (auto simp: less_Suc_eq)
    ultimately show ?thesis using that [of b "Suc p"] True b p by simp
  qed
  have len2: "r \<le> length a2" using a2(2) len1 by (simp add: perm_in_mset)
  have j2: "a2 ! j' = a1 ! j'" "\<And>x. i' < x \<Longrightarrow> a2 ! x = a1 ! x" using a2(3) j' by simp_all
  have q: "j' < q" "q \<le> r" using I j' by auto
  have out2: "a2 ! r = a1 ! r" using a2(2) by (simp add: perm_in_mset)
  obtain a3 q3 where a3: "(if key (a2 ! j') = v then (if q = 0 then None else map_option (\<lambda>a3. (a3, p2, q - 1)) (exchange (q - 1) j' a2))
            else Some (a2, p2, q)) = Some (a3, p2, q3)"
    "perm_in lo r a2 a3" "\<forall>x. x < j' \<longrightarrow> a3 ! x = a2 ! x" "j' \<le> q3" "q3 \<le> r"
    "\<forall>x. j' \<le> x \<and> x < q3 \<longrightarrow> v < key (a3 ! x)" "\<forall>x. q3 \<le> x \<and> x < r \<longrightarrow> key (a3 ! x) = v" "a3 ! r = a2 ! r"
  proof (cases "key (a2 ! j') = v")
    case False
    then have "v < key (a2 ! j')" using k1 j2 by simp
    then have "v < key (a2 ! x)" if "j' \<le> x" "x < q" for x
      using high1 that j2(2) [of x] j' by (cases "x = j'") auto
    moreover have "key (a2 ! x) = v" if "q \<le> x" "x < r" for x using eqr1 that j2(2) [of x] q j' by simp
    ultimately show ?thesis using that [of a2 q] False q by simp
  next
    case True
    have q1: "lo \<le> q - 1" "q - 1 < r" using q rng by auto
    obtain b where b: "exchange (q - 1) j' a2 = Some b" "perm_in lo r a2 b" "b ! (q - 1) = a2 ! j'" "b ! j' = a2 ! (q - 1)"
      "\<And>x. x \<noteq> q - 1 \<Longrightarrow> x \<noteq> j' \<Longrightarrow> b ! x = a2 ! x"
      using exchange_perm [OF q1 rng(3,4) len2] by metis
    have h2: "v < key (a2 ! x)" if "j' < x" "x < q" for x using high1 that j2(2) [of x] j' by simp
    have "v < key (b ! x)" if "j' \<le> x" "x < q - 1" for x
      using b h2 that by (cases "x = j'") auto
    moreover have "key (b ! x) = v" if "q - 1 \<le> x" "x < r" for x
    proof (cases "x = q - 1")
      case False
      then have "b ! x = a2 ! x" using b(5) that q by simp
      then show ?thesis using eqr1 that False j2(2) [of x] q j' by simp
    qed (use b True in simp)
    moreover have "b ! r = a2 ! r" using b(2) by (simp add: perm_in_mset)
    ultimately show ?thesis using that [of b "q - 1"] True b q by auto
  qed
  have "part_step key v i' j' (a, p, q) = Some (a3, p2, q3)"
    using a1(1) a2(1) a3(1) by (simp add: part_step_def del: option.case_eq_if)
  moreover have "perm_in lo r a a3" using a1(2) a2(2) a3(2) perm_in_trans by blast
  moreover have "part_inv key v lo r a3 p2 q3 (Suc i') j'"
    unfolding part_inv_def using a2 a3 out1 out2 j' I perm_in_mset(2) [OF \<open>perm_in lo r a a3\<close>] by (auto simp: Suc_le_eq)
  ultimately show ?thesis by blast
qed

lemma part_loop_parts:
  assumes "part_inv key v lo r a p q i j" "lo < j"
  shows "\<exists>b i' p' q'. part_loop key v lo i j (a, p, q) = Some (b, i', p', q') \<and> perm_in lo r a b \<and> lo \<le> p' \<and> p' \<le> i' \<and> i' \<le> q' \<and> q' \<le> r
     \<and> (\<forall>x. lo \<le> x \<and> x < p' \<longrightarrow> key (b ! x) = v) \<and> (\<forall>x. p' \<le> x \<and> x < i' \<longrightarrow> key (b ! x) < v)
     \<and> (\<forall>x. i' < x \<and> x < q' \<longrightarrow> v < key (b ! x)) \<and> (\<forall>x. q' \<le> x \<and> x < r \<longrightarrow> key (b ! x) = v)
     \<and> v \<le> key (b ! i') \<and> key (b ! r) = v"
  using assms
proof (induction key v lo i j "(a, p, q)" arbitrary: a p q rule: part_loop.induct)
  case (1 key v lo i j a p q)
  note I = "1.prems"(1) [unfolded part_inv_def]
  have "v \<le> key (a ! j)" using I by (metis le_less_linear less_imp_le_nat nless_le order_refl)
  then obtain i' where i': "scan_up key a v i = Some i'" "i \<le> i'" "i' \<le> j" "v \<le> key (a ! i')" "\<forall>x. i \<le> x \<and> x < i' \<longrightarrow> key (a ! x) < v"
    using scan_up_finds [of j a i v key] I by auto
  have "j \<le> length a" using I by simp
  from scan_down_finds [OF "1.prems"(2) this] obtain j' where j': "scan_down key a v lo j = Some j'" "lo \<le> j'" "j' < j"
    "key (a ! j') \<le> v \<or> j' = lo" "\<forall>x. j' < x \<and> x < j \<longrightarrow> v < key (a ! x)" by blast
  show ?case
  proof (cases "j' \<le> i'")
    case True
    have "v < key (a ! x)" if "i' < x" "x < q" for x using I j'(5) True that by (cases "x < j") auto
    moreover have "key (a ! x) < v" if "p \<le> x" "x < i'" for x using I i'(5) that by (cases "x < i") auto
    moreover have "part_loop key v lo i j (a, p, q) = Some (a, i', p, q)" using i' j' True by (subst part_loop.simps) simp
    ultimately show ?thesis using I i' by auto
  next
    case False
    then have lt: "i' < j'" and low: "key (a ! j') \<le> v" using I i' j' by auto
    obtain b p' q' where b: "part_step key v i' j' (a, p, q) = Some (b, p', q')" "perm_in lo r a b"
      "part_inv key v lo r b p' q' (Suc i') j'"
      using part_step_inv [OF "1.prems"(1) i'(2,4,5) lt j'(3) low j'(5)] by blast
    have eq: "part_loop key v lo i j (a, p, q) = part_loop key v lo (Suc i') j' (b, p', q')"
      using i' j' False b(1) by (subst part_loop.simps) simp
    have "lo < j'" using I i' lt by simp
    from "1.hyps" [OF i'(1) j'(1) False b(1) b(3) this] show ?thesis
      unfolding eq using perm_in_trans [OF b(2)] by blast
  qed
qed

text \<open>The exchanges from both ends of a range move the elements equal to the pivot to the other end.\<close>

lemma move_left_equal:
  assumes seg: "\<forall>x. lo \<le> x \<and> x < hi \<longrightarrow> (if x < lo + min t (hi - p) \<or> p \<le> x \<and> x < hi - t then P (a ! x) else Q (a ! x))"
    and rng: "lo + t \<le> p" "p \<le> hi" "hi \<le> length a"
  shows "\<exists>b. move_left [lo + t..<p] (hi - t) a = Some (b, hi - (p - lo)) \<and> perm_in lo hi a b
     \<and> (\<forall>x. lo \<le> x \<and> x < hi \<longrightarrow> (if x < hi - (p - lo) then P (b ! x) else Q (b ! x)))"
  using seg rng
proof (induction "p - (lo + t)" arbitrary: a t)
  case 0
  then have t: "lo + t = p" by simp
  have "(x < lo + min t (hi - p) \<or> p \<le> x \<and> x < hi - t) = (x < hi - (p - lo))" if "lo \<le> x" "x < hi" for x
    using t 0 that by (auto simp: min_def)
  then show ?case using 0 t by auto
next
  case (Suc d)
  then have lt: "lo + t < p" by simp
  then have upt: "[lo + t..<p] = (lo + t) # [lo + Suc t..<p]" by (simp add: upt_rec)
  have nz: "hi - t \<noteq> 0" using Suc lt by auto
  have rng: "lo \<le> lo + t" "lo + t < hi" "lo \<le> hi - t - 1" "hi - t - 1 < hi" "hi \<le> length a" using Suc lt by auto
  obtain b where b: "exchange (lo + t) (hi - t - 1) a = Some b" "perm_in lo hi a b" "b ! (lo + t) = a ! (hi - t - 1)"
    "b ! (hi - t - 1) = a ! (lo + t)" "\<And>x. x \<noteq> lo + t \<Longrightarrow> x \<noteq> hi - t - 1 \<Longrightarrow> b ! x = a ! x"
    using exchange_perm [OF rng] by metis
  have q: "Q (a ! (lo + t))" using Suc.prems(1) lt rng by (auto split: if_splits)
  have y: "if t < hi - p then P (a ! (hi - t - 1)) else Q (a ! (hi - t - 1))"
  proof -
    have "if hi - t - 1 < lo + min t (hi - p) \<or> p \<le> hi - t - 1 \<and> hi - t - 1 < hi - t then P (a ! (hi - t - 1)) else Q (a ! (hi - t - 1))"
      using Suc.prems(1) rng by blast
    moreover have "(hi - t - 1 < lo + min t (hi - p) \<or> p \<le> hi - t - 1 \<and> hi - t - 1 < hi - t) = (t < hi - p)"
      using lt Suc.prems by (auto simp: min_def)
    ultimately show ?thesis by metis
  qed
  have "if x < lo + min (Suc t) (hi - p) \<or> p \<le> x \<and> x < hi - Suc t then P (b ! x) else Q (b ! x)" if x: "lo \<le> x" "x < hi" for x
  proof -
    consider (k) "x = lo + t" "x \<noteq> hi - t - 1" | (y) "x = hi - t - 1" | (other) "x \<noteq> lo + t" "x \<noteq> hi - t - 1" by blast
    then show ?thesis
    proof cases
      case k
      then show ?thesis using b(3) q y lt Suc.prems by (auto simp: min_def split: if_splits)
    next
      case y
      then show ?thesis using b(4) q lt Suc.prems x by (auto simp: min_def)
    next
      case other
      then have "b ! x = a ! x" by (rule b(5))
      moreover have "(x < lo + min (Suc t) (hi - p) \<or> p \<le> x \<and> x < hi - Suc t) = (x < lo + min t (hi - p) \<or> p \<le> x \<and> x < hi - t)"
        using other x by (auto simp: min_def)
      ultimately show ?thesis using Suc.prems(1) x by simp
    qed
  qed
  then have seg: "\<forall>x. lo \<le> x \<and> x < hi \<longrightarrow> (if x < lo + min (Suc t) (hi - p) \<or> p \<le> x \<and> x < hi - Suc t then P (b ! x) else Q (b ! x))"
    by blast
  have d: "d = p - (lo + Suc t)" "lo + Suc t \<le> p" using Suc.hyps(2) lt by auto
  have "hi \<le> length b" using b(2) rng(5) by (simp add: perm_in_mset)
  from Suc.hyps(1) [OF d(1) seg d(2) Suc.prems(3) this] obtain e where e: "move_left [lo + Suc t..<p] (hi - Suc t) b = Some (e, hi - (p - lo))" "perm_in lo hi b e"
    "\<forall>x. lo \<le> x \<and> x < hi \<longrightarrow> (if x < hi - (p - lo) then P (e ! x) else Q (e ! x))"
    by blast
  have "move_left [lo + t..<p] (hi - t) a = Some (e, hi - (p - lo))"
    unfolding upt using nz b(1) e(1) by simp
  then show ?case using e perm_in_trans [OF b(2) e(2)] by blast
qed

lemma move_right_equal:
  assumes seg: "\<forall>x. lo \<le> x \<and> x < hi \<longrightarrow> (if hi - min t (q - lo) \<le> x \<or> lo + t \<le> x \<and> x < q then P (a ! x) else Q (a ! x))"
    and rng: "lo \<le> q" "q + t \<le> hi" "hi \<le> length a"
  shows "\<exists>b. move_right (rev [q..<hi - t]) (lo + t) a = Some (b, lo + (hi - q)) \<and> perm_in lo hi a b
     \<and> (\<forall>x. lo \<le> x \<and> x < hi \<longrightarrow> (if lo + (hi - q) \<le> x then P (b ! x) else Q (b ! x)))"
  using seg rng
proof (induction "hi - t - q" arbitrary: a t)
  case 0
  then have t: "q = hi - t" "hi - q = t" by auto
  have "(hi - min t (q - lo) \<le> x \<or> lo + t \<le> x \<and> x < q) = (lo + (hi - q) \<le> x)" if "lo \<le> x" "x < hi" for x
    using t 0 that by (auto simp: min_def)
  then show ?case using 0 t by auto
next
  case (Suc d)
  then have lt: "q + t < hi" by simp
  have "hi - t = Suc (hi - Suc t)" "q \<le> hi - Suc t" using lt by auto
  then have "[q..<hi - t] = [q..<hi - Suc t] @ [hi - t - 1]" by (metis diff_Suc_1 upt_Suc)
  then have upt: "rev [q..<hi - t] = (hi - t - 1) # rev [q..<hi - Suc t]" by simp
  have rng: "lo \<le> hi - t - 1" "hi - t - 1 < hi" "lo \<le> lo + t" "lo + t < hi" "hi \<le> length a" using Suc lt by auto
  obtain b where b: "exchange (hi - t - 1) (lo + t) a = Some b" "perm_in lo hi a b" "b ! (hi - t - 1) = a ! (lo + t)"
    "b ! (lo + t) = a ! (hi - t - 1)" "\<And>x. x \<noteq> hi - t - 1 \<Longrightarrow> x \<noteq> lo + t \<Longrightarrow> b ! x = a ! x"
    using exchange_perm [OF rng] by metis
  have q: "Q (a ! (hi - t - 1))"
  proof -
    have "if hi - min t (q - lo) \<le> hi - t - 1 \<or> lo + t \<le> hi - t - 1 \<and> hi - t - 1 < q then P (a ! (hi - t - 1)) else Q (a ! (hi - t - 1))"
      using Suc.prems(1) rng by blast
    moreover have "\<not> (hi - min t (q - lo) \<le> hi - t - 1 \<or> lo + t \<le> hi - t - 1 \<and> hi - t - 1 < q)"
      using lt Suc.prems by (auto simp: min_def)
    ultimately show ?thesis by metis
  qed
  have y: "if t < q - lo then P (a ! (lo + t)) else Q (a ! (lo + t))"
  proof -
    have "if hi - min t (q - lo) \<le> lo + t \<or> lo + t \<le> lo + t \<and> lo + t < q then P (a ! (lo + t)) else Q (a ! (lo + t))"
      using Suc.prems(1) rng by blast
    moreover have "(hi - min t (q - lo) \<le> lo + t \<or> lo + t \<le> lo + t \<and> lo + t < q) = (t < q - lo)"
      using lt Suc.prems by (auto simp: min_def)
    ultimately show ?thesis by metis
  qed
  have "if hi - min (Suc t) (q - lo) \<le> x \<or> lo + Suc t \<le> x \<and> x < q then P (b ! x) else Q (b ! x)" if x: "lo \<le> x" "x < hi" for x
  proof -
    consider (k) "x = hi - t - 1" "x \<noteq> lo + t" | (y) "x = lo + t" | (other) "x \<noteq> hi - t - 1" "x \<noteq> lo + t" by blast
    then show ?thesis
    proof cases
      case k
      then show ?thesis using b(3) q y lt Suc.prems by (auto simp: min_def split: if_splits)
    next
      case y
      then show ?thesis using b(4) q lt Suc.prems x by (auto simp: min_def)
    next
      case other
      then have "b ! x = a ! x" by (rule b(5))
      moreover have "(hi - min (Suc t) (q - lo) \<le> x \<or> lo + Suc t \<le> x \<and> x < q) = (hi - min t (q - lo) \<le> x \<or> lo + t \<le> x \<and> x < q)"
        using other x by (auto simp: min_def)
      ultimately show ?thesis using Suc.prems(1) x by simp
    qed
  qed
  then have seg: "\<forall>x. lo \<le> x \<and> x < hi \<longrightarrow> (if hi - min (Suc t) (q - lo) \<le> x \<or> lo + Suc t \<le> x \<and> x < q then P (b ! x) else Q (b ! x))"
    by blast
  have d: "d = hi - Suc t - q" "q + Suc t \<le> hi" using Suc.hyps(2) lt by auto
  have "hi \<le> length b" using b(2) rng(5) by (simp add: perm_in_mset)
  from Suc.hyps(1) [OF d(1) seg Suc.prems(2) d(2) this] obtain e where e: "move_right (rev [q..<hi - Suc t]) (lo + Suc t) b = Some (e, lo + (hi - q))" "perm_in lo hi b e"
    "\<forall>x. lo \<le> x \<and> x < hi \<longrightarrow> (if lo + (hi - q) \<le> x then P (e ! x) else Q (e ! x))"
    by blast
  have "move_right (rev [q..<hi - t]) (lo + t) a = Some (e, lo + (hi - q))"
    unfolding upt using b(1) e(1) by simp
  then show ?case using e perm_in_trans [OF b(2) e(2)] by blast
qed

lemma move_right_total:
  assumes "\<forall>k \<in> set ks. s \<le> k \<and> k < hi" "s \<le> i" "i + length ks \<le> hi" "hi \<le> length a"
  shows "\<exists>b. move_right ks i a = Some (b, i + length ks) \<and> perm_in s hi a b"
  using assms
proof (induction ks arbitrary: i a)
  case (Cons k ks)
  obtain b where b: "exchange k i a = Some b" "perm_in s hi a b"
  proof (rule exchange_perm)
    show "s \<le> k" "k < hi" "s \<le> i" "i < hi" "hi \<le> length a" using Cons.prems by auto
  qed
  have "hi \<le> length b" using b(2) Cons.prems(4) by (simp add: perm_in_mset)
  then obtain e where "move_right ks (Suc i) b = Some (e, Suc i + length ks)" "perm_in s hi b e"
    using Cons.IH [of "Suc i" b] Cons.prems by auto
  then show ?case using b perm_in_trans [OF b(2)] by auto
qed simp

text \<open>One level of the sort: smaller elements before \<open>jj\<close>, equal ones up to \<open>ii\<close>, no smaller ones from there on.\<close>

lemma size_partition_parts:
  assumes "Suc lo < hi" "hi \<le> length a"
  shows "\<exists>b jj ii v. size_partition key lo hi a = Some (b, jj, ii) \<and> perm_in lo hi a b \<and> lo \<le> jj \<and> jj < ii \<and> ii \<le> hi
     \<and> (\<forall>x. lo \<le> x \<and> x < jj \<longrightarrow> key (b ! x) < v) \<and> (\<forall>x. jj \<le> x \<and> x < ii \<longrightarrow> key (b ! x) = v)
     \<and> (\<forall>x. ii \<le> x \<and> x < hi \<longrightarrow> v \<le> key (b ! x))"
proof -
  define r v where "r = hi - 1" and "v = key (a ! r)"
  have r: "r < length a" "lo < r" "hi = Suc r" using assms by (auto simp: r_def)
  have "part_inv key v lo r a lo r lo r" using r by (auto simp: part_inv_def v_def)
  from part_loop_parts [OF this r(2)] obtain a1 i p q where a1: "part_loop key v lo lo r (a, lo, r) = Some (a1, i, p, q)"
    "perm_in lo r a a1" "lo \<le> p" "p \<le> i" "i \<le> q" "q \<le> r" "\<forall>x. lo \<le> x \<and> x < p \<longrightarrow> key (a1 ! x) = v"
    "\<forall>x. p \<le> x \<and> x < i \<longrightarrow> key (a1 ! x) < v" "\<forall>x. i < x \<and> x < q \<longrightarrow> v < key (a1 ! x)"
    "\<forall>x. q \<le> x \<and> x < r \<longrightarrow> key (a1 ! x) = v" "v \<le> key (a1 ! i)" "key (a1 ! r) = v" by blast
  have len1: "length a1 = length a" using a1(2) by (simp add: perm_in_mset)
  have rng: "lo \<le> i" "i < hi" "lo \<le> r" "r < hi" "hi \<le> length a1" using a1 r len1 by auto
  obtain a2 where a2: "exchange i r a1 = Some a2" "perm_in lo hi a1 a2" "a2 ! i = a1 ! r" "a2 ! r = a1 ! i"
    "\<And>x. x \<noteq> i \<Longrightarrow> x \<noteq> r \<Longrightarrow> a2 ! x = a1 ! x" using exchange_perm [OF rng] by metis
  have len2: "length a2 = length a" using a2(2) len1 by (simp add: perm_in_mset)
  have left: "\<forall>x. lo \<le> x \<and> x < i \<longrightarrow> (if x < lo + min 0 (i - p) \<or> p \<le> x \<and> x < i - 0 then key (a2 ! x) < v else key (a2 ! x) = v)"
    using a1 a2(5) r by auto
  obtain a3 where a3: "move_left [lo..<p] i a2 = Some (a3, i - (p - lo))" "perm_in lo i a2 a3"
    "\<forall>x. lo \<le> x \<and> x < i \<longrightarrow> (if x < i - (p - lo) then key (a3 ! x) < v else key (a3 ! x) = v)"
    using move_left_equal [where t = 0 and P = "\<lambda>y. key y < v" and Q = "\<lambda>y. key y = v", OF left] a1 r len2 by auto
  have len3: "length a3 = length a" using a3(2) len2 by (simp add: perm_in_mset)
  have same3: "a3 ! x = a2 ! x" if "i \<le> x" for x using a3(2) that by (simp add: perm_in_mset)
  have ar: "v \<le> key (a3 ! r)" using same3 [of r] a2(4) a1(11) a1 by simp
  have p1: "perm_in lo hi a a1" by (rule perm_in_wider [OF a1(2)]) (use r in auto)
  have "perm_in lo hi a2 a3" by (rule perm_in_wider [OF a3(2)]) (use rng in auto)
  then have p3: "perm_in lo hi a a3" using perm_in_trans [OF perm_in_trans [OF p1 a2(2)]] by blast
  show ?thesis
  proof (cases "i = r")
    case True
    then have q: "q = r" using a1 by simp
    have "size_partition key lo hi a = Some (a3, i - (p - lo), Suc r)"
      using r a1(1) a2(1) a3(1) by (simp add: size_partition_def Let_def v_def True q)
    moreover have "key (a3 ! r) = v" using same3 [of r] a2(4) a1(12) True by simp
    then have "\<forall>x. i - (p - lo) \<le> x \<and> x < Suc r \<longrightarrow> key (a3 ! x) = v" using a3(3) True a1 by (auto simp: less_Suc_eq)
    moreover note p3
    moreover have "\<forall>x. lo \<le> x \<and> x < i - (p - lo) \<longrightarrow> key (a3 ! x) < v" using a3(3) by auto
    moreover have "lo \<le> i - (p - lo)" "i - (p - lo) < Suc r" "Suc r \<le> hi" using a1(3-6) r True by auto
    moreover have "\<forall>x. Suc r \<le> x \<and> x < hi \<longrightarrow> v \<le> key (a3 ! x)" using r by auto
    ultimately show ?thesis by blast
  next
    case False
    then have ir: "i < r" using a1 by simp
    obtain a4 where a4: "move_right (rev [q..<r]) (Suc i) a3 = Some (a4, Suc i + (r - q))" "perm_in i hi a3 a4"
      "\<forall>x. i \<le> x \<and> x < Suc i + (r - q) \<longrightarrow> key (a4 ! x) = v" "\<forall>x. Suc i + (r - q) \<le> x \<and> x < hi \<longrightarrow> v \<le> key (a4 ! x)"
    proof (cases "i = q")
      case True
      have all: "\<forall>x. i \<le> x \<and> x < hi \<longrightarrow> key (a3 ! x) = v"
      proof (intro allI impI)
        fix x assume x: "i \<le> x \<and> x < hi"
        have eqs: "key (a1 ! y) = v" if "i \<le> y" "y < hi" for y
          using a1(10,12) that True r by (cases "y = r") auto
        show "key (a3 ! x) = v"
          using x ir same3 [of x] a2 eqs [of x] eqs [of i] eqs [of r] rng by (cases "x = i"; cases "x = r") auto
      qed
      obtain a4 where "move_right (rev [q..<r]) (Suc i) a3 = Some (a4, Suc i + (r - q))" "perm_in i hi a3 a4"
        using move_right_total [of "rev [q..<r]" i hi "Suc i" a3] len3 r True a1(6) by auto
      moreover from perm_in_all [OF this(2), of "\<lambda>y. key y = v"] all have "\<forall>x. i \<le> x \<and> x < hi \<longrightarrow> key (a4 ! x) = v" by blast
      ultimately show ?thesis using that [of a4] r True a1(6) by auto
    next
      case False
      then have iq: "Suc i \<le> q" using a1 by simp
      have right: "\<forall>x. Suc i \<le> x \<and> x < r \<longrightarrow> (if r - min 0 (q - Suc i) \<le> x \<or> Suc i + 0 \<le> x \<and> x < q then v < key (a3 ! x) else key (a3 ! x) = v)"
        using a1 a2(5) same3 by auto
      obtain a4 where a4: "move_right (rev [q..<r]) (Suc i) a3 = Some (a4, Suc i + (r - q))" "perm_in (Suc i) r a3 a4"
        "\<forall>x. Suc i \<le> x \<and> x < r \<longrightarrow> (if Suc i + (r - q) \<le> x then v < key (a4 ! x) else key (a4 ! x) = v)"
        using move_right_equal [where t = 0 and P = "\<lambda>y. v < key y" and Q = "\<lambda>y. key y = v", OF right] iq a1 len3 r by auto
      have "key (a4 ! i) = v" using a4(2) same3 [of i] a2(3) a1(12) by (simp add: perm_in_mset)
      moreover have "v \<le> key (a4 ! r)" using a4(2) ar by (simp add: perm_in_mset)
      ultimately have "key (a4 ! x) = v" if "i \<le> x" "x < Suc i + (r - q)" for x
        using a4(3) that iq a1 by (cases "x = i") auto
      moreover have "v \<le> key (a4 ! x)" if "Suc i + (r - q) \<le> x" "x < hi" for x
        using a4(3) that \<open>v \<le> key (a4 ! r)\<close> r by (cases "x = r") (auto simp: less_imp_le)
      ultimately show ?thesis using that [of a4] a4 perm_in_wider [OF a4(2), of i hi] r by auto
    qed
    have "size_partition key lo hi a = Some (a4, i - (p - lo), Suc i + (r - q))"
      using r a1(1) a2(1) a3(1) a4(1) by (simp add: size_partition_def Let_def v_def)
    moreover have low: "a4 ! x = a3 ! x" if "x < i" for x using a4(2) that by (simp add: perm_in_mset)
    have "\<forall>x. i - (p - lo) \<le> x \<and> x < Suc i + (r - q) \<longrightarrow> key (a4 ! x) = v"
    proof (intro allI impI)
      fix x assume x: "i - (p - lo) \<le> x \<and> x < Suc i + (r - q)"
      show "key (a4 ! x) = v"
      proof (cases "x < i")
        case True
        have "lo \<le> x" using x a1 by linarith
        then have "if x < i - (p - lo) then key (a3 ! x) < v else key (a3 ! x) = v" using a3(3) True by blast
        then show ?thesis using x low [OF True] by (simp split: if_splits)
      qed (use a4(3) x in auto)
    qed
    moreover have "\<forall>x. lo \<le> x \<and> x < i - (p - lo) \<longrightarrow> key (a4 ! x) < v" using a3(3) low by auto
    moreover have "perm_in lo hi a a4"
      by (rule perm_in_trans [OF p3 perm_in_wider [OF a4(2)]]) (use rng in auto)
    moreover have "lo \<le> i - (p - lo)" "i - (p - lo) < Suc i + (r - q)" "Suc i + (r - q) \<le> hi" using a1(3-6) r ir by auto
    ultimately show ?thesis using a4(4) by blast
  qed
qed

text \<open>The sort ends and orders the range by the key.\<close>

lemma graphSizeSort_range:
  assumes "hi \<le> length a" "hi - lo \<le> n"
  shows "\<exists>b. graphSizeSort n key lo hi a = Some b \<and> perm_in lo hi a b \<and> (\<forall>x y. lo \<le> x \<and> x \<le> y \<and> y < hi \<longrightarrow> key (b ! x) \<le> key (b ! y))"
  using assms
proof (induction n arbitrary: a lo hi)
  case 0
  then show ?case by (subst graphSizeSort.simps) auto
next
  case (Suc n)
  show ?case
  proof (cases "hi \<le> Suc lo")
    case True
    then have "key (a ! x) \<le> key (a ! y)" if "lo \<le> x" "x \<le> y" "y < hi" for x y
    proof -
      have "x = y" using that True by linarith
      then show ?thesis by simp
    qed
    moreover have "graphSizeSort (Suc n) key lo hi a = Some a" using True by (subst graphSizeSort.simps) simp
    ultimately show ?thesis by (intro exI [of _ a]) auto
  next
    case False
    then have "Suc lo < hi" by simp
    from size_partition_parts [OF this Suc.prems(1)] obtain b jj ii v where b: "size_partition key lo hi a = Some (b, jj, ii)" "perm_in lo hi a b"
      "lo \<le> jj" "jj < ii" "ii \<le> hi" "\<forall>x. lo \<le> x \<and> x < jj \<longrightarrow> key (b ! x) < v" "\<forall>x. jj \<le> x \<and> x < ii \<longrightarrow> key (b ! x) = v"
      "\<forall>x. ii \<le> x \<and> x < hi \<longrightarrow> v \<le> key (b ! x)" by metis
    have lb: "length b = length a" using b(2) by (simp add: perm_in_mset)
    have "jj \<le> length b" "jj - lo \<le> n" using b Suc.prems lb by auto
    from Suc.IH [OF this] obtain c where c: "graphSizeSort n key lo jj b = Some c" "perm_in lo jj b c"
      "\<forall>x y. lo \<le> x \<and> x \<le> y \<and> y < jj \<longrightarrow> key (c ! x) \<le> key (c ! y)" by blast
    have lc: "length c = length a" using c(2) lb by (simp add: perm_in_mset)
    have "hi \<le> length c" "hi - ii \<le> n" using b Suc.prems lc by auto
    from Suc.IH [OF this] obtain d where d: "graphSizeSort n key ii hi c = Some d" "perm_in ii hi c d"
      "\<forall>x y. ii \<le> x \<and> x \<le> y \<and> y < hi \<longrightarrow> key (d ! x) \<le> key (d ! y)" by blast
    have out: "graphSizeSort (Suc n) key lo hi a = Some d" using False b(1) c(1) d(1) by (subst graphSizeSort.simps) simp
    have "perm_in lo hi a d"
      by (rule perm_in_trans [OF perm_in_trans [OF b(2) perm_in_wider [OF c(2)]] perm_in_wider [OF d(2)]]) (use b(3,4,5) in auto)
    moreover have low: "key (d ! x) < v" if "lo \<le> x" "x < jj" for x
    proof -
      have "\<forall>x. lo \<le> x \<and> x < jj \<longrightarrow> key (c ! x) < v" using perm_in_all [OF c(2), of "\<lambda>y. key y < v"] b(6) by blast
      moreover have "d ! x = c ! x" using d(2) that b by (simp add: perm_in_mset)
      ultimately show ?thesis using that by simp
    qed
    have mid: "key (d ! x) = v" if "jj \<le> x" "x < ii" for x
      using that b(7) c(2) d(2) by (simp add: perm_in_mset)
    have high: "v \<le> key (d ! x)" if "ii \<le> x" "x < hi" for x
    proof -
      have "\<forall>x. ii \<le> x \<and> x < hi \<longrightarrow> v \<le> key (c ! x)" using b(8) c(2) b(4) by (simp add: perm_in_mset)
      then show ?thesis using perm_in_all [OF d(2), of "\<lambda>y. v \<le> key y"] that by blast
    qed
    have "key (d ! x) \<le> key (d ! y)" if xy: "lo \<le> x" "x \<le> y" "y < hi" for x y
    proof -
      consider "y < jj" | "x < jj" "jj \<le> y" | "jj \<le> x" "x < ii" | "ii \<le> x" by linarith
      then show ?thesis
      proof cases
        case 1
        then have "d ! x = c ! x" "d ! y = c ! y" using d(2) xy b by (simp_all add: perm_in_mset)
        then show ?thesis using c(3) xy 1 by simp
      next
        case 2
        then show ?thesis using low [of x] mid [of y] high [of y] xy by (cases "y < ii") auto
      next
        case 3
        then show ?thesis using mid [of x] mid [of y] high [of y] xy by (cases "y < ii") auto
      next
        case 4
        then show ?thesis using d(3) xy by simp
      qed
    qed
    ultimately show ?thesis using out by blast
  qed
qed


section \<open>Properties\<close>

text \<open>sorting by length ends within a depth of the number of entries, keeps the entries and puts them in order of
  length.\<close>

theorem graphSizeSort_sorts:
  assumes "length xs \<le> n"
  shows "\<exists>ys. graphSizeSort n key 0 (length xs) xs = Some ys \<and> mset ys = mset xs \<and> sorted (map key ys)"
proof -
  obtain ys where ys: "graphSizeSort n key 0 (length xs) xs = Some ys" "perm_in 0 (length xs) xs ys"
    "\<forall>x y. 0 \<le> x \<and> x \<le> y \<and> y < length xs \<longrightarrow> key (ys ! x) \<le> key (ys ! y)"
    using graphSizeSort_range [of "length xs" xs 0 n key] assms by auto
  have "mset ys = mset xs" using perm_in_mset [OF ys(2)] by simp
  moreover from this have "length ys = length xs" by (metis size_mset)
  ultimately show ?thesis using ys by (auto simp: sorted_iff_nth_mono)
qed

theorem graphSizeSort_sorts_witness:
  "\<exists>ys. graphSizeSort 4 (\<lambda>i. [7, 2, 9, 2] ! i) 0 4 [0, 1, 2, 3] = Some ys \<and> mset ys = mset [0, 1, 2, 3] \<and> sorted (map (\<lambda>i. [7::nat, 2, 9, 2] ! i) ys)"
  using graphSizeSort_sorts [of "[0, 1, 2, 3]" 4 "\<lambda>i. [7, 2, 9, 2] ! i"] by (simp add: numeral_eq_Suc)

end
