(* ===== verification/List_Manager.thy ===== *)
theory List_Manager
  imports Phrase_Tree IP_Match
begin

text \<open>
  List containers and their manager (\<^verbatim>\<open>src/src/ListContainer.cpp\<close>, \<^verbatim>\<open>src/src/ListManager.cpp\<close>):
  reading item files with their directives and includes, reusing lists that are loaded already,
  reference counts, sorting, and the lookups that descend into included lists.

  The containers live in the vector \<^verbatim>\<open>l\<close> of the manager and name each other by index, so every
  operation takes and returns the manager. The file system, the clock and the network library are
  parameters, collected in a record.

  Recursion over included lists carries fuel: the code recurses without bound when lists include
  each other in a cycle, which here is the value \<open>None\<close> or \<open>R_deep\<close>. The lemmas show that fuel above
  the nesting depth is enough.
\<close>

section \<open>Data\<close>

record list_container =
  lc_ps :: phrase_store
  lc_ips :: lc_ip
  lc_ipm :: lc_ipmap
  datamaplist :: "datamap list"
  timelist :: "time_limit list"
  listtimelimit :: time_limit
  istimelimited :: bool
  is_iplist :: bool
  is_timelist :: bool
  is_map :: bool
  refcount :: int
  lc_parent :: bool
  filedate :: int
  lc_used :: bool
  sourcefile :: string
  sourceisexception :: bool
  sourcestartswith :: bool
  sourcefilters :: int
  category :: string
  morelists :: "nat list"
  bannedpfile :: string
  exceptionpfile :: string
  weightedpfile :: string
  naughtynesslimit :: int
  bannedpfiledate :: int
  exceptionpfiledate :: int
  weightedpfiledate :: int

abbreviation lc_items :: "list_container \<Rightarrow> item_store" where
  "lc_items c \<equiv> p_items (lc_ps c)"

definition list_container_new :: list_container where
  "list_container_new = \<lparr>lc_ps = phrase_store_new, lc_ips = \<lparr>iplist = [], iprangelist = [], ipsubnetlist = []\<rparr>,
     lc_ipm = \<lparr>ipmaplist = [], ipmaprangelist = [], ipmapsubnetlist = []\<rparr>, datamaplist = [], timelist = [],
     listtimelimit = \<lparr>sthour = 0, stmin = 0, endhour = 0, endmin = 0, tl_days = [], timetag = []\<rparr>,
     istimelimited = False, is_iplist = False, is_timelist = False, is_map = False, refcount = 0,
     lc_parent = False, filedate = 0, lc_used = False, sourcefile = [], sourceisexception = False,
     sourcestartswith = False, sourcefilters = 0, category = [], morelists = [], bannedpfile = [],
     exceptionpfile = [], weightedpfile = [], naughtynesslimit = 0, bannedpfiledate = 0,
     exceptionpfiledate = 0, weightedpfiledate = 0\<rparr>"

text \<open>The manager: the containers and the lines of standard input not yet read. A stream is the
  list of its pieces between line ends, so that it is at its end when no piece is left.\<close>

record manager =
  l :: "list_container option list"
  cin :: "string list"

text \<open>A file: its length, its date and its lines. A name without a file is one that does not exist
  and cannot be created.\<close>

record file_info =
  f_len :: nat
  f_date :: int
  f_lines :: "string list"

record lists_env =
  le_net :: netlib
  le_now :: local_tm
  le_groups :: int
  le_fs :: "string \<Rightarrow> file_info option"

definition lc_get :: "manager \<Rightarrow> nat \<Rightarrow> list_container option" where
  "lc_get lm i = (if i < length (l lm) then l lm ! i else None)"

definition lc_put :: "nat \<Rightarrow> list_container \<Rightarrow> manager \<Rightarrow> manager" where
  "lc_put i c lm = lm\<lparr>l := (l lm)[i := Some c]\<rparr>"

definition lc_upd :: "nat \<Rightarrow> (list_container \<Rightarrow> list_container) \<Rightarrow> manager \<Rightarrow> manager" where
  "lc_upd i f lm = lm\<lparr>l := (l lm)[i := map_option f (l lm ! i)]\<rparr>"

definition getFileDate :: "lists_env \<Rightarrow> string \<Rightarrow> int" where
  "getFileDate env f = (case le_fs env f of None \<Rightarrow> 0 | Some fi \<Rightarrow> f_date fi)"


section \<open>Time limits and lookups\<close>

text \<open>\<^verbatim>\<open>isNow (int)\<close>; \<open>None\<close> is an access past the end of \<^verbatim>\<open>timelimits\<close>.\<close>

definition lc_isNow :: "lists_env \<Rightarrow> int \<Rightarrow> list_container \<Rightarrow> bool option" where
  "lc_isNow env index c =
     (if \<not> istimelimited c then Some True
      else if index > - 1 then
        (if nat index < length (timelimits (lc_ps c)) then Some (isNow_tl (le_now env) (timelimits (lc_ps c) ! nat index))
         else None)
      else Some (isNow_tl (le_now env) (listtimelimit c)))"

definition checkTimeAt :: "lists_env \<Rightarrow> nat \<Rightarrow> list_container \<Rightarrow> bool option" where
  "checkTimeAt env index c =
     (if index < length (timelimitindex (lc_ps c)) then
        (if timelimitindex (lc_ps c) ! index = - 1 then Some True
         else lc_isNow env (timelimitindex (lc_ps c) ! index) c)
      else None)"

definition checkTimeAtD :: "lists_env \<Rightarrow> int \<Rightarrow> list_container \<Rightarrow> bool option" where
  "checkTimeAtD env index c = (if index = - 1 then Some True else lc_isNow env index c)"

text \<open>What a container finds by itself: the result and, where the code sets it, the category.\<close>

type_synonym find_here = "lists_env \<Rightarrow> string \<Rightarrow> list_container \<Rightarrow> (string \<times> string option) option"

definition with_category :: "list_container \<Rightarrow> string option \<Rightarrow> (string \<times> string option) option" where
  "with_category c r = map_option (\<lambda>s. (s, Some (category c))) r"

definition here_in_list :: find_here where
  "here_in_list env str c =
     (if is_iplist c then
        (if is_map c then map_option (\<lambda>s. (s, None)) (getIPMapData (le_net env) str (lc_ipm c))
         else if inIPList (le_net env) str (lc_ips c) then Some ([], Some (category c)) else None)
      else if is_map c then map_option (\<lambda>s. (s, None)) (getMapData str (datamaplist c))
      else with_category c (find_item str (lc_items c)))"

definition here_starts :: find_here where
  "here_starts env str c = with_category c (find_starts str (lc_items c))"

definition here_starts_partial :: find_here where
  "here_starts_partial env str c = with_category c (find_starts_partial str (lc_items c))"

definition here_ends :: find_here where
  "here_ends env str c = with_category c (find_ends str (lc_items c))"

text \<open>
  The common shape of \<^verbatim>\<open>findInList\<close>, \<^verbatim>\<open>findStartsWith\<close>, \<^verbatim>\<open>findStartsWithPartial\<close> and
  \<^verbatim>\<open>findEndsWith\<close>: nothing outside the time limit, the container itself, then the included lists in
  order. The outer \<open>None\<close> is a recursion deeper than the fuel, or an included list that is not there;
  the result carries \<^verbatim>\<open>lastcategory\<close> when it was assigned.
\<close>

fun lookup_lists :: "nat \<Rightarrow> find_here \<Rightarrow> lists_env \<Rightarrow> manager \<Rightarrow> string \<Rightarrow> nat \<Rightarrow> (string \<times> string option) option option"
  and lookup_more :: "nat \<Rightarrow> find_here \<Rightarrow> lists_env \<Rightarrow> manager \<Rightarrow> string \<Rightarrow> nat list
      \<Rightarrow> (string \<times> string option) option option" where
  "lookup_lists 0 h env lm str i = None"
| "lookup_lists (Suc n) h env lm str i =
     (case lc_get lm i of
        None \<Rightarrow> None
      | Some c \<Rightarrow>
          (case lc_isNow env (- 1) c of
             None \<Rightarrow> None
           | Some now \<Rightarrow>
               if \<not> now then Some None
               else case h env str c of
                      Some r \<Rightarrow> Some (Some r)
                    | None \<Rightarrow> lookup_more n h env lm str (morelists c)))"
| "lookup_more n h env lm str [] = Some None"
| "lookup_more n h env lm str (i # is) =
     (case lookup_lists n h env lm str i of
        None \<Rightarrow> None
      | Some (Some r) \<Rightarrow> Some (Some r)
      | Some None \<Rightarrow> lookup_more n h env lm str is)"

definition findInList :: "nat \<Rightarrow> lists_env \<Rightarrow> manager \<Rightarrow> string \<Rightarrow> nat \<Rightarrow> (string \<times> string option) option option" where
  "findInList n env lm str i = lookup_lists n here_in_list env lm str i"

definition findStartsWith :: "nat \<Rightarrow> lists_env \<Rightarrow> manager \<Rightarrow> string \<Rightarrow> nat \<Rightarrow> (string \<times> string option) option option" where
  "findStartsWith n env lm str i = lookup_lists n here_starts env lm str i"

definition findStartsWithPartial :: "nat \<Rightarrow> lists_env \<Rightarrow> manager \<Rightarrow> string \<Rightarrow> nat \<Rightarrow> (string \<times> string option) option option" where
  "findStartsWithPartial n env lm str i = lookup_lists n here_starts_partial env lm str i"

definition findEndsWith :: "nat \<Rightarrow> lists_env \<Rightarrow> manager \<Rightarrow> string \<Rightarrow> nat \<Rightarrow> (string \<times> string option) option option" where
  "findEndsWith n env lm str i = lookup_lists n here_ends env lm str i"

definition lc_inList :: "nat \<Rightarrow> lists_env \<Rightarrow> manager \<Rightarrow> string \<Rightarrow> nat \<Rightarrow> bool option" where
  "lc_inList n env lm str i = map_option (\<lambda>r. r \<noteq> None) (findInList n env lm str i)"

definition inListStartsWith :: "nat \<Rightarrow> lists_env \<Rightarrow> manager \<Rightarrow> string \<Rightarrow> nat \<Rightarrow> bool option" where
  "inListStartsWith n env lm str i = map_option (\<lambda>r. r \<noteq> None) (findStartsWith n env lm str i)"

definition inListEndsWith :: "nat \<Rightarrow> lists_env \<Rightarrow> manager \<Rightarrow> string \<Rightarrow> nat \<Rightarrow> bool option" where
  "inListEndsWith n env lm str i = map_option (\<lambda>r. r \<noteq> None) (findEndsWith n env lm str i)"


section \<open>Reference counts\<close>

text \<open>A walk over a list and the lists it includes, changing reference counts by \<open>d\<close>: \<^verbatim>\<open>refList\<close> with 1
  and \<^verbatim>\<open>deRefList\<close> with -1, which passes over lists that are not there.\<close>

fun refList :: "nat \<Rightarrow> nat \<Rightarrow> manager \<Rightarrow> manager option"
  and refMore :: "nat \<Rightarrow> nat list \<Rightarrow> manager \<Rightarrow> manager option" where
  "refList 0 i lm = None"
| "refList (Suc n) i lm =
     (case lc_get lm i of
        None \<Rightarrow> None
      | Some c \<Rightarrow> refMore n (morelists c) (lc_put i (c\<lparr>refcount := refcount c + 1\<rparr>) lm))"
| "refMore n [] lm = Some lm"
| "refMore n (j # js) lm = (case refList n j lm of None \<Rightarrow> None | Some lm' \<Rightarrow> refMore n js lm')"

fun deRefList :: "nat \<Rightarrow> nat \<Rightarrow> manager \<Rightarrow> manager option"
  and deRefMore :: "nat \<Rightarrow> nat list \<Rightarrow> manager \<Rightarrow> manager option" where
  "deRefList 0 i lm = None"
| "deRefList (Suc n) i lm =
     (if i \<ge> length (l lm) then None
      else case l lm ! i of
        None \<Rightarrow> Some lm
      | Some c \<Rightarrow> deRefMore n (morelists c) (lc_put i (c\<lparr>refcount := refcount c - 1\<rparr>) lm))"
| "deRefMore n [] lm = Some lm"
| "deRefMore n (j # js) lm = (case deRefList n j lm of None \<Rightarrow> None | Some lm' \<Rightarrow> deRefMore n js lm')"

text \<open>Deleting a container: the destructor calls \<^verbatim>\<open>reset\<close>, which gives up the references to the
  included lists unless the count is zero already.\<close>

definition delete_list :: "nat \<Rightarrow> nat \<Rightarrow> manager \<Rightarrow> manager option" where
  "delete_list n i lm =
     (case lc_get lm i of
        None \<Rightarrow> None
      | Some c \<Rightarrow>
          (case (if refcount c > 0
                 then deRefMore n (morelists c) (lc_put i (c\<lparr>refcount := refcount c - 1\<rparr>) lm)
                 else Some lm) of
             None \<Rightarrow> None
           | Some lm' \<Rightarrow> Some (lm'\<lparr>l := (l lm')[i := None]\<rparr>)))"

fun gc_from :: "nat \<Rightarrow> nat list \<Rightarrow> manager \<Rightarrow> manager option" where
  "gc_from n [] lm = Some lm"
| "gc_from n (i # is) lm =
     (case lc_get lm i of
        None \<Rightarrow> gc_from n is lm
      | Some c \<Rightarrow>
          if refcount c < 1 then (case delete_list n i lm of None \<Rightarrow> None | Some lm' \<Rightarrow> gc_from n is lm')
          else gc_from n is lm)"

definition garbageCollect :: "nat \<Rightarrow> manager \<Rightarrow> manager option" where
  "garbageCollect n lm = gc_from n [0..<length (l lm)] lm"

fun clear_from :: "nat \<Rightarrow> nat list \<Rightarrow> manager \<Rightarrow> manager option" where
  "clear_from n [] lm = Some lm"
| "clear_from n (i # is) lm =
     (case lc_get lm i of
        None \<Rightarrow> clear_from n is lm
      | Some c \<Rightarrow> (case delete_list n i lm of None \<Rightarrow> None | Some lm' \<Rightarrow> clear_from n is lm'))"

definition lm_clear :: "nat \<Rightarrow> manager \<Rightarrow> manager option" where
  "lm_clear n lm = clear_from n [0..<length (l lm)] lm"

definition findNULL :: "manager \<Rightarrow> int" where
  "findNULL lm = (let i = index_of None (l lm) in if i < length (l lm) then int i else - 1)"


section \<open>Sorting\<close>

definition sort_here :: "bool \<Rightarrow> list_container \<Rightarrow> list_container" where
  "sort_here startswith c =
     (if is_iplist c then
        (if is_map c then c\<lparr>lc_ipm := (lc_ipm c)\<lparr>ipmaplist := sort_ipmap (ipmaplist (lc_ipm c))\<rparr>\<rparr>
         else c\<lparr>lc_ips := (lc_ips c)\<lparr>iplist := sort (iplist (lc_ips c))\<rparr>\<rparr>)
      else if is_map c then c\<lparr>datamaplist := sort_datamap (datamaplist c)\<rparr>
      else c\<lparr>lc_ps := (lc_ps c)\<lparr>p_items := doSort_items startswith (lc_items c)\<rparr>\<rparr>)"

fun doSort :: "nat \<Rightarrow> bool \<Rightarrow> nat \<Rightarrow> manager \<Rightarrow> manager option"
  and doSort_more :: "nat \<Rightarrow> bool \<Rightarrow> nat list \<Rightarrow> manager \<Rightarrow> manager option" where
  "doSort 0 startswith i lm = None"
| "doSort (Suc n) startswith i lm =
     (case lc_get lm i of
        None \<Rightarrow> None
      | Some c \<Rightarrow>
          (case doSort_more n startswith (morelists c) lm of
             None \<Rightarrow> None
           | Some lm' \<Rightarrow> Some (lc_upd i (sort_here startswith) lm')))"
| "doSort_more n startswith [] lm = Some lm"
| "doSort_more n startswith (j # js) lm =
     (case doSort n startswith j lm of None \<Rightarrow> None | Some lm' \<Rightarrow> doSort_more n startswith js lm')"


section \<open>Reuse of loaded lists\<close>

fun upToDate :: "nat \<Rightarrow> lists_env \<Rightarrow> manager \<Rightarrow> nat \<Rightarrow> bool option"
  and upToDate_more :: "nat \<Rightarrow> lists_env \<Rightarrow> manager \<Rightarrow> nat list \<Rightarrow> bool option" where
  "upToDate 0 env lm i = None"
| "upToDate (Suc n) env lm i =
     (case lc_get lm i of
        None \<Rightarrow> None
      | Some c \<Rightarrow>
          if startsWith (sourcefile c) ''memory:'' then Some True
          else if getFileDate env (sourcefile c) > filedate c then Some False
          else upToDate_more n env lm (morelists c))"
| "upToDate_more n env lm [] = Some True"
| "upToDate_more n env lm (j # js) =
     (case upToDate n env lm j of
        None \<Rightarrow> None
      | Some False \<Rightarrow> Some False
      | Some True \<Rightarrow> upToDate_more n env lm js)"

definition previousUseItem :: "string \<Rightarrow> bool \<Rightarrow> int \<Rightarrow> list_container \<Rightarrow> bool" where
  "previousUseItem filename startswith filters c =
     (filename = sourcefile c \<and> startswith = sourcestartswith c \<and> filters = sourcefilters c)"

text \<open>The loop of \<^verbatim>\<open>newItemList\<close> over the loaded lists: the first that can be used again.\<close>

fun find_previous :: "nat \<Rightarrow> lists_env \<Rightarrow> manager \<Rightarrow> string \<Rightarrow> bool \<Rightarrow> int \<Rightarrow> nat list \<Rightarrow> nat option option" where
  "find_previous n env lm filename startswith filters [] = Some None"
| "find_previous n env lm filename startswith filters (i # is) =
     (case lc_get lm i of
        None \<Rightarrow> find_previous n env lm filename startswith filters is
      | Some c \<Rightarrow>
          if previousUseItem filename startswith filters c then
            (case upToDate n env lm i of
               None \<Rightarrow> None
             | Some True \<Rightarrow> Some (Some i)
             | Some False \<Rightarrow> find_previous n env lm filename startswith filters is)
          else find_previous n env lm filename startswith filters is)"


section \<open>The lines of an item file\<close>

text \<open>Comments after the beginning of a line need a blank before the sign; the text is cut at the
  sign.\<close>

fun comment_at :: "char \<Rightarrow> nat \<Rightarrow> string \<Rightarrow> nat option" where
  "comment_at prev k [] = None"
| "comment_at prev k (c # cs) = (if c = CHR ''#'' \<and> prev = CHR '' '' then Some k else comment_at c (Suc k) cs)"

definition strip_comment :: "string \<Rightarrow> string" where
  "strip_comment temp =
     (case temp of [] \<Rightarrow> []
      | c # cs \<Rightarrow> (case comment_at c 1 cs of None \<Rightarrow> temp | Some k \<Rightarrow> take k temp))"

definition expand_include :: "string \<Rightarrow> string \<Rightarrow> string \<Rightarrow> string" where
  "expand_include basedir list_pwd temp =
     (let inc = before (after temp ''.Include<'') ''>'';
          inc1 = (if contains inc ''__LISTDIR__''
                  then before inc ''__LISTDIR__'' @ cstr list_pwd @ after inc ''__LISTDIR__'' else inc)
      in fullPath inc1 basedir)"

text \<open>The pattern that recognises a port in a URL.\<close>

definition rx_port :: string where
  "rx_port = ''^.*'' @ CHR 0x5C # '':[0-9]+'' @ CHR 0x5C # ''/.*''"

definition tidy_item :: "lists_env \<Rightarrow> int \<Rightarrow> string \<Rightarrow> string" where
  "tidy_item env filters temp =
     (let t1 = (if filters \<noteq> 32 then
                  let a = (if endsWith temp ''/'' then chop temp else temp)
                  in if startsWith a ''ftp://'' then after a ''ftp://'' else a
                else temp);
          t2 = (if filters = 1 \<and> contains (before t1 ''/'') '':'' \<and> rx (le_net env) rx_port t1
                then before t1 '':'' @ ''/'' @ after t1 ''/'' else t1)
      in if filters \<noteq> 32 then toLower t2 else t2)"

datatype line_kind =
    L_skip
  | L_hang
  | L_time string
  | L_category string
  | L_end
  | L_include string
  | L_item string

text \<open>
  What one pass of the loop does with a line. A line of 20000 bytes or more sets the fail bit of the
  stream, which then never reaches its end.
\<close>

definition line_of :: "lists_env \<Rightarrow> string \<Rightarrow> string \<Rightarrow> string option \<Rightarrow> int \<Rightarrow> bool \<Rightarrow> string \<Rightarrow> line_kind" where
  "line_of env basedir list_pwd endstring filters plain raw =
     (let temp = cstr raw in
      if length raw \<ge> 20000 then L_hang
      else if length temp < 2 then L_skip
      else if length temp > 2048 then L_skip
      else if hd temp = CHR ''#'' then
        (if startsWith temp ''#time: '' then L_time temp
         else if startsWith temp ''#listcategory:''
         then L_category (before (after temp [CHR 0x22]) [CHR 0x22])
         else case endstring of
                Some e \<Rightarrow> if startsWith temp e then L_end else L_skip
              | None \<Rightarrow> L_skip)
      else
        let t = removeWhiteSpace (strip_comment temp) in
        if startsWith t ''.Include<'' then L_include (expand_include basedir list_pwd t)
        else let u = (if plain then tidy_item env filters t else t) in
             if length u > 0 then L_item u else L_skip)"


section \<open>Reading item files\<close>

datatype lm_read = R_ok bool manager | R_list int manager | R_mem | R_hang | R_deep

text \<open>\<^verbatim>\<open>ifsreadItemList\<close> after the loop: the address lists and the maps are sorted.\<close>

definition sort_read :: "list_container \<Rightarrow> list_container" where
  "sort_read c =
     (if is_iplist c then
        (if is_map c then c\<lparr>lc_ipm := (lc_ipm c)\<lparr>ipmaplist := sort_ipmap (ipmaplist (lc_ipm c))\<rparr>,
           lc_ps := (lc_ps c)\<lparr>p_items := (lc_items c)\<lparr>issorted := True\<rparr>\<rparr>\<rparr>
         else c\<lparr>lc_ips := (lc_ips c)\<lparr>iplist := sort (iplist (lc_ips c))\<rparr>,
           lc_ps := (lc_ps c)\<lparr>p_items := (lc_items c)\<lparr>issorted := True\<rparr>\<rparr>\<rparr>)
      else if is_map c then c\<lparr>datamaplist := sort_datamap (datamaplist c),
           lc_ps := (lc_ps c)\<lparr>p_items := (lc_items c)\<lparr>issorted := True\<rparr>\<rparr>\<rparr>
      else c)"

text \<open>An item line: \<open>Inl True\<close> is a write past the buffer, \<open>Inl False\<close> a time band that cannot be read.\<close>

definition add_item_line :: "lists_env \<Rightarrow> nat \<Rightarrow> string \<Rightarrow> list_container \<Rightarrow> bool + list_container" where
  "add_item_line env mem_used temp c =
     (if is_iplist c then
        (if is_map c then Inr (c\<lparr>lc_ipm := addToIPMap (le_net env) (le_groups env) temp (lc_ipm c)\<rparr>)
         else Inr (c\<lparr>lc_ips := addToIPList (le_net env) temp (lc_ips c)\<rparr>))
      else if is_timelist c then
        (case readTimeBand temp of
           None \<Rightarrow> Inl False
         | Some lim \<Rightarrow> Inr (c\<lparr>timelist := timelist c @ [lim], istimelimited := True\<rparr>))
      else if is_map c then Inr (c\<lparr>datamaplist := addToDataMap temp (datamaplist c)\<rparr>)
      else
        let st = (if mem_used > data_memory (lc_items c) then increaseMemoryBy 2048 (lc_items c) else lc_items c) in
        case addToItemList temp st of
          None \<Rightarrow> Inl True
        | Some st' \<Rightarrow> Inr (c\<lparr>lc_ps := (lc_ps c)\<lparr>p_items := st'\<rparr>\<rparr>))"

text \<open>The parameters of a read that stay the same over the lines.\<close>

record read_args =
  ra_basedir :: string
  ra_pwd :: string
  ra_endstring :: "string option"
  ra_includes :: bool
  ra_startswith :: bool
  ra_filters :: int

definition new_slot :: "manager \<Rightarrow> nat \<times> manager" where
  "new_slot lm =
     (if findNULL lm > - 1 then (nat (findNULL lm), lc_put (nat (findNULL lm)) list_container_new lm)
      else (length (l lm), lm\<lparr>l := l lm @ [Some list_container_new]\<rparr>))"

definition set_source :: "string \<Rightarrow> bool \<Rightarrow> int \<Rightarrow> bool \<Rightarrow> bool \<Rightarrow> bool \<Rightarrow> list_container \<Rightarrow> list_container" where
  "set_source filename startswith filters isip istime ismap c =
     c\<lparr>refcount := refcount c + 1, sourcefile := filename, sourcestartswith := startswith,
       sourcefilters := filters, is_iplist := isip, is_timelist := istime, is_map := ismap\<rparr>"

definition grow :: "nat \<Rightarrow> list_container \<Rightarrow> list_container" where
  "grow bytes c = c\<lparr>lc_ps := (lc_ps c)\<lparr>p_items := increaseMemoryBy bytes (lc_items c)\<rparr>\<rparr>"

text \<open>The call by which an include reads another list: \<^verbatim>\<open>newItemList\<close> with its arguments.\<close>

type_synonym new_list = "string \<Rightarrow> string \<Rightarrow> bool \<Rightarrow> int \<Rightarrow> bool \<Rightarrow> bool \<Rightarrow> bool \<Rightarrow> bool \<Rightarrow> manager \<Rightarrow> lm_read"

text \<open>\<^verbatim>\<open>readAnotherItemList\<close>: the kinds of the including list are passed on.\<close>

definition readAnotherItemList :: "new_list \<Rightarrow> read_args \<Rightarrow> string \<Rightarrow> nat \<Rightarrow> list_container \<Rightarrow> manager \<Rightarrow> lm_read" where
  "readAnotherItemList new ra filename i c lm =
     (case new filename (ra_pwd ra) (ra_startswith ra) (ra_filters ra) False (is_iplist c) (is_timelist c) (is_map c) lm of
        R_list j lm' \<Rightarrow>
          if j < 0 then R_ok False lm'
          else R_ok True (lc_upd i (\<lambda>c. c\<lparr>morelists := morelists c @ [nat j]\<rparr>) lm')
      | r \<Rightarrow> r)"

text \<open>One pass of the loop of \<^verbatim>\<open>ifsreadItemList\<close>: the loop goes on with the memory counted so far, or
  ends.\<close>

datatype line_step = Go nat manager | Stop lm_read

definition read_line :: "new_list \<Rightarrow> lists_env \<Rightarrow> read_args \<Rightarrow> string \<Rightarrow> nat \<Rightarrow> nat \<Rightarrow> manager \<Rightarrow> line_step" where
  "read_line new env ra raw mem_used i lm =
     (case lc_get lm i of
        None \<Rightarrow> Stop R_deep
      | Some c \<Rightarrow>
          (case line_of env (ra_basedir ra) (ra_pwd ra) (ra_endstring ra) (ra_filters ra)
                  (\<not> (is_iplist c \<or> is_timelist c)) raw of
             L_skip \<Rightarrow> Go mem_used lm
           | L_hang \<Rightarrow> Stop R_hang
           | L_time tag \<Rightarrow>
               (case readTimeTag tag of
                  None \<Rightarrow> Stop (R_ok False lm)
                | Some lim \<Rightarrow> Go mem_used (lc_put i (c\<lparr>listtimelimit := lim, istimelimited := True\<rparr>) lm))
           | L_category cat \<Rightarrow> Go mem_used (lc_put i (c\<lparr>category := cat\<rparr>) lm)
           | L_end \<Rightarrow> Stop (R_ok True (lc_upd i sort_read lm))
           | L_include inc \<Rightarrow>
               if ra_includes ra then
                 (case readAnotherItemList new ra inc i c lm of
                    R_ok True lm' \<Rightarrow> Go mem_used lm'
                  | r \<Rightarrow> Stop r)
               else Go mem_used lm
           | L_item temp \<Rightarrow>
               (case add_item_line env (mem_used + length temp + 1) temp c of
                  Inl True \<Rightarrow> Stop R_mem
                | Inl False \<Rightarrow> Stop (R_ok False lm)
                | Inr c' \<Rightarrow> Go (mem_used + length temp + 1) (lc_put i c' lm))))"

text \<open>The loop, with the lines that are left after it.\<close>

fun read_lines :: "new_list \<Rightarrow> lists_env \<Rightarrow> read_args \<Rightarrow> string list \<Rightarrow> nat \<Rightarrow> nat \<Rightarrow> manager \<Rightarrow> lm_read \<times> string list" where
  "read_lines new env ra [] mem_used i lm = (R_ok True (lc_upd i sort_read lm), [])"
| "read_lines new env ra (raw # rest) mem_used i lm =
     (case read_line new env ra raw mem_used i lm of
        Go mem_used' lm' \<Rightarrow> read_lines new env ra rest mem_used' i lm'
      | Stop r \<Rightarrow> (r, rest))"

definition ifsreadItemList :: "new_list \<Rightarrow> lists_env \<Rightarrow> read_args \<Rightarrow> nat \<Rightarrow> string list \<Rightarrow> nat \<Rightarrow> manager \<Rightarrow> lm_read \<times> string list" where
  "ifsreadItemList new env ra len lines i lm = read_lines new env ra lines 2 i (lc_upd i (grow (len + 2)) lm)"

definition readStdinItemList :: "new_list \<Rightarrow> lists_env \<Rightarrow> bool \<Rightarrow> int \<Rightarrow> nat \<Rightarrow> manager \<Rightarrow> lm_read" where
  "readStdinItemList new env startswith filters i lm =
     (let lm1 = lc_upd i (grow 2048) lm in
      if cin lm1 = [] then R_ok False lm1
      else case ifsreadItemList new env \<lparr>ra_basedir = [], ra_pwd = [], ra_endstring = Some ''#ENDLIST'',
                  ra_includes = False, ra_startswith = startswith, ra_filters = filters\<rparr> 2046 (cin lm1) i lm1 of
        (R_ok b lm', rest) \<Rightarrow> R_ok b (lm'\<lparr>cin := rest\<rparr>)
      | (r, rest) \<Rightarrow> r)"

definition readItemList :: "new_list \<Rightarrow> lists_env \<Rightarrow> string \<Rightarrow> string \<Rightarrow> bool \<Rightarrow> int \<Rightarrow> bool \<Rightarrow> bool \<Rightarrow> bool \<Rightarrow> nat \<Rightarrow> manager \<Rightarrow> lm_read" where
  "readItemList new env filename pwd startswith filters isip istime ismap i lm =
     (let lm1 = lc_upd i (set_source filename startswith filters isip istime ismap) lm in
      if startsWithLower filename ''memory:'' then readStdinItemList new env startswith filters i lm1
      else case le_fs env filename of
        None \<Rightarrow> R_ok False lm1
      | Some f \<Rightarrow>
          let lm2 = lc_upd i (\<lambda>c. c\<lparr>filedate := f_date f\<rparr>) lm1 in
          if f_len f < 2 then R_ok True lm2
          else fst (ifsreadItemList new env \<lparr>ra_basedir = baseDir filename, ra_pwd = pwd, ra_endstring = None,
                 ra_includes = True, ra_startswith = startswith, ra_filters = filters\<rparr> (f_len f) (f_lines f) i lm2))"

text \<open>What is left of a new list that could not be read: it is deleted.\<close>

definition finish_new :: "nat \<Rightarrow> nat \<Rightarrow> lm_read \<Rightarrow> lm_read" where
  "finish_new n free r =
     (case r of
        R_ok True lm' \<Rightarrow> R_list (int free) lm'
      | R_ok False lm' \<Rightarrow> (case delete_list n free lm' of None \<Rightarrow> R_deep | Some lm'' \<Rightarrow> R_list (- 1) lm'')
      | r \<Rightarrow> r)"

text \<open>\<^verbatim>\<open>newItemList\<close> returns the index of the list, or -1; the fuel bounds the nesting of includes.\<close>

fun newItemList :: "nat \<Rightarrow> lists_env \<Rightarrow> new_list" where
  "newItemList 0 env filename pwd startswith filters par isip istime ismap lm = R_deep"
| "newItemList (Suc n) env filename pwd startswith filters par isip istime ismap lm =
     (case find_previous n env lm filename startswith filters [0..<length (l lm)] of
        None \<Rightarrow> R_deep
      | Some (Some i) \<Rightarrow> (case refList n i lm of None \<Rightarrow> R_deep | Some lm' \<Rightarrow> R_list (int i) lm')
      | Some None \<Rightarrow>
          let (free, lm1) = new_slot lm; lm2 = lc_upd free (\<lambda>c. c\<lparr>lc_parent := par\<rparr>) lm1
          in finish_new n free
               (readItemList (newItemList n env) env filename pwd startswith filters isip istime ismap free lm2))"

definition newStdinItemList :: "nat \<Rightarrow> lists_env \<Rightarrow> bool \<Rightarrow> int \<Rightarrow> bool \<Rightarrow> manager \<Rightarrow> lm_read" where
  "newStdinItemList n env startswith filters par lm =
     (let (free, lm1) = new_slot lm; lm2 = lc_upd free (\<lambda>c. c\<lparr>lc_parent := par\<rparr>) lm1
      in finish_new n free (readStdinItemList (newItemList n env) env startswith filters free lm2))"

text \<open>\<^verbatim>\<open>ifsReadSortItemList\<close> reads from an open stream the lines of a file and sorts.\<close>

definition ifsReadSortItemList :: "nat \<Rightarrow> new_list \<Rightarrow> lists_env \<Rightarrow> read_args \<Rightarrow> string \<Rightarrow> string list \<Rightarrow> nat \<Rightarrow> manager \<Rightarrow> lm_read" where
  "ifsReadSortItemList n new env ra filename lines i lm =
     (case le_fs env filename of
        None \<Rightarrow> R_ok False lm
      | Some f \<Rightarrow>
          (case fst (ifsreadItemList new env ra (f_len f) lines i lm) of
             R_ok True lm' \<Rightarrow> (case doSort n (ra_startswith ra) i lm' of None \<Rightarrow> R_deep | Some lm'' \<Rightarrow> R_ok True lm'')
           | r \<Rightarrow> r))"


section \<open>Phrase lists of the manager\<close>

definition phrase_files :: "lists_env \<Rightarrow> string \<Rightarrow> (nat \<times> string list) option" where
  "phrase_files env f = map_option (\<lambda>fi. (f_len fi, f_lines fi)) (le_fs env f)"

text \<open>\<^verbatim>\<open>newPhraseList\<close>: the loop over the loaded lists, then a new slot.\<close>

definition same_phrase_files :: "string \<Rightarrow> string \<Rightarrow> string \<Rightarrow> int \<Rightarrow> lists_env \<Rightarrow> list_container \<Rightarrow> bool" where
  "same_phrase_files ex banned weighted nlimit env c =
     (exceptionpfile c = ex \<and> bannedpfile c = banned \<and> weightedpfile c = weighted \<and> naughtynesslimit c = nlimit
      \<and> getFileDate env banned \<le> bannedpfiledate c \<and> getFileDate env ex \<le> exceptionpfiledate c
      \<and> getFileDate env weighted \<le> weightedpfiledate c)"

fun find_phrase_list :: "(list_container \<Rightarrow> bool) \<Rightarrow> nat \<Rightarrow> list_container option list \<Rightarrow> nat option" where
  "find_phrase_list p k [] = None"
| "find_phrase_list p k (None # cs) = find_phrase_list p (Suc k) cs"
| "find_phrase_list p k (Some c # cs) = (if p c then Some k else find_phrase_list p (Suc k) cs)"

definition newPhraseList :: "nat \<Rightarrow> lists_env \<Rightarrow> string \<Rightarrow> string \<Rightarrow> string \<Rightarrow> int \<Rightarrow> manager \<Rightarrow> (nat \<times> manager) option" where
  "newPhraseList n env ex banned weighted nlimit lm =
     (case find_phrase_list (same_phrase_files ex banned weighted nlimit env) 0 (l lm) of
        Some i \<Rightarrow> (case refList n i lm of None \<Rightarrow> None | Some lm' \<Rightarrow> Some (i, lm'))
      | None \<Rightarrow>
          let (free, lm1) = new_slot lm
          in Some (free, lc_upd free (\<lambda>c. c\<lparr>lc_parent := True, bannedpfiledate := getFileDate env banned,
               exceptionpfiledate := getFileDate env ex, weightedpfiledate := getFileDate env weighted,
               exceptionpfile := ex, bannedpfile := banned, weightedpfile := weighted\<rparr>) lm1))"

text \<open>
  \<^verbatim>\<open>readPhraseList\<close> on a container. Reading a time limit also marks the container as limited in time.
  The name and the date of the file last read, which the code keeps in the container through
  includes, are those of the top file here.
\<close>

definition lc_readPhraseList :: "nat \<Rightarrow> lists_env \<Rightarrow> string \<Rightarrow> bool \<Rightarrow> bool \<Rightarrow> int \<Rightarrow> list_container
    \<Rightarrow> (bool \<times> list_container) option" where
  "lc_readPhraseList n env filename isexception incref nlimit c =
     (case readPhraseList n (phrase_files env) filename isexception (- 1) (- 1) nlimit (lc_ps c) of
        Read ok ps \<Rightarrow> Some (ok, c\<lparr>lc_ps := ps, refcount := refcount c + (if incref then 1 else 0),
          sourcefile := filename, sourceisexception := isexception,
          filedate := (case le_fs env filename of Some fi \<Rightarrow> if f_len fi < 2 then filedate c else f_date fi | None \<Rightarrow> filedate c),
          istimelimited := (istimelimited c \<or> length (timelimits ps) > length (timelimits (lc_ps c)))\<rparr>)
      | _ \<Rightarrow> None)"

text \<open>The three files in the order of \<^verbatim>\<open>readbplfile\<close>: exceptions, banned, weighted.\<close>

definition read_three :: "nat \<Rightarrow> lists_env \<Rightarrow> string \<Rightarrow> string \<Rightarrow> string \<Rightarrow> int \<Rightarrow> list_container
    \<Rightarrow> (bool \<times> list_container) option" where
  "read_three n env banned ex weighted nlimit c =
     (case lc_readPhraseList n env ex True True 0 c of
        None \<Rightarrow> None
      | Some (ok1, c1) \<Rightarrow>
          (case lc_readPhraseList n env banned False False nlimit c1 of
             None \<Rightarrow> None
           | Some (ok2, c2) \<Rightarrow>
               (case lc_readPhraseList n env weighted False False nlimit c2 of
                  None \<Rightarrow> None
                | Some (ok3, c3) \<Rightarrow> Some (ok1 \<and> ok2 \<and> ok3, c3))))"

text \<open>\<^verbatim>\<open>readbplfile\<close>: what the code returns and, when that is true, the list.\<close>

definition readbplfile :: "nat \<Rightarrow> lists_env \<Rightarrow> string \<Rightarrow> string \<Rightarrow> string \<Rightarrow> bool \<Rightarrow> int \<Rightarrow> manager \<Rightarrow> (nat option \<times> manager) option" where
  "readbplfile n env banned ex weighted fqs nlimit lm =
     (case newPhraseList n env ex banned weighted nlimit lm of
        None \<Rightarrow> None
      | Some (res, lm1) \<Rightarrow>
          (case lc_get lm1 res of
             None \<Rightarrow> None
           | Some c \<Rightarrow>
               if lc_used c then Some (Some res, lm1)
               else
                 (case read_three n env banned ex weighted nlimit c of
                    None \<Rightarrow> None
                  | Some (False, c') \<Rightarrow> Some (None, lc_put res c' lm1)
                  | Some (True, c') \<Rightarrow>
                      map_option (\<lambda>ps. (Some res, lc_put res (c'\<lparr>lc_ps := ps, lc_used := True\<rparr>) lm1))
                        (makeGraph fqs (lc_ps c')))))"


section \<open>Lemmas: included lists\<close>

text \<open>Lists that are nested: every included list is there and has a smaller rank.\<close>

definition nested :: "(nat \<Rightarrow> nat) \<Rightarrow> manager \<Rightarrow> bool" where
  "nested r lm \<longleftrightarrow> (\<forall>i c. lc_get lm i = Some c \<longrightarrow> (\<forall>j \<in> set (morelists c). lc_get lm j \<noteq> None \<and> r j < r i))"

lemma nestedD:
  assumes "nested r lm" and "lc_get lm i = Some c" and "j \<in> set (morelists c)"
  shows "\<exists>d. lc_get lm j = Some d" and "r j < r i"
  using assms unfolding nested_def by blast+

text \<open>The lists in which a lookup that starts at \<open>i\<close> looks: those reached through lists whose time
  limit holds.\<close>

inductive open_list :: "lists_env \<Rightarrow> manager \<Rightarrow> nat \<Rightarrow> nat \<Rightarrow> bool" for env lm where
  here: "lc_get lm i = Some c \<Longrightarrow> lc_isNow env (- 1) c = Some True \<Longrightarrow> open_list env lm i i"
| more: "lc_get lm i = Some c \<Longrightarrow> lc_isNow env (- 1) c = Some True \<Longrightarrow> j \<in> set (morelists c)
    \<Longrightarrow> open_list env lm j k \<Longrightarrow> open_list env lm i k"

inductive_simps open_list_iff: "open_list env lm i k"

definition found_in :: "find_here \<Rightarrow> lists_env \<Rightarrow> manager \<Rightarrow> string \<Rightarrow> nat \<Rightarrow> (string \<times> string option) \<Rightarrow> bool" where
  "found_in h env lm str i r \<longleftrightarrow> (\<exists>k c. open_list env lm i k \<and> lc_get lm k = Some c \<and> h env str c = Some r)"

lemma isNow_list: "\<exists>b. lc_isNow env (- 1) c = Some b"
  by (auto simp: lc_isNow_def)

lemma found_in_iff:
  assumes "lc_get lm i = Some c"
  shows "found_in h env lm str i r \<longleftrightarrow> lc_isNow env (- 1) c = Some True
    \<and> (h env str c = Some r \<or> (\<exists>j \<in> set (morelists c). found_in h env lm str j r))"
proof
  assume "found_in h env lm str i r"
  then obtain k d where "open_list env lm i k" "lc_get lm k = Some d" "h env str d = Some r"
    unfolding found_in_def by blast
  then show "lc_isNow env (- 1) c = Some True \<and> (h env str c = Some r \<or> (\<exists>j \<in> set (morelists c). found_in h env lm str j r))"
    using assms by cases (auto simp: found_in_def)
next
  assume "lc_isNow env (- 1) c = Some True \<and> (h env str c = Some r \<or> (\<exists>j \<in> set (morelists c). found_in h env lm str j r))"
  then show "found_in h env lm str i r"
    using assms unfolding found_in_def by (meson open_list.here open_list.more)
qed

definition lookup_spec :: "find_here \<Rightarrow> lists_env \<Rightarrow> manager \<Rightarrow> string \<Rightarrow> nat set \<Rightarrow> (string \<times> string option) option option \<Rightarrow> bool" where
  "lookup_spec h env lm str S out \<longleftrightarrow> (case out of
      None \<Rightarrow> False
    | Some None \<Rightarrow> (\<forall>i \<in> S. \<forall>r. \<not> found_in h env lm str i r)
    | Some (Some r) \<Rightarrow> (\<exists>i \<in> S. found_in h env lm str i r))"

lemma lookup_lists_spec:
  assumes "nested r lm"
  shows "lc_get lm i = Some c \<Longrightarrow> r i < n \<Longrightarrow> lookup_spec h env lm str {i} (lookup_lists n h env lm str i)"
    and "\<forall>i \<in> set is. lc_get lm i \<noteq> None \<and> r i < n \<Longrightarrow> lookup_spec h env lm str (set is) (lookup_more n h env lm str is)"
  using assms
proof (induction n h env lm str i and n h env lm str "is" arbitrary: c and rule: lookup_lists_lookup_more.induct)
  case (2 n h env lm str i)
  obtain b where b: "lc_isNow env (- 1) c = Some b" using isNow_list by blast
  note f = found_in_iff [OF "2.prems"(1), of h env str]
  show ?case
  proof (cases "b \<and> h env str c = None")
    case True
    have sub: "\<forall>j \<in> set (morelists c). lc_get lm j \<noteq> None \<and> r j < n"
    proof
      fix j assume j: "j \<in> set (morelists c)"
      from nestedD [OF "2.prems"(3,1) this] "2.prems"(2) show "lc_get lm j \<noteq> None \<and> r j < n" by auto
    qed
    have "lookup_spec h env lm str (set (morelists c)) (lookup_more n h env lm str (morelists c))"
      by (rule "2.IH") (use "2.prems" b True sub in auto)
    then show ?thesis using True b "2.prems"(1) f
      by (auto simp: lookup_spec_def split: option.splits)
  next
    case False
    then show ?thesis using b "2.prems"(1) f by (auto simp: lookup_spec_def split: option.splits)
  qed
next
  case (4 n h env lm str i "is")
  obtain c where c: "lc_get lm i = Some c" using "4.prems"(1) by auto
  have i: "lookup_spec h env lm str {i} (lookup_lists n h env lm str i)"
    using "4.IH"(1) [OF c] "4.prems" by simp
  show ?case
  proof (cases "lookup_lists n h env lm str i")
    case (Some out)
    show ?thesis
    proof (cases out)
      case None
      have "lookup_spec h env lm str (set is) (lookup_more n h env lm str is)"
        using "4.IH"(2) [OF Some None] "4.prems" by simp
      then show ?thesis using i Some None by (auto simp: lookup_spec_def split: option.splits)
    next
      case (Some r)
      then show ?thesis using i \<open>lookup_lists n h env lm str i = Some out\<close> by (auto simp: lookup_spec_def)
    qed
  qed (use i in \<open>simp add: lookup_spec_def\<close>)
qed (auto simp: lookup_spec_def)

section \<open>Lemmas: reference counts\<close>

text \<open>The lists a walk visits, in order, and a change of the counts along them.\<close>

fun visits :: "nat \<Rightarrow> manager \<Rightarrow> nat \<Rightarrow> nat list" where
  "visits 0 lm i = []"
| "visits (Suc n) lm i = i # concat (map (visits n lm) (case lc_get lm i of None \<Rightarrow> [] | Some c \<Rightarrow> morelists c))"

definition add_refs :: "int \<Rightarrow> nat list \<Rightarrow> manager \<Rightarrow> manager" where
  "add_refs d js lm = lm\<lparr>l := map (\<lambda>(k, x). map_option (\<lambda>c. c\<lparr>refcount := refcount c + d * int (count_list js k)\<rparr>) x)
     (enumerate 0 (l lm))\<rparr>"

lemma lc_get_add_refs: "lc_get (add_refs d js lm) k =
    map_option (\<lambda>c. c\<lparr>refcount := refcount c + d * int (count_list js k)\<rparr>) (lc_get lm k)"
  by (auto simp: lc_get_def add_refs_def nth_enumerate_eq)

lemma manager_eqI:
  assumes "length (l a) = length (l b)" and "cin a = cin b" and "\<And>k. lc_get a k = lc_get b k"
  shows "a = (b :: manager)"
proof -
  have "l a ! i = l b ! i" if "i < length (l b)" for i using assms(1) assms(3) [of i] that by (simp add: lc_get_def)
  with assms(1) have "l a = l b" by (auto intro: nth_equalityI)
  with assms(2) show ?thesis by simp
qed

lemma add_refs_fields [simp]: "length (l (add_refs d js lm)) = length (l lm)" "cin (add_refs d js lm) = cin lm"
  by (simp_all add: add_refs_def)

lemma add_refs_add_refs: "add_refs d js (add_refs d is lm) = add_refs d (is @ js) lm"
  by (rule manager_eqI) (auto simp: lc_get_add_refs algebra_simps option.map_comp comp_def intro!: option.map_cong)

lemma add_refs_inverse: "add_refs (- 1) js (add_refs 1 js lm) = lm"
  by (rule manager_eqI) (simp_all add: lc_get_add_refs option.map_comp comp_def option.map_ident)

lemma add_refs_Nil [simp]: "add_refs d [] lm = lm"
  by (rule manager_eqI) (simp_all add: lc_get_add_refs option.map_ident)

lemma morelists_add_refs: "(case lc_get (add_refs d js lm) i of None \<Rightarrow> [] | Some c \<Rightarrow> morelists c) =
   (case lc_get lm i of None \<Rightarrow> [] | Some c \<Rightarrow> morelists c)"
  by (simp add: lc_get_add_refs split: option.splits)

lemma visits_add_refs [simp]: "visits n (add_refs d js lm) = visits n lm"
proof
  show "visits n (add_refs d js lm) i = visits n lm i" for i
    by (induction n arbitrary: i) (simp_all add: morelists_add_refs cong: map_cong)
qed

lemma put_ref: "lc_get lm i = Some c \<Longrightarrow> lc_put i (c\<lparr>refcount := refcount c + d\<rparr>) lm = add_refs d [i] lm"
  by (rule manager_eqI) (auto simp: lc_put_def lc_get_def add_refs_def nth_enumerate_eq nth_list_update option.map_ident split: if_splits)

lemma nested_add_refs [simp]: "nested r (add_refs d js lm) \<longleftrightarrow> nested r lm"
proof -
  have e: "(\<exists>c. lc_get (add_refs d js lm) i = Some c \<and> P (morelists c)) \<longleftrightarrow> (\<exists>c. lc_get lm i = Some c \<and> P (morelists c))" for i P
    by (cases "lc_get lm i") (simp_all add: lc_get_add_refs)
  have n: "nested r m \<longleftrightarrow> (\<forall>i. \<not> (\<exists>c. lc_get m i = Some c \<and> \<not> (\<forall>j \<in> set (morelists c). lc_get m j \<noteq> None \<and> r j < r i)))" for m
    unfolding nested_def by blast
  have g: "lc_get (add_refs d js lm) j \<noteq> None \<longleftrightarrow> lc_get lm j \<noteq> None" for j by (simp add: lc_get_add_refs)
  have "(\<exists>c. lc_get (add_refs d js lm) i = Some c \<and> \<not> (\<forall>j \<in> set (morelists c). lc_get lm j \<noteq> None \<and> r j < r i)) \<longleftrightarrow>
    (\<exists>c. lc_get lm i = Some c \<and> \<not> (\<forall>j \<in> set (morelists c). lc_get lm j \<noteq> None \<and> r j < r i))" for i by (rule e)
  then show ?thesis unfolding n g by simp
qed

lemma refList_walk:
  assumes "nested r lm"
  shows "r i < n \<Longrightarrow> lc_get lm i \<noteq> None \<Longrightarrow> refList n i lm = Some (add_refs 1 (visits n lm i) lm)"
    and "\<forall>j \<in> set js. r j < n \<and> lc_get lm j \<noteq> None \<Longrightarrow> refMore n js lm = Some (add_refs 1 (concat (map (visits n lm) js)) lm)"
  using assms
proof (induction n i lm and n js lm rule: refList_refMore.induct)
  case (2 n i lm)
  then obtain c where c: "lc_get lm i = Some c" by auto
  have p: "lc_put i (c\<lparr>refcount := refcount c + 1\<rparr>) lm = add_refs 1 [i] lm" by (rule put_ref [OF c])
  have sub: "\<forall>j \<in> set (morelists c). r j < n \<and> lc_get (add_refs 1 [i] lm) j \<noteq> None"
  proof
    fix j assume j: "j \<in> set (morelists c)"
    from nestedD [OF "2.prems"(3) c this] "2.prems"(1) show "r j < n \<and> lc_get (add_refs 1 [i] lm) j \<noteq> None"
      by (auto simp: lc_get_add_refs)
  qed
  have "refMore n (morelists c) (add_refs 1 [i] lm)
      = Some (add_refs 1 (concat (map (visits n (add_refs 1 [i] lm)) (morelists c))) (add_refs 1 [i] lm))"
    using "2.IH" [OF c, unfolded p, OF sub] "2.prems"(3) by (simp only: nested_add_refs)
  then show ?case using c p by (simp add: add_refs_add_refs)
next
  case (4 n j js lm)
  have j: "refList n j lm = Some (add_refs 1 (visits n lm j) lm)" using "4.IH"(1) "4.prems" by simp
  have "refMore n js (add_refs 1 (visits n lm j) lm) =
      Some (add_refs 1 (concat (map (visits n (add_refs 1 (visits n lm j) lm)) js)) (add_refs 1 (visits n lm j) lm))"
    using "4.IH"(2) [OF j] "4.prems" by (simp add: lc_get_add_refs)
  then show ?case using j by (simp add: add_refs_add_refs)
qed simp_all

lemma deRefList_walk:
  assumes "nested r lm"
  shows "r i < n \<Longrightarrow> lc_get lm i \<noteq> None \<Longrightarrow> deRefList n i lm = Some (add_refs (- 1) (visits n lm i) lm)"
    and "\<forall>j \<in> set js. r j < n \<and> lc_get lm j \<noteq> None \<Longrightarrow> deRefMore n js lm = Some (add_refs (- 1) (concat (map (visits n lm) js)) lm)"
  using assms
proof (induction n i lm and n js lm rule: deRefList_deRefMore.induct)
  case (2 n i lm)
  then obtain c where c: "lc_get lm i = Some c" by auto
  then have i: "\<not> length (l lm) \<le> i" "l lm ! i = Some c" by (auto simp: lc_get_def split: if_splits)
  have p: "lc_put i (c\<lparr>refcount := refcount c - 1\<rparr>) lm = add_refs (- 1) [i] lm" using put_ref [OF c, of "- 1"] by simp
  have sub: "\<forall>j \<in> set (morelists c). r j < n \<and> lc_get (add_refs (- 1) [i] lm) j \<noteq> None"
  proof
    fix j assume j: "j \<in> set (morelists c)"
    from nestedD [OF "2.prems"(3) c this] "2.prems"(1) show "r j < n \<and> lc_get (add_refs (- 1) [i] lm) j \<noteq> None"
      by (auto simp: lc_get_add_refs)
  qed
  have "deRefMore n (morelists c) (add_refs (- 1) [i] lm)
      = Some (add_refs (- 1) (concat (map (visits n (add_refs (- 1) [i] lm)) (morelists c))) (add_refs (- 1) [i] lm))"
    using "2.IH" [OF i, unfolded p, OF sub] "2.prems"(3) by (simp only: nested_add_refs)
  then show ?case using c i p by (simp add: add_refs_add_refs)
next
  case (4 n j js lm)
  have j: "deRefList n j lm = Some (add_refs (- 1) (visits n lm j) lm)" using "4.IH"(1) "4.prems" by simp
  have "deRefMore n js (add_refs (- 1) (visits n lm j) lm) =
      Some (add_refs (- 1) (concat (map (visits n (add_refs (- 1) (visits n lm j) lm)) js)) (add_refs (- 1) (visits n lm j) lm))"
    using "4.IH"(2) [OF j] "4.prems" by (simp add: lc_get_add_refs)
  then show ?case using j by (simp add: add_refs_add_refs)
qed simp_all

lemma gc_from_keeps:
  assumes "distinct is" and "\<forall>i \<in> set is. i < length (l lm)"
  shows "gc_from n is lm = Some (lm\<lparr>l := map (\<lambda>(k, x). if k \<in> set is then
      (case x of Some c \<Rightarrow> if refcount c < 1 then None else Some c | None \<Rightarrow> None) else x) (enumerate 0 (l lm))\<rparr>)"
  using assms
proof (induction "is" arbitrary: lm)
  case Nil
  have "map (\<lambda>(k, x). x) (enumerate 0 (l lm)) = l lm" by (auto intro!: nth_equalityI simp: nth_enumerate_eq)
  then show ?case by simp
next
  case (Cons i "is")
  let ?g = "\<lambda>x. case x of Some c \<Rightarrow> if refcount c < 1 then None else Some c | None \<Rightarrow> None"
  have i: "i < length (l lm)" "i \<notin> set is" "\<forall>j \<in> set is. j < length (l lm)" using Cons.prems by auto
  have step: "gc_from n (i # is) lm = gc_from n is (lm\<lparr>l := (l lm)[i := ?g (l lm ! i)]\<rparr>)"
  proof (cases "l lm ! i")
    case None
    then have "(l lm)[i := None] = l lm" using i(1) list_update_id [of "l lm" i] by simp
    then show ?thesis using None i(1) by (simp add: lc_get_def)
  next
    case (Some c)
    then have "\<not> refcount c < 1 \<Longrightarrow> (l lm)[i := Some c] = l lm" using i(1) list_update_id [of "l lm" i] by simp
    then show ?thesis using Some i(1) by (auto simp: lc_get_def delete_list_def)
  qed
  have "map (\<lambda>(k, x). if k \<in> set is then ?g x else x) (enumerate 0 ((l lm)[i := ?g (l lm ! i)]))
      = map (\<lambda>(k, x). if k \<in> set (i # is) then ?g x else x) (enumerate 0 (l lm))"
    using i by (intro nth_equalityI) (auto simp: nth_enumerate_eq nth_list_update)
  then show ?case unfolding step using Cons.IH [of "lm\<lparr>l := (l lm)[i := ?g (l lm ! i)]\<rparr>"] i Cons.prems(1) by simp
qed

section \<open>Lemmas: the length of an item\<close>

lemma before_sublist: "length (before s t) \<le> length s" "set (before s t) \<subseteq> set s"
  by (auto simp: before_def dest: in_set_takeD split: option.splits)

lemma after_sublist: "length (after s t) \<le> length s" "set (after s t) \<subseteq> set s"
  by (auto simp: after_def dest: in_set_dropD split: option.splits)

lemma take_drop_set: "set (take n (drop m s)) \<subseteq> set s"
  by (meson dual_order.trans set_drop_subset set_take_subset)

lemma removeWhiteSpace_sublist: "length (removeWhiteSpace s) \<le> length s" "set (removeWhiteSpace s) \<subseteq> set s"
  by (auto simp: removeWhiteSpace_def Let_def dest: in_set_dropD in_set_takeD)

lemma strip_comment_sublist: "length (strip_comment s) \<le> length s" "set (strip_comment s) \<subseteq> set s"
  by (auto simp: strip_comment_def dest: in_set_takeD split: list.splits option.splits)

lemma chop_sublist: "length (chop s) \<le> length s" "set (chop s) \<subseteq> set s"
  by (auto simp: chop_def dest: in_set_takeD)

lemma find_char_le:
  assumes "j < length s" and "s ! j = c"
  shows "\<exists>i \<le> j. find_sub [c] s = Some i"
proof -
  have p: "prefix [c] (drop j s)" using assms by (simp add: Cons_nth_drop_Suc [symmetric])
  then have "sublist [c] s" by (metis prefix_imp_sublist sublist_drop sublist_order.order_trans)
  then obtain i where i: "find_sub [c] s = Some i" using find_sub_None by (metis not_None_eq)
  with find_sub_least [OF i, of j] p show ?thesis by (intro exI [of _ i]) (auto simp: not_le [symmetric])
qed

lemma port_removed_length:
  assumes "contains (before s ''/'') '':''"
  shows "length (before s '':'' @ ''/'' @ after s ''/'') \<le> length s"
proof -
  have ne: "before s ''/'' \<noteq> []" using assms by (auto simp: contains_def)
  then obtain q where q: "find_sub ''/'' s = Some q" by (auto simp: before_def split: if_splits option.splits)
  then have b: "before s ''/'' = take q s" "q < length s" "after s ''/'' = drop (Suc q) s"
    using find_sub_Some_le [OF q] by (auto simp: before_def after_def)
  obtain p where p: "find_sub '':'' (take q s) = Some p"
    using assms by (auto simp: contains_def indexOf_def b split: if_splits option.splits)
  have lt: "p < q" using find_sub_Some_le [OF p] b(2) by simp
  have "take q s ! p = (take p (take q s) @ '':'' @ drop (p + 1) (take q s)) ! p" using find_sub_Some [OF p] by simp
  also have "\<dots> = CHR '':''" using lt b(2) by (simp add: nth_append)
  finally have pq: "p < q" "s ! p = CHR '':''" using lt by auto
  then obtain i where i: "i \<le> p" "find_sub '':'' s = Some i" using find_char_le [of p s "CHR '':''"] b(2) by auto
  then have "length (before s '':'') \<le> p" by (auto simp: before_def)
  with pq b show ?thesis by simp
qed

lemma c_tolower_nul: "c_tolower c = nul \<Longrightarrow> c = nul"
proof (cases "c_isupper c")
  case True
  then have "(of_char (c_tolower c) :: nat) = of_char c + 32" by (simp add: c_tolower_def c_isupper_def)
  moreover assume "c_tolower c = nul"
  ultimately show ?thesis by (simp add: nul_def)
qed (simp add: c_tolower_def)

lemma nul_free_toLower: "nul_free s \<Longrightarrow> nul_free (toLower s)"
  unfolding toLower_def by (metis c_tolower_nul imageE image_set)

lemma tidy_item_sub: "length (tidy_item env filters s) \<le> length s" "nul_free s \<Longrightarrow> nul_free (tidy_item env filters s)"
proof -
  define a where "a = (if endsWith s ''/'' then chop s else s)"
  define t1 where "t1 = (if filters \<noteq> 32 then if startsWith a ''ftp://'' then after a ''ftp://'' else a else s)"
  define t2 where "t2 = (if filters = 1 \<and> contains (before t1 ''/'') '':'' \<and> rx (le_net env) rx_port t1
                then before t1 '':'' @ ''/'' @ after t1 ''/'' else t1)"
  have r: "tidy_item env filters s = (if filters \<noteq> 32 then toLower t2 else t2)"
    unfolding tidy_item_def Let_def t2_def t1_def a_def ..
  have a: "length a \<le> length s" "set a \<subseteq> set s" using chop_sublist by (auto simp: a_def)
  have t1: "length t1 \<le> length s" "set t1 \<subseteq> set s" using after_sublist [of a "''ftp://''"] a by (auto simp: t1_def)
  have t2: "length t2 \<le> length t1" "set t2 \<subseteq> insert (CHR ''/'') (set t1)"
    using port_removed_length [of t1] before_sublist(2) [of t1 "'':''"] after_sublist(2) [of t1 "''/''"] by (auto simp: t2_def)
  show "length (tidy_item env filters s) \<le> length s" using t1 t2 by (simp add: r toLower_def)
  assume "nul_free s"
  with t1 t2 have "nul_free t2" by (auto simp: nul_def)
  then show "nul_free (tidy_item env filters s)" by (simp add: r nul_free_toLower)
qed

lemma line_item:
  assumes "line_of env bd pwd e filters plain raw = L_item u"
  shows "length u \<le> length raw" and "nul_free u" and "u \<noteq> []"
proof -
  let ?t = "removeWhiteSpace (strip_comment (cstr raw))"
  have u: "u = (if plain then tidy_item env filters ?t else ?t)" "u \<noteq> []"
    using assms unfolding line_of_def by (auto simp: Let_def split: if_splits option.splits)
  have t: "length ?t \<le> length raw" "nul_free ?t"
    using removeWhiteSpace_sublist [of "strip_comment (cstr raw)"] strip_comment_sublist [of "cstr raw"] cstr_length [of raw] nul_free_cstr [of raw]
    by (meson order_trans, blast)
  show "length u \<le> length raw" "nul_free u" "u \<noteq> []"
    using u t tidy_item_sub [where env = env and filters = filters and s = ?t] by auto
qed

section \<open>Lemmas: reading keeps the other lists\<close>

text \<open>Every list but the \<open>i\<close>-th is as it was, up to its reference count.\<close>

definition kept_but :: "nat set \<Rightarrow> manager \<Rightarrow> manager \<Rightarrow> bool" where
  "kept_but S lm lm' \<longleftrightarrow> (\<forall>k c. k \<notin> S \<longrightarrow> lc_get lm k = Some c \<longrightarrow> (\<exists>rc. lc_get lm' k = Some (c\<lparr>refcount := rc\<rparr>)))"

lemma kept_refl [simp]: "kept_but S lm lm"
  unfolding kept_but_def by (metis list_container.surjective list_container.update_convs(11))

lemma kept_trans: "kept_but S a b \<Longrightarrow> kept_but S b c \<Longrightarrow> kept_but S a c"
  unfolding kept_but_def by (metis list_container.update_convs(11) list_container.surjective)

lemma kept_mono: "kept_but S a b \<Longrightarrow> S \<subseteq> T \<Longrightarrow> kept_but T a b"
  unfolding kept_but_def by blast

lemma keptD:
  assumes "kept_but S a b" and "lc_get a k = Some c" and "k \<notin> S"
  obtains rc where "lc_get b k = Some (c\<lparr>refcount := rc\<rparr>)"
  using assms unfolding kept_but_def by blast

lemma lc_get_upd: "lc_get (lc_upd i f lm) k = (if k = i then map_option f (lc_get lm k) else lc_get lm k)"
  by (auto simp: lc_get_def lc_upd_def)

lemma lc_get_put: "lc_get (lc_put i c lm) k = (if k = i \<and> i < length (l lm) then Some c else lc_get lm k)"
  by (auto simp: lc_get_def lc_put_def)

lemma lc_get_lt: "lc_get lm i = Some c \<Longrightarrow> i < length (l lm)"
  by (auto simp: lc_get_def split: if_splits)

lemma cin_upd_put [simp]: "cin (lc_upd i f lm) = cin lm" "cin (lc_put i c lm) = cin lm"
  by (simp_all add: lc_upd_def lc_put_def)

lemma kept_upd [simp]: "kept_but {i} lm (lc_upd i f lm)"
  unfolding kept_but_def by (auto simp: lc_get_upd) (metis list_container.surjective list_container.update_convs(11))

lemma kept_put [simp]: "kept_but {i} lm (lc_put i c lm)"
  unfolding kept_but_def by (auto simp: lc_get_put) (metis list_container.surjective list_container.update_convs(11))

lemma kept_put_ref:
  assumes "lc_get lm i = Some c"
  shows "kept_but {} lm (lc_put i (c\<lparr>refcount := rc\<rparr>) lm)"
  using assms unfolding kept_but_def
  by (auto simp: lc_get_put dest: lc_get_lt) (metis list_container.surjective list_container.update_convs(11))+

lemma refList_kept:
  "refList n i lm = Some lm' \<Longrightarrow> kept_but {} lm lm' \<and> cin lm' = cin lm"
  "refMore n js lm = Some lm' \<Longrightarrow> kept_but {} lm lm' \<and> cin lm' = cin lm"
proof (induction n i lm and n js lm arbitrary: lm' and lm' rule: refList_refMore.induct)
  case (2 n i lm)
  obtain c where c: "lc_get lm i = Some c" using "2.prems" by (auto split: option.splits)
  let ?m = "lc_put i (c\<lparr>refcount := refcount c + 1\<rparr>) lm"
  have "refMore n (morelists c) ?m = Some lm'" using "2.prems" c by simp
  from "2.IH" [OF c this] kept_trans [OF kept_put_ref [OF c]] show ?case by auto
next
  case (4 n j js lm)
  obtain m where m: "refList n j lm = Some m" "refMore n js m = Some lm'" using "4.prems" by (auto split: option.splits)
  from "4.IH"(1) [OF m(1)] "4.IH"(2) [OF m] kept_trans show ?case by metis
qed auto

lemma deRefList_kept:
  "deRefList n i lm = Some lm' \<Longrightarrow> kept_but {} lm lm' \<and> cin lm' = cin lm"
  "deRefMore n js lm = Some lm' \<Longrightarrow> kept_but {} lm lm' \<and> cin lm' = cin lm"
proof (induction n i lm and n js lm arbitrary: lm' and lm' rule: deRefList_deRefMore.induct)
  case (2 n i lm)
  have i: "\<not> length (l lm) \<le> i" using "2.prems" by (auto split: if_splits)
  show ?case
  proof (cases "l lm ! i")
    case (Some c)
    with i have c: "lc_get lm i = Some c" by (simp add: lc_get_def)
    let ?m = "lc_put i (c\<lparr>refcount := refcount c - 1\<rparr>) lm"
    have "deRefMore n (morelists c) ?m = Some lm'" using "2.prems" Some i by simp
    from "2.IH" [OF i Some this] kept_trans [OF kept_put_ref [OF c]] show ?thesis by auto
  qed (use "2.prems" i in auto)
next
  case (4 n j js lm)
  obtain m where m: "deRefList n j lm = Some m" "deRefMore n js m = Some lm'" using "4.prems" by (auto split: option.splits)
  from "4.IH"(1) [OF m(1)] "4.IH"(2) [OF m] kept_trans show ?case by metis
qed auto

lemma delete_list_kept:
  assumes "delete_list n i lm = Some lm'"
  shows "kept_but {i} lm lm' \<and> cin lm' = cin lm"
proof -
  obtain c where c: "lc_get lm i = Some c" using assms by (auto simp: delete_list_def split: option.splits)
  have clr: "kept_but {i} m (m\<lparr>l := (l m)[i := None]\<rparr>)" for m :: manager
    unfolding kept_but_def by (auto simp: lc_get_def) (metis list_container.surjective list_container.update_convs(11))
  show ?thesis
  proof (cases "refcount c > 0")
    case True
    then obtain m where m: "deRefMore n (morelists c) (lc_put i (c\<lparr>refcount := refcount c - 1\<rparr>) lm) = Some m"
      "lm' = m\<lparr>l := (l m)[i := None]\<rparr>" using assms c by (auto simp: delete_list_def split: option.splits)
    have "kept_but {i} lm m" "cin m = cin lm"
      using deRefList_kept(2) [OF m(1)] kept_put [of i lm] kept_mono [of "{}" _ m "{i}"] kept_trans by (blast, simp)
    with m(2) clr [of m] kept_trans show ?thesis by auto
  qed (use assms c clr in \<open>auto simp: delete_list_def\<close>)
qed

lemma index_of_le: "index_of x xs < length xs \<Longrightarrow> xs ! index_of x xs = x"
  by (induction xs) auto

lemma new_slot_fresh:
  assumes "new_slot lm = (free, lm1)"
  shows "lc_get lm free = None" and "lc_get lm1 free = Some list_container_new" and "kept_but {} lm lm1" and "cin lm1 = cin lm"
proof -
  have "lc_get lm free = None \<and> lc_get lm1 free = Some list_container_new
     \<and> (\<forall>k. k \<noteq> free \<longrightarrow> lc_get lm1 k = lc_get lm k) \<and> cin lm1 = cin lm"
  proof (cases "findNULL lm > - 1")
    case True
    then have "free < length (l lm)" "l lm ! free = None" "lm1 = lc_put free list_container_new lm"
      using assms index_of_le [of None "l lm"] by (auto simp: new_slot_def findNULL_def Let_def split: if_splits)
    then show ?thesis by (auto simp: lc_get_put) (simp add: lc_get_def)
  next
    case False
    then have "free = length (l lm)" "lm1 = lm\<lparr>l := l lm @ [Some list_container_new]\<rparr>" using assms by (auto simp: new_slot_def)
    then show ?thesis by (auto simp: lc_get_def nth_append)
  qed
  then show "lc_get lm free = None" "lc_get lm1 free = Some list_container_new" "cin lm1 = cin lm" "kept_but {} lm lm1"
    unfolding kept_but_def by (auto, metis kept_refl kept_but_def empty_iff option.distinct(1))
qed

text \<open>A list that was not there may be changed in any way.\<close>

lemma kept_fresh: "kept_but {i} a b \<Longrightarrow> lc_get a i = None \<Longrightarrow> kept_but {} a b"
  unfolding kept_but_def by (metis empty_iff insertE option.distinct(1) singletonD)


section \<open>Lemmas: reading does not leave the buffer\<close>

abbreviation rest_bytes :: "string list \<Rightarrow> nat" where
  "rest_bytes ls \<equiv> sum_list (map (\<lambda>x. length x + 1) ls)"

text \<open>The lines that are left fit the buffer, but for the last byte.\<close>

definition mem_ok :: "list_container \<Rightarrow> nat \<Rightarrow> string list \<Rightarrow> bool" where
  "mem_ok c mem rest \<longleftrightarrow> store_inv (lc_items c) \<and> data_length (lc_items c) + 2 \<le> mem
     \<and> mem + rest_bytes rest \<le> data_memory (lc_items c) + 1"

definition new_good :: "new_list \<Rightarrow> bool" where
  "new_good new \<longleftrightarrow> (\<forall>f p s fl pa ip ti ma lm. cin lm = [] \<longrightarrow>
     (case new f p s fl pa ip ti ma lm of
        R_list j lm' \<Rightarrow> kept_but {} lm lm' \<and> cin lm' = []
      | R_ok b lm' \<Rightarrow> False | R_mem \<Rightarrow> False | R_hang \<Rightarrow> True | R_deep \<Rightarrow> True))"

definition good_read :: "nat \<Rightarrow> manager \<Rightarrow> lm_read \<Rightarrow> bool" where
  "good_read i lm r \<longleftrightarrow> (case r of
      R_ok b lm' \<Rightarrow> kept_but {i} lm lm' \<and> cin lm' = []
    | R_list j lm' \<Rightarrow> False | R_mem \<Rightarrow> False | R_hang \<Rightarrow> True | R_deep \<Rightarrow> True)"

definition good_step :: "nat \<Rightarrow> manager \<Rightarrow> string list \<Rightarrow> line_step \<Rightarrow> bool" where
  "good_step i lm rest st \<longleftrightarrow> (case st of
      Stop r \<Rightarrow> good_read i lm r
    | Go mem lm' \<Rightarrow> kept_but {i} lm lm' \<and> cin lm' = [] \<and> (\<exists>c. lc_get lm' i = Some c \<and> mem_ok c mem rest))"

lemma mem_ok_skip: "mem_ok c mem (raw # rest) \<Longrightarrow> mem_ok c mem rest"
  by (simp add: mem_ok_def)

lemma mem_ok_same: "lc_items c' = lc_items c \<Longrightarrow> mem_ok c' mem rest = mem_ok c mem rest"
  by (simp add: mem_ok_def)

lemma add_item_line_mem:
  assumes "mem_ok c mem (raw # rest)" and "length u \<le> length raw" and "nul_free u"
  shows "add_item_line env (mem + length u + 1) u c \<noteq> Inl True"
    and "add_item_line env (mem + length u + 1) u c = Inr c' \<Longrightarrow> mem_ok c' (mem + length u + 1) rest"
proof -
  let ?m = "mem + length u + 1"
  let ?s = "lc_items c"
  let ?st = "if ?m > data_memory ?s then increaseMemoryBy 2048 ?s else ?s"
  have m: "store_inv ?s" "data_length ?s + 2 \<le> mem" "mem + (length raw + 1 + rest_bytes rest) \<le> data_memory ?s + 1"
    using assms(1) by (simp_all add: mem_ok_def)
  have st: "store_inv ?st" "data_length ?st = data_length ?s" "data_memory ?s \<le> data_memory ?st"
    using increaseMemoryBy_ok [OF m(1), of 2048] m(1) by auto
  have "data_length ?st + length u + 1 \<le> data_memory ?st" using st m assms(2) by linarith
  then have "addToItemList u ?st \<noteq> None" by (simp only: addToItemList_None)
  then obtain s' where s': "addToItemList u ?st = Some s'" by auto
  note ok = addToItemList_ok [OF st(1) assms(3) s']
  have plain: "add_item_line env ?m u c = Inr (c\<lparr>lc_ps := (lc_ps c)\<lparr>p_items := s'\<rparr>\<rparr>)"
    if "\<not> is_iplist c" "\<not> is_timelist c" "\<not> is_map c"
    using that s' by (simp add: add_item_line_def Let_def)
  have pm: "mem_ok (c\<lparr>lc_ps := (lc_ps c)\<lparr>p_items := s'\<rparr>\<rparr>) ?m rest"
    using ok st m assms(2) by (simp add: mem_ok_def)
  have other: "lc_items c'' = lc_items c" if "add_item_line env ?m u c = Inr c''" "is_iplist c \<or> is_timelist c \<or> is_map c" for c''
    using that by (auto simp: add_item_line_def split: if_splits option.splits)
  have om: "mem_ok c ?m rest" using m assms(2) by (simp add: mem_ok_def)
  show "add_item_line env ?m u c \<noteq> Inl True"
    using plain by (cases "is_iplist c \<or> is_timelist c \<or> is_map c") (auto simp: add_item_line_def split: if_splits option.splits)
  show "mem_ok c' ?m rest" if "add_item_line env ?m u c = Inr c'"
    using that plain pm other [OF that] om mem_ok_same [of c' c] by (cases "is_iplist c \<or> is_timelist c \<or> is_map c") auto
qed

lemma include_good:
  assumes "new_good new" and "cin lm = []" and "lc_get lm i = Some c" and "mem_ok c mem rest"
  shows "case readAnotherItemList new ra inc i c lm of
      R_ok True lm' \<Rightarrow> good_step i lm rest (Go mem lm')
    | r \<Rightarrow> good_read i lm r"
proof -
  let ?r = "new inc (ra_pwd ra) (ra_startswith ra) (ra_filters ra) False (is_iplist c) (is_timelist c) (is_map c) lm"
  have g: "case ?r of R_list j lm' \<Rightarrow> kept_but {} lm lm' \<and> cin lm' = []
      | R_ok b lm' \<Rightarrow> False | R_mem \<Rightarrow> False | R_hang \<Rightarrow> True | R_deep \<Rightarrow> True"
    using assms(1,2) unfolding new_good_def by blast
  show ?thesis
  proof (cases ?r)
    case (R_list j lm')
    with g have k: "kept_but {} lm lm'" "cin lm' = []" by auto
    then obtain rc where rc: "lc_get lm' i = Some (c\<lparr>refcount := rc\<rparr>)" using keptD [OF k(1) assms(3)] by auto
    have ki: "kept_but {i} lm lm'" using k(1) kept_mono by blast
    show ?thesis
    proof (cases "j < 0")
      case True
      then show ?thesis using R_list ki k(2) by (simp add: readAnotherItemList_def good_read_def)
    next
      case False
      let ?lm = "lc_upd i (\<lambda>c. c\<lparr>morelists := morelists c @ [nat j]\<rparr>) lm'"
      have "kept_but {i} lm ?lm" using kept_trans [OF ki kept_upd] .
      moreover have "lc_get ?lm i = Some (c\<lparr>refcount := rc, morelists := morelists c @ [nat j]\<rparr>)" using rc by (simp add: lc_get_upd)
      moreover have "mem_ok (c\<lparr>refcount := rc, morelists := morelists c @ [nat j]\<rparr>) mem rest"
        using assms(4) by (simp add: mem_ok_def)
      ultimately show ?thesis using R_list False k(2) by (simp add: readAnotherItemList_def good_step_def)
    qed
  qed (use g in \<open>auto simp: readAnotherItemList_def good_read_def\<close>)
qed

lemma read_line_good:
  assumes "new_good new" and "cin lm = []" and "lc_get lm i = Some c" and "mem_ok c mem (raw # rest)"
  shows "good_step i lm rest (read_line new env ra raw mem i lm)"
proof -
  note lt = lc_get_lt [OF assms(3)]
  have skip: "mem_ok c mem rest" using mem_ok_skip [OF assms(4)] .
  have stop: "good_read i lm (R_ok b lm)" for b using assms(2) by (simp add: good_read_def)
  let ?k = "line_of env (ra_basedir ra) (ra_pwd ra) (ra_endstring ra) (ra_filters ra) (\<not> (is_iplist c \<or> is_timelist c)) raw"
  show ?thesis
  proof (cases ?k)
    case L_skip
    then show ?thesis using assms skip by (simp add: read_line_def good_step_def)
  next
    case L_hang
    then show ?thesis using assms by (simp add: read_line_def good_step_def good_read_def)
  next
    case (L_time tag)
    then show ?thesis using assms skip stop lt
      by (auto simp: read_line_def good_step_def lc_get_put mem_ok_def split: option.splits)
  next
    case (L_category cat)
    then show ?thesis using assms skip lt by (auto simp: read_line_def good_step_def lc_get_put mem_ok_def)
  next
    case L_end
    then show ?thesis using assms by (simp add: read_line_def good_step_def good_read_def)
  next
    case (L_include inc)
    show ?thesis
    proof (cases "ra_includes ra")
      case True
      note inc = include_good [OF assms(1-3) skip, of ra inc]
      show ?thesis
      proof (cases "readAnotherItemList new ra inc i c lm")
        case (R_ok b lm')
        then show ?thesis using inc True L_include assms(3) by (cases b) (auto simp: read_line_def good_step_def)
      qed (use inc True L_include assms(3) in \<open>auto simp: read_line_def good_step_def\<close>)
    qed (use L_include assms skip in \<open>simp add: read_line_def good_step_def\<close>)
  next
    case (L_item u)
    note it = add_item_line_mem [OF assms(4) line_item(1,2) [OF L_item], of env]
    show ?thesis
    proof (cases "add_item_line env (mem + length u + 1) u c")
      case (Inl b)
      with it(1) have "b = False" by simp
      with Inl show ?thesis using L_item assms(3) stop by (simp add: read_line_def good_step_def)
    next
      case (Inr c')
      then show ?thesis using L_item assms(2,3) it(2) [OF Inr] lt by (simp add: read_line_def good_step_def lc_get_put)
    qed
  qed
qed

lemma read_lines_good:
  assumes "new_good new" and "cin lm = []" and "lc_get lm i = Some c" and "mem_ok c mem ls"
  shows "good_read i lm (fst (read_lines new env ra ls mem i lm))"
  using assms(2-4)
proof (induction ls arbitrary: c mem lm)
  case Nil
  then show ?case by (simp add: good_read_def)
next
  case (Cons raw rest)
  note g = read_line_good [OF assms(1) Cons.prems, of env ra]
  show ?case
  proof (cases "read_line new env ra raw mem i lm")
    case (Go mem' lm')
    with g obtain c' where k: "kept_but {i} lm lm'" "cin lm' = []" "lc_get lm' i = Some c'" "mem_ok c' mem' rest"
      by (auto simp: good_step_def)
    have "good_read i lm' (fst (read_lines new env ra rest mem' i lm'))" by (rule Cons.IH [OF k(2-4)])
    then show ?thesis using Go k(1) kept_trans by (auto simp: good_read_def split: lm_read.splits)
  qed (use g in \<open>simp add: good_step_def\<close>)
qed

text \<open>A file is at least as long as its lines with the line ends between them.\<close>

definition files_sized :: "lists_env \<Rightarrow> bool" where
  "files_sized env \<longleftrightarrow> (\<forall>f fi. le_fs env f = Some fi \<longrightarrow> rest_bytes (f_lines fi) \<le> f_len fi + 1)"

lemma good_read_trans: "kept_but {i} lm lm' \<Longrightarrow> good_read i lm' r \<Longrightarrow> good_read i lm r"
  using kept_trans by (auto simp: good_read_def split: lm_read.splits)

lemma readItemList_good:
  assumes "files_sized env" and "new_good new" and "cin lm = []" and "lc_get lm i = Some c"
    and "lc_items c = item_store_new"
  shows "good_read i lm (readItemList new env f pwd sw fl ip ti ma i lm)"
proof -
  define lm1 where "lm1 = lc_upd i (set_source f sw fl ip ti ma) lm"
  have k1: "kept_but {i} lm lm1" "cin lm1 = []" using assms(3) by (simp_all add: lm1_def)
  have c1: "lc_get lm1 i = Some (set_source f sw fl ip ti ma c)" using assms(4) by (simp add: lm1_def lc_get_upd)
  show ?thesis
  proof (cases "startsWithLower f ''memory:''")
    case True
    then show ?thesis using k1 kept_trans [OF k1(1) kept_upd]
      by (simp add: readItemList_def readStdinItemList_def good_read_def flip: lm1_def)
  next
    case mem: False
    show ?thesis
    proof (cases "le_fs env f")
      case None
      then show ?thesis using mem k1 by (simp add: readItemList_def good_read_def flip: lm1_def)
    next
      case (Some fi)
      define lm2 where "lm2 = lc_upd i (\<lambda>c. c\<lparr>filedate := f_date fi\<rparr>) lm1"
      let ?lm3 = "lc_upd i (grow (f_len fi + 2)) lm2"
      let ?c = "grow (f_len fi + 2) ((set_source f sw fl ip ti ma c)\<lparr>filedate := f_date fi\<rparr>)"
      have k2: "kept_but {i} lm lm2" using kept_trans [OF k1(1) kept_upd] by (simp add: lm2_def)
      have k3: "kept_but {i} lm ?lm3" using kept_trans [OF k2 kept_upd] .
      have c3: "lc_get ?lm3 i = Some ?c" using c1 by (simp add: lm2_def lc_get_upd)
      note new = increaseMemoryBy_ok [OF conjunct1 [OF item_store_new_inv], of "f_len fi + 2"]
      have "mem_ok ?c 2 (f_lines fi)"
        using new assms(1,5) Some by (auto simp: mem_ok_def grow_def set_source_def files_sized_def item_store_new_def data_memory_def)
      then have "good_read i ?lm3 (fst (read_lines new env ra (f_lines fi) 2 i ?lm3))" for ra
        using k1(2) by (intro read_lines_good [OF assms(2) _ c3]) (simp_all add: lm2_def)
      then have "good_read i lm (fst (ifsreadItemList new env ra (f_len fi) (f_lines fi) i lm2))" for ra
        unfolding ifsreadItemList_def using good_read_trans [OF k3] by blast
      moreover have "good_read i lm (R_ok True lm2)" using k2 k1(2) by (simp add: good_read_def lm2_def)
      ultimately show ?thesis using mem Some by (simp add: readItemList_def Let_def flip: lm1_def lm2_def)
    qed
  qed
qed

lemma finish_good:
  assumes "good_read i lm r" and "lc_get lm i = None"
  shows "case finish_new n i r of R_list j lm' \<Rightarrow> kept_but {} lm lm' \<and> cin lm' = []
    | R_ok b lm' \<Rightarrow> False | R_mem \<Rightarrow> False | R_hang \<Rightarrow> True | R_deep \<Rightarrow> True"
proof (cases r)
  case (R_ok b lm')
  with assms have k: "kept_but {i} lm lm'" "cin lm' = []" by (auto simp: good_read_def)
  show ?thesis
  proof (cases b)
    case True
    then show ?thesis using R_ok k kept_fresh [OF k(1) assms(2)] by (simp add: finish_new_def)
  next
    case False
    show ?thesis
    proof (cases "delete_list n i lm'")
      case None
      with R_ok False show ?thesis by (simp add: finish_new_def)
    next
      case (Some m)
      from delete_list_kept [OF this] have "kept_but {i} lm m" "cin m = []" using k kept_trans by auto
      then show ?thesis using R_ok False Some kept_fresh assms(2) by (simp add: finish_new_def)
    qed
  qed
qed (use assms in \<open>auto simp: good_read_def finish_new_def\<close>)

lemma newItemList_good:
  assumes "files_sized env"
  shows "new_good (newItemList n env)"
proof (induction n)
  case 0
  show ?case by (simp add: new_good_def)
next
  case (Suc n)
  show ?case unfolding new_good_def
  proof (intro allI impI)
    fix f p :: string and s :: bool and fl :: int and pa ip ti ma :: bool and lm :: manager
    assume cin: "cin lm = []"
    obtain free lm1 where ns: "new_slot lm = (free, lm1)" by (cases "new_slot lm")
    note fr = new_slot_fresh [OF ns]
    define lm2 where "lm2 = lc_upd free (\<lambda>c. c\<lparr>lc_parent := pa\<rparr>) lm1"
    let ?r = "readItemList (newItemList n env) env f p s fl ip ti ma free lm2"
    have "good_read free lm2 ?r"
      using cin fr by (intro readItemList_good [OF assms Suc, where c = "list_container_new\<lparr>lc_parent := pa\<rparr>"])
        (simp_all add: lm2_def lc_get_upd list_container_new_def phrase_store_new_def)
    moreover have "kept_but {free} lm lm2"
      using kept_trans [OF kept_mono [OF fr(3)] kept_upd] by (simp add: lm2_def)
    ultimately have "good_read free lm ?r" using good_read_trans by blast
    note fin = finish_good [OF this fr(1), of n]
    show "case newItemList (Suc n) env f p s fl pa ip ti ma lm of
        R_list j lm' \<Rightarrow> kept_but {} lm lm' \<and> cin lm' = []
      | R_ok b lm' \<Rightarrow> False | R_mem \<Rightarrow> False | R_hang \<Rightarrow> True | R_deep \<Rightarrow> True"
    proof (cases "find_previous n env lm f s fl [0..<length (l lm)]")
      case (Some out)
      show ?thesis
      proof (cases out)
        case None
        then show ?thesis using Some fin ns by (simp add: Let_def flip: lm2_def)
      next
        case (Some i)
        then show ?thesis using \<open>find_previous n env lm f s fl [0..<length (l lm)] = Some out\<close> refList_kept(1) [of n i lm] cin
          by (cases "refList n i lm") auto
      qed
    qed simp
  qed
qed

section \<open>Lemmas: a file of items\<close>

definition plain_line :: "line_kind \<Rightarrow> bool" where
  "plain_line k \<longleftrightarrow> (case k of L_skip \<Rightarrow> True | L_item u \<Rightarrow> True | L_category c \<Rightarrow> True | _ \<Rightarrow> False)"

definition line_items :: "line_kind \<Rightarrow> string list" where
  "line_items k = (case k of L_item u \<Rightarrow> [u] | _ \<Rightarrow> [])"

text \<open>What a line of a file is, for a list of items.\<close>

definition file_line :: "lists_env \<Rightarrow> string \<Rightarrow> string \<Rightarrow> int \<Rightarrow> string \<Rightarrow> line_kind" where
  "file_line env f pwd filters raw = line_of env (baseDir f) pwd None filters True raw"

definition file_items :: "lists_env \<Rightarrow> string \<Rightarrow> string \<Rightarrow> int \<Rightarrow> string list \<Rightarrow> string list" where
  "file_items env f pwd filters ls = concat (map (\<lambda>raw. line_items (file_line env f pwd filters raw)) ls)"

text \<open>A list of items without limits or includes, not sorted yet.\<close>

definition item_container :: "list_container \<Rightarrow> bool" where
  "item_container c \<longleftrightarrow> \<not> is_iplist c \<and> \<not> is_timelist c \<and> \<not> is_map c \<and> \<not> istimelimited c \<and> morelists c = []
     \<and> \<not> issorted (lc_items c)"

lemma add_item_line_plain:
  assumes "item_container c" and "mem_ok c mem (raw # rest)" and "length u \<le> length raw" and "nul_free u"
  shows "\<exists>c'. add_item_line env (mem + length u + 1) u c = Inr c' \<and> item_container c' \<and> mem_ok c' (mem + length u + 1) rest
    \<and> item_list (lc_items c') = item_list (lc_items c) @ [u]"
proof -
  note m = add_item_line_mem [OF assms(2-4), of env]
  let ?st = "if mem + length u + 1 > data_memory (lc_items c) then increaseMemoryBy 2048 (lc_items c) else lc_items c"
  have inv: "store_inv (lc_items c)" using assms(2) by (simp add: mem_ok_def)
  have st: "store_inv ?st" "item_list ?st = item_list (lc_items c)" "issorted ?st = issorted (lc_items c)"
    using increaseMemoryBy_ok [OF inv, of 2048] inv by (auto simp: increaseMemoryBy_def)
  have eq: "add_item_line env (mem + length u + 1) u c = (case addToItemList u ?st of
      None \<Rightarrow> Inl True | Some st' \<Rightarrow> Inr (c\<lparr>lc_ps := (lc_ps c)\<lparr>p_items := st'\<rparr>\<rparr>))"
    using assms(1) by (simp add: add_item_line_def item_container_def Let_def)
  then obtain s' where s': "addToItemList u ?st = Some s'" using m(1) by (cases "addToItemList u ?st") simp_all
  let ?c = "c\<lparr>lc_ps := (lc_ps c)\<lparr>p_items := s'\<rparr>\<rparr>"
  have r: "add_item_line env (mem + length u + 1) u c = Inr ?c" using eq s' by simp
  have "issorted s' = issorted ?st" using s' by (auto simp: addToItemList_def split: option.splits)
  then have "item_container ?c" using assms(1) st(3) by (simp add: item_container_def)
  moreover have "item_list (lc_items ?c) = item_list (lc_items c) @ [u]" using addToItemList_ok(2) [OF st(1) assms(4) s'] st(2) by simp
  ultimately show ?thesis using r m(2) [OF r] by blast
qed

lemma read_lines_plain:
  assumes "lc_get lm i = Some c" and "item_container c" and "mem_ok c mem ls"
    and "\<forall>raw \<in> set ls. plain_line (line_of env (ra_basedir ra) (ra_pwd ra) (ra_endstring ra) (ra_filters ra) True raw)"
  shows "\<exists>lm' c'. read_lines new env ra ls mem i lm = (R_ok True lm', []) \<and> lc_get lm' i = Some c' \<and> item_container c'
    \<and> store_inv (lc_items c') \<and> item_list (lc_items c') = item_list (lc_items c)
      @ concat (map (\<lambda>raw. line_items (line_of env (ra_basedir ra) (ra_pwd ra) (ra_endstring ra) (ra_filters ra) True raw)) ls)"
  using assms
proof (induction ls arbitrary: lm c mem)
  case Nil
  have "sort_read c = c" using Nil.prems(2) by (simp add: sort_read_def item_container_def)
  then show ?case using Nil.prems by (auto simp: lc_get_upd mem_ok_def)
next
  case (Cons raw rest)
  let ?k = "line_of env (ra_basedir ra) (ra_pwd ra) (ra_endstring ra) (ra_filters ra) True raw"
  have plain: "(\<not> (is_iplist c \<or> is_timelist c)) = True" using Cons.prems(2) by (simp add: item_container_def)
  have k: "plain_line ?k" using Cons.prems(4) by simp
  have rest: "\<forall>raw \<in> set rest. plain_line (line_of env (ra_basedir ra) (ra_pwd ra) (ra_endstring ra) (ra_filters ra) True raw)"
    using Cons.prems(4) by simp
  note lt = lc_get_lt [OF Cons.prems(1)]
  have step: "\<exists>mem' lm' c'. read_line new env ra raw mem i lm = Go mem' lm' \<and> lc_get lm' i = Some c' \<and> item_container c'
      \<and> mem_ok c' mem' rest \<and> item_list (lc_items c') = item_list (lc_items c) @ line_items ?k"
  proof (cases ?k)
    case L_skip
    then show ?thesis using Cons.prems plain by (simp add: read_line_def line_items_def mem_ok_def)
  next
    case (L_category cat)
    then show ?thesis using Cons.prems plain lt
      by (simp add: read_line_def line_items_def mem_ok_def lc_get_put item_container_def)
  next
    case (L_item u)
    from add_item_line_plain [OF Cons.prems(2,3) line_item(1,2) [OF L_item], of env] obtain c' where
      c': "add_item_line env (mem + length u + 1) u c = Inr c'" "item_container c'" "mem_ok c' (mem + length u + 1) rest"
        "item_list (lc_items c') = item_list (lc_items c) @ [u]" by blast
    have "read_line new env ra raw mem i lm = Go (mem + length u + 1) (lc_put i c' lm)"
      using L_item c'(1) Cons.prems(1) plain by (simp add: read_line_def)
    with c' L_item lt show ?thesis
      by (intro exI [of _ "mem + length u + 1"] exI [of _ "lc_put i c' lm"] exI [of _ c']) (simp add: lc_get_put line_items_def)
  qed (use k in \<open>simp_all add: plain_line_def\<close>)
  then obtain mem' lm' c' where s: "read_line new env ra raw mem i lm = Go mem' lm'" "lc_get lm' i = Some c'" "item_container c'"
    "mem_ok c' mem' rest" "item_list (lc_items c') = item_list (lc_items c) @ line_items ?k" by blast
  from Cons.IH [OF s(2-4) rest] s(1,5) show ?case by auto
qed

lemma find_previous_none:
  "\<forall>k \<in> set is. \<forall>c. lc_get lm k = Some c \<longrightarrow> sourcefile c \<noteq> f \<Longrightarrow> find_previous n env lm f sw fl is = Some None"
  by (induction "is") (auto simp: previousUseItem_def split: option.splits)

lemma load_items:
  assumes "le_fs env f = Some fi" and "2 \<le> f_len fi" and "files_sized env" and "\<not> startsWithLower f ''memory:''"
    and "\<forall>raw \<in> set (f_lines fi). plain_line (file_line env f pwd fl raw)"
    and "\<forall>k c. lc_get lm k = Some c \<longrightarrow> sourcefile c \<noteq> f"
  shows "\<exists>j lm' c. newItemList (Suc n) env f pwd sw fl par False False False lm = R_list (int j) lm' \<and> lc_get lm' j = Some c
    \<and> item_container c \<and> store_inv (lc_items c) \<and> item_list (lc_items c) = file_items env f pwd fl (f_lines fi)"
proof -
  obtain free lm1 where ns: "new_slot lm = (free, lm1)" by (cases "new_slot lm")
  note fr = new_slot_fresh [OF ns]
  define ra where "ra = \<lparr>ra_basedir = baseDir f, ra_pwd = pwd, ra_endstring = None, ra_includes = True, ra_startswith = sw, ra_filters = fl\<rparr>"
  let ?lm4 = "lc_upd free (grow (f_len fi + 2)) (lc_upd free (\<lambda>c. c\<lparr>filedate := f_date fi\<rparr>)
    (lc_upd free (set_source f sw fl False False False) (lc_upd free (\<lambda>c. c\<lparr>lc_parent := par\<rparr>) lm1)))"
  let ?c = "grow (f_len fi + 2) ((set_source f sw fl False False False (list_container_new\<lparr>lc_parent := par\<rparr>))\<lparr>filedate := f_date fi\<rparr>)"
  have g: "lc_get ?lm4 free = Some ?c" using fr(2) by (simp add: lc_get_upd)
  note new = increaseMemoryBy_ok [OF conjunct1 [OF item_store_new_inv], of "f_len fi + 2"]
  have new_items: "lc_items ?c = increaseMemoryBy (f_len fi + 2) item_store_new"
    by (simp add: grow_def set_source_def list_container_new_def phrase_store_new_def)
  have ic: "item_container ?c"
    by (simp add: item_container_def grow_def set_source_def list_container_new_def phrase_store_new_def increaseMemoryBy_def item_store_new_def)
  have mem: "mem_ok ?c 2 (f_lines fi)" unfolding mem_ok_def new_items
    using new assms(1,3) by (auto simp: files_sized_def item_store_new_def data_memory_def)
  have "item_list (lc_items ?c) = []" unfolding new_items using new(2) item_store_new_inv by simp
  with read_lines_plain [OF g ic mem, of env ra "newItemList n env"] assms(5) obtain lm' c' where
    r: "read_lines (newItemList n env) env ra (f_lines fi) 2 free ?lm4 = (R_ok True lm', [])" "lc_get lm' free = Some c'"
      "item_container c'" "store_inv (lc_items c')" "item_list (lc_items c') = file_items env f pwd fl (f_lines fi)"
    by (auto simp: ra_def file_line_def file_items_def)
  have "find_previous n env lm f sw fl [0..<length (l lm)] = Some None" using assms(6) by (intro find_previous_none) simp
  then have "newItemList (Suc n) env f pwd sw fl par False False False lm = R_list (int free) lm'"
    using ns r(1) assms(1,2,4) by (simp add: readItemList_def Let_def ifsreadItemList_def finish_new_def flip: ra_def)
  with r show ?thesis by blast
qed

lemma doSort_one: "lc_get lm i = Some c \<Longrightarrow> morelists c = [] \<Longrightarrow> doSort (Suc n) sw i lm = Some (lc_upd i (sort_here sw) lm)"
  by simp

section \<open>Properties\<close>

text \<open>C31: a lookup in nested lists ends, and finds something exactly when a list that is reached
  through lists whose time limit holds has it; what it returns is what such a list holds.\<close>

theorem findInList_reaches:
  assumes "nested r lm" and "lc_get lm i = Some c" and "r i < n"
  shows "\<exists>out. findInList n env lm str i = Some out
    \<and> (case out of None \<Rightarrow> \<not> (\<exists>x. found_in here_in_list env lm str i x) | Some x \<Rightarrow> found_in here_in_list env lm str i x)"
proof -
  have "lookup_spec here_in_list env lm str {i} (findInList n env lm str i)"
    unfolding findInList_def by (rule lookup_lists_spec(1) [OF assms])
  then show ?thesis by (cases "findInList n env lm str i") (auto simp: lookup_spec_def split: option.splits)
qed

text \<open>A manager with a list of one item that is included by a list without items.\<close>

definition demo_manager :: manager where
  "demo_manager = \<lparr>l = [Some (list_container_new\<lparr>morelists := [1], refcount := 1\<rparr>),
     Some (list_container_new\<lparr>lc_ps := phrase_store_new\<lparr>p_items := store_of [''a.com'']\<rparr>, refcount := 1, category := ''ads''\<rparr>)],
     cin = []\<rparr>"

definition demo_env :: lists_env where
  "demo_env = \<lparr>le_net = \<lparr>inet_aton = (\<lambda>_. None), rx = (\<lambda>_ _. False), ipToHostname = (\<lambda>_. [])\<rparr>, le_now = \<lparr>tm_hour = 12, tm_min = 0, tm_wday = 1\<rparr>, le_groups = 3,
     le_fs = (\<lambda>f. if f = ''sites'' then Some \<lparr>f_len = 13, f_date = 7, f_lines = [''#x'', ''B.org'', ''a.c/'']\<rparr> else None)\<rparr>"

lemma demo_nested: "nested (\<lambda>i. 1 - i) demo_manager" "lc_get demo_manager 0 \<noteq> None"
  by (auto simp: nested_def demo_manager_def lc_get_def list_container_new_def less_Suc_eq split: if_splits)

theorem findInList_reaches_witness:
  "\<exists>out. findInList 2 demo_env demo_manager ''a.com'' 0 = Some out
    \<and> (case out of None \<Rightarrow> \<not> (\<exists>x. found_in here_in_list demo_env demo_manager ''a.com'' 0 x)
         | Some x \<Rightarrow> found_in here_in_list demo_env demo_manager ''a.com'' 0 x)"
proof -
  obtain c where "lc_get demo_manager 0 = Some c" using demo_nested(2) by auto
  from findInList_reaches [OF demo_nested(1) this, of 2] show ?thesis by simp
qed

text \<open>C32: taking a reference on a list and giving it up restores the manager, for nested lists.\<close>

theorem ref_deref_roundtrip:
  assumes "nested r lm" and "lc_get lm i \<noteq> None" and "r i < n"
  shows "\<exists>lm'. refList n i lm = Some lm' \<and> deRefList n i lm' = Some lm"
proof -
  let ?v = "visits n lm i"
  have "refList n i lm = Some (add_refs 1 ?v lm)" by (rule refList_walk(1) [OF assms(1,3,2)])
  moreover have "deRefList n i (add_refs 1 ?v lm) = Some (add_refs (- 1) ?v (add_refs 1 ?v lm))"
    using deRefList_walk(1) [of r "add_refs 1 ?v lm" i n] assms by (simp add: lc_get_add_refs)
  ultimately show ?thesis by (simp add: add_refs_inverse)
qed

theorem ref_deref_roundtrip_witness:
  "\<exists>lm'. refList 2 0 demo_manager = Some lm' \<and> deRefList 2 0 lm' = Some demo_manager"
  by (rule ref_deref_roundtrip [OF demo_nested]) simp

text \<open>reading an item list with all it includes never writes past a buffer, and leaves every list
  that was loaded before as it was, up to its reference count.\<close>

theorem newItemList_safe:
  assumes "files_sized env" and "cin lm = []"
  shows "newItemList n env f pwd sw fl par ip ti ma lm \<noteq> R_mem
    \<and> (\<forall>j lm' k c. newItemList n env f pwd sw fl par ip ti ma lm = R_list j lm' \<and> lc_get lm k = Some c
        \<longrightarrow> (\<exists>rc. lc_get lm' k = Some (c\<lparr>refcount := rc\<rparr>)))"
proof -
  have g: "case newItemList n env f pwd sw fl par ip ti ma lm of
        R_list j lm' \<Rightarrow> kept_but {} lm lm' \<and> cin lm' = []
      | R_ok b lm' \<Rightarrow> False | R_mem \<Rightarrow> False | R_hang \<Rightarrow> True | R_deep \<Rightarrow> True"
    using newItemList_good [OF assms(1), of n] assms(2) unfolding new_good_def by blast
  show ?thesis
  proof (intro conjI allI impI)
    show "newItemList n env f pwd sw fl par ip ti ma lm \<noteq> R_mem" using g by (auto split: lm_read.splits)
    fix j lm' k c
    assume a: "newItemList n env f pwd sw fl par ip ti ma lm = R_list j lm' \<and> lc_get lm k = Some c"
    then have "kept_but {} lm lm'" using g by auto
    from keptD [OF this conjunct2 [OF a]] show "\<exists>rc. lc_get lm' k = Some (c\<lparr>refcount := rc\<rparr>)" by blast
  qed
qed

lemma demo_sized: "files_sized demo_env"
  by (auto simp: files_sized_def demo_env_def split: if_splits)

theorem newItemList_safe_witness:
  "newItemList 3 demo_env ''sites'' [] False 1 True False False False demo_manager \<noteq> R_mem"
  using newItemList_safe [OF demo_sized, of demo_manager 3] by (simp add: demo_manager_def)

text \<open>C30: a file of items that is loaded and sorted answers a lookup exactly for the items of its
  lines, tidied as the reader does.\<close>

theorem loaded_list_lookup:
  assumes "le_fs env f = Some fi" and "2 \<le> f_len fi" and "files_sized env" and "\<not> startsWithLower f ''memory:''"
    and "list_all (\<lambda>raw. plain_line (file_line env f pwd fl raw)) (f_lines fi)"
    and "\<And>k c. lc_get lm k = Some c \<Longrightarrow> sourcefile c \<noteq> f"
  shows "\<exists>j lm' lm'' cat. newItemList (Suc n) env f pwd sw fl par False False False lm = R_list (int j) lm'
    \<and> doSort (Suc n) sw j lm' = Some lm''
    \<and> findInList (Suc n) env lm'' str j =
        Some (if str \<in> set (file_items env f pwd fl (f_lines fi)) then Some (str, Some cat) else None)"
proof -
  have "\<exists>j lm' c. newItemList (Suc n) env f pwd sw fl par False False False lm = R_list (int j) lm' \<and> lc_get lm' j = Some c
    \<and> item_container c \<and> store_inv (lc_items c) \<and> item_list (lc_items c) = file_items env f pwd fl (f_lines fi)"
    using assms by (intro load_items) (auto simp: list_all_iff)
  then obtain j lm' c where r: "newItemList (Suc n) env f pwd sw fl par False False False lm = R_list (int j) lm'"
    "lc_get lm' j = Some c" "item_container c" "store_inv (lc_items c)" "item_list (lc_items c) = file_items env f pwd fl (f_lines fi)"
    by blast
  let ?lm = "lc_upd j (sort_here sw) lm'"
  have ic: "\<not> is_iplist c" "\<not> is_map c" "\<not> istimelimited c" "morelists c = []" "\<not> issorted (lc_items c)"
    using r(3) by (simp_all add: item_container_def)
  have so: "doSort (Suc n) sw j lm' = Some ?lm" using doSort_one [OF r(2) ic(4)] .
  have items: "set (item_list (doSort_items sw (lc_items c))) = set (file_items env f pwd fl (f_lines fi))"
    using mset_eq_setD [OF doSort_ok(2) [OF r(4) ic(5), of sw]] r(5) by simp
  have "findInList (Suc n) env ?lm str j =
      Some (map_option (\<lambda>s. (s, Some (category c))) (find_item str (doSort_items sw (lc_items c))))"
    using r(2) ic by (auto simp: findInList_def lc_get_upd sort_here_def lc_isNow_def here_in_list_def with_category_def split: option.splits)
  then have "findInList (Suc n) env ?lm str j =
      Some (if str \<in> set (file_items env f pwd fl (f_lines fi)) then Some (str, Some (category c)) else None)"
    using find_item_exact [OF doSort_searchable [OF r(4) ic(5)], of str sw] items by simp
  with r(1) so show ?thesis by blast
qed

lemma demo_line_kinds: "file_line demo_env ''sites'' [] 1 ''#x'' = L_skip" "file_line demo_env ''sites'' [] 1 ''B.org'' = L_item ''b.org''"
  "file_line demo_env ''sites'' [] 1 ''a.c/'' = L_item ''a.c''"
proof -
  have "\<not> startsWith ''#x'' ''#time: ''" "\<not> startsWith ''#x'' ''#listcategory:''" by code_simp+
  then show "file_line demo_env ''sites'' [] 1 ''#x'' = L_skip" by (simp add: file_line_def line_of_def nul_def)
  have "removeWhiteSpace (strip_comment ''B.org'') = ''B.org''" "\<not> startsWith ''B.org'' ''.Include<''"
    "tidy_item demo_env 1 ''B.org'' = ''b.org''" by code_simp+
  then show "file_line demo_env ''sites'' [] 1 ''B.org'' = L_item ''b.org''" by (simp add: file_line_def line_of_def nul_def)
  have "removeWhiteSpace (strip_comment ''a.c/'') = ''a.c/''" "\<not> startsWith ''a.c/'' ''.Include<''"
    "tidy_item demo_env 1 ''a.c/'' = ''a.c''" by code_simp+
  then show "file_line demo_env ''sites'' [] 1 ''a.c/'' = L_item ''a.c''" by (simp add: file_line_def line_of_def nul_def)
qed

lemma demo_lines: "file_items demo_env ''sites'' [] 1 [''#x'', ''B.org'', ''a.c/''] = [''b.org'', ''a.c'']"
  "list_all (\<lambda>raw. plain_line (file_line demo_env ''sites'' [] 1 raw)) [''#x'', ''B.org'', ''a.c/'']"
  by (simp_all add: file_items_def demo_line_kinds line_items_def plain_line_def)

theorem loaded_list_lookup_witness:
  "\<exists>j lm' lm'' cat. newItemList 1 demo_env ''sites'' [] False 1 True False False False \<lparr>l = [], cin = []\<rparr> = R_list (int j) lm'
    \<and> doSort 1 False j lm' = Some lm'' \<and> findInList 1 demo_env lm'' ''a.c'' j = Some (Some (''a.c'', Some cat))"
  using loaded_list_lookup [of demo_env "''sites''" _ "[]" 1 "\<lparr>l = [], cin = []\<rparr>" 0 False True "''a.c''"] demo_sized demo_lines
  by (simp add: demo_env_def lc_get_def startsWithLower_def)

lemma lookup_nothing:
  assumes "\<And>k d. lc_get lm k = Some d \<Longrightarrow> h env str d = None"
  shows "lookup_lists n h env lm str i \<noteq> Some (Some r)" and "lookup_more n h env lm str is \<noteq> Some (Some r)"
  using assms
proof (induction n h env lm str i and n h env lm str "is" rule: lookup_lists_lookup_more.induct)
  case (2 n h env lm str i)
  show ?case
  proof (cases "lc_get lm i")
    case (Some c)
    moreover have "h env str c = None" using "2.prems" Some by blast
    moreover obtain b where "lc_isNow env (- 1) c = Some b" using isNow_list by blast
    ultimately show ?thesis using "2.IH" "2.prems" by (cases b) auto
  qed simp
qed (auto split: option.splits)

lemma lookup_more_stuck:
  assumes "\<And>k d. lc_get lm k = Some d \<Longrightarrow> h env str d = None" and "i \<in> set is" and "lookup_lists n h env lm str i = None"
  shows "lookup_more n h env lm str is = None"
proof -
  have "lookup_lists n h env lm str j \<noteq> Some (Some r)" for j r using assms(1) by (rule lookup_nothing(1))
  with assms(2,3) show ?thesis by (induction "is") (auto split: option.splits)
qed

text \<open>a list that includes itself is searched without end when the text is in no list.\<close>

theorem self_include_diverges:
  assumes "lc_get lm i = Some c" and "i \<in> set (morelists c)" and "lc_isNow env (- 1) c = Some True"
    and "\<And>k d. lc_get lm k = Some d \<Longrightarrow> here_in_list env str d = None"
  shows "findInList n env lm str i = None"
  unfolding findInList_def
proof (induction n)
  case (Suc n)
  have "lookup_more n here_in_list env lm str (morelists c) = None"
    using assms(2,4) Suc by (intro lookup_more_stuck) auto
  then show ?case using assms by simp
qed simp

definition demo_loop :: manager where
  "demo_loop = \<lparr>l = [Some (list_container_new\<lparr>morelists := [0], refcount := 2\<rparr>)], cin = []\<rparr>"

theorem self_include_diverges_witness: "\<nexists>n. findInList n demo_env demo_loop ''x.com'' 0 \<noteq> None"
proof -
  have "findInList n demo_env demo_loop ''x.com'' 0 = None" for n
    by (rule self_include_diverges [where c = "list_container_new\<lparr>morelists := [0], refcount := 2\<rparr>"])
      (auto simp: demo_loop_def lc_get_def list_container_new_def lc_isNow_def here_in_list_def phrase_store_new_def
        item_store_new_def find_item_def with_category_def split: if_splits)
  then show ?thesis by simp
qed

lemma find_phrase_list_none: "\<forall>c. Some c \<in> set xs \<longrightarrow> \<not> p c \<Longrightarrow> find_phrase_list p k xs = None"
  by (induction p k xs rule: find_phrase_list.induct) auto

text \<open>A phrase list with a limit other than zero is never used again: no list has that limit, as
  the manager never records one, so a new slot is filled each time.\<close>

theorem newPhraseList_never_reuses:
  assumes "nlimit \<noteq> 0" and "\<And>k c. lc_get lm k = Some c \<Longrightarrow> naughtynesslimit c = 0"
  shows "\<exists>i lm' c. newPhraseList n env ex ban wei nlimit lm = Some (i, lm') \<and> lc_get lm i = None
    \<and> lc_get lm' i = Some c \<and> naughtynesslimit c = 0"
proof -
  have "\<forall>c. Some c \<in> set (l lm) \<longrightarrow> \<not> same_phrase_files ex ban wei nlimit env c"
    using assms unfolding same_phrase_files_def lc_get_def in_set_conv_nth by metis
  then have f: "find_phrase_list (same_phrase_files ex ban wei nlimit env) 0 (l lm) = None" by (rule find_phrase_list_none)
  obtain free lm1 where ns: "new_slot lm = (free, lm1)" by (cases "new_slot lm")
  note fr = new_slot_fresh [OF ns]
  show ?thesis using f ns fr(1,2) by (simp add: newPhraseList_def lc_get_upd list_container_new_def)
qed

theorem newPhraseList_never_reuses_witness:
  "\<exists>i lm' c. newPhraseList 1 demo_env ''e'' ''b'' ''w'' 50 demo_manager = Some (i, lm') \<and> lc_get demo_manager i = None
    \<and> lc_get lm' i = Some c \<and> naughtynesslimit c = 0"
  by (rule newPhraseList_never_reuses)
    (auto simp: demo_manager_def lc_get_def list_container_new_def less_Suc_eq split: if_splits)

text \<open>garbage collection removes the lists without references and leaves the others as they are.\<close>

theorem garbageCollect_exact:
  "\<exists>lm'. garbageCollect n lm = Some lm' \<and> cin lm' = cin lm \<and> length (l lm') = length (l lm)
    \<and> lc_get lm' k = (case lc_get lm k of Some c \<Rightarrow> if refcount c < 1 then None else Some c | None \<Rightarrow> None)"
  unfolding garbageCollect_def
  by (subst gc_from_keeps) (auto simp: lc_get_def nth_enumerate_eq split: option.splits)

end
