(* ===== verification/Reg_Exp.thy ===== *)
theory Reg_Exp
  imports E2_String
begin

text \<open>
  Regular expressions (\<^verbatim>\<open>src/src/RegExp.cpp\<close>): compiling an expression, collecting all matches of a
  text with their sub-expressions, and the reading of results out of range.

  The POSIX functions \<^verbatim>\<open>regcomp\<close> and \<^verbatim>\<open>regexec\<close> are parameters: the first gives the number of
  sub-expressions, or fails; the second gives the offsets of the match and of its sub-expressions in
  the text it is called on, -1 where a sub-expression took no part, or fails.

  The lemmas show that collecting the matches ends and that what is reported lies in the text.
\<close>

section \<open>Data\<close>

record regex_lib =
  regcomp :: "string \<Rightarrow> nat option"
  regexec :: "string \<Rightarrow> string \<Rightarrow> bool \<Rightarrow> (int \<times> int) list option"

record reg_result =
  results :: "string list"
  rs_offsets :: "nat list"
  rs_lengths :: "nat list"
  imatched :: bool

definition reg_result_new :: reg_result where
  "reg_result_new = \<lparr>results = [], rs_offsets = [], rs_lengths = [], imatched = False\<rparr>"

record reg_exp =
  searchstring :: string
  wascompiled :: bool

definition reg_exp_new :: reg_exp where
  "reg_exp_new = \<lparr>searchstring = [], wascompiled = False\<rparr>"

definition rs_result :: "reg_result \<Rightarrow> int \<Rightarrow> string" where
  "rs_result rs i = (if i \<ge> int (length (results rs)) \<or> i < 0 then [] else results rs ! nat i)"

definition rs_offset :: "reg_result \<Rightarrow> int \<Rightarrow> nat" where
  "rs_offset rs i = (if i \<ge> int (length (rs_offsets rs)) \<or> i < 0 then 0 else rs_offsets rs ! nat i)"

definition rs_length :: "reg_result \<Rightarrow> int \<Rightarrow> nat" where
  "rs_length rs i = (if i \<ge> int (length (rs_lengths rs)) \<or> i < 0 then 0 else rs_lengths rs ! nat i)"

definition numberOfMatches :: "reg_result \<Rightarrow> int" where
  "numberOfMatches rs = int (length (results rs))"


section \<open>Operations\<close>

definition re_comp :: "regex_lib \<Rightarrow> string \<Rightarrow> reg_exp \<Rightarrow> bool \<times> reg_exp" where
  "re_comp lib exp r =
     (case regcomp lib (cstr exp) of
        None \<Rightarrow> (False, r\<lparr>wascompiled := False\<rparr>)
      | Some nsub \<Rightarrow> (True, r\<lparr>wascompiled := True, searchstring := cstr exp\<rparr>))"

text \<open>The copy constructor compiles the expression again.\<close>

definition re_copy :: "regex_lib \<Rightarrow> reg_exp \<Rightarrow> reg_exp" where
  "re_copy lib r =
     (if wascompiled r \<and> regcomp lib (searchstring r) = None then r\<lparr>wascompiled := False\<rparr> else r)"

text \<open>One match with its sub-expressions is appended to the results; \<open>pos\<close> is where the searched part
  of the text begins.\<close>

fun push_subs :: "string \<Rightarrow> nat \<Rightarrow> (int \<times> int) list \<Rightarrow> reg_result \<Rightarrow> reg_result" where
  "push_subs text pos [] rs = rs"
| "push_subs text pos ((so, eo) # pm) rs =
     (if so \<noteq> - 1 then
        let matchlen = nat (eo - so); off = nat so + pos in
        push_subs text pos pm (rs\<lparr>results := results rs @ [take matchlen (drop off text)],
          rs_offsets := rs_offsets rs @ [off], rs_lengths := rs_lengths rs @ [matchlen]\<rparr>)
      else push_subs text pos pm rs)"

fun largest :: "(int \<times> int) list \<Rightarrow> nat \<Rightarrow> nat" where
  "largest [] lo = lo"
| "largest ((so, eo) # pm) lo =
     (if so \<noteq> - 1 \<and> nat so + nat (eo - so) > lo then largest pm (nat so + nat (eo - so)) else largest pm lo)"

partial_function (option) match_loop :: "regex_lib \<Rightarrow> string \<Rightarrow> nat \<Rightarrow> string \<Rightarrow> nat \<Rightarrow> (int \<times> int) list \<Rightarrow> reg_result
    \<Rightarrow> reg_result option" where
  "match_loop lib pat nsub text pos pm rs =
     (let pm' = take (nsub + 1) pm; rs' = push_subs text pos pm' rs; lo = largest pm' 0 in
      if lo > 0 then
        (case regexec lib pat (drop (pos + lo) text) True of
           None \<Rightarrow> Some rs'
         | Some pm2 \<Rightarrow> match_loop lib pat nsub text (pos + lo) pm2 rs')
      else Some rs')"

text \<open>\<^verbatim>\<open>match\<close>: what it returns and the results; the outer \<open>None\<close> is a loop that does not end.\<close>

definition re_match :: "regex_lib \<Rightarrow> reg_exp \<Rightarrow> string \<Rightarrow> reg_result \<Rightarrow> (bool \<times> reg_result) option" where
  "re_match lib r text rs =
     (let t = cstr text in
      if \<not> wascompiled r then Some (False, rs)
      else if t = [] then Some (False, rs)
      else case regcomp lib (searchstring r) of
        None \<Rightarrow> Some (False, rs)
      | Some re_nsub \<Rightarrow>
          (case regexec lib (searchstring r) t False of
             None \<Rightarrow> Some (False, reg_result_new)
           | Some pm \<Rightarrow>
               (case match_loop lib (searchstring r) (min 1024 re_nsub) t 0 pm reg_result_new of
                  None \<Rightarrow> None
                | Some rs' \<Rightarrow> Some (True, rs'\<lparr>imatched := True\<rparr>))))"


section \<open>Lemmas\<close>

text \<open>What the POSIX functions promise: the match itself took part and every offset lies in the text.\<close>

definition span_ok :: "nat \<Rightarrow> int \<times> int \<Rightarrow> bool" where
  "span_ok n p \<longleftrightarrow> (case p of (so, eo) \<Rightarrow> so = - 1 \<or> 0 \<le> so \<and> so \<le> eo \<and> eo \<le> int n)"

definition regexec_ok :: "regex_lib \<Rightarrow> bool" where
  "regexec_ok lib \<longleftrightarrow> (\<forall>pat t nb pm. regexec lib pat t nb = Some pm \<longrightarrow> list_all (span_ok (length t)) pm)"

definition rs_ok :: "string \<Rightarrow> reg_result \<Rightarrow> bool" where
  "rs_ok tx rs \<longleftrightarrow> length (rs_offsets rs) = length (results rs) \<and> length (rs_lengths rs) = length (results rs)
     \<and> (\<forall>i < length (results rs). rs_offsets rs ! i + rs_lengths rs ! i \<le> length tx
          \<and> results rs ! i = take (rs_lengths rs ! i) (drop (rs_offsets rs ! i) tx))"

lemma rs_ok_new [simp]: "rs_ok tx reg_result_new"
  by (simp add: rs_ok_def reg_result_new_def)

lemma push_subs_ok:
  "rs_ok tx rs \<Longrightarrow> list_all (span_ok (length tx - pos)) pm \<Longrightarrow> pos \<le> length tx \<Longrightarrow> rs_ok tx (push_subs tx pos pm rs)"
proof (induction tx pos pm rs rule: push_subs.induct)
  case (2 tx pos so eo pm rs)
  show ?case
  proof (cases "so = - 1")
    case False
    let ?off = "nat so + pos"
    let ?rs = "rs\<lparr>results := results rs @ [take (nat (eo - so)) (drop ?off tx)], rs_offsets := rs_offsets rs @ [?off],
      rs_lengths := rs_lengths rs @ [nat (eo - so)]\<rparr>"
    have "?off + nat (eo - so) \<le> length tx" using "2.prems"(2,3) False by (auto simp: span_ok_def)
    then have "rs_ok tx ?rs" using "2.prems"(1) by (auto simp: rs_ok_def nth_append less_Suc_eq)
    then show ?thesis using "2.IH"(1) [OF False refl refl] "2.prems" False by (simp add: Let_def)
  qed (use 2 in simp)
qed simp

lemma largest_bound: "list_all (span_ok n) pm \<Longrightarrow> lo \<le> n \<Longrightarrow> largest pm lo \<le> n"
  by (induction pm lo rule: largest.induct) (auto simp: span_ok_def)

lemma match_loop_ok:
  assumes "regexec_ok lib" and "pos \<le> length tx" and "list_all (span_ok (length tx - pos)) pm" and "rs_ok tx rs"
  shows "\<exists>rs'. match_loop lib pat nsub tx pos pm rs = Some rs' \<and> rs_ok tx rs'"
  using assms(2-4)
proof (induction "length tx - pos" arbitrary: pos pm rs rule: less_induct)
  case less
  define pm1 where "pm1 = take (nsub + 1) pm"
  define lo where "lo = largest pm1 0"
  define rs1 where "rs1 = push_subs tx pos pm1 rs"
  have pm1: "list_all (span_ok (length tx - pos)) pm1"
    using less.prems(2) by (auto simp: pm1_def list_all_iff dest: in_set_takeD)
  have rs1: "rs_ok tx rs1" unfolding rs1_def using push_subs_ok [OF less.prems(3) pm1 less.prems(1)] .
  have lo: "lo \<le> length tx - pos" unfolding lo_def using largest_bound [OF pm1] by simp
  have eq: "match_loop lib pat nsub tx pos pm rs = (if lo > 0 then
        (case regexec lib pat (drop (pos + lo) tx) True of None \<Rightarrow> Some rs1
         | Some pm2 \<Rightarrow> match_loop lib pat nsub tx (pos + lo) pm2 rs1) else Some rs1)"
    unfolding pm1_def lo_def rs1_def by (subst match_loop.simps) (simp only: Let_def)
  show ?case
  proof (cases "lo > 0")
    case True
    show ?thesis
    proof (cases "regexec lib pat (drop (pos + lo) tx) True")
      case (Some pm2)
      have "list_all (span_ok (length tx - (pos + lo))) pm2"
        using assms(1) Some unfolding regexec_ok_def by (metis length_drop)
      from less.hyps [OF _ _ this rs1] True lo less.prems(1) Some eq show ?thesis by simp
    qed (use eq rs1 True in simp)
  qed (use eq rs1 in simp)
qed


section \<open>Properties\<close>

text \<open>with a regular expression library that reports offsets in the text it was given, matching
  ends, and every reported match and sub-match is the part of the text at its offset.\<close>

theorem re_match_spans:
  assumes "regexec_ok lib"
  shows "\<exists>b rs. re_match lib r tx reg_result_new = Some (b, rs) \<and> rs_ok (cstr tx) rs"
proof -
  have "list_all (span_ok (length (cstr tx) - 0)) pm" if "regexec lib (searchstring r) (cstr tx) False = Some pm" for pm
    using assms that unfolding regexec_ok_def by fastforce
  then have "\<exists>rs'. match_loop lib (searchstring r) k (cstr tx) 0 pm reg_result_new = Some rs' \<and> rs_ok (cstr tx) rs'"
    if "regexec lib (searchstring r) (cstr tx) False = Some pm" for pm k
    using that by (intro match_loop_ok [OF assms]) auto
  note loop = this
  show ?thesis
  proof (cases "\<not> wascompiled r \<or> cstr tx = [] \<or> regcomp lib (searchstring r) = None
      \<or> regexec lib (searchstring r) (cstr tx) False = None")
    case True
    then show ?thesis by (auto simp: re_match_def Let_def split: option.splits)
  next
    case False
    then obtain n pm where p: "regcomp lib (searchstring r) = Some n" "regexec lib (searchstring r) (cstr tx) False = Some pm" by auto
    from loop [OF p(2), of "min 1024 n"] obtain rs' where
      "match_loop lib (searchstring r) (min 1024 n) (cstr tx) 0 pm reg_result_new = Some rs'" "rs_ok (cstr tx) rs'" by blast
    with p False show ?thesis by (auto simp: re_match_def Let_def rs_ok_def)
  qed
qed

text \<open>A library that knows the single expression \<open>a\<close>.\<close>

definition lib_a :: regex_lib where
  "lib_a = \<lparr>regcomp = (\<lambda>p. if p = ''a'' then Some 0 else None),
     regexec = (\<lambda>p t nb. case find_sub ''a'' t of None \<Rightarrow> None | Some i \<Rightarrow> Some [(int i, int i + 1)])\<rparr>"

lemma lib_a_ok: "regexec_ok lib_a"
  using find_sub_Some_le by (fastforce simp: regexec_ok_def lib_a_def span_ok_def split: option.splits)

theorem re_match_spans_witness:
  "\<exists>b rs. re_match lib_a \<lparr>searchstring = ''a'', wascompiled = True\<rparr> ''banana'' reg_result_new = Some (b, rs)
     \<and> rs_ok (cstr ''banana'') rs"
  by (rule re_match_spans [OF lib_a_ok])

end
