(* ===== verification/List_Meta.thy ===== *)
theory List_Meta
  imports List_Manager Reg_Exp
begin

text \<open>
  The named lists of a filter group (\<^verbatim>\<open>src/src/ListMeta.cpp\<close>): loading the lists that a
  configuration names, the tests whether a site, URL, search term, header or client is in a list, and
  the replacement of text by regular expressions.

  The lists themselves are in the manager of \<^verbatim>\<open>List_Manager\<close>, by index. Fuel bounds the nesting of
  included lists; \<open>None\<close> is a lookup that does not end or leaves its bounds.

  The lemmas show which forms of a site or a URL are looked up, and that lists are found by name and
  type after loading.
\<close>

section \<open>Data\<close>

record list_info =
  li_name :: string
  li_pwd :: string
  li_type :: nat
  li_method_type :: nat
  li_list_ref :: nat
  li_comp :: "reg_exp list"
  li_source :: "string list"
  li_replace :: "string list"
  li_reg_list_ref :: "nat list"
  li_mess_no :: int
  li_log_mess_no :: int
  li_anon_log :: bool
  li_site_wild :: bool
  li_used :: bool

definition list_info_new :: list_info where
  "list_info_new = \<lparr>li_name = [], li_pwd = [], li_type = 0, li_method_type = 0, li_list_ref = 0, li_comp = [],
     li_source = [], li_replace = [], li_reg_list_ref = [], li_mess_no = 0, li_log_mess_no = 0,
     li_anon_log = False, li_site_wild = False, li_used = False\<rparr>"

record list_result =
  res_match :: string
  res_category :: string
  res_result :: string
  res_mess_no :: int
  res_log_mess_no :: int
  res_anon_log :: bool

definition list_result_new :: list_result where
  "list_result_new = \<lparr>res_match = [], res_category = [], res_result = [], res_mess_no = 0, res_log_mess_no = 0,
     res_anon_log = False\<rparr>"

text \<open>The types of lists, as the code numbers them.\<close>

abbreviation (input) LIST_TYPE_IP :: nat where "LIST_TYPE_IP \<equiv> 1"
abbreviation (input) LIST_TYPE_SITE :: nat where "LIST_TYPE_SITE \<equiv> 2"
abbreviation (input) LIST_TYPE_IPSITE :: nat where "LIST_TYPE_IPSITE \<equiv> 3"
abbreviation (input) LIST_TYPE_URL :: nat where "LIST_TYPE_URL \<equiv> 4"
abbreviation (input) LIST_TYPE_SEARCH :: nat where "LIST_TYPE_SEARCH \<equiv> 5"
abbreviation (input) LIST_TYPE_REGEXP_BOOL :: nat where "LIST_TYPE_REGEXP_BOOL \<equiv> 6"
abbreviation (input) LIST_TYPE_REGEXP_REP :: nat where "LIST_TYPE_REGEXP_REP \<equiv> 7"
abbreviation (input) LIST_TYPE_MIME :: nat where "LIST_TYPE_MIME \<equiv> 11"
abbreviation (input) LIST_TYPE_FILE_EXT :: nat where "LIST_TYPE_FILE_EXT \<equiv> 12"
abbreviation (input) LIST_TYPE_TIME :: nat where "LIST_TYPE_TIME \<equiv> 13"
abbreviation (input) LIST_TYPE_MAP :: nat where "LIST_TYPE_MAP \<equiv> 14"
abbreviation (input) LIST_TYPE_IPMAP :: nat where "LIST_TYPE_IPMAP \<equiv> 15"

definition type_map :: "string list" where
  "type_map = [[], ''iplist'', ''sitelist'', ''ipsitelist'', ''urllist'', ''searchlist'', ''regexpboollist'',
     ''regexpreplacelist'', ''phrasebannedlist'', ''phraseweightedlist'', ''phraseexceptionlist'', ''mimelist'',
     ''fileextlist'', ''timelist'', ''maplist'', ''ipmaplist'', ''unknown list'']"

definition list_type :: "int \<Rightarrow> string" where
  "list_type type = type_map ! nat (if type > 16 \<or> type < 0 then 16 else type)"

text \<open>The outside of the lists: the options the class reads and the libraries.\<close>

record meta_env =
  me_lists :: lists_env
  me_rx :: regex_lib
  me_anonymise_logs :: bool
  me_abort_on_missing_list :: bool


section \<open>Finding a list by name and type\<close>

definition findListPtr :: "string \<Rightarrow> nat \<Rightarrow> list_info list \<Rightarrow> nat option" where
  "findListPtr name tp lv =
     (let i = length (takeWhile (\<lambda>x. \<not> (li_name x = name \<and> li_type x = tp)) lv)
      in if i < length lv then Some i else None)"

definition findList :: "string \<Rightarrow> nat \<Rightarrow> list_info list \<Rightarrow> list_info" where
  "findList name tp lv = (case findListPtr name tp lv of Some i \<Rightarrow> lv ! i | None \<Rightarrow> list_info_new)"

definition findListId :: "string \<Rightarrow> nat \<Rightarrow> list_info list \<Rightarrow> nat" where
  "findListId name tp lv = li_list_ref (findList name tp lv)"

definition list_exists :: "string \<Rightarrow> nat \<Rightarrow> list_info list \<Rightarrow> bool" where
  "list_exists name tp lv = (li_name (findList name tp lv) \<noteq> [])"


section \<open>Sites, URLs and search terms\<close>

text \<open>A lookup by the manager: the result and the new \<^verbatim>\<open>lastcategory\<close>.\<close>

type_synonym found = "(string option \<times> string) option"

definition in_manager :: "(string \<times> string option) option option \<Rightarrow> string \<Rightarrow> found" where
  "in_manager r lastcategory =
     (case r of
        None \<Rightarrow> None
      | Some None \<Rightarrow> Some (None, lastcategory)
      | Some (Some (s, cat)) \<Rightarrow> Some (Some s, case cat of None \<Rightarrow> lastcategory | Some c \<Rightarrow> c))"

definition lm_findInList :: "nat \<Rightarrow> lists_env \<Rightarrow> manager \<Rightarrow> nat \<Rightarrow> string \<Rightarrow> string \<Rightarrow> found" where
  "lm_findInList n env lm list str lc = in_manager (findInList n env lm (cstr str) list) lc"

definition lm_findStartsWith :: "nat \<Rightarrow> lists_env \<Rightarrow> manager \<Rightarrow> nat \<Rightarrow> string \<Rightarrow> string \<Rightarrow> found" where
  "lm_findStartsWith n env lm list str lc = in_manager (findStartsWith n env lm (cstr str) list) lc"

definition lm_findEndsWith :: "nat \<Rightarrow> lists_env \<Rightarrow> manager \<Rightarrow> nat \<Rightarrow> string \<Rightarrow> string \<Rightarrow> found" where
  "lm_findEndsWith n env lm list str lc = in_manager (findEndsWith n env lm (cstr str) list) lc"

text \<open>The loop of \<^verbatim>\<open>inSiteList\<close>: the text that is left when nothing was found.\<close>

function site_loop :: "(string \<Rightarrow> string \<Rightarrow> found) \<Rightarrow> string \<Rightarrow> string \<Rightarrow> (string option \<times> string \<times> string) option" where
  "site_loop look url lc =
     (if contains url ''.'' then
        (case look url lc of
           None \<Rightarrow> None
         | Some (Some s, lc') \<Rightarrow> Some (Some s, url, lc')
         | Some (None, lc') \<Rightarrow> site_loop look (after url ''.'') lc')
      else Some (None, url, lc))"
  by pat_completeness auto
termination
proof (relation "measure (\<lambda>(f, u, c). length u)", goal_cases)
  case (2 look url lc)
  then have "url \<noteq> []" by (auto simp: contains_def)
  with length_after_less [of "''.''" url] show ?case by simp
qed simp

declare site_loop.simps [simp del]

definition inSiteList :: "nat \<Rightarrow> lists_env \<Rightarrow> manager \<Rightarrow> string \<Rightarrow> nat \<Rightarrow> string \<Rightarrow> bool \<Rightarrow> found" where
  "inSiteList n env lm urlp list lastcategory site_wild =
     (case (if site_wild then site_loop (lm_findInList n env lm list) urlp lastcategory
            else Some (None, urlp, lastcategory)) of
        None \<Rightarrow> None
      | Some (Some s, url, lc) \<Rightarrow> Some (Some s, lc)
      | Some (None, url, lc) \<Rightarrow>
          let url1 = (if \<not> contains url ''.'' \<and> length url > 1 then ''.'' @ url else url)
          in if length url1 > 2 then lm_findInList n env lm list url1 lc else Some (None, lc))"

text \<open>The expression that hosts with a letter match, and the test for an address in place of a host name;
  \<open>None\<close> is a match that does not end.\<close>

definition precompileregexps :: "regex_lib \<Rightarrow> reg_exp \<Rightarrow> bool \<times> reg_exp" where
  "precompileregexps lib isiphost = re_comp lib ''.*[a-z|A-Z].*'' isiphost"

definition isIPHostname :: "regex_lib \<Rightarrow> reg_exp \<Rightarrow> string \<Rightarrow> bool option" where
  "isIPHostname lib isiphost url = map_option (\<lambda>(b, rs). \<not> b) (re_match lib isiphost url reg_result_new)"

definition inSearchList :: "nat \<Rightarrow> lists_env \<Rightarrow> manager \<Rightarrow> string \<Rightarrow> nat \<Rightarrow> string \<Rightarrow> found" where
  "inSearchList n env lm words list lastcategory = lm_findInList n env lm list words lastcategory"

text \<open>The path of a URL is decoded and resolved, and one trailing slash removed.\<close>

definition normal_url :: "string \<Rightarrow> string" where
  "normal_url url =
     (let u = (if contains url ''/'' then before url ''/'' @ realPath (hexDecode (''/'' @ after url ''/'')) else url)
      in if endsWith u ''/'' then chop u else u)"

function url_loop :: "(string \<Rightarrow> string \<Rightarrow> found) \<Rightarrow> bool \<Rightarrow> string \<Rightarrow> string \<Rightarrow> found" where
  "url_loop look site_wild url lc =
     (if contains (before url ''/'') ''.'' then
        (case look url lc of
           None \<Rightarrow> None
         | Some (r, lc') \<Rightarrow>
             (case r of
                Some foundurl \<Rightarrow>
                  let fl = length foundurl in
                  if length url > fl then
                    (if url ! fl \<in> {CHR ''/'', CHR ''?'', CHR ''&'', CHR ''=''} then Some (Some foundurl, lc')
                     else if \<not> site_wild then Some (None, lc') else url_loop look site_wild (after url ''.'') lc')
                  else Some (Some foundurl, lc')
              | None \<Rightarrow> if \<not> site_wild then Some (None, lc') else url_loop look site_wild (after url ''.'') lc'))
      else Some (None, lc))"
  by pat_completeness auto
termination
proof -
  have ne: "url \<noteq> []" if "contains (before url ''/'') ''.''" for url
    using that by (auto simp: contains_def before_def)
  show ?thesis
    by (relation "measure (\<lambda>(f, w, u, c). length u)") (use ne length_after_less in auto)
qed

declare url_loop.simps [simp del]

definition inURLList :: "nat \<Rightarrow> lists_env \<Rightarrow> manager \<Rightarrow> string \<Rightarrow> nat \<Rightarrow> string \<Rightarrow> bool \<Rightarrow> found" where
  "inURLList n env lm urlp list lc site_wild = url_loop (lm_findStartsWith n env lm list) site_wild (normal_url urlp) lc"


section \<open>Regular expressions\<close>

text \<open>\<^verbatim>\<open>isNow\<close> of a list of the manager.\<close>

definition lm_isNow :: "lists_env \<Rightarrow> manager \<Rightarrow> nat \<Rightarrow> bool option" where
  "lm_isNow env lm i = (case lc_get lm i of None \<Rightarrow> None | Some c \<Rightarrow> lc_isNow env (- 1) c)"

fun regexp_url_loop :: "meta_env \<Rightarrow> manager \<Rightarrow> string \<Rightarrow> reg_exp list \<Rightarrow> nat list \<Rightarrow> nat \<Rightarrow> int option" where
  "regexp_url_loop me lm url [] refs i = Some (- 1)"
| "regexp_url_loop me lm url (r # rs) refs i =
     (if i \<ge> length refs then None
      else case lm_isNow (me_lists me) lm (refs ! i) of
        None \<Rightarrow> None
      | Some True \<Rightarrow>
          (case re_match (me_rx me) r url reg_result_new of
             None \<Rightarrow> None
           | Some (True, rr) \<Rightarrow> Some (int i)
           | Some (False, rr) \<Rightarrow> regexp_url_loop me lm url rs refs (Suc i))
      | Some False \<Rightarrow> regexp_url_loop me lm url rs refs (Suc i))"

definition inRegExpURLList :: "meta_env \<Rightarrow> manager \<Rightarrow> string \<Rightarrow> reg_exp list \<Rightarrow> nat list \<Rightarrow> nat \<Rightarrow> int option" where
  "inRegExpURLList me lm urlin list_comp list_ref list =
     (case lm_isNow (me_lists me) lm list of
        None \<Rightarrow> None
      | Some False \<Rightarrow> Some (- 1)
      | Some True \<Rightarrow>
          let url = normal_url (removePTP (toLower (removeWhiteSpace urlin)))
          in regexp_url_loop me lm url list_comp list_ref 0)"

text \<open>The number of sub-matches that lie inside the match at \<open>j\<close>.\<close>

function submatches_from :: "reg_result \<Rightarrow> nat \<Rightarrow> nat \<Rightarrow> nat \<Rightarrow> nat \<Rightarrow> nat" where
  "submatches_from rr matches j en s =
     (if j + s + 1 < matches then
        if rs_offset rr (int (j + s + 1)) + rs_length rr (int (j + s + 1)) > en then s
        else submatches_from rr matches j en (Suc s)
      else s)"
  by pat_completeness auto
termination by (relation "measure (\<lambda>(rr, m, j, e, s). m - (j + s))") auto

declare submatches_from.simps [simp del]

text \<open>Filling in a replacement: references to sub-matches, escaped signs, and other text.\<close>

definition is_ref_digit :: "char \<Rightarrow> bool" where
  "is_ref_digit c = (CHR ''1'' \<le> c \<and> c \<le> CHR ''9'')"

fun fill_replacement :: "reg_result \<Rightarrow> nat \<Rightarrow> nat \<Rightarrow> string \<Rightarrow> string" where
  "fill_replacement rr j submatches [] = []"
| "fill_replacement rr j submatches [c] = [c]"
| "fill_replacement rr j submatches (c # d # cs) =
     (if (c = CHR 0x5C \<or> c = CHR ''$'') \<and> is_ref_digit d then
        let m = of_char d - 48 in
        (if m \<le> submatches then cstr (rs_result rr (int (j + m))) else []) @ fill_replacement rr j submatches cs
      else if c = CHR 0x5C \<and> (d = CHR 0x5C \<or> d = CHR ''$'') then d # fill_replacement rr j submatches cs
      else c # fill_replacement rr j submatches (d # cs))"

text \<open>The loop over the matches of one expression: the new line so far and the offset behind the last
  match.\<close>

function replace_loop :: "string \<Rightarrow> string \<Rightarrow> reg_result \<Rightarrow> nat \<Rightarrow> nat \<Rightarrow> string \<Rightarrow> nat \<Rightarrow> string \<times> nat" where
  "replace_loop line repstr rr matches j newLine srcoff =
     (if j < matches then
        let nextoffset = rs_offset rr (int j); matchlen = rs_length rr (int j);
            nl1 = (if nextoffset > srcoff then newLine @ take (nextoffset - srcoff) (drop srcoff line) else newLine);
            so1 = (if nextoffset > srcoff then nextoffset else srcoff);
            subs = submatches_from rr matches j (so1 + matchlen) 0
        in replace_loop line repstr rr matches (j + subs + 1)
             (nl1 @ fill_replacement rr j subs repstr) (so1 + matchlen)
      else (newLine, srcoff))"
  by pat_completeness auto
termination by (relation "measure (\<lambda>(l, r, rr, m, j, n, s). m - j)") auto

declare replace_loop.simps [simp del]

definition replace_line :: "string \<Rightarrow> string \<Rightarrow> reg_result \<Rightarrow> string" where
  "replace_line line repstr rr =
     (let (newLine, srcoff) = replace_loop line repstr rr (nat (numberOfMatches rr)) 0 [] 0
      in if srcoff < length line then newLine @ drop srcoff line else newLine)"

fun regExp_loop :: "regex_lib \<Rightarrow> string \<Rightarrow> reg_exp list \<Rightarrow> string list \<Rightarrow> bool \<Rightarrow> (bool \<times> string) option" where
  "regExp_loop lib line [] reps modified = Some (modified, line)"
| "regExp_loop lib line (r # rs) reps modified =
     (case re_match lib r line reg_result_new of
        None \<Rightarrow> None
      | Some (False, rr) \<Rightarrow> regExp_loop lib line rs (drop 1 reps) modified
      | Some (True, rr) \<Rightarrow>
          (case reps of
             [] \<Rightarrow> None
           | rep # reps' \<Rightarrow> regExp_loop lib (replace_line line rep rr) rs reps' True))"

text \<open>\<^verbatim>\<open>regExp\<close>: whether the line was changed, and the line.\<close>

definition regExp :: "regex_lib \<Rightarrow> string \<Rightarrow> reg_exp list \<Rightarrow> string list \<Rightarrow> (bool \<times> string) option" where
  "regExp lib line regexp_list replacement_list =
     (if length line < 3 then Some (False, line) else regExp_loop lib line regexp_list replacement_list False)"

definition cr :: string where
  "cr = [CHR 0x0D]"

text \<open>One header line without its carriage return, which is put back afterwards.\<close>

definition without_cr :: "string \<Rightarrow> string" where
  "without_cr h = (if endsWith h cr then chop h else h)"

fun headerRegExpReplace_loop :: "regex_lib \<Rightarrow> list_info \<Rightarrow> string list \<Rightarrow> (bool \<times> string list) option" where
  "headerRegExpReplace_loop lib li [] = Some (False, [])"
| "headerRegExpReplace_loop lib li (h # hs) =
     (case regExp lib (without_cr h) (li_comp li) (li_replace li) of
        None \<Rightarrow> None
      | Some (b, h') \<Rightarrow>
          (case headerRegExpReplace_loop lib li hs of
             None \<Rightarrow> None
           | Some (b', hs') \<Rightarrow> Some (b \<or> b', (if endsWith h cr then h' @ cr else h') # hs')))"

definition headerRegExpReplace :: "regex_lib \<Rightarrow> list_info \<Rightarrow> string list \<Rightarrow> (bool \<times> string list) option" where
  "headerRegExpReplace lib li header =
     (if li_comp li = [] then Some (False, header) else headerRegExpReplace_loop lib li header)"

text \<open>\<^verbatim>\<open>inHeaderRegExp\<close> returns \<^verbatim>\<open>false\<close>, which is the index 0, when the list is empty.\<close>

fun inHeaderRegExp_loop :: "meta_env \<Rightarrow> manager \<Rightarrow> list_info \<Rightarrow> string list \<Rightarrow> int option" where
  "inHeaderRegExp_loop me lm li [] = Some (- 1)"
| "inHeaderRegExp_loop me lm li (h # hs) =
     (case inRegExpURLList me lm (without_cr h) (li_comp li) (li_reg_list_ref li) (li_list_ref li) of
        None \<Rightarrow> None
      | Some r \<Rightarrow> if r > - 1 then Some r else inHeaderRegExp_loop me lm li hs)"

definition inHeaderRegExp :: "meta_env \<Rightarrow> manager \<Rightarrow> list_info \<Rightarrow> string list \<Rightarrow> int option" where
  "inHeaderRegExp me lm li header =
     (if li_comp li = [] then Some 0 else inHeaderRegExp_loop me lm li header)"


section \<open>Membership\<close>

text \<open>The message numbers and the log flag of a list go into the result of a match.\<close>

definition set_info :: "list_info \<Rightarrow> list_result \<Rightarrow> list_result" where
  "set_info li res = res\<lparr>res_mess_no := li_mess_no li, res_log_mess_no := li_log_mess_no li, res_anon_log := li_anon_log li\<rparr>"

text \<open>The cases in which a match of the list is reported as the match, or as the result for maps.\<close>

definition by_match :: "list_info \<Rightarrow> list_result \<Rightarrow> found \<Rightarrow> (bool \<times> list_result) option" where
  "by_match li res f =
     (case f of
        None \<Rightarrow> None
      | Some (None, lc) \<Rightarrow> Some (False, res\<lparr>res_category := lc\<rparr>)
      | Some (Some m, lc) \<Rightarrow> Some (True, set_info li (res\<lparr>res_category := lc, res_match := m\<rparr>)))"

definition by_map :: "list_info \<Rightarrow> list_result \<Rightarrow> found \<Rightarrow> (bool \<times> list_result) option" where
  "by_map li res f =
     (case f of
        None \<Rightarrow> None
      | Some (None, lc) \<Rightarrow> Some (False, res\<lparr>res_category := lc\<rparr>)
      | Some (Some m, lc) \<Rightarrow> Some (True, set_info li (res\<lparr>res_category := lc, res_result := m\<rparr>)))"

text \<open>A match of the expression with index \<open>rc\<close>: the category of its list and its source; \<open>None\<close> is
  an index out of range.\<close>

definition by_regexp :: "manager \<Rightarrow> list_info \<Rightarrow> list_result \<Rightarrow> int option \<Rightarrow> (bool \<times> list_result) option" where
  "by_regexp lm li res rc =
     (case rc of
        None \<Rightarrow> None
      | Some i \<Rightarrow>
          if i = - 1 then Some (False, res)
          else if nat i < length (li_reg_list_ref li) \<and> nat i < length (li_source li) then
            (case lc_get lm (li_reg_list_ref li ! nat i) of
               None \<Rightarrow> None
             | Some c \<Rightarrow> Some (True, set_info li (res\<lparr>res_category := category c, res_match := li_source li ! nat i\<rparr>)))
          else None)"

definition inList :: "nat \<Rightarrow> meta_env \<Rightarrow> manager \<Rightarrow> list_info \<Rightarrow> string \<Rightarrow> list_result \<Rightarrow> (bool \<times> list_result) option" where
  "inList n me lm li tofind res =
     (let env = me_lists me; t = li_type li; ref = li_list_ref li; lc = res_category res in
      if li_name li = [] then Some (False, res)
      else if t = LIST_TYPE_IP \<or> t = LIST_TYPE_IPSITE \<or> t = LIST_TYPE_MIME
      then by_match li res (lm_findInList n env lm ref tofind lc)
      else if t = LIST_TYPE_IPMAP \<or> t = LIST_TYPE_MAP then by_map li res (lm_findInList n env lm ref tofind lc)
      else if t = LIST_TYPE_TIME then
        (case lc_get lm ref of
           None \<Rightarrow> None
         | Some c \<Rightarrow> if isNowInTimelist (le_now env) (timelist c) then Some (True, set_info li res) else Some (False, res))
      else if t = LIST_TYPE_SITE then by_match li res (inSiteList n env lm tofind ref lc (li_site_wild li))
      else if t = LIST_TYPE_URL then by_match li res (inURLList n env lm tofind ref lc (li_site_wild li))
      else if t = LIST_TYPE_SEARCH then by_match li res (inSearchList n env lm tofind ref lc)
      else if t = LIST_TYPE_FILE_EXT then by_match li res (lm_findEndsWith n env lm ref tofind lc)
      else if t = LIST_TYPE_REGEXP_BOOL
      then by_regexp lm li res (inRegExpURLList me lm tofind (li_comp li) (li_reg_list_ref li) ref)
      else if t = LIST_TYPE_REGEXP_REP then
        (if li_comp li = [] then Some (False, res)
         else case regExp (me_rx me) tofind (li_comp li) (li_replace li) of
                None \<Rightarrow> None
              | Some (False, line) \<Rightarrow> Some (False, res)
              | Some (True, line) \<Rightarrow> Some (True, set_info li (res\<lparr>res_result := line\<rparr>)))
      else Some (False, res))"

text \<open>The test of a whole header, which replacement changes.\<close>

definition inList_header :: "meta_env \<Rightarrow> manager \<Rightarrow> list_info \<Rightarrow> string list \<Rightarrow> list_result \<Rightarrow> (bool \<times> string list \<times> list_result) option" where
  "inList_header me lm li header res =
     (if li_name li = [] then Some (False, header, res)
      else if li_type li = LIST_TYPE_REGEXP_BOOL then
        map_option (\<lambda>(b, r). (b, header, r)) (by_regexp lm li res (inHeaderRegExp me lm li header))
      else if li_type li = LIST_TYPE_REGEXP_REP then
        (if li_comp li = [] then Some (False, header, res)
         else case headerRegExpReplace (me_rx me) li header of
                None \<Rightarrow> None
              | Some (False, header') \<Rightarrow> Some (False, header', res)
              | Some (True, header') \<Rightarrow> Some (True, header', set_info li res))
      else Some (False, header, res))"

definition inList_named :: "nat \<Rightarrow> meta_env \<Rightarrow> manager \<Rightarrow> list_info list \<Rightarrow> string \<Rightarrow> nat \<Rightarrow> string \<Rightarrow> list_result
    \<Rightarrow> (bool \<times> list_result) option" where
  "inList_named n me lm lv name type tofind res = inList n me lm (findList name type lv) tofind res"


section \<open>Loading\<close>

text \<open>\<^verbatim>\<open>readFile\<close>: what it returns, the list and the manager.\<close>

definition meta_readFile :: "nat \<Rightarrow> lists_env \<Rightarrow> string \<Rightarrow> string \<Rightarrow> bool \<Rightarrow> bool \<Rightarrow> bool \<Rightarrow> bool \<Rightarrow> manager \<Rightarrow> (bool \<times> nat \<times> manager) option" where
  "meta_readFile n env filename pwd sortsw isip istime ismap lm =
     (if length filename < 3 then Some (False, 0, lm)
      else case newItemList n env filename pwd sortsw 1 True isip istime ismap lm of
        R_list res lm1 \<Rightarrow>
          if res < 0 then Some (False, 0, lm1)
          else (case lc_get lm1 (nat res) of
             None \<Rightarrow> None
           | Some c \<Rightarrow>
               if lc_used c then Some (True, nat res, lm1)
               else case (if istime then Some lm1 else doSort n sortsw (nat res) lm1) of
                      None \<Rightarrow> None
                    | Some lm2 \<Rightarrow> Some (True, nat res, lc_upd (nat res) (\<lambda>c. c\<lparr>lc_used := True\<rparr>) lm2))
      | _ \<Rightarrow> None)"

text \<open>The compiled expressions of a list: the expressions, their sources and their lists.\<close>

record compiled =
  c_comp :: "reg_exp list"
  c_source :: "string list"
  c_ref :: "nat list"

fun compile_items :: "regex_lib \<Rightarrow> nat \<Rightarrow> string list \<Rightarrow> reg_exp \<Rightarrow> compiled \<Rightarrow> bool \<times> compiled" where
  "compile_items lib list [] r acc = (True, acc)"
| "compile_items lib list (x # xs) r acc =
     (let source = cstr x; (rv, r') = re_comp lib source r in
      if \<not> rv then (False, acc)
      else compile_items lib list xs r' (acc\<lparr>c_comp := c_comp acc @ [re_copy lib r'],
             c_source := c_source acc @ [source], c_ref := c_ref acc @ [list]\<rparr>))"

definition getItems :: "item_store \<Rightarrow> string list" where
  "getItems s = map (\<lambda>i. getItemAtInt i s) [0..<items s]"

fun compileRegExMatchFile :: "nat \<Rightarrow> regex_lib \<Rightarrow> nat \<Rightarrow> compiled \<Rightarrow> manager \<Rightarrow> (bool \<times> compiled \<times> manager) option"
  and compile_more :: "nat \<Rightarrow> regex_lib \<Rightarrow> nat list \<Rightarrow> compiled \<Rightarrow> manager \<Rightarrow> (bool \<times> compiled \<times> manager) option" where
  "compileRegExMatchFile 0 lib list acc lm = None"
| "compileRegExMatchFile (Suc n) lib list acc lm =
     (case lc_get lm list of
        None \<Rightarrow> None
      | Some c \<Rightarrow>
          (case compile_more n lib (morelists c) acc lm of
             None \<Rightarrow> None
           | Some (False, acc1, lm1) \<Rightarrow> Some (False, acc1, lm1)
           | Some (True, acc1, lm1) \<Rightarrow>
               (case compile_items lib list (getItems (lc_items c)) reg_exp_new acc1 of
                  (False, acc2) \<Rightarrow> Some (False, acc2, lm1)
                | (True, acc2) \<Rightarrow> Some (True, acc2, lc_upd list (\<lambda>c. c\<lparr>lc_used := True\<rparr>) lm1))))"
| "compile_more n lib [] acc lm = Some (True, acc, lm)"
| "compile_more n lib (j # js) acc lm =
     (case compileRegExMatchFile n lib j acc lm of
        None \<Rightarrow> None
      | Some (False, acc1, lm1) \<Rightarrow> Some (False, acc1, lm1)
      | Some (True, acc1, lm1) \<Rightarrow> compile_more n lib js acc1 lm1)"

definition readRegExMatchFile :: "nat \<Rightarrow> meta_env \<Rightarrow> string \<Rightarrow> string \<Rightarrow> manager \<Rightarrow> (bool \<times> nat \<times> compiled \<times> manager) option" where
  "readRegExMatchFile n me filename list_pwd lm =
     (case newItemList n (me_lists me) filename list_pwd True 32 True False False False lm of
        R_list res lm1 \<Rightarrow>
          if res < 0 then Some (False, 0, \<lparr>c_comp = [], c_source = [], c_ref = []\<rparr>, lm1)
          else (case compileRegExMatchFile n (me_rx me) (nat res) \<lparr>c_comp = [], c_source = [], c_ref = []\<rparr> lm1 of
             None \<Rightarrow> None
           | Some (b, acc, lm2) \<Rightarrow> Some (b, nat res, acc, lm2))
      | _ \<Rightarrow> None)"

text \<open>The two parts of a line \<open>"expression"->"replacement"\<close>.\<close>

definition rep_arrow :: string where
  "rep_arrow = [CHR 0x22, CHR ''-'', CHR ''>'', CHR 0x22]"

function chop_to_quote :: "string \<Rightarrow> string" where
  "chop_to_quote s = (if endsWith s [CHR 0x22] \<or> length s < 2 then s else chop_to_quote (chop s))"
  by pat_completeness auto
termination by (relation "measure length") (auto simp: chop_def)

declare chop_to_quote.simps [simp del]

definition split_rep :: "string \<Rightarrow> string \<times> string" where
  "split_rep line = (before (after line [CHR 0x22]) rep_arrow, chop (chop_to_quote (after line rep_arrow)))"

fun compile_reps :: "regex_lib \<Rightarrow> string list \<Rightarrow> reg_exp \<Rightarrow> string list \<times> reg_exp list \<Rightarrow> bool \<times> string list \<times> reg_exp list" where
  "compile_reps lib [] r acc = (True, acc)"
| "compile_reps lib (x # xs) r acc =
     (let (regexp, replacement) = split_rep (cstr x) in
      if length regexp < 1 then compile_reps lib xs r acc
      else let (rv, r') = re_comp lib regexp r in
           if \<not> rv then (False, acc)
           else compile_reps lib xs r' (fst acc @ [replacement], snd acc @ [re_copy lib r']))"

definition readRegExReplacementFile :: "nat \<Rightarrow> meta_env \<Rightarrow> string \<Rightarrow> string \<Rightarrow> manager
    \<Rightarrow> (bool \<times> nat \<times> (string list \<times> reg_exp list) \<times> manager) option" where
  "readRegExReplacementFile n me filename list_pwd lm =
     (case newItemList n (me_lists me) filename list_pwd True 32 True False False False lm of
        R_list res lm1 \<Rightarrow>
          if res < 0 then Some (False, 0, ([], []), lm1)
          else (case lc_get lm1 (nat res) of
             None \<Rightarrow> None
           | Some c \<Rightarrow>
               (case compile_reps (me_rx me) (getItems (lc_items c)) reg_exp_new ([], []) of
                  (b, acc) \<Rightarrow> Some (b, nat res, acc, lc_upd (nat res) (\<lambda>c. c\<lparr>lc_used := True\<rparr>) lm1)))
      | _ \<Rightarrow> None)"

text \<open>The options of a list line.\<close>

record list_opts =
  lo_name :: string
  lo_m_no :: int
  lo_log_m_no :: int
  lo_path :: string
  lo_pwd :: string
  lo_anonlog :: bool
  lo_sitewild :: bool

definition parse_opt :: "string \<Rightarrow> list_opts \<Rightarrow> list_opts" where
  "parse_opt t a =
     (let v = before (after t ''='') '','' in
      if startsWith t ''name='' then a\<lparr>lo_name := v\<rparr>
      else if startsWith t ''messageno='' then a\<lparr>lo_m_no := toInteger v\<rparr>
      else if startsWith t ''logmessageno='' then a\<lparr>lo_log_m_no := toInteger v\<rparr>
      else if startsWith t ''path='' then a\<lparr>lo_path := v\<rparr>
      else if startsWith t ''listdir='' then a\<lparr>lo_pwd := v\<rparr>
      else if startsWith t ''anonlog=true'' then a\<lparr>lo_anonlog := True\<rparr>
      else if startsWith t ''sitewild=false'' then a\<lparr>lo_sitewild := False\<rparr>
      else a)"

function parse_opts :: "string \<Rightarrow> list_opts \<Rightarrow> list_opts" where
  "parse_opts t a = (if length t > 0 then parse_opts (removeWhiteSpace (after t '','')) (parse_opt t a) else a)"
  by pat_completeness auto
termination
proof (relation "measure (\<lambda>(t, a). length t)", goal_cases)
  case (2 t a)
  then show ?case using removeWhiteSpace_sublist(1) [of "after t '',''"] length_after_less [of "'',''" t] by simp
qed simp

declare parse_opts.simps [simp del]

definition list_line_opts :: "meta_env \<Rightarrow> string \<Rightarrow> list_opts" where
  "list_line_opts me line =
     parse_opts (removeChar (removeWhiteSpace line) (CHR 0x27) @ '','')
       \<lparr>lo_name = [], lo_m_no = 0, lo_log_m_no = 0, lo_path = [], lo_pwd = [], lo_anonlog = me_anonymise_logs me,
        lo_sitewild = True\<rparr>"

definition method_of :: "nat \<Rightarrow> nat" where
  "method_of t =
     (if t = LIST_TYPE_IP \<or> t = LIST_TYPE_IPSITE then 6
      else if t = LIST_TYPE_SITE \<or> t = LIST_TYPE_FILE_EXT then 2
      else if t = LIST_TYPE_URL \<or> t = LIST_TYPE_SEARCH \<or> t = LIST_TYPE_MIME then 1
      else if t = LIST_TYPE_REGEXP_BOOL then 3
      else if t = LIST_TYPE_REGEXP_REP then 4
      else if t = LIST_TYPE_TIME then 7
      else if t = LIST_TYPE_MAP then 8
      else if t = LIST_TYPE_IPMAP then 9
      else 0)"

definition info_of :: "nat \<Rightarrow> list_opts \<Rightarrow> list_info" where
  "info_of type a = list_info_new\<lparr>li_name := lo_name a, li_pwd := lo_pwd a, li_type := type,
     li_method_type := method_of type, li_mess_no := lo_m_no a,
     li_log_mess_no := (if lo_log_m_no a \<noteq> 0 then lo_log_m_no a else lo_m_no a),
     li_anon_log := lo_anonlog a, li_site_wild := lo_sitewild a\<rparr>"

text \<open>The reading of one list by its method: the record to add, if any, whether there was an error, and
  the manager.\<close>

definition load_by_method :: "nat \<Rightarrow> meta_env \<Rightarrow> list_opts \<Rightarrow> list_info \<Rightarrow> manager \<Rightarrow> (list_info option \<times> manager) option" where
  "load_by_method n me a rec lm =
     (let m = li_method_type rec;
          plain = (\<lambda>sortsw isip istime ismap.
            case meta_readFile n (me_lists me) (lo_path a) (lo_pwd a) sortsw isip istime ismap lm of
              None \<Rightarrow> None
            | Some (True, ref, lm') \<Rightarrow> Some (Some (rec\<lparr>li_list_ref := ref\<rparr>), lm')
            | Some (False, ref, lm') \<Rightarrow> Some (None, lm'))
      in if m = 6 then plain False True False False
         else if m = 9 then plain False True False True
         else if m = 8 then plain False False False True
         else if m = 7 then plain False False True False
         else if m = 2 then plain False False False False
         else if m = 1 then plain True False False False
         else if m = 3 then
           (case readRegExMatchFile n me (lo_path a) (lo_pwd a) lm of
              None \<Rightarrow> None
            | Some (True, ref, acc, lm') \<Rightarrow> Some (Some (rec\<lparr>li_list_ref := ref, li_comp := c_comp acc,
                li_source := c_source acc, li_reg_list_ref := c_ref acc\<rparr>), lm')
            | Some (False, ref, acc, lm') \<Rightarrow> Some (None, lm'))
         else
           (case readRegExReplacementFile n me (lo_path a) (lo_pwd a) lm of
              None \<Rightarrow> None
            | Some (True, ref, (reps, comps), lm') \<Rightarrow> Some (Some (rec\<lparr>li_list_ref := ref, li_comp := comps, li_replace := reps\<rparr>), lm')
            | Some (False, ref, x, lm') \<Rightarrow> Some (None, lm')))"

text \<open>The lines of a type are read from the last to the first; \<^verbatim>\<open>load_type\<close> returns false when there
  was an error and missing lists are fatal.\<close>

fun load_lines :: "nat \<Rightarrow> meta_env \<Rightarrow> nat \<Rightarrow> string list \<Rightarrow> bool \<Rightarrow> list_info list \<Rightarrow> manager
    \<Rightarrow> (bool \<times> list_info list \<times> manager) option" where
  "load_lines n me type [] errors lv lm = Some (errors, lv, lm)"
| "load_lines n me type (line # rest) errors lv lm =
     (let a = list_line_opts me line in
      if list_exists (lo_name a) type lv then load_lines n me type rest True lv lm
      else if method_of type = 0 then load_lines n me type rest errors lv lm
      else case load_by_method n me a (info_of type a) lm of
        None \<Rightarrow> None
      | Some (Some rec, lm') \<Rightarrow> load_lines n me type rest errors (lv @ [rec]) lm'
      | Some (None, lm') \<Rightarrow> load_lines n me type rest True lv lm')"

definition load_type :: "nat \<Rightarrow> meta_env \<Rightarrow> nat \<Rightarrow> string list \<Rightarrow> list_info list \<Rightarrow> manager
    \<Rightarrow> (bool \<times> list_info list \<times> manager) option" where
  "load_type n me type lines lv lm =
     (case load_lines n me type (rev lines) False lv lm of
        None \<Rightarrow> None
      | Some (errors, lv', lm') \<Rightarrow> Some (\<not> (errors \<and> me_abort_on_missing_list me), lv', lm'))"

text \<open>\<^verbatim>\<open>reset\<close> gives up the references of all lists and drops the compiled expressions.\<close>

fun meta_reset :: "nat \<Rightarrow> list_info list \<Rightarrow> manager \<Rightarrow> (list_info list \<times> manager) option" where
  "meta_reset n [] lm = Some ([], lm)"
| "meta_reset n (li # lv) lm =
     (case deRefList n (li_list_ref li) lm of
        None \<Rightarrow> None
      | Some lm' \<Rightarrow> map_option (\<lambda>(lv', lm''). (li\<lparr>li_comp := [], li_reg_list_ref := []\<rparr> # lv', lm'')) (meta_reset n lv lm'))"


section \<open>Lemmas: sites\<close>

text \<open>A name of a domain: the site itself or one of the domains above it.\<close>

definition dom_above :: "string \<Rightarrow> string \<Rightarrow> bool" where
  "dom_above s url \<longleftrightarrow> s = url \<or> suffix (''.'' @ s) url"

text \<open>The entries of a list that stand for a site: its name or a domain above it, if it has a dot, or
  the top-level domain with a dot before it.\<close>

definition site_entry :: "string \<Rightarrow> string \<Rightarrow> bool" where
  "site_entry s url \<longleftrightarrow> (CHR ''.'' \<in> set s \<and> dom_above s url)
     \<or> (\<exists>t. s = ''.'' @ t \<and> CHR ''.'' \<notin> set t \<and> length t > 1 \<and> dom_above t url)"

text \<open>The entry for a site in a list that does not stand for the domains below its entries.\<close>

definition exact_entry :: "string \<Rightarrow> string \<Rightarrow> bool" where
  "exact_entry s url \<longleftrightarrow> (if CHR ''.'' \<in> set url then s = url \<and> length url > 2 else s = ''.'' @ url \<and> length url > 1)"

text \<open>What a lookup in a list with the entries \<open>S\<close> returns.\<close>

definition finds :: "(string \<Rightarrow> string \<Rightarrow> found) \<Rightarrow> string set \<Rightarrow> bool" where
  "finds look S \<longleftrightarrow> (\<forall>s lc. nul_free s \<longrightarrow> (\<exists>lc'. look s lc = Some (if s \<in> S then Some s else None, lc')))"

lemma find_dot: "find_sub ''.'' s = (if CHR ''.'' \<in> set s then Some (length (takeWhile (\<lambda>c. c \<noteq> CHR ''.'') s)) else None)"
  by (induction s) auto

lemma contains_dot: "contains s ''.'' \<longleftrightarrow> CHR ''.'' \<in> set s"
  by (cases s) (auto simp: contains_def indexOf_def find_dot)

lemma after_dot:
  assumes "CHR ''.'' \<in> set s"
  obtains x where "s = x @ ''.'' @ after s ''.''" "CHR ''.'' \<notin> set x"
proof -
  let ?x = "takeWhile (\<lambda>c. c \<noteq> CHR ''.'') s"
  have f: "find_sub ''.'' s = Some (length ?x)" using assms by (simp add: find_dot)
  then have "after s ''.'' = drop (length ?x + 1) s" using assms by (cases s) (auto simp: after_def)
  moreover have "s = take (length ?x) s @ ''.'' @ drop (length ?x + 1) s" using find_sub_Some [OF f] by simp
  moreover have "take (length ?x) s = ?x" by (metis takeWhile_eq_take)
  ultimately show thesis using that [of ?x] by (metis (mono_tags, lifting) set_takeWhileD)
qed

text \<open>What is above a site with a dot: the site, and what is above the rest after the first dot.\<close>

lemma suffix_dot_split:
  assumes "CHR ''.'' \<notin> set x"
  shows "suffix (''.'' @ s) (x @ ''.'' @ r) \<longleftrightarrow> s = r \<or> suffix (''.'' @ s) r"
proof
  assume "suffix (''.'' @ s) (x @ ''.'' @ r)"
  then obtain p where p: "x @ ''.'' @ r = p @ ''.'' @ s" by (auto simp: suffix_def)
  show "s = r \<or> suffix (''.'' @ s) r"
  proof (cases "length p \<le> length x")
    case True
    then obtain q where q: "x = p @ q" using p by (metis append_eq_append_conv_if append_take_drop_id)
    with p have "q @ ''.'' @ r = ''.'' @ s" by simp
    then have "q = []" using assms q by (cases q) auto
    with p q show ?thesis by simp
  next
    case False
    then obtain q where q: "p = x @ q" "q \<noteq> []" using p
      by (metis append_eq_append_conv_if append_take_drop_id linear append.right_neutral order_refl)
    with p have "''.'' @ r = q @ ''.'' @ s" by simp
    then obtain q' where "q = ''.'' @ q'" "r = q' @ ''.'' @ s" using q(2) by (cases q) auto
    then show ?thesis by (auto simp: suffix_def)
  qed
next
  assume "s = r \<or> suffix (''.'' @ s) r"
  then show "suffix (''.'' @ s) (x @ ''.'' @ r)" by (auto simp: suffix_def)
qed

lemma dom_above_step:
  assumes "CHR ''.'' \<in> set url"
  shows "dom_above s url \<longleftrightarrow> s = url \<or> dom_above s (after url ''.'')"
proof -
  obtain x where "url = x @ ''.'' @ after url ''.''" "CHR ''.'' \<notin> set x" by (rule after_dot [OF assms])
  then have "suffix (''.'' @ s) url \<longleftrightarrow> s = after url ''.'' \<or> suffix (''.'' @ s) (after url ''.'')"
    using suffix_dot_split by metis
  then show ?thesis by (auto simp: dom_above_def)
qed

lemma dom_above_no_dot: "CHR ''.'' \<notin> set url \<Longrightarrow> dom_above s url \<longleftrightarrow> s = url"
  by (auto simp: dom_above_def suffix_def)

lemma site_loop_spec:
  assumes "finds look S" and "nul_free url"
  shows "\<exists>r u lc'. site_loop look url lc = Some (r, u, lc')
    \<and> (case r of Some s \<Rightarrow> s \<in> S \<and> CHR ''.'' \<in> set s \<and> dom_above s url
       | None \<Rightarrow> (\<forall>s \<in> S. CHR ''.'' \<in> set s \<longrightarrow> \<not> dom_above s url) \<and> CHR ''.'' \<notin> set u
           \<and> nul_free u \<and> (\<forall>t. CHR ''.'' \<notin> set t \<longrightarrow> (dom_above t url \<longleftrightarrow> t = u)))"
  using assms
proof (induction look url lc rule: site_loop.induct)
  case (1 look url lc)
  show ?case
  proof (cases "CHR ''.'' \<in> set url")
    case True
    then have dot: "contains url ''.''" by (simp add: contains_dot)
    obtain lc1 where l: "look url lc = Some (if url \<in> S then Some url else None, lc1)"
      using "1.prems" unfolding finds_def by blast
    show ?thesis
    proof (cases "url \<in> S")
      case in_S: True
      then show ?thesis using l dot True by (subst site_loop.simps) (auto simp: dom_above_def)
    next
      case False
      have nf: "nul_free (after url ''.'')" using "1.prems"(2) after_sublist(2) by blast
      from False l have l': "look url lc = Some (None, lc1)" by simp
      from "1.IH" [OF dot l' refl refl "1.prems"(1) nf] obtain r u lc' where
        r: "site_loop look (after url ''.'') lc1 = Some (r, u, lc')"
        and c: "case r of Some s \<Rightarrow> s \<in> S \<and> CHR ''.'' \<in> set s \<and> dom_above s (after url ''.'')
       | None \<Rightarrow> (\<forall>s \<in> S. CHR ''.'' \<in> set s \<longrightarrow> \<not> dom_above s (after url ''.'')) \<and> CHR ''.'' \<notin> set u
           \<and> nul_free u \<and> (\<forall>t. CHR ''.'' \<notin> set t \<longrightarrow> (dom_above t (after url ''.'') \<longleftrightarrow> t = u))" by blast
      have "site_loop look url lc = Some (r, u, lc')" using r l' dot by (subst site_loop.simps) simp
      with c show ?thesis using dom_above_step [OF True] False True by (cases r) auto
    qed
  next
    case False
    then show ?thesis using dom_above_no_dot [OF False] "1.prems"(2) by (subst site_loop.simps) (auto simp: contains_dot)
  qed
qed

lemma inSiteList_spec:
  assumes "finds (lm_findInList n env lm list) S" and "nul_free url"
  shows "\<exists>r lc'. inSiteList n env lm url list lc True = Some (r, lc')
    \<and> (case r of Some s \<Rightarrow> s \<in> S \<and> site_entry s url | None \<Rightarrow> \<not> (\<exists>s \<in> S. site_entry s url))"
proof -
  from site_loop_spec [OF assms] obtain r u lc1 where
    r: "site_loop (lm_findInList n env lm list) url lc = Some (r, u, lc1)"
    and c: "case r of Some s \<Rightarrow> s \<in> S \<and> CHR ''.'' \<in> set s \<and> dom_above s url
       | None \<Rightarrow> (\<forall>s \<in> S. CHR ''.'' \<in> set s \<longrightarrow> \<not> dom_above s url) \<and> CHR ''.'' \<notin> set u
           \<and> nul_free u \<and> (\<forall>t. CHR ''.'' \<notin> set t \<longrightarrow> (dom_above t url \<longleftrightarrow> t = u))" by blast
  show ?thesis
  proof (cases r)
    case (Some s)
    then show ?thesis using r c by (auto simp: inSiteList_def site_entry_def)
  next
    case None
    with c have n: "\<forall>s \<in> S. CHR ''.'' \<in> set s \<longrightarrow> \<not> dom_above s url" "CHR ''.'' \<notin> set u" "nul_free u"
      "\<And>t. CHR ''.'' \<notin> set t \<Longrightarrow> dom_above t url \<longleftrightarrow> t = u" by auto
    have e: "site_entry s url \<longleftrightarrow> s = ''.'' @ u \<and> length u > 1" if "s \<in> S" for s
      using n that unfolding site_entry_def by auto
    let ?u = "if length u > 1 then ''.'' @ u else u"
    have i: "inSiteList n env lm url list lc True = (if length u > 1 then lm_findInList n env lm list ?u lc1 else Some (None, lc1))"
      using r None n(2) by (auto simp: inSiteList_def contains_dot)
    obtain lc2 where "lm_findInList n env lm list ?u lc1 = Some (if ?u \<in> S then Some ?u else None, lc2)"
    proof -
      have "nul_free ?u" using n(3) by (simp add: nul_def)
      with assms(1) that show thesis unfolding finds_def by blast
    qed
    with i e show ?thesis by auto
  qed
qed

lemma inSiteList_exact:
  assumes "finds (lm_findInList n env lm list) S" and "nul_free url"
  shows "\<exists>r lc'. inSiteList n env lm url list lc False = Some (r, lc')
    \<and> (case r of Some s \<Rightarrow> s \<in> S \<and> exact_entry s url | None \<Rightarrow> \<not> (\<exists>s \<in> S. exact_entry s url))"
proof -
  let ?u = "if \<not> contains url ''.'' \<and> length url > 1 then ''.'' @ url else url"
  have e: "exact_entry s url \<longleftrightarrow> s = ?u \<and> length ?u > 2" for s by (auto simp: exact_entry_def contains_dot)
  have "nul_free ?u" using assms(2) by (simp add: nul_def)
  then obtain lc' where "lm_findInList n env lm list ?u lc = Some (if ?u \<in> S then Some ?u else None, lc')"
    using assms(1) unfolding finds_def by blast
  then show ?thesis unfolding e by (auto simp: inSiteList_def Let_def)
qed

section \<open>Lemmas: URLs\<close>

text \<open>An entry of a URL list stands for a URL when it begins it and ends there or before one of the
  signs that end a part of a URL.\<close>

definition url_entry :: "string \<Rightarrow> string \<Rightarrow> bool" where
  "url_entry e u \<longleftrightarrow> prefix e u \<and> (length u = length e \<or> u ! length e \<in> {CHR ''/'', CHR ''?'', CHR ''&'', CHR ''=''})"

text \<open>A lookup that returns only beginnings of the text.\<close>

definition finds_prefix :: "(string \<Rightarrow> string \<Rightarrow> found) \<Rightarrow> string set \<Rightarrow> bool" where
  "finds_prefix look S \<longleftrightarrow> (\<forall>u lc. \<exists>r lc'. look u lc = Some (r, lc') \<and> (\<forall>e. r = Some e \<longrightarrow> e \<in> S \<and> prefix e u))"

lemma before_slash_dot: "contains (before u ''/'') ''.'' \<Longrightarrow> CHR ''.'' \<in> set u"
  using before_sublist(2) [of u "''/''"] by (auto simp: contains_dot)

lemma url_loop_sound:
  assumes "finds_prefix look S"
  shows "\<exists>r lc'. url_loop look wild url lc = Some (r, lc')
    \<and> (\<forall>e. r = Some e \<longrightarrow> e \<in> S \<and> (\<exists>u. dom_above u url \<and> CHR ''.'' \<in> set (before u ''/'') \<and> url_entry e u \<and> (wild \<or> u = url)))"
  using assms
proof (induction look wild url lc rule: url_loop.induct)
  case (1 look wild url lc)
  show ?case
  proof (cases "contains (before url ''/'') ''.''")
    case True
    obtain r lc1 where l: "look url lc = Some (r, lc1)" "\<forall>e. r = Some e \<longrightarrow> e \<in> S \<and> prefix e url"
      using "1.prems" unfolding finds_prefix_def by blast
    have dot: "CHR ''.'' \<in> set url" by (rule before_slash_dot [OF True])
    let ?rec = "url_loop look wild (after url ''.'') lc1"
    have rec: "\<exists>r lc'. ?rec = Some (r, lc') \<and> (\<forall>e. r = Some e \<longrightarrow> e \<in> S \<and> (\<exists>u. dom_above u url \<and> CHR ''.'' \<in> set (before u ''/'')
        \<and> url_entry e u \<and> (wild \<or> u = url)))"
      if w: "wild" and ih: "finds_prefix look S \<Longrightarrow> \<exists>r lc'. ?rec = Some (r, lc')
        \<and> (\<forall>e. r = Some e \<longrightarrow> e \<in> S \<and> (\<exists>u. dom_above u (after url ''.'') \<and> CHR ''.'' \<in> set (before u ''/'')
            \<and> url_entry e u \<and> (wild \<or> u = after url ''.'')))"
    proof -
      from ih [OF "1.prems"] obtain r lc' where "?rec = Some (r, lc')" "\<And>e. r = Some e \<Longrightarrow> e \<in> S \<and> (\<exists>u. dom_above u (after url ''.'')
          \<and> CHR ''.'' \<in> set (before u ''/'') \<and> url_entry e u)" by blast
      then show ?thesis using dom_above_step [OF dot] w by (intro exI [of _ r] exI [of _ lc']) blast
    qed
    show ?thesis
    proof (cases r)
      case None
      show ?thesis
      proof (cases wild)
        case w: True
        have "url_loop look wild url lc = ?rec" using True l(1) None w by (subst url_loop.simps) simp
        moreover have "\<exists>r lc'. ?rec = Some (r, lc') \<and> (\<forall>e. r = Some e \<longrightarrow> e \<in> S \<and> (\<exists>u. dom_above u url \<and> CHR ''.'' \<in> set (before u ''/'')
            \<and> url_entry e u \<and> (wild \<or> u = url)))"
          by (rule rec [OF w]) (use "1.IH"(1) [OF True l(1) refl None] w in simp)
        ultimately show ?thesis by simp
      next
        case False
        then show ?thesis using True l(1) None by (subst url_loop.simps) simp
      qed
    next
      case (Some e)
      with l(2) have e: "e \<in> S" "prefix e url" by auto
      show ?thesis
      proof (cases "length url > length e \<longrightarrow> url ! length e \<in> {CHR ''/'', CHR ''?'', CHR ''&'', CHR ''=''}")
        case ok: True
        then have "url_entry e url" using e(2) prefix_length_le [OF e(2)] by (auto simp: url_entry_def)
        moreover have "url_loop look wild url lc = Some (Some e, lc1)"
          using True l(1) Some ok by (subst url_loop.simps) (simp add: Let_def)
        moreover have "CHR ''.'' \<in> set (before url ''/'')" using True by (simp add: contains_dot)
        ultimately show ?thesis using e(1) by (auto simp: dom_above_def)
      next
        case no: False
        show ?thesis
        proof (cases wild)
          case w: True
          have "url_loop look wild url lc = ?rec" using True l(1) Some no w by (subst url_loop.simps) (simp add: Let_def)
          moreover have "\<exists>r lc'. ?rec = Some (r, lc') \<and> (\<forall>e. r = Some e \<longrightarrow> e \<in> S \<and> (\<exists>u. dom_above u url \<and> CHR ''.'' \<in> set (before u ''/'')
              \<and> url_entry e u \<and> (wild \<or> u = url)))"
            by (rule rec [OF w]) (use "1.IH"(2) [OF True l(1) refl Some refl] no w in simp)
          ultimately show ?thesis by simp
        next
          case False
          then show ?thesis using True l(1) Some no by (subst url_loop.simps) (simp add: Let_def)
        qed
      qed
    qed
  next
    case False
    then show ?thesis by (subst url_loop.simps) simp
  qed
qed

section \<open>Lemmas: loading\<close>

text \<open>No two named lists of the same type have the same name.\<close>

definition named_once :: "list_info list \<Rightarrow> bool" where
  "named_once lv \<longleftrightarrow> distinct (map (\<lambda>x. (li_name x, li_type x)) (filter (\<lambda>x. li_name x \<noteq> []) lv))"

lemma findListPtr_Some: "findListPtr name tp lv = Some i \<Longrightarrow> i < length lv \<and> li_name (lv ! i) = name \<and> li_type (lv ! i) = tp"
  unfolding findListPtr_def Let_def
  using nth_length_takeWhile [of "\<lambda>x. \<not> (li_name x = name \<and> li_type x = tp)" lv] by (auto split: if_splits)

lemma findListPtr_None: "findListPtr name tp lv = None \<longleftrightarrow> (\<forall>x \<in> set lv. \<not> (li_name x = name \<and> li_type x = tp))"
proof -
  let ?P = "\<lambda>x. \<not> (li_name x = name \<and> li_type x = tp)"
  have "length (takeWhile ?P lv) < length lv \<longleftrightarrow> \<not> (\<forall>x \<in> set lv. ?P x)"
    by (induction lv) auto
  then show ?thesis by (auto simp: findListPtr_def Let_def)
qed

lemma list_exists_iff: "name \<noteq> [] \<Longrightarrow> list_exists name tp lv \<longleftrightarrow> (\<exists>x \<in> set lv. li_name x = name \<and> li_type x = tp)"
proof (cases "findListPtr name tp lv")
  case None
  then show ?thesis using findListPtr_None [of name tp lv] by (simp add: list_exists_def findList_def list_info_new_def)
next
  case (Some i)
  moreover assume "name \<noteq> []"
  ultimately show ?thesis using findListPtr_Some [OF Some] nth_mem [of i lv] by (auto simp: list_exists_def findList_def)
qed

lemma load_by_method_kept:
  assumes "load_by_method n me a rec lm = Some (Some rec', lm')"
  shows "li_name rec' = li_name rec \<and> li_type rec' = li_type rec"
  using assms unfolding load_by_method_def Let_def
  by (auto split: if_splits option.splits prod.splits bool.splits)

lemma info_of_fields [simp]: "li_name (info_of tp a) = lo_name a" "li_type (info_of tp a) = tp" "li_method_type (info_of tp a) = method_of tp"
  by (simp_all add: info_of_def)

lemma named_once_snoc:
  assumes "named_once lv" and "\<not> list_exists (li_name x) (li_type x) lv"
  shows "named_once (lv @ [x])"
proof (cases "li_name x = []")
  case False
  then have "\<forall>y \<in> set lv. \<not> (li_name y = li_name x \<and> li_type y = li_type x)" using assms(2) list_exists_iff by blast
  with assms(1) show ?thesis by (auto simp: named_once_def)
qed (use assms(1) in \<open>simp add: named_once_def\<close>)

lemma load_lines_inv:
  assumes "load_lines n me tp ls errors lv lm = Some (errors', lv', lm')" and "named_once lv"
  shows "named_once lv' \<and> (\<exists>ys. lv' = lv @ ys \<and> (\<forall>y \<in> set ys. li_type y = tp))"
  using assms
proof (induction n me tp ls errors lv lm rule: load_lines.induct)
  case (2 n me tp line rest errors lv lm)
  define a where "a = list_line_opts me line"
  show ?case
  proof (cases "list_exists (lo_name a) tp lv \<or> method_of tp = 0")
    case True
    show ?thesis
    proof (cases "list_exists (lo_name a) tp lv")
      case ex: True
      then show ?thesis using "2.IH"(1) [OF a_def ex] "2.prems" by (simp add: Let_def flip: a_def)
    next
      case no: False
      with True show ?thesis using "2.IH"(2) [OF a_def no] "2.prems" by (simp add: Let_def flip: a_def)
    qed
  next
    case False
    show ?thesis
    proof (cases "load_by_method n me a (info_of tp a) lm")
      case None
      then show ?thesis using "2.prems"(1) False by (simp add: Let_def flip: a_def)
    next
      case (Some p)
      obtain rec lm1 where p: "p = (rec, lm1)" by (cases p)
      show ?thesis
      proof (cases rec)
        case None
        then show ?thesis using "2.IH"(3) [OF a_def] "2.prems" False Some p by (simp add: Let_def flip: a_def)
      next
        case r: (Some rec1)
        have k: "li_name rec1 = lo_name a" "li_type rec1 = tp"
          using load_by_method_kept [of n me a "info_of tp a" lm rec1 lm1] Some p r by simp_all
        have "named_once (lv @ [rec1])" using named_once_snoc [OF "2.prems"(2)] k False by simp
        then have "named_once lv' \<and> (\<exists>ys. lv' = (lv @ [rec1]) @ ys \<and> (\<forall>y \<in> set ys. li_type y = tp))"
          using "2.IH"(4) [OF a_def] "2.prems"(1) False Some p r by (simp add: Let_def flip: a_def)
        then obtain ys where "named_once lv'" "lv' = lv @ (rec1 # ys)" "\<forall>y \<in> set (rec1 # ys). li_type y = tp" using k(2) by auto
        then show ?thesis by blast
      qed
    qed
  qed
qed simp


section \<open>Properties\<close>

text \<open>C28: a list of sites that stand for the domains below them matches a site exactly when an entry with a dot is the site or a domain above
  it, or an entry is a dot and the last label of the site, of two bytes at least. A list without them matches exactly when an entry is
  the site, with a dot before it when it has none, of more than two bytes. The entry is reported.\<close>

theorem site_list_matches:
  assumes "\<And>str. nul_free str \<Longrightarrow> \<exists>cat. findInList n (me_lists me) lm str (li_list_ref li) = Some (if str \<in> S then Some (str, cat) else None)"
    and "li_type li = LIST_TYPE_SITE" and "li_name li \<noteq> []" and "nul_free url"
    and "fits = (if li_site_wild li then site_entry else exact_entry)"
  shows "\<exists>b res'. inList n me lm li url res = Some (b, res')
    \<and> (if b then res_match res' \<in> S \<and> fits (res_match res') url else \<not> (\<exists>s \<in> S. fits s url))"
proof -
  have "finds (lm_findInList n (me_lists me) lm (li_list_ref li)) S" unfolding finds_def
  proof (intro allI impI)
    fix s lc :: string
    assume s: "nul_free s"
    from assms(1) [OF this] obtain cat where
      "findInList n (me_lists me) lm s (li_list_ref li) = Some (if s \<in> S then Some (s, cat) else None)" by blast
    then show "\<exists>lc'. lm_findInList n (me_lists me) lm (li_list_ref li) s lc = Some (if s \<in> S then Some s else None, lc')"
      using s by (simp add: lm_findInList_def in_manager_def)
  qed
  note look = this
  obtain r lc' where "inSiteList n (me_lists me) lm url (li_list_ref li) (res_category res) (li_site_wild li) = Some (r, lc')"
    "case r of Some s \<Rightarrow> s \<in> S \<and> fits s url | None \<Rightarrow> \<not> (\<exists>s \<in> S. fits s url)"
  proof (cases "li_site_wild li")
    case True
    with inSiteList_spec [OF look assms(4), of "res_category res"] assms(5) show ?thesis by (auto intro: that)
  next
    case False
    with inSiteList_exact [OF look assms(4), of "res_category res"] assms(5) show ?thesis by (auto intro: that)
  qed
  then show ?thesis using assms(2,3) by (cases r) (auto simp: inList_def by_match_def set_info_def)
qed

text \<open>A site list with one entry.\<close>

definition demo_sites :: list_info where
  "demo_sites = list_info_new\<lparr>li_name := ''ads'', li_type := 2, li_list_ref := 1, li_site_wild := True\<rparr>"

definition demo_meta :: meta_env where
  "demo_meta = \<lparr>me_lists = demo_env, me_rx = lib_a, me_anonymise_logs = False, me_abort_on_missing_list = True\<rparr>"

lemma demo_find: "findInList 1 demo_env demo_manager str 1 = Some (if str \<in> {''a.com''} then Some (str, Some ''ads'') else None)"
proof -
  have s: "store_inv (store_of [''a.com''])" "item_list (store_of [''a.com'']) = [''a.com'']" "items (store_of [''a.com'']) = 1"
    using store_of_items [of "[''a.com'']"] by (simp_all add: nul_def)
  then have "searchable (store_of [''a.com''])" by (simp add: searchable_def)
  from find_item_exact [OF this, of str] s show ?thesis
    by (simp add: findInList_def demo_manager_def lc_get_def lc_isNow_def list_container_new_def here_in_list_def with_category_def)
qed

theorem site_list_matches_witness:
  "\<exists>b res'. inList 1 demo_meta demo_manager demo_sites ''www.a.com'' list_result_new = Some (b, res')
    \<and> (if b then res_match res' \<in> {''a.com''} \<and> site_entry (res_match res') ''www.a.com''
       else \<not> (\<exists>s \<in> {''a.com''}. site_entry s ''www.a.com''))"
  using demo_find by (intro site_list_matches) (auto simp: demo_sites_def demo_meta_def list_info_new_def nul_def)

text \<open>C29: a URL list reports only an entry that, for the decoded and resolved URL or for what is left
  of it after some of the leading labels of its host, begins it and ends there or before a separator.\<close>

theorem url_list_sound:
  assumes "\<And>str. \<exists>r. findStartsWith n (me_lists me) lm str (li_list_ref li) = Some r \<and> (\<forall>e cat. r = Some (e, cat) \<longrightarrow> e \<in> S \<and> prefix e str)"
    and "li_type li = LIST_TYPE_URL" and "li_name li \<noteq> []"
  shows "\<exists>b res'. inList n me lm li url res = Some (b, res')
    \<and> (b \<longrightarrow> res_match res' \<in> S \<and> (\<exists>u. dom_above u (normal_url url) \<and> CHR ''.'' \<in> set (before u ''/'')
        \<and> url_entry (res_match res') u \<and> (li_site_wild li \<or> u = normal_url url)))"
proof -
  let ?look = "lm_findStartsWith n (me_lists me) lm (li_list_ref li)"
  have "finds_prefix ?look S" unfolding finds_prefix_def
  proof (intro allI)
    fix u lc :: string
    obtain r where r: "findStartsWith n (me_lists me) lm (cstr u) (li_list_ref li) = Some r"
      "\<And>e cat. r = Some (e, cat) \<Longrightarrow> e \<in> S \<and> prefix e (cstr u)" using assms(1) [of "cstr u"] by blast
    have "prefix (cstr u) u" unfolding cstr_def by (metis prefix_def takeWhile_dropWhile_id)
    with r show "\<exists>r lc'. ?look u lc = Some (r, lc') \<and> (\<forall>e. r = Some e \<longrightarrow> e \<in> S \<and> prefix e u)"
      by (cases r) (auto simp: lm_findStartsWith_def in_manager_def intro: prefix_order.trans)
  qed
  from url_loop_sound [OF this, of "li_site_wild li" "normal_url url" "res_category res"] obtain r lc' where
    "inURLList n (me_lists me) lm url (li_list_ref li) (res_category res) (li_site_wild li) = Some (r, lc')"
    "\<And>e. r = Some e \<Longrightarrow> e \<in> S \<and> (\<exists>u. dom_above u (normal_url url) \<and> CHR ''.'' \<in> set (before u ''/'')
        \<and> url_entry e u \<and> (li_site_wild li \<or> u = normal_url url))" unfolding inURLList_def by blast
  then show ?thesis using assms(2,3) by (cases r) (auto simp: inList_def by_match_def set_info_def)
qed

definition demo_urls :: list_info where
  "demo_urls = list_info_new\<lparr>li_name := ''urls'', li_type := 4, li_list_ref := 1, li_site_wild := True\<rparr>"

lemma demo_starts: "\<exists>r. findStartsWith 1 demo_env demo_manager str 1 = Some r \<and> (\<forall>e cat. r = Some (e, cat) \<longrightarrow> e \<in> {''a.com''} \<and> prefix e str)"
proof -
  have s: "store_inv (store_of [''a.com''])" "item_list (store_of [''a.com'']) = [''a.com'']"
    using store_of_items [of "[''a.com'']"] by (simp_all add: nul_def)
  have "findStartsWith 1 demo_env demo_manager str 1 = Some (map_option (\<lambda>s. (s, Some ''ads'')) (find_starts str (store_of [''a.com''])))"
    by (auto simp: findStartsWith_def demo_manager_def lc_get_def lc_isNow_def list_container_new_def here_starts_def with_category_def
      split: option.splits)
  then show ?thesis using find_starts_sound [OF s(1), of str] s(2) by (auto simp: url_begins_def)
qed

theorem url_list_sound_witness:
  "\<exists>b res'. inList 1 demo_meta demo_manager demo_urls ''www.a.com/x'' list_result_new = Some (b, res')"
  using url_list_sound [of 1 demo_meta demo_manager demo_urls "{''a.com''}" "''www.a.com/x''" list_result_new] demo_starts
  by (fastforce simp: demo_urls_def demo_meta_def list_info_new_def)

text \<open>loading the lists of a type keeps the lists that were there and never makes two named lists
  with the same name and type, so that a list is found again by its name.\<close>

theorem load_type_unique:
  assumes "load_type n me tp ls lv lm = Some (ok, lv', lm')" and "named_once lv"
  shows "named_once lv' \<and> prefix lv lv' \<and> (i < length lv' \<and> li_name (lv' ! i) \<noteq> [] \<longrightarrow> findList (li_name (lv' ! i)) (li_type (lv' ! i)) lv' = lv' ! i)"
proof -
  obtain e where "load_lines n me tp (rev ls) False lv lm = Some (e, lv', lm')"
    using assms(1) by (auto simp: load_type_def split: option.splits)
  note l = load_lines_inv [OF this assms(2)]
  have "findList (li_name (lv' ! i)) (li_type (lv' ! i)) lv' = lv' ! i" if i: "i < length lv'" "li_name (lv' ! i) \<noteq> []"
  proof -
    let ?x = "lv' ! i"
    have "findListPtr (li_name ?x) (li_type ?x) lv' \<noteq> None" using i(1) findListPtr_None nth_mem by blast
    then obtain j where j: "findListPtr (li_name ?x) (li_type ?x) lv' = Some j" by auto
    note jj = findListPtr_Some [OF j]
    have "inj_on (\<lambda>x. (li_name x, li_type x)) {x \<in> set lv'. li_name x \<noteq> []}"
      using l by (auto simp: named_once_def distinct_map)
    then have "lv' ! j = ?x" using jj i by (auto dest: inj_onD)
    then show ?thesis using j by (simp add: findList_def)
  qed
  with l show ?thesis by (auto simp: prefix_def)
qed

theorem load_type_unique_witness:
  "\<exists>lv' lm' ok. load_type 1 demo_meta 2 [] [demo_sites] demo_manager = Some (ok, lv', lm') \<and> named_once lv' \<and> findList ''ads'' 2 lv' = demo_sites"
  using load_type_unique [of 1 demo_meta 2 "[]" "[demo_sites]" demo_manager True "[demo_sites]" demo_manager 0]
  by (auto simp: load_type_def named_once_def demo_sites_def list_info_new_def)

text \<open>a header test against a list without expressions reads out of range: the index 0 that the
  code takes for a match does not exist.\<close>

theorem header_test_empty_list:
  assumes "li_type li = LIST_TYPE_REGEXP_BOOL" and "li_name li \<noteq> []" and "li_comp li = []" and "li_reg_list_ref li = []"
  shows "inList_header me lm li header res = None"
  using assms by (simp add: inList_header_def inHeaderRegExp_def by_regexp_def)

theorem header_test_empty_list_witness:
  "inList_header demo_meta demo_manager (list_info_new\<lparr>li_name := ''h'', li_type := 6\<rparr>) [''Host: x''] list_result_new = None"
  by (rule header_test_empty_list) (simp_all add: list_info_new_def)

end
