(* ===== verification/HTTP_Header.thy ===== *)
theory HTTP_Header
  imports List_Meta
begin

text \<open>
  HTTP headers (\<^verbatim>\<open>src/src/HTTPHeader.cpp\<close>): the lines of a request or response with the pointers to
  the lines of interest, reading and normalising a header, the URL of a request, changes of the lines,
  bypass cookies, and the coding of URLs and base64 texts.

  A pointer into the lines is the index of the line. The lines are a \<^verbatim>\<open>std::deque\<close>, so that adding a line
  leaves pointers valid; removing lines leaves pointers to lines that are gone, and using one is \<open>None\<close>. Reading from and writing to the socket is given as the list of the lines read
  and of the outcomes of the writes. MD5 and the clock are arguments of the cookie test.
\<close>

section \<open>State\<close>

datatype line_ptr = Null | At nat | Gone

text \<open>What becomes of a pointer when the line is removed.\<close>

fun gone :: "line_ptr \<Rightarrow> line_ptr" where
  "gone Null = Null"
| "gone _ = Gone"

record http_header =
  header :: "string list"
  port :: nat
  is_response :: bool
  icap :: bool
  redirect :: string
  useragent :: string
  requesttype :: string
  returncode :: int
  addheaderchecked :: bool
  isheaderadded :: bool
  chunked :: bool
  expects_100 :: bool
  isProxyRequest :: bool
  pheaderident :: line_ptr
  ptransfercoding :: line_ptr
  ptransferencoding :: line_ptr
  phost :: line_ptr
  pport :: line_ptr
  pcontentlength :: line_ptr
  pcontenttype :: line_ptr
  pproxyauthorization :: line_ptr
  pauthorization :: line_ptr
  pproxyauthenticate :: line_ptr
  pcontentdisposition :: line_ptr
  puseragent :: line_ptr
  pxforwardedfor :: line_ptr
  pcontentencoding :: line_ptr
  pproxyconnection :: line_ptr
  pkeepalive :: line_ptr
  cachedurl :: string
  mitm :: bool
  hh_isdirect :: bool
  contentlength :: int
  clcached :: bool
  postdata :: string
  ispersistent :: bool
  waspersistent :: bool
  dirty :: bool
  s_clientip :: string

text \<open>\<^verbatim>\<open>reset\<close> removes the lines but leaves the pointer to the identification line and the redirection as
  they are.\<close>

definition hh_reset :: "http_header \<Rightarrow> http_header" where
  "hh_reset h =
     (if dirty h then
        h\<lparr>header := [], waspersistent := False, ispersistent := False, cachedurl := [],
          addheaderchecked := False, isheaderadded := False, clcached := False, expects_100 := False,
          mitm := False, hh_isdirect := False, chunked := False,
          phost := Null, pport := Null, pcontentlength := Null, pcontenttype := Null,
          pproxyauthorization := Null, pauthorization := Null, pproxyauthenticate := Null,
          pcontentdisposition := Null, puseragent := Null, pxforwardedfor := Null,
          pcontentencoding := Null, ptransfercoding := Null, ptransferencoding := Null,
          pproxyconnection := Null, pkeepalive := Null, useragent := [], contentlength := - 1,
          requesttype := [], returncode := 0, dirty := False, isProxyRequest := False, icap := False,
          postdata := [], pheaderident := gone (pheaderident h)\<rparr>
      else h)"

text \<open>A new object of a given type; the members that the constructor leaves uninitialised have the
  arbitrary values \<open>id_ptr\<close>.\<close>

definition http_header_new :: "bool \<Rightarrow> line_ptr \<Rightarrow> http_header" where
  "http_header_new response id_ptr =
     \<lparr>header = [], port = 0, is_response = response, icap = False, redirect = [], useragent = [], requesttype = [],
      returncode = 0, addheaderchecked = False, isheaderadded = False, chunked = False, expects_100 = False,
      isProxyRequest = False, pheaderident = id_ptr, ptransfercoding = Null, ptransferencoding = Null,
      phost = Null, pport = Null, pcontentlength = Null, pcontenttype = Null, pproxyauthorization = Null,
      pauthorization = Null, pproxyauthenticate = Null, pcontentdisposition = Null, puseragent = Null,
      pxforwardedfor = Null, pcontentencoding = Null, pproxyconnection = Null, pkeepalive = Null, cachedurl = [],
      mitm = False, hh_isdirect = False, contentlength = - 1, clcached = False, postdata = [], ispersistent = False,
      waspersistent = False, dirty = False, s_clientip = []\<rparr>"

text \<open>Reading and changing the line behind a pointer.\<close>

definition with_line :: "http_header \<Rightarrow> line_ptr \<Rightarrow> 'a \<Rightarrow> (string \<Rightarrow> 'a) \<Rightarrow> 'a option" where
  "with_line h p d f =
     (case p of
        Null \<Rightarrow> Some d
      | At i \<Rightarrow> if i < length (header h) then Some (f (header h ! i)) else None
      | Gone \<Rightarrow> None)"

definition set_line :: "http_header \<Rightarrow> line_ptr \<Rightarrow> (string \<Rightarrow> string) \<Rightarrow> http_header option" where
  "set_line h p f =
     (case p of
        Null \<Rightarrow> Some h
      | At i \<Rightarrow> if i < length (header h) then Some (h\<lparr>header := (header h)[i := f (header h ! i)]\<rparr>) else None
      | Gone \<Rightarrow> None)"


section \<open>Values of the header\<close>

definition getAuthType :: "http_header \<Rightarrow> string option" where
  "getAuthType h = with_line h (pproxyauthorization h) [] (\<lambda>l. before (after l '' '') '' '')"

definition authRequired :: "http_header \<Rightarrow> bool" where
  "authRequired h = (returncode h = 407)"

definition dquote :: string where
  "dquote = [CHR 0x22]"

definition disposition :: "http_header \<Rightarrow> string option" where
  "disposition h = with_line h (pcontentdisposition h) []
     (\<lambda>l. let f = after (after l ''filename'') ''='';
              f1 = (if contains f '';'' then before f '';'' else f);
              f2 = removeWhiteSpace f1
          in if contains f2 dquote then before (after f2 dquote) dquote else f2)"

definition getContentType :: "http_header \<Rightarrow> string option" where
  "getContentType h = with_line h (pcontenttype h) ''-''
     (\<lambda>l. let m = after l '' '' in
          if length m < 1 then ''-''
          else let m1 = chop m;
                   m2 = (if contains m1 '' '' then before m1 '' '' else m1);
                   m3 = (if contains m2 '';'' then before m2 '';'' else m2)
               in toLower m3)"

definition getMIMEBoundary :: "http_header \<Rightarrow> string option" where
  "getMIMEBoundary h = with_line h (pcontenttype h) []
     (\<lambda>l. let b = chop (after l '' '') in
          if \<not> contains b ''boundary='' then []
          else let b1 = after b ''boundary='';
                   b2 = (if contains b1 '';'' then after b1 '';'' else b1)
               in if char_at b2 0 = CHR 0x22 then chop (lop b2) else b2)"

definition isContentType :: "string list \<Rightarrow> http_header \<Rightarrow> string \<Rightarrow> bool option" where
  "isContentType text_mime h t =
     map_option (\<lambda>mime. startsWith mime t \<or> t = ''text'' \<and> list_ex (startsWith mime) text_mime) (getContentType h)"

definition getXForwardedForIP :: "http_header \<Rightarrow> string option" where
  "getXForwardedForIP h = with_line h (pxforwardedfor h) [] (\<lambda>l. cstr (chop (after l '': '')))"

definition isRedirection :: "http_header \<Rightarrow> bool" where
  "isRedirection h =
     (if header h = [] then False
      else let answer = before (after (hd (header h)) '' '') '' '' in
           char_at answer 0 = CHR ''3'' \<and> length answer = 3)"

definition getRawAuthData :: "http_header \<Rightarrow> string option" where
  "getRawAuthData h = with_line h (pproxyauthorization h) [] (\<lambda>l. after (after l '' '') '' '')"

text \<open>\<^verbatim>\<open>resize\<close> to the length less one: for an empty text that is more than any text may have, and the
  exception it raises is \<open>None\<close>, as is a pointer to a line that is gone.\<close>

definition getAuthHeader :: "http_header \<Rightarrow> string option" where
  "getAuthHeader h =
     (case with_line h (pheaderident h) None (\<lambda>l. Some (after l '' '')) of
        None \<Rightarrow> None
      | Some None \<Rightarrow> Some []
      | Some (Some v) \<Rightarrow> if v = [] then None else Some (butlast v))"

definition isCompressed :: "http_header \<Rightarrow> bool option" where
  "isCompressed h = with_line h (pcontentencoding h) False (\<lambda>l. indexOf l ''identity'' = - 1)"

definition contentEncoding :: "http_header \<Rightarrow> string option" where
  "contentEncoding h = with_line h (pcontentencoding h) [] (\<lambda>l. toLower (after l '': ''))"

definition transferEncoding :: "http_header \<Rightarrow> string option" where
  "transferEncoding h = with_line h (ptransferencoding h) [] (\<lambda>l. toLower (after l '': ''))"


section \<open>The URL of a request\<close>

text \<open>A port that is out of range is the default one; the member is an unsigned number, the local
  variable of \<^verbatim>\<open>setURL\<close> a signed one.\<close>

definition default_port :: "bool \<Rightarrow> nat" where
  "default_port https = (if https then 443 else 80)"

definition port_member :: "bool \<Rightarrow> string \<Rightarrow> nat" where
  "port_member https s =
     (let p = nat (toInteger s mod 2 ^ 32) in if p = 0 \<or> p > 65535 then default_port https else p)"

definition port_local :: "bool \<Rightarrow> string \<Rightarrow> int" where
  "port_local https s =
     (let p = toInteger s in if p = 0 \<or> p > 65535 then int (default_port https) else p)"

lemma endsWith_shorter: "endsWith s ''.'' \<Longrightarrow> length (chop s) < length s"
  by (auto simp: endsWith_def chop_def split: if_splits)

function strip_dots :: "string \<Rightarrow> string" where
  "strip_dots s = (if endsWith s ''.'' then strip_dots (chop s) else s)"
  by pat_completeness auto
termination
  by (relation "measure length") (auto dest: endsWith_shorter)

declare strip_dots.simps [simp del]

text \<open>The text between the first two blanks of the first line, up to the protocol version.\<close>

definition request_target :: "string \<Rightarrow> string" where
  "request_target line =
     (let a = removeMultiChar (after line '' '') (CHR '' '') in
      if startsWith (after a '' '') ''HTTP/'' then before a '' HTTP/'' else before a '' http/'')"

definition host_port :: "bool \<Rightarrow> bool \<Rightarrow> nat \<Rightarrow> string \<Rightarrow> string \<times> nat" where
  "host_port https withport p0 hostname =
     (let p = (if contains hostname '':'' then port_member https (after hostname '':'') else p0);
          h1 = strip_dots (if contains hostname '':'' then before hostname '':'' else hostname);
          h2 = (if withport \<and> p \<noteq> default_port https then h1 @ '':'' @ nat_str p else h1)
      in (h2, p))"

text \<open>The URL of a target that has a scheme.\<close>

definition absolute_url :: "bool \<Rightarrow> bool \<Rightarrow> nat \<Rightarrow> string \<Rightarrow> string \<times> nat" where
  "absolute_url https withport p0 answer =
     (let a = (if \<not> contains (after answer ''://'') ''/'' then answer @ ''/'' else answer);
          protocol = before a ''://'';
          hostname = after a ''://'';
          u0 = removeWhiteSpace (after hostname ''/'');
          h0 = (if endsWith hostname ''.'' then chop hostname else hostname);
          u = (if u0 \<noteq> [] then ''/'' @ u0 else u0);
          h1 = before h0 ''/'';
          userpassword = (if contains h1 ''@'' then before h1 ''@'' else []);
          h2 = (if contains h1 ''@'' then after h1 ''@'' else h1);
          (h3, p) = host_port https withport p0 h2
      in (if userpassword \<noteq> [] then protocol @ ''://'' @ userpassword @ ''@'' @ h3 @ u
          else protocol @ ''://'' @ h3 @ u, p))"

text \<open>The URL of a target that is a path: the host comes from the host line, if there is one.\<close>

definition origin_url :: "bool \<Rightarrow> bool \<Rightarrow> nat \<Rightarrow> string \<Rightarrow> http_header \<Rightarrow> (string \<times> nat) option" where
  "origin_url https withport p0 a h =
     with_line h (phost h) (a, p0)
       (\<lambda>v. case host_port https withport p0 (removeWhiteSpace (after v '' '')) of (hn, p) \<Rightarrow> (''http://'' @ hn @ a, p))"

text \<open>The URL of the target, the port, and the first line, which becomes absolute.\<close>

definition url_from :: "bool \<Rightarrow> bool \<Rightarrow> nat \<Rightarrow> string \<Rightarrow> http_header \<Rightarrow> (string \<times> http_header) option" where
  "url_from https withport p0 a h =
     (if a = [] then Some (a, h\<lparr>port := p0\<rparr>)
      else if hd a = CHR ''/'' then
        map_option (\<lambda>(answer, p). (answer, h\<lparr>port := p,
            header := (requesttype h @ '' '' @ answer @ '' HTTP/'' @ after (hd (header h)) '' HTTP/'') # tl (header h)\<rparr>))
          (origin_url https withport p0 a h)
      else case absolute_url https withport p0 a of (answer, p) \<Rightarrow> Some (answer, h\<lparr>port := p\<rparr>))"

definition getUrl :: "bool \<Rightarrow> bool \<Rightarrow> http_header \<Rightarrow> (string \<times> http_header) option" where
  "getUrl withport isssl h0 =
     (if cachedurl h0 \<noteq> [] \<and> \<not> withport then Some (cachedurl h0, h0)
      else let h = (if isssl then h0\<lparr>port := 80, mitm := True, hh_isdirect := True\<rparr> else h0\<lparr>port := 80\<rparr>) in
      if header h = [] then Some ([], h)
      else let a0 = request_target (hd (header h));
               https = (requesttype h = ''CONNECT'');
               a1 = (if https \<and> \<not> startsWith a0 ''https://'' then ''https://'' @ a0 else a0)
      in case with_line h (pport h) (default_port https) (\<lambda>v. port_member https (after v '' '')) of
           None \<Rightarrow> None
         | Some p0 \<Rightarrow>
             map_option (\<lambda>(answer, h'). (answer, if withport then h' else h'\<lparr>cachedurl := cstr answer\<rparr>))
               (url_from https withport p0 a1 h))"

definition getLogUrl :: "bool \<Rightarrow> bool \<Rightarrow> http_header \<Rightarrow> (string \<times> http_header) option" where
  "getLogUrl withport isssl h =
     map_option (\<lambda>(answer, h'). (if mitm h' \<or> isssl then ''https://'' @ after answer ''://'' else answer, h'))
       (getUrl withport isssl h)"

text \<open>The host name and the port of a URL with a slash behind the host.\<close>

definition url_host_port :: "bool \<Rightarrow> string \<Rightarrow> string \<times> int" where
  "url_host_port https u =
     (let n0 = before (after u ''://'') ''/'';
          n1 = (if contains n0 ''@'' then after n0 ''@'' else n0)
      in if contains n1 '':'' then (before n1 '':'', port_local https (after n1 '':''))
         else (n1, int (default_port https)))"

text \<open>The first line and the host line with a new URL.\<close>

definition url_first :: "bool \<Rightarrow> string \<Rightarrow> string \<Rightarrow> int \<Rightarrow> string \<Rightarrow> string" where
  "url_first https u n p l0 =
     before l0 '' '' @ '' ''
       @ (if https \<and> startsWith l0 ''CONNECT'' then n @ '':'' @ int_str p else u)
       @ '' '' @ after (after l0 '' '') '' ''"

definition host_line :: "bool \<Rightarrow> string \<Rightarrow> int \<Rightarrow> string" where
  "host_line https n p = ''Host: '' @ n @ (if p \<noteq> int (default_port https) then '':'' @ int_str p else []) @ cr"

text \<open>\<^verbatim>\<open>setURL\<close>: the URL, to which it may add a slash, and the header.\<close>

definition setURL :: "string \<Rightarrow> http_header \<Rightarrow> (string \<times> http_header) option" where
  "setURL url h =
     (if header h = [] then Some (url, h)
      else let https = (before url ''://'' = ''https'' \<or> requesttype h = ''CONNECT'');
               u = (if \<not> contains (after url ''://'') ''/'' then url @ ''/'' else url)
           in case url_host_port https u of
             (n, p) \<Rightarrow>
               (case set_line (h\<lparr>header := url_first https u n p (hd (header h)) # tl (header h)\<rparr>) (phost h) (\<lambda>v. host_line https n p) of
                  None \<Rightarrow> None
                | Some h2 \<Rightarrow>
                    map_option (\<lambda>h3. (u, h3\<lparr>cachedurl := []\<rparr>)) (set_line h2 (pport h2) (\<lambda>v. ''Port: '' @ int_str p @ cr))))"

text \<open>\<^verbatim>\<open>setConnect\<close> removes all lines but the first and clears only the pointer to the host line.\<close>

definition drop_lines :: "http_header \<Rightarrow> http_header" where
  "drop_lines h =
     h\<lparr>header := take 1 (header h), pheaderident := gone (pheaderident h), ptransfercoding := gone (ptransfercoding h),
       ptransferencoding := gone (ptransferencoding h), phost := gone (phost h), pport := gone (pport h),
       pcontentlength := gone (pcontentlength h), pcontenttype := gone (pcontenttype h),
       pproxyauthorization := gone (pproxyauthorization h), pauthorization := gone (pauthorization h),
       pproxyauthenticate := gone (pproxyauthenticate h), pcontentdisposition := gone (pcontentdisposition h),
       puseragent := gone (puseragent h), pxforwardedfor := gone (pxforwardedfor h),
       pcontentencoding := gone (pcontentencoding h), pproxyconnection := gone (pproxyconnection h),
       pkeepalive := gone (pkeepalive h)\<rparr>"

definition setConnect :: "string \<Rightarrow> http_header \<Rightarrow> http_header" where
  "setConnect con_site h =
     (if header h = [] \<or> requesttype h \<noteq> ''CONNECT'' then h
      else let l0 = hd (header h);
               h1 = h\<lparr>header := (before l0 '' '' @ '' '' @ con_site @ '':'' @ nat_str (port h) @ '' '' @ after (after l0 '' '') '' '') # tl (header h)\<rparr>
           in (if length (header h1) > 1 then drop_lines h1 else h1)\<lparr>phost := Null\<rparr>)"


section \<open>Changes of the header\<close>

definition push_line :: "string \<Rightarrow> http_header \<Rightarrow> http_header" where
  "push_line v h = h\<lparr>header := header h @ [v]\<rparr>"

definition addXForwardedFor :: "string \<Rightarrow> http_header \<Rightarrow> http_header" where
  "addXForwardedFor clientip h =
     (if \<not> hh_isdirect h then push_line (cstr (''X-Forwarded-For: '' @ clientip @ cr)) h else h)"

definition setContentLength :: "int \<Rightarrow> http_header \<Rightarrow> http_header option" where
  "setContentLength newlen h =
     map_option (\<lambda>h'. h'\<lparr>contentlength := newlen, clcached := True\<rparr>)
       (set_line h (pcontentlength h) (\<lambda>v. ''Content-Length: '' @ int_str newlen @ cr))"

definition removeEncoding :: "int \<Rightarrow> http_header \<Rightarrow> http_header option" where
  "removeEncoding newlen h =
     (case set_line h (pcontentlength h) (\<lambda>v. ''Content-Length: '' @ int_str newlen @ cr) of
        None \<Rightarrow> None
      | Some h' \<Rightarrow> set_line h' (pcontentencoding h') (\<lambda>v. ''X-DansGuardian-Removed: Content-Encoding'' @ cr))"

text \<open>The connection line is changed by a function of the old line, or added.\<close>

definition put_connection :: "(string \<Rightarrow> string) \<Rightarrow> string \<Rightarrow> http_header \<Rightarrow> http_header option" where
  "put_connection f new h =
     (if pproxyconnection h \<noteq> Null then set_line h (pproxyconnection h) f
      else Some ((push_line new h)\<lparr>pproxyconnection := At (length (header h))\<rparr>))"

definition makePersistent :: "bool \<Rightarrow> http_header \<Rightarrow> http_header option" where
  "makePersistent persist h =
     (if persist then
        (if waspersistent h \<and> \<not> ispersistent h then
           map_option (\<lambda>h'. h'\<lparr>ispersistent := True\<rparr>)
             (put_connection (\<lambda>v. before v '':'' @ '': keep-alive'' @ cr) (''Connection: keep-alive'' @ cr) h)
         else Some h)
      else if ispersistent h then
        map_option (\<lambda>h'. h'\<lparr>ispersistent := False\<rparr>)
          (put_connection (\<lambda>v. before v '':'' @ '': close'' @ cr) (''Connection: close'' @ cr) h)
      else Some h)"

definition makeTransparent :: "bool \<Rightarrow> http_header \<Rightarrow> http_header option" where
  "makeTransparent incoming h =
     (if header h = [] then Some h
      else if incoming then
        (case set_line h (pproxyconnection h) (\<lambda>v. ''Connection:'' @ after v '':'') of
           None \<Rightarrow> None
         | Some h1 \<Rightarrow>
             map_option (\<lambda>h2. if returncode h2 = 407
                 then h2\<lparr>header := (before (hd (header h2)) '' '' @ '' 401 '' @ after (after (hd (header h2)) '' '') '' '') # tl (header h2)\<rparr>
                 else h2)
               (set_line h1 (pproxyauthenticate h1) (\<lambda>v. ''WWW-Authenticate:'' @ after v '':'')))
      else
        (case set_line h (pauthorization h) (\<lambda>v. ''Proxy-Authorization:'' @ after v '':'') of
           None \<Rightarrow> None
         | Some h1 \<Rightarrow>
             (let h2 = (if pauthorization h1 \<noteq> Null then h1\<lparr>pproxyauthorization := pauthorization h1, pauthorization := Null\<rparr> else h1) in
              case set_line h2 (pproxyconnection h2) (\<lambda>v. ''Connection:'' @ after v '':'') of
                None \<Rightarrow> None
              | Some h3 \<Rightarrow> map_option snd (getUrl False False h3))))"

text \<open>The encodings the filter understands, of those the client accepts.\<close>

definition modifyEncodings :: "string \<Rightarrow> string" where
  "modifyEncodings e0 =
     (let e = toLower e0 in
      ''Accept-Encoding: identity'' @ (if contains e ''gzip'' then '',gzip'' else [])
        @ (if contains e ''deflate'' then '',deflate'' else [])
        @ (if contains e ''pack200-gzip'' then '',pack200-gzip'' else []))"

definition addHeader :: "string \<Rightarrow> http_header \<Rightarrow> bool \<times> http_header" where
  "addHeader newheader h =
     (if newheader \<noteq> [] then (True, push_line (cstr (newheader @ cr)) (h\<lparr>isheaderadded := True, addheaderchecked := True\<rparr>))
      else (False, h))"

definition setPostData :: "string \<Rightarrow> http_header \<Rightarrow> http_header" where
  "setPostData data h = h\<lparr>postdata := data\<rparr>"

definition setClientIP :: "string \<Rightarrow> http_header \<Rightarrow> http_header" where
  "setClientIP ip h = h\<lparr>s_clientip := cstr ip\<rparr>"

definition setDirect :: "http_header \<Rightarrow> http_header" where
  "setDirect h = h\<lparr>hh_isdirect := True\<rparr>"


section \<open>Checking a header\<close>

definition ignore_host :: string where
  "ignore_host = ''X-E2G-IgnoreMe: removed multiple host headers'' @ cr"

definition ignore_upgrade :: string where
  "ignore_upgrade = ''X-E2G-IgnoreMe: removed upgrade-insecure-requests'' @ cr"

definition put_line :: "nat \<Rightarrow> string \<Rightarrow> http_header \<Rightarrow> http_header" where
  "put_line i v h = h\<lparr>header := (header h)[i := v]\<rparr>"

text \<open>The chain of cases for one line.\<close>

definition index_line :: "nat \<Rightarrow> http_header \<Rightarrow> http_header" where
  "index_line i h =
     (let outgoing = \<not> is_response h; v = header h ! i; is = startsWithLower v in
      if outgoing \<and> phost h = Null \<and> is ''host:'' then h\<lparr>phost := At i\<rparr>
      else if outgoing \<and> phost h \<noteq> Null \<and> is ''host:'' then put_line i ignore_host h
      else if outgoing \<and> puseragent h = Null \<and> is ''user-agent:'' then
        (case headerVal v of (ok, u) \<Rightarrow> h\<lparr>useragent := u, puseragent := (if ok then At i else Null)\<rparr>)
      else if outgoing \<and> is ''accept-encoding:'' then
        put_line i (modifyEncodings (''Accept-Encoding:'' @ after v '':'') @ cr) h
      else if \<not> outgoing \<and> pcontentencoding h = Null \<and> is ''content-encoding:'' then h\<lparr>pcontentencoding := At i\<rparr>
      else if \<not> outgoing \<and> pkeepalive h = Null \<and> is ''keep-alive:'' then h\<lparr>pkeepalive := At i\<rparr>
      else if pcontenttype h = Null \<and> is ''content-type:'' then h\<lparr>pcontenttype := At i\<rparr>
      else if pcontentlength h = Null \<and> is ''content-length:'' then
        (case headerVal v of (ok, tp) \<Rightarrow> if ok then h\<lparr>pcontentlength := At i, contentlength := toOffset tp\<rparr> else h)
      else if pcontentdisposition h = Null \<and> is ''content-disposition:'' then h\<lparr>pcontentdisposition := At i\<rparr>
      else if pproxyauthorization h = Null \<and> is ''proxy-authorization:'' then h\<lparr>pproxyauthorization := At i\<rparr>
      else if pauthorization h = Null \<and> is ''authorization:'' then h\<lparr>pauthorization := At i\<rparr>
      else if pproxyauthenticate h = Null \<and> is ''proxy-authenticate:'' then h\<lparr>pproxyauthenticate := At i\<rparr>
      else if pproxyconnection h = Null \<and> (is ''proxy-connection:'' \<or> is ''connection:'') then h\<lparr>pproxyconnection := At i\<rparr>
      else if outgoing \<and> pxforwardedfor h = Null \<and> is ''x-forwarded-for:'' then h\<lparr>pxforwardedfor := At i\<rparr>
      else if outgoing \<and> pport h = Null \<and> is ''port:'' then h\<lparr>pport := At i\<rparr>
      else if is ''transfer-encoding:'' then h\<lparr>ptransferencoding := At i, chunked := (chunked h \<or> contains v ''chunked'')\<rparr>
      else if is ''transfer-coding:'' then h\<lparr>ptransfercoding := At i\<rparr>
      else if is ''expect: 100-continue'' then h\<lparr>expects_100 := True\<rparr>
      else h)"

text \<open>One pass of the loop, with the name \<open>ident\<close> of the configured identification header.\<close>

definition check_line :: "string \<Rightarrow> nat \<Rightarrow> http_header \<Rightarrow> http_header" where
  "check_line ident i h =
     (let h1 = index_line i h; outgoing = \<not> is_response h;
          h2 = (if outgoing \<and> startsWithLower (header h1 ! i) ''upgrade-insecure-requests:'' then put_line i ignore_upgrade h1 else h1)
      in if ident \<noteq> [] \<and> outgoing \<and> pheaderident h2 = Null \<and> startsWithLower (header h2 ! i) ident
         then h2\<lparr>pheaderident := At i\<rparr> else h2)"

definition check_lines :: "string \<Rightarrow> http_header \<Rightarrow> http_header" where
  "check_lines ident h = fold (check_line ident) [1..<length (header h)] h"

text \<open>The type of a request or the status of a response, from the first line.\<close>

definition check_first :: "string \<Rightarrow> http_header \<Rightarrow> http_header" where
  "check_first firstline h =
     (if \<not> is_response h then
        (let rt = before firstline '' '' in
         h\<lparr>requesttype := rt, contentlength := (if \<not> startsWith rt ''P'' then 0 else contentlength h),
           isProxyRequest := \<not> startsWith (after firstline '' '') ''/''\<rparr>)
      else
        (let rc = toInteger (removeWhiteSpace (before (after firstline '' '') '' '')) in
         h\<lparr>returncode := rc, contentlength := (if rc < 200 \<or> rc = 204 \<or> rc = 304 then 0 else contentlength h)\<rparr>))"

text \<open>Whether the connection may stay open after this header, and the marks and lines that say so.\<close>

definition check_persistence :: "string \<Rightarrow> bool \<Rightarrow> http_header \<Rightarrow> http_header option" where
  "check_persistence firstline allowpersistent h =
     (case (if icap h then Some False else with_line h (pproxyconnection h) True (\<lambda>v. contains v ''lose'')) of
        None \<Rightarrow> None
      | Some connectionclose \<Rightarrow>
          (let outgoing = \<not> is_response h;
               onepointone = startsWith (after firstline ''HTTP/'') ''1.1'';
               isconnect = (outgoing \<and> char_at firstline 0 = CHR ''C'');
               ap = (allowpersistent \<and> \<not> (connectionclose
                 \<or> \<not> onepointone \<and> (if outgoing then isconnect else pcontentlength h = Null)));
               h1 = (if \<not> icap h \<and> \<not> connectionclose \<and> (if outgoing then isconnect else pcontentlength h \<noteq> Null)
                     then h\<lparr>waspersistent := True\<rparr> else h);
               conn = (if ap then ''Connection: keep-alive'' @ cr else ''Connection: close'' @ cr)
           in map_option (\<lambda>h2. h2\<lparr>ispersistent := ap\<rparr>)
                (if \<not> icap h then put_connection (\<lambda>v. conn) conn h1 else Some h1)))"

definition checkheader :: "string \<Rightarrow> bool \<Rightarrow> http_header \<Rightarrow> http_header option" where
  "checkheader ident allowpersistent h =
     (if header h = [] then Some (h\<lparr>ispersistent := False\<rparr>)
      else let firstline = hd (header h) in
      case check_persistence firstline allowpersistent (check_first firstline (check_lines ident h)) of
        None \<Rightarrow> None
      | Some h1 \<Rightarrow>
          if is_response h1 then Some h1
          else (case getUrl True False h1 of
                  None \<Rightarrow> None
                | Some (newurl, h2) \<Rightarrow> map_option snd (setURL newurl h2)))"


section \<open>Reading and writing\<close>

text \<open>The loop over the lines that the socket gives: \<open>None\<close> is a failed read or a line that is too long.\<close>

fun in_loop :: "nat \<Rightarrow> bool \<Rightarrow> string option list \<Rightarrow> http_header \<Rightarrow> bool \<times> http_header \<times> string option list" where
  "in_loop max_lines firsttime [] h = (False, h\<lparr>ispersistent := False\<rparr>, [])"
| "in_loop max_lines firsttime (None # ls) h = (False, h\<lparr>ispersistent := False\<rparr>, ls)"
| "in_loop max_lines firsttime (Some buff # ls) h =
     (if length (header h) > max_lines then (False, h\<lparr>ispersistent := False\<rparr>, ls)
      else let line = cstr buff in
        if firsttime \<and> is_response h
           \<and> \<not> (length line > 11 \<and> startsWith line ''HTTP/'' \<and> toInteger (before (after line '' '') '' '') > 99)
        then (False, h, ls)
        else let disc = (firsttime \<and> length line \<le> 3); h' = (if disc then h else push_line line h) in
          if length line > 3 \<or> disc then in_loop max_lines False ls h' else (True, h', ls))"

definition hh_in :: "nat \<Rightarrow> string \<Rightarrow> bool \<Rightarrow> string option list \<Rightarrow> http_header \<Rightarrow> (bool \<times> http_header \<times> string option list) option" where
  "hh_in max_lines ident allowpersistent ls h =
     (case in_loop max_lines True ls ((hh_reset h)\<lparr>dirty := True\<rparr>) of
        (ok, h1, rest) \<Rightarrow>
          if \<not> ok \<or> header h1 = [] then Some (False, h1, rest)
          else let h2 = h1\<lparr>header := butlast (header h1)\<rparr> in
            if header h2 = [] then Some (False, h2, rest)
            else map_option (\<lambda>h3. (True, h3, rest)) (checkheader ident allowpersistent h2))"

fun in_handle_100_loop :: "nat \<Rightarrow> nat \<Rightarrow> string \<Rightarrow> bool \<Rightarrow> bool \<Rightarrow> string option list \<Rightarrow> http_header
    \<Rightarrow> (bool \<times> http_header \<times> string option list) option" where
  "in_handle_100_loop 0 max_lines ident ap expect_100 ls h = Some (False, h, ls)"
| "in_handle_100_loop (Suc k) max_lines ident ap expect_100 ls h =
     (case hh_in max_lines ident ap ls h of
        None \<Rightarrow> None
      | Some (False, h', rest) \<Rightarrow> Some (False, h', rest)
      | Some (True, h', rest) \<Rightarrow>
          if \<not> expect_100 \<and> returncode h' = 100 then in_handle_100_loop k max_lines ident ap expect_100 rest h'
          else Some (True, h', rest))"

definition in_handle_100 :: "nat \<Rightarrow> string \<Rightarrow> bool \<Rightarrow> bool \<Rightarrow> string option list \<Rightarrow> http_header
    \<Rightarrow> (bool \<times> http_header \<times> string option list) option" where
  "in_handle_100 = in_handle_100_loop 4"

definition crlf :: string where
  "crlf = [CHR 0x0D, CHR 0x0A]"

definition lf :: string where
  "lf = [CHR 0x0A]"

definition sent_lines :: "string list \<Rightarrow> string" where
  "sent_lines hs = concat (map (\<lambda>v. v @ lf) (filter (\<lambda>v. \<not> startsWith v ''X-E2G-IgnoreMe'') hs))"

definition stringHeader :: "http_header \<Rightarrow> string" where
  "stringHeader h = (if header h \<noteq> [] then sent_lines (header h) @ crlf else [])"

text \<open>A write that may be tried once more after a new connection: whether it succeeded, what was sent,
  whether another attempt is left, and the outcomes of the writes that are still to come.\<close>

definition write_retry :: "bool \<Rightarrow> bool \<Rightarrow> string \<Rightarrow> string \<Rightarrow> bool list \<Rightarrow> bool \<times> string list \<times> bool \<times> bool list" where
  "write_retry reconnect connects v again ws =
     (case ws of
        True # r \<Rightarrow> (True, [v], reconnect, r)
      | _ \<Rightarrow>
          if reconnect \<and> connects then
            (case tl ws of True # r \<Rightarrow> (True, [again], False, r) | _ \<Rightarrow> (False, [], False, tl (tl ws)))
          else (False, [], False, tl ws))"

datatype sendflag = SENDALL | SENDFIRSTLINE | SENDREST

text \<open>\<^verbatim>\<open>out\<close>: whether it succeeded, the texts written, and the header. \<open>ssl_client\<close> says that the socket is
  a TLS connection to a server, \<open>forwarded_for\<close> is an option, and \<open>tunnel\<close> is the outcome of passing on a
  body when the peer is connected.\<close>

definition first_out :: "http_header \<Rightarrow> string" where
  "first_out h =
     (if hh_isdirect h \<and> \<not> is_response h
      then before (hd (header h)) '' '' @ '' /'' @ before (after (after (hd (header h)) ''://'') ''/'') '' '' @ '' HTTP/1.1'' @ crlf
      else hd (header h) @ lf)"

definition rest_out :: "bool \<Rightarrow> http_header \<Rightarrow> string" where
  "rest_out forwarded_for h =
     sent_lines (tl (header h))
       @ (if \<not> is_response h \<and> forwarded_for \<and> \<not> hh_isdirect h then ''X-Forwarded-For: '' @ s_clientip h @ crlf else []) @ crlf"

definition body_out :: "(int \<Rightarrow> bool) option \<Rightarrow> http_header \<Rightarrow> bool list \<Rightarrow> bool \<times> string list" where
  "body_out tunnel h ws =
     (if postdata h \<noteq> [] then (case ws of True # _ \<Rightarrow> (True, [postdata h]) | _ \<Rightarrow> (False, []))
      else case tunnel of
        None \<Rightarrow> (True, [])
      | Some t \<Rightarrow> (if \<not> startsWith (requesttype h) ''HTTP'' \<and> pcontentlength h \<noteq> Null then t (contentlength h) else True, []))"

definition hh_out :: "(int \<Rightarrow> bool) option \<Rightarrow> bool \<Rightarrow> bool \<Rightarrow> bool \<Rightarrow> sendflag \<Rightarrow> bool \<Rightarrow> bool list \<Rightarrow> http_header
    \<Rightarrow> bool \<times> string list \<times> http_header" where
  "hh_out tunnel ssl_client forwarded_for connects flag reconnect ws h0 =
     (let h = (if flag \<noteq> SENDREST \<and> header h0 \<noteq> [] \<and> ssl_client then setDirect h0 else h0);
          (ok, sent, left, ws1) = (if flag \<noteq> SENDREST \<and> header h \<noteq> []
             then write_retry (reconnect \<and> \<not> hh_isdirect h) connects (first_out h) (first_out h) ws
             else (True, [], reconnect \<and> \<not> hh_isdirect h, ws))
      in if \<not> ok then (False, sent, h)
         else if flag = SENDFIRSTLINE then (True, sent, h)
         else let l2 = rest_out forwarded_for h;
                  (ok2, sent2, _, ws2) = write_retry (left \<and> header h \<noteq> []) connects l2 (hd (header h) @ lf @ l2) ws1
              in if \<not> ok2 then (False, sent @ sent2, h)
                 else case body_out tunnel h ws2 of (ok3, sent3) \<Rightarrow> (ok3, sent @ sent2 @ sent3, h))"

text \<open>\<^verbatim>\<open>discard\<close>: what is left of the length after the reads of the given sizes; -2 stands for the length
  of the body.\<close>

fun discard_loop :: "int \<Rightarrow> int list \<Rightarrow> int" where
  "discard_loop cl [] = cl"
| "discard_loop cl (rc # rcs) = (if cl > 0 then if rc > 0 then discard_loop (cl - rc) rcs else cl else cl)"

definition discard :: "int \<Rightarrow> int list \<Rightarrow> http_header \<Rightarrow> int" where
  "discard cl rcs h = discard_loop (if cl = - 2 then contentlength h else cl) rcs"


section \<open>Malformed URLs\<close>

definition obf_char :: "char \<Rightarrow> bool" where
  "obf_char c = (c_isxdigit c \<or> c \<in> {CHR ''.'', CHR ''x'', CHR ''X''})"

definition host_char :: "char \<Rightarrow> bool" where
  "host_char c = (c_isalnum c \<or> c \<in> {CHR ''.'', CHR ''-'', CHR ''_''})"

text \<open>The loop over the bytes of the host: \<open>None\<close> for a bad byte, otherwise whether a byte rules out an
  obscured address.\<close>

fun host_loop :: "bool \<Rightarrow> string \<Rightarrow> bool option" where
  "host_loop containsletter [] = Some containsletter"
| "host_loop containsletter (c # r) =
     (if \<not> host_char c then None else host_loop (containsletter \<or> \<not> obf_char c) r)"

definition c_isletter :: "char \<Rightarrow> bool" where
  "c_isletter c = (c_islower c \<or> c_isupper c)"

definition part_obscured :: "string \<Rightarrow> bool" where
  "part_obscured p = (if char_at p 0 = CHR ''0'' \<and> length p > 1 then True else toInteger p < 0 \<or> toInteger p > 255)"

text \<open>The loop over the parts of a host without other letters.\<close>

lemma after_shorter: "contains s ''.'' \<Longrightarrow> length (after s ''.'') < length s"
  by (auto simp: contains_def indexOf_def after_def split: if_splits option.splits)

function parts_loop :: "bool \<Rightarrow> string \<Rightarrow> bool" where
  "parts_loop obfuscation host =
     (let part = (if contains host ''.'' then before host ''.'' else host);
          o' = (obfuscation \<or> part_obscured part)
      in if c_isletter (char_at part 0) then False
         else if contains host ''.'' then parts_loop o' (after host ''.'') else o')"
  by pat_completeness auto
termination
  by (relation "measure (\<lambda>(_, s). length s)") (auto dest: after_shorter)

declare parts_loop.simps [simp del]

definition malformedURL :: "string \<Rightarrow> bool" where
  "malformedURL url =
     (let h0 = after url ''://'';
          h1 = (if contains h0 ''/'' then before h0 ''/'' else h0)
      in if length h1 < 2 then True
         else let h2 = (if contains h1 '':'' then before h1 '':'' else h1) in
           if contains h2 ''..'' then True
           else case host_loop False h2 of
             None \<Rightarrow> True
           | Some True \<Rightarrow> False
           | Some False \<Rightarrow> parts_loop False (if endsWith h2 ''.'' then chop h2 else h2))"


section \<open>Bypass cookies\<close>

text \<open>The marks of a bypass in a URL.\<close>

definition chop_mark :: "string \<Rightarrow> string \<Rightarrow> string \<Rightarrow> string" where
  "chop_mark url mark line =
     (let m = (if contains url (''?'' @ mark) then ''?'' @ mark else ''&'' @ mark) in
      before line m @ after line (cstr (after url m)))"

definition chopBypass :: "string \<Rightarrow> bool \<Rightarrow> http_header \<Rightarrow> http_header" where
  "chopBypass url infectionbypass h =
     (let mark = (if infectionbypass then ''GIBYPASS='' else ''GBYPASS='') in
      if header h = [] then h
      else if contains url mark then h\<lparr>header := chop_mark url mark (hd (header h)) # tl (header h), cachedurl := []\<rparr>
      else h\<lparr>cachedurl := []\<rparr>)"

definition chopScanBypass :: "string \<Rightarrow> http_header \<Rightarrow> http_header" where
  "chopScanBypass url h =
     (if header h = [] then h
      else if contains url ''GSBYPASS='' then h\<lparr>header := chop_mark url ''GSBYPASS='' (hd (header h)) # tl (header h), cachedurl := []\<rparr>
      else h\<lparr>cachedurl := []\<rparr>)"

definition cookie_line :: "string \<Rightarrow> string \<Rightarrow> string \<Rightarrow> string" where
  "cookie_line cookie old v =
     (if startsWithLower v ''cookie:'' then
        let t = after v '': '' in
        if contains t cookie then
          (let t1 = lop (after t cookie) in if contains t1 '';'' then before t1 '';'' else t1)
        else t
      else old)"

definition getCookie :: "string \<Rightarrow> http_header \<Rightarrow> string" where
  "getCookie cookie h = removeWhiteSpace (foldl (cookie_line cookie) [] (header h))"

definition setCookie :: "string \<Rightarrow> string \<Rightarrow> string \<Rightarrow> http_header \<Rightarrow> http_header" where
  "setCookie cookie domain value h =
     push_line (''Set-Cookie: '' @ cookie @ ''='' @ value @ ''; path=/; domain=.'' @ domain @ cr) h"

function cookie_match :: "(string \<Rightarrow> string) \<Rightarrow> string \<Rightarrow> string \<Rightarrow> string \<Rightarrow> bool" where
  "cookie_match md5 mymagic cookiehash url =
     (if contains url ''.'' then
        if md5 (url @ cstr mymagic) = cookiehash then True
        else cookie_match md5 mymagic cookiehash (after url ''.'')
      else False)"
  by pat_completeness auto
termination
  by (relation "measure (\<lambda>(_, _, _, s). length s)") (auto dest: after_shorter)

declare cookie_match.simps [simp del]

text \<open>The time is the number of seconds; a cookie is a hash of 32 digits followed by the time up to which
  it is valid.\<close>

definition isBypassCookie :: "(string \<Rightarrow> string) \<Rightarrow> int \<Rightarrow> string \<Rightarrow> string \<Rightarrow> string \<Rightarrow> string \<Rightarrow> http_header \<Rightarrow> bool" where
  "isBypassCookie md5 timen url magic clientip user h =
     (let cookie = getCookie ''GBYPASS'' h in
      if cookie = [] then False
      else let cookiehash = take 32 cookie;
               cookietime = after cookie (cstr cookiehash)
           in if \<not> cookie_match md5 (magic @ clientip @ user @ cookietime) cookiehash url then False
              else \<not> (toLong cookietime < timen))"

definition getReferer :: "http_header \<Rightarrow> string" where
  "getReferer h =
     removeWhiteSpace (case List.find (\<lambda>v. startsWithLower v ''referer:'') (header h) of None \<Rightarrow> [] | Some v \<Rightarrow> after v '': '')"


section \<open>Coding\<close>

text \<open>A hexadecimal digit as the code computes it.\<close>

definition hexval :: "char \<Rightarrow> nat option" where
  "hexval c =
     (let a = (of_char c :: nat) in
      if 97 \<le> a \<and> a \<le> 102 then Some (a - 87)
      else if 65 \<le> a \<and> a \<le> 70 then Some (a - 55)
      else if 48 \<le> a \<and> a \<le> 57 then Some (a - 48) else None)"

text \<open>\<^verbatim>\<open>String (buf)\<close> of the byte 0 is the empty text.\<close>

definition hexToChar :: "string \<Rightarrow> bool \<Rightarrow> string" where
  "hexToChar n decodeAll =
     (if length n < 2 then n
      else case hexval (n ! 0) of
        None \<Rightarrow> ''%'' @ n
      | Some a \<Rightarrow>
          (case hexval (n ! 1) of
             None \<Rightarrow> ''%'' @ n
           | Some b \<Rightarrow>
               let c = char_of (a * 16 + b) in
               if decodeAll \<or> c_isalnum c \<or> c = CHR ''-'' then cstr [c] else ''%'' @ n))"

fun decode_loop :: "string \<Rightarrow> bool \<Rightarrow> (nat \<times> string) list \<Rightarrow> nat \<Rightarrow> string \<times> nat" where
  "decode_loop s decodeAll [] pos = ([], pos)"
| "decode_loop s decodeAll ((offset, m) # ms) pos =
     (case decode_loop s decodeAll ms (offset + 3) of
        (r, pos') \<Rightarrow>
          ((if offset > pos then take (offset - pos) (drop pos s) else []) @ hexToChar (lop (cstr m)) decodeAll @ r, pos'))"

text \<open>\<^verbatim>\<open>decode\<close> with the library and the compiled expression; \<open>None\<close> is a match that does not end.\<close>

definition decode :: "regex_lib \<Rightarrow> reg_exp \<Rightarrow> string \<Rightarrow> bool \<Rightarrow> string option" where
  "decode lib urldecode_re s decodeAll =
     (if length s < 3 then Some s
      else case re_match lib urldecode_re s reg_result_new of
        None \<Rightarrow> None
      | Some (False, rs) \<Rightarrow> Some s
      | Some (True, rs) \<Rightarrow>
          (case decode_loop s decodeAll (map (\<lambda>i. (rs_offset rs (int i), rs_result rs (int i))) [0..<nat (numberOfMatches rs)]) 0 of
             (r, pos) \<Rightarrow> Some (if length s > pos then r @ drop pos s else r)))"

definition hex_lower :: "nat \<Rightarrow> char" where
  "hex_lower n = (if n < 10 then char_of (48 + n) else char_of (87 + n))"

definition url_char :: "char \<Rightarrow> string" where
  "url_char c =
     (if c_isalnum c then [c]
      else let n = (of_char c :: nat) in [CHR ''%'', hex_lower (n div 16), hex_lower (n mod 16)])"

definition URLEncode :: "http_header \<Rightarrow> (string \<times> http_header) option" where
  "URLEncode h = map_option (\<lambda>(u, h'). (concat (map url_char (cstr u)), h')) (getUrl False False h)"

text \<open>The value of a base64 digit, in bytes that wrap around.\<close>

definition byte_of :: "char \<Rightarrow> 8 word" where
  "byte_of c = of_nat (of_char c)"

definition decode1b64 :: "char \<Rightarrow> 8 word" where
  "decode1b64 c =
     (if c = CHR ''+'' then 62 else if c = CHR ''/'' then 63 else if c = CHR ''='' then 0
      else if \<not> byte_of (CHR ''9'') - byte_of c > 0x3F then byte_of c + 4
      else if \<not> byte_of (CHR ''Z'') - byte_of c > 0x3F then byte_of c - 65
      else if \<not> byte_of (CHR ''z'') - byte_of c > 0x3F then byte_of c - 71
      else 0x80)"

definition four_bytes :: "char \<Rightarrow> char \<Rightarrow> char \<Rightarrow> char \<Rightarrow> string" where
  "four_bytes c0 c1 c2 c3 =
     (let d = (\<lambda>c. ucast (decode1b64 c) :: 64 word);
          four = or (push_bit 6 (or (push_bit 6 (or (push_bit 6 (d c0)) (d c1))) (d c2))) (d c3)
      in [char_of (unat (and (drop_bit 16 four) 0xFF)), char_of (unat (and (drop_bit 8 four) 0xFF)), char_of (unat (and four 0xFF))])"

text \<open>The loop runs while four bytes and one more are left.\<close>

fun decodeb64 :: "string \<Rightarrow> string" where
  "decodeb64 (c0 # c1 # c2 # c3 # c4 # r) = four_bytes c0 c1 c2 c3 @ decodeb64 (c4 # r)"
| "decodeb64 r = []"

definition getAuthData :: "http_header \<Rightarrow> string option" where
  "getAuthData h = with_line h (pproxyauthorization h) [] (\<lambda>l. decodeb64 (after (after l '' '') '' ''))"


section \<open>Pointers\<close>

text \<open>The pointers that \<^verbatim>\<open>reset\<close> clears, and that they point to lines.\<close>

definition ptrs :: "http_header \<Rightarrow> line_ptr set" where
  "ptrs h = {ptransfercoding h, ptransferencoding h, phost h, pport h, pcontentlength h, pcontenttype h,
     pproxyauthorization h, pauthorization h, pproxyauthenticate h, pcontentdisposition h, puseragent h,
     pxforwardedfor h, pcontentencoding h, pproxyconnection h, pkeepalive h}"

definition ptrs_ok :: "http_header \<Rightarrow> bool" where
  "ptrs_ok h \<longleftrightarrow> Gone \<notin> ptrs h \<and> (\<forall>i. At i \<in> ptrs h \<longrightarrow> 0 < i \<and> i < length (header h))"

text \<open>Apart from the first line only the host line is a host line.\<close>

definition single_host :: "nat \<Rightarrow> http_header \<Rightarrow> bool" where
  "single_host n h \<longleftrightarrow> (\<forall>j. 1 \<le> j \<and> j < n \<and> startsWithLower (header h ! j) ''host:'' \<longrightarrow> phost h = At j)"

text \<open>A property of the cases of a chain of tests whatever the tests are.\<close>

lemma if_weak: "P a \<Longrightarrow> P b \<Longrightarrow> P (if c then a else b)"
  by simp

lemma if_cond: "(c \<Longrightarrow> P a) \<Longrightarrow> (\<not> c \<Longrightarrow> P b) \<Longrightarrow> P (if c then a else b)"
  by simp

lemma index_line_frame:
  "length (header (index_line i h)) = length (header h) \<and> is_response (index_line i h) = is_response h
    \<and> dirty (index_line i h) = dirty h
    \<and> (\<forall>j. j \<noteq> i \<longrightarrow> header (index_line i h) ! j = header h ! j) \<and> ptrs (index_line i h) \<subseteq> ptrs h \<union> {Null, At i}"
  unfolding index_line_def Let_def case_prod_unfold
  by (intro if_weak [where P = "\<lambda>x. length (header x) = length (header h) \<and> is_response x = is_response h
      \<and> dirty x = dirty h
      \<and> (\<forall>j. j \<noteq> i \<longrightarrow> header x ! j = header h ! j) \<and> ptrs x \<subseteq> ptrs h \<union> {Null, At i}"])
    (auto simp: ptrs_def put_line_def)

lemma startsWithLower_take:
  "startsWithLower v s \<longleftrightarrow> length s \<le> length v \<and> map c_tolower (take (length s) v) = s"
proof (cases "length s \<le> length v")
  case True
  have "map c_tolower (take (length s) v) = s \<longleftrightarrow> (\<forall>i < length s. c_tolower (v ! i) = s ! i)"
    using True by (simp add: list_eq_iff_nth_eq min_def)
  then show ?thesis using True by (simp add: startsWithLower_def Ball_def)
qed (simp add: startsWithLower_def)

lemma startsWithLower_Cons:
  "startsWithLower (d # v) (c # s) \<longleftrightarrow> c_tolower d = c \<and> startsWithLower v s"
  by (auto simp: startsWithLower_take)

text \<open>A line whose first byte is no \<open>h\<close> is no host line.\<close>

lemma not_host_line: "c_tolower d \<noteq> CHR ''h'' \<Longrightarrow> \<not> startsWithLower (d # v) ''host:''"
  by (simp add: startsWithLower_Cons)

lemma not_host_lines [simp]:
  "\<not> startsWithLower ignore_host ''host:''" "\<not> startsWithLower ignore_upgrade ''host:''"
  "\<not> startsWithLower (modifyEncodings e @ cr) ''host:''" "\<not> startsWithLower (CHR ''C'' # v) ''host:''"
  "\<not> startsWithLower (CHR ''P'' # v) ''host:''"
  unfolding ignore_host_def ignore_upgrade_def modifyEncodings_def Let_def
  by (simp_all add: startsWithLower_Cons c_tolower_def c_isupper_def char_of_def)

lemma index_line_host:
  assumes "i < length (header h)" "\<not> is_response h"
  shows "startsWithLower (header (index_line i h) ! i) ''host:'' \<longrightarrow> phost (index_line i h) = At i"
    "phost (index_line i h) = (if phost h = Null \<and> startsWithLower (header h ! i) ''host:'' then At i else phost h)"
proof -
  have "(phost (index_line i h) = phost h \<and> \<not> startsWithLower (header (index_line i h) ! i) ''host:'')" if "\<not> startsWithLower (header h ! i) ''host:''"
    unfolding index_line_def Let_def case_prod_unfold
    apply (rule if_cond, use that in blast, rule if_cond, use that in blast)
    using that assms
    by (intro if_weak [where P = "\<lambda>x. phost x = phost h \<and> \<not> startsWithLower (header x ! i) ''host:''"])
      (auto simp: put_line_def)
  then show "startsWithLower (header (index_line i h) ! i) ''host:'' \<longrightarrow> phost (index_line i h) = At i"
    "phost (index_line i h) = (if phost h = Null \<and> startsWithLower (header h ! i) ''host:'' then At i else phost h)"
    using assms by (auto simp: index_line_def Let_def put_line_def)
qed


lemma ptrs_simps [simp]:
  "ptrs (h\<lparr>header := a\<rparr>) = ptrs h" "ptrs (h\<lparr>port := b\<rparr>) = ptrs h" "ptrs (h\<lparr>cachedurl := c\<rparr>) = ptrs h"
  "ptrs (h\<lparr>ispersistent := d\<rparr>) = ptrs h" "ptrs (h\<lparr>waspersistent := d\<rparr>) = ptrs h" "ptrs (h\<lparr>pheaderident := q\<rparr>) = ptrs h"
  "ptrs (h\<lparr>mitm := d\<rparr>) = ptrs h" "ptrs (h\<lparr>hh_isdirect := d\<rparr>) = ptrs h"
  by (auto simp: ptrs_def)

lemma phost_ptrs [simp]: "phost h \<in> ptrs h" "pport h \<in> ptrs h" "pproxyconnection h \<in> ptrs h"
  "pcontentlength h \<in> ptrs h" "pcontentencoding h \<in> ptrs h" "pproxyauthenticate h \<in> ptrs h" "pauthorization h \<in> ptrs h"
  by (auto simp: ptrs_def)

text \<open>The host line and the port line are different lines.\<close>

definition ports_apart :: "http_header \<Rightarrow> bool" where
  "ports_apart h \<longleftrightarrow> phost h = Null \<or> pport h \<noteq> phost h"

lemma index_line_ports:
  assumes "\<And>p. At p \<in> ptrs h \<Longrightarrow> 0 < p \<and> p < i" "ports_apart h"
  shows "ports_apart (index_line i h)"
proof -
  have "phost h \<noteq> At i" "pport h \<noteq> At i" using assms(1) phost_ptrs(1,2) less_irrefl by metis+
  then show ?thesis using assms(2) unfolding index_line_def Let_def case_prod_unfold
    by (intro if_weak [where P = ports_apart]) (auto simp: ports_apart_def put_line_def)
qed

lemma check_line_step:
  assumes "1 \<le> i" "i < length (header h)" "\<And>p. At p \<in> ptrs h \<Longrightarrow> 0 < p \<and> p < i" "\<not> is_response h \<Longrightarrow> single_host i h"
  shows "length (header (check_line ident i h)) = length (header h) \<and> is_response (check_line ident i h) = is_response h
    \<and> header (check_line ident i h) ! 0 = header h ! 0
    \<and> (Gone \<in> ptrs (check_line ident i h) \<longrightarrow> Gone \<in> ptrs h) \<and> (\<forall>p. At p \<in> ptrs (check_line ident i h) \<longrightarrow> 0 < p \<and> p < Suc i)
    \<and> (\<not> is_response h \<longrightarrow> single_host (Suc i) (check_line ident i h)) \<and> (ports_apart h \<longrightarrow> ports_apart (check_line ident i h))"
proof -
  define h1 where "h1 = index_line i h"
  note fr = index_line_frame [of i h, folded h1_def]
  define h2 where "h2 = (if \<not> is_response h \<and> startsWithLower (header h1 ! i) ''upgrade-insecure-requests:'' then put_line i ignore_upgrade h1 else h1)"
  have h2: "length (header h2) = length (header h)" "is_response h2 = is_response h" "\<forall>j. j \<noteq> i \<longrightarrow> header h2 ! j = header h ! j"
    "ptrs h2 = ptrs h1" "phost h2 = phost h1" using fr by (auto simp: h2_def put_line_def)
  have up: "header h2 ! i = header h1 ! i \<or> header h2 ! i = ignore_upgrade"
    using assms(2) fr by (auto simp: h2_def put_line_def)
  have "single_host (Suc i) h2" if r: "\<not> is_response h"
    unfolding single_host_def
  proof (intro allI impI)
    fix j
    assume j: "1 \<le> j \<and> j < Suc i \<and> startsWithLower (header h2 ! j) ''host:''"
    note ih = index_line_host [OF assms(2) r, folded h1_def]
    show "phost h2 = At j"
    proof (cases "j = i")
      case True
      then show ?thesis using j up ih(1) h2(5) by auto
    next
      case False
      then have "phost h = At j" using j h2(3) assms(4) [OF r] by (auto simp: single_host_def)
      then show ?thesis using ih(2) h2(5) by simp
    qed
  qed
  moreover have "Gone \<in> ptrs h2 \<longrightarrow> Gone \<in> ptrs h" using fr h2(4) by auto
  moreover have "\<forall>p. At p \<in> ptrs h2 \<longrightarrow> 0 < p \<and> p < Suc i" using fr h2(4) assms(1,3) by fastforce
  moreover have "check_line ident i h = (if ident \<noteq> [] \<and> \<not> is_response h \<and> pheaderident h2 = Null \<and> startsWithLower (header h2 ! i) ident
         then h2\<lparr>pheaderident := At i\<rparr> else h2)"
    unfolding check_line_def Let_def h1_def h2_def ..
  moreover have "ports_apart h2" if "ports_apart h"
    using index_line_ports [OF assms(3) that, folded h1_def] by (auto simp: h2_def put_line_def ports_apart_def)
  ultimately show ?thesis using h2(1-3) assms(1) by (auto simp: single_host_def ports_apart_def)
qed

lemma check_lines_upto:
  assumes "k < length (header h)" "ptrs h \<subseteq> {Null}"
  shows "let h' = fold (check_line ident) [1..<Suc k] h in
    length (header h') = length (header h) \<and> is_response h' = is_response h \<and> header h' ! 0 = header h ! 0
    \<and> Gone \<notin> ptrs h' \<and> (\<forall>p. At p \<in> ptrs h' \<longrightarrow> 0 < p \<and> p < Suc k) \<and> (\<not> is_response h \<longrightarrow> single_host (Suc k) h') \<and> ports_apart h'"
  using assms(1)
proof (induction k)
  case 0
  then show ?case using assms(2) by (auto simp: Let_def single_host_def ports_apart_def ptrs_def)
next
  case (Suc k)
  define h1 where "h1 = fold (check_line ident) [1..<Suc k] h"
  from Suc have ih: "length (header h1) = length (header h)" "is_response h1 = is_response h" "header h1 ! 0 = header h ! 0"
    "\<And>p. At p \<in> ptrs h1 \<Longrightarrow> 0 < p \<and> p < Suc k" "\<not> is_response h1 \<Longrightarrow> single_host (Suc k) h1" "ports_apart h1" "Gone \<notin> ptrs h1"
    unfolding h1_def Let_def by auto
  have "fold (check_line ident) [1..<Suc (Suc k)] h = check_line ident (Suc k) h1" unfolding h1_def by simp
  then show ?case using check_line_step [of "Suc k" h1 ident] ih Suc.prems by (simp add: Let_def)
qed

text \<open>A header with lines whose pointers are in order and that has one host line at most.\<close>

definition hh_ok :: "http_header \<Rightarrow> bool" where
  "hh_ok h \<longleftrightarrow> header h \<noteq> [] \<and> ptrs_ok h \<and> ports_apart h \<and> (\<not> is_response h \<longrightarrow> single_host (length (header h)) h)"

lemma check_lines_ok:
  assumes "header h \<noteq> []" "ptrs h \<subseteq> {Null}"
  shows "hh_ok (check_lines ident h) \<and> is_response (check_lines ident h) = is_response h
    \<and> hd (header (check_lines ident h)) = hd (header h)"
proof -
  from assms(1) obtain k where k: "length (header h) = Suc k" by (cases "header h") auto
  define h' where "h' = check_lines ident h"
  have c: "length (header h') = length (header h)" "is_response h' = is_response h" "header h' ! 0 = header h ! 0"
    "\<And>p. At p \<in> ptrs h' \<Longrightarrow> 0 < p \<and> p < Suc k" "\<not> is_response h \<Longrightarrow> single_host (Suc k) h'" "ports_apart h'" "Gone \<notin> ptrs h'"
    using check_lines_upto [of k h ident] assms(2) k unfolding h'_def check_lines_def k Let_def by auto
  have "header h' \<noteq> []" using c(1) k by auto
  with c k assms(1) show ?thesis unfolding h'_def [symmetric] hh_ok_def ptrs_ok_def by (simp add: hd_conv_nth)
qed

lemma check_first_ok: "hh_ok (check_first f h) = hh_ok h" "is_response (check_first f h) = is_response h"
  "header (check_first f h) = header h" "phost (check_first f h) = phost h"
  by (auto simp: check_first_def hh_ok_def ptrs_ok_def ports_apart_def ptrs_def single_host_def Let_def)

lemma set_line_Some:
  assumes "ptrs_ok h" "p \<in> ptrs h"
  shows "set_line h p f = Some (case p of At i \<Rightarrow> h\<lparr>header := (header h)[i := f (header h ! i)]\<rparr> | _ \<Rightarrow> h)"
  using assms by (auto simp: set_line_def ptrs_ok_def split: line_ptr.splits)

lemma with_line_Some:
  assumes "ptrs_ok h" "p \<in> ptrs h"
  shows "\<exists>x. with_line h p d f = Some x"
  using assms by (auto simp: with_line_def ptrs_ok_def split: line_ptr.splits)

lemma single_host_update:
  "single_host n h \<Longrightarrow> \<not> startsWithLower v ''host:'' \<or> phost h = At i \<or> i = 0 \<Longrightarrow> i < length (header h)
     \<Longrightarrow> single_host n (h\<lparr>header := (header h)[i := v]\<rparr>)"
  unfolding single_host_def by (auto simp: nth_list_update)

lemma hh_ok_set_line:
  assumes "hh_ok h" "p \<in> ptrs h" "\<And>v. \<not> startsWithLower (f v) ''host:'' \<or> p = phost h"
  shows "\<exists>h'. set_line h p f = Some h' \<and> hh_ok h' \<and> is_response h' = is_response h \<and> ptrs h' = ptrs h \<and> phost h' = phost h \<and> pport h' = pport h"
proof (cases p)
  case (At i)
  then have "i < length (header h)" using assms by (auto simp: hh_ok_def ptrs_ok_def)
  moreover have "single_host (length (header h)) (h\<lparr>header := (header h)[i := f (header h ! i)]\<rparr>)" if "\<not> is_response h"
    using assms At calculation that by (intro single_host_update) (auto simp: hh_ok_def)
  ultimately show ?thesis using assms(1) At by (auto simp: set_line_def hh_ok_def ptrs_ok_def ports_apart_def)
qed (use assms(1,2) in \<open>auto simp: set_line_def hh_ok_def ptrs_ok_def\<close>)

lemma hh_ok_first: "hh_ok h \<Longrightarrow> hh_ok (h\<lparr>header := v # tl (header h)\<rparr>)"
  by (cases "header h") (auto simp: hh_ok_def ptrs_ok_def ports_apart_def single_host_def nth_Cons split: nat.splits)

lemma hh_ok_fields [simp]:
  "hh_ok (h\<lparr>port := a\<rparr>) = hh_ok h" "hh_ok (h\<lparr>cachedurl := c\<rparr>) = hh_ok h" "hh_ok (h\<lparr>ispersistent := d\<rparr>) = hh_ok h"
  "hh_ok (h\<lparr>waspersistent := d\<rparr>) = hh_ok h" "hh_ok (h\<lparr>mitm := d\<rparr>) = hh_ok h" "hh_ok (h\<lparr>hh_isdirect := d\<rparr>) = hh_ok h"
  by (auto simp: hh_ok_def ptrs_ok_def ports_apart_def single_host_def)

lemma ptrs_connection: "ptrs (h\<lparr>pproxyconnection := q\<rparr>) \<subseteq> insert q (ptrs h)"
  by (auto simp: ptrs_def)

lemma put_connection_ok:
  assumes "hh_ok h" "\<And>v. \<not> startsWithLower (f v) ''host:''" "\<not> startsWithLower new ''host:''"
  shows "\<exists>h'. put_connection f new h = Some h' \<and> hh_ok h' \<and> is_response h' = is_response h"
proof (cases "pproxyconnection h = Null")
  case True
  have "ptrs_ok ((push_line new h)\<lparr>pproxyconnection := At (length (header h))\<rparr>)"
    using assms(1) ptrs_connection [where h = "push_line new h" and q = "At (length (header h))"]
    by (fastforce simp: hh_ok_def ptrs_ok_def push_line_def)
  moreover have "single_host (Suc (length (header h))) ((push_line new h)\<lparr>pproxyconnection := At (length (header h))\<rparr>)" if r: "\<not> is_response h"
    unfolding single_host_def
  proof (intro allI impI)
    fix j
    assume j: "1 \<le> j \<and> j < Suc (length (header h)) \<and> startsWithLower (header ((push_line new h)\<lparr>pproxyconnection := At (length (header h))\<rparr>) ! j) ''host:''"
    then have "j \<noteq> length (header h)" using assms(3) by (auto simp: push_line_def)
    with j have "j < length (header h)" by simp
    with j assms(1) r show "phost ((push_line new h)\<lparr>pproxyconnection := At (length (header h))\<rparr>) = At j"
      by (simp add: hh_ok_def single_host_def push_line_def nth_append)
  qed
  ultimately show ?thesis using True assms(1) by (auto simp: put_connection_def hh_ok_def push_line_def ports_apart_def)
next
  case False
  then show ?thesis using hh_ok_set_line [OF assms(1) phost_ptrs(3), of f] assms(2) by (auto simp: put_connection_def)
qed

lemma url_from_ok:
  assumes "hh_ok h"
  shows "\<exists>u h'. url_from https wp p0 a h = Some (u, h') \<and> hh_ok h' \<and> is_response h' = is_response h"
proof -
  have "ptrs_ok h" using assms by (simp add: hh_ok_def)
  then obtain answer p where ap: "origin_url https wp p0 a h = Some (answer, p)"
    unfolding origin_url_def using with_line_Some [OF _ phost_ptrs(1)] by (metis prod.exhaust)
  have "hh_ok (h\<lparr>port := q, header := v # tl (header h)\<rparr>)" for q v
    using hh_ok_first [of "h\<lparr>port := q\<rparr>" v] assms by simp
  then show ?thesis using assms ap by (cases "absolute_url https wp p0 a") (auto simp: url_from_def)
qed

lemma getUrl_ok:
  assumes "hh_ok h"
  shows "\<exists>u h'. getUrl wp ssl h = Some (u, h') \<and> hh_ok h' \<and> is_response h' = is_response h"
proof (cases "cachedurl h \<noteq> [] \<and> \<not> wp")
  case False
  define h1 where "h1 = (if ssl then h\<lparr>port := 80, mitm := True, hh_isdirect := True\<rparr> else h\<lparr>port := 80\<rparr>)"
  define https where "https = (requesttype h1 = ''CONNECT'')"
  define a0 where "a0 = request_target (hd (header h1))"
  define a1 where "a1 = (if https \<and> \<not> startsWith a0 ''https://'' then ''https://'' @ a0 else a0)"
  have h1: "hh_ok h1" "is_response h1 = is_response h" using assms by (auto simp: h1_def)
  then have ne: "\<not> header h1 = []" "ptrs_ok h1" by (auto simp: hh_ok_def)
  obtain p0 where p0: "with_line h1 (pport h1) (default_port https) (\<lambda>v. port_member https (after v '' '')) = Some p0"
    by (rule exE [OF with_line_Some [OF ne(2) phost_ptrs(2)]])
  obtain u h' where uh: "url_from https wp p0 a1 h1 = Some (u, h')" "hh_ok h'" "is_response h' = is_response h1"
    using url_from_ok [OF h1(1)] by blast
  show ?thesis
    unfolding getUrl_def Let_def h1_def [symmetric] https_def [symmetric] a0_def [symmetric] a1_def [symmetric]
      if_not_P [OF False] if_not_P [OF ne(1)] p0 option.case uh(1)
    using uh(2,3) h1(2) by simp
qed (use assms in \<open>auto simp: getUrl_def\<close>)

lemma setURL_ok:
  assumes "hh_ok h"
  shows "\<exists>u h'. setURL url h = Some (u, h') \<and> hh_ok h' \<and> is_response h' = is_response h"
proof -
  have ne: "\<not> header h = []" using assms by (simp add: hh_ok_def)
  define u where "u = (if \<not> contains (after url ''://'') ''/'' then url @ ''/'' else url)"
  have "\<exists>h'. (case set_line (h\<lparr>header := l0 # tl (header h)\<rparr>) (phost h) f of
      None \<Rightarrow> None | Some h2 \<Rightarrow> map_option (\<lambda>h3. (u, h3\<lparr>cachedurl := []\<rparr>)) (set_line h2 (pport h2) g)) = Some (u, h') \<and> hh_ok h' \<and> is_response h' = is_response h"
    if no: "\<And>v. \<not> startsWithLower (g v) ''host:''" for l0 f g
  proof -
    have 1: "hh_ok (h\<lparr>header := l0 # tl (header h)\<rparr>)" by (rule hh_ok_first [OF assms])
    obtain h2 where h2: "set_line (h\<lparr>header := l0 # tl (header h)\<rparr>) (phost h) f = Some h2" "hh_ok h2" "is_response h2 = is_response h"
      using hh_ok_set_line [OF 1, of "phost h" f] by fastforce
    obtain h3 where "set_line h2 (pport h2) g = Some h3" "hh_ok h3" "is_response h3 = is_response h2"
      using hh_ok_set_line [OF h2(2) phost_ptrs(2), of g] no by blast
    then show ?thesis using h2 by auto
  qed
  note core = this
  obtain n p where np: "url_host_port (before url ''://'' = ''https'' \<or> requesttype h = ''CONNECT'') u = (n, p)" by fastforce
  show ?thesis unfolding setURL_def Let_def u_def [symmetric] if_not_P [OF ne] np prod.case
    using core [of "\<lambda>v. ''Port: '' @ int_str p @ cr"] by fastforce
qed

lemma check_persistence_ok:
  assumes "hh_ok h"
  shows "\<exists>h'. check_persistence f ap h = Some h' \<and> hh_ok h' \<and> is_response h' = is_response h"
proof -
  have "ptrs_ok h" using assms by (simp add: hh_ok_def)
  then obtain c0 where c0: "with_line h (pproxyconnection h) True (\<lambda>v. contains v ''lose'') = Some c0"
    using with_line_Some [OF _ phost_ptrs(3)] by metis
  define cc where "cc = (if icap h then False else c0)"
  have cc: "(if icap h then Some False else with_line h (pproxyconnection h) True (\<lambda>v. contains v ''lose'')) = Some cc"
    by (simp add: cc_def c0)
  define ap' where "ap' = (ap \<and> \<not> (cc \<or> \<not> startsWith (after f ''HTTP/'') ''1.1''
      \<and> (if \<not> is_response h then \<not> is_response h \<and> char_at f 0 = CHR ''C'' else pcontentlength h = Null)))"
  define h1 where "h1 = (if \<not> icap h \<and> \<not> cc \<and> (if \<not> is_response h then \<not> is_response h \<and> char_at f 0 = CHR ''C'' else pcontentlength h \<noteq> Null)
      then h\<lparr>waspersistent := True\<rparr> else h)"
  define conn where "conn = (if ap' then ''Connection: keep-alive'' @ cr else ''Connection: close'' @ cr)"
  have eq: "check_persistence f ap h =
      map_option (\<lambda>h2. h2\<lparr>ispersistent := ap'\<rparr>) (if \<not> icap h then put_connection (\<lambda>v. conn) conn h1 else Some h1)"
    unfolding check_persistence_def cc option.case Let_def ap'_def h1_def conn_def ..
  have h1: "hh_ok h1" "is_response h1 = is_response h" using assms by (auto simp: h1_def)
  have "\<not> startsWithLower conn ''host:''" by (simp add: conn_def)
  from put_connection_ok [OF h1(1), of "\<lambda>v. conn", OF this this] obtain h2 where
    "put_connection (\<lambda>v. conn) conn h1 = Some h2" "hh_ok h2" "is_response h2 = is_response h1" by blast
  then show ?thesis unfolding eq using h1 by simp
qed

lemma checkheader_ok:
  assumes "header h \<noteq> []" "ptrs h \<subseteq> {Null}"
  shows "\<exists>h'. checkheader ident ap h = Some h' \<and> hh_ok h' \<and> is_response h' = is_response h"
proof -
  note c = check_lines_ok [OF assms, of ident]
  define h1 where "h1 = check_first (hd (header h)) (check_lines ident h)"
  have h1: "hh_ok h1" "is_response h1 = is_response h" using c by (simp_all add: h1_def check_first_ok)
  obtain h2 where h2: "check_persistence (hd (header h)) ap h1 = Some h2" "hh_ok h2" "is_response h2 = is_response h"
    using check_persistence_ok [OF h1(1)] h1(2) by metis
  obtain u h3 where h3: "getUrl True False h2 = Some (u, h3)" "hh_ok h3" "is_response h3 = is_response h"
    using getUrl_ok [OF h2(2)] h2(3) by metis
  obtain u' h4 where h4: "setURL u h3 = Some (u', h4)" "hh_ok h4" "is_response h4 = is_response h"
    using setURL_ok [OF h3(2)] h3(3) by metis
  show ?thesis using assms(1) h2 h3 h4 unfolding checkheader_def Let_def h1_def [symmetric] by auto
qed

text \<open>An object that can read a header: one that was used, or one without lines and pointers.\<close>

definition ready :: "http_header \<Rightarrow> bool" where
  "ready h \<longleftrightarrow> dirty h \<or> header h = [] \<and> ptrs h \<subseteq> {Null}"

lemma hh_reset_ready: "ready h \<Longrightarrow> header (hh_reset h) = [] \<and> ptrs (hh_reset h) \<subseteq> {Null}
    \<and> is_response (hh_reset h) = is_response h"
  unfolding ready_def hh_reset_def by (cases "dirty h") (simp_all add: ptrs_def)

lemma in_loop_frame: "in_loop m ft ls h = (ok, h', rest) \<Longrightarrow> ptrs h' = ptrs h \<and> is_response h' = is_response h"
proof (induction m ft ls h arbitrary: ok h' rest rule: in_loop.induct)
  case (3 m ft b ls h)
  have pl: "ptrs (push_line v h) = ptrs h" "is_response (push_line v h) = is_response h" for v
    by (simp_all add: push_line_def)
  show ?case
  proof (cases "length (header h) > m")
    case False
    from "3.IH" [OF False refl _ refl refl] "3.prems" False pl show ?thesis
      by (auto simp: Let_def split: if_splits)
  qed (use "3.prems" in auto)
qed auto

lemma hh_in_ok:
  assumes "ready h"
  shows "\<exists>ok h' rest. hh_in m ident ap ls h = Some (ok, h', rest) \<and> (ok \<longrightarrow> hh_ok h' \<and> is_response h' = is_response h)"
proof -
  obtain ok h1 rest where l: "in_loop m True ls ((hh_reset h)\<lparr>dirty := True\<rparr>) = (ok, h1, rest)"
    by (cases "in_loop m True ls ((hh_reset h)\<lparr>dirty := True\<rparr>)") auto
  have p: "ptrs h1 \<subseteq> {Null}" "is_response h1 = is_response h"
    using in_loop_frame [OF l] hh_reset_ready [OF assms] by (auto simp: ptrs_def)
  show ?thesis
  proof (cases "\<not> ok \<or> header h1 = [] \<or> butlast (header h1) = []")
    case False
    then have "header (h1\<lparr>header := butlast (header h1)\<rparr>) \<noteq> []" "ptrs (h1\<lparr>header := butlast (header h1)\<rparr>) \<subseteq> {Null}" using p by auto
    from checkheader_ok [OF this, of ident ap] False p(2) show ?thesis unfolding hh_in_def l by (auto simp: Let_def)
  qed (unfold hh_in_def l, auto simp: Let_def)
qed

lemma single_host_filter:
  assumes "single_host (length (header h)) h" "header h \<noteq> []"
  shows "length (filter (\<lambda>v. startsWithLower v ''host:'') (tl (header h))) \<le> 1"
proof -
  have "i = j" if "i < length (tl (header h))" "j < length (tl (header h))" "startsWithLower (tl (header h) ! i) ''host:''"
    "startsWithLower (tl (header h) ! j) ''host:''" for i j
  proof -
    have "phost h = At (Suc i)" "phost h = At (Suc j)"
      using assms(1) that by (auto simp: single_host_def nth_tl)
    then show ?thesis by simp
  qed
  then have "card {i. i < length (tl (header h)) \<and> startsWithLower (tl (header h) ! i) ''host:''} \<le> 1"
    by (intro card_le_Suc0_iff_eq [THEN iffD2, unfolded One_nat_def [symmetric]]) auto
  then show ?thesis by (simp add: length_filter_conv_card)
qed

lemma setURL_lines:
  assumes "setURL url h = Some (u, h')" "header h \<noteq> []" "phost h = At i" "i \<noteq> 0" "ports_apart h" "pport h \<noteq> At 0"
  shows "\<exists>https n p. url_host_port https u = (n, p) \<and> header h' ! 0 = url_first https u n p (hd (header h))
    \<and> header h' ! i = host_line https n p \<and> phost h' = At i"
proof -
  define https where "https = (before url ''://'' = ''https'' \<or> requesttype h = ''CONNECT'')"
  define u1 where "u1 = (if \<not> contains (after url ''://'') ''/'' then url @ ''/'' else url)"
  obtain n p where np: "url_host_port https u1 = (n, p)" by fastforce
  define l0 where "l0 = url_first https u1 n p (hd (header h))"
  have ne: "\<not> header h = []" using assms(2) by simp
  from assms(1) have eq: "(case set_line (h\<lparr>header := l0 # tl (header h)\<rparr>) (phost h) (\<lambda>v. host_line https n p) of
      None \<Rightarrow> None | Some h2 \<Rightarrow> map_option (\<lambda>h3. (u1, h3\<lparr>cachedurl := []\<rparr>)) (set_line h2 (pport h2) (\<lambda>v. ''Port: '' @ int_str p @ cr))) = Some (u, h')"
    unfolding setURL_def Let_def u1_def [symmetric] https_def [symmetric] if_not_P [OF ne] np prod.case l0_def .
  define hs where "hs = (l0 # tl (header h))[i := host_line https n p]"
  from eq assms(3) have i: "i < length (l0 # tl (header h))"
    by (auto simp: set_line_def split: if_splits)
  have "u = u1 \<and> phost h' = At i \<and> header h' = (case pport h of At j \<Rightarrow> hs[j := ''Port: '' @ int_str p @ cr] | _ \<Rightarrow> hs)"
    using eq i assms(3) by (auto simp: set_line_def hs_def split: if_splits option.splits line_ptr.splits)
  moreover have "pport h \<noteq> At i" using assms(3,5) by (auto simp: ports_apart_def)
  moreover have "hs ! i = host_line https n p" "hs ! 0 = l0" using i assms(4) by (cases i; simp add: hs_def)+
  ultimately have "header h' ! 0 = l0" "header h' ! i = host_line https n p" "phost h' = At i" "u = u1"
    using assms(6) by (auto simp: nth_list_update split: line_ptr.splits)
  then show ?thesis using np l0_def by blast
qed

lemma checkheader_host:
  assumes "header h \<noteq> []" "ptrs h \<subseteq> {Null}" "\<not> is_response h" "checkheader ident ap h = Some h'" "phost h' = At i"
  shows "\<exists>https u n p l0. url_host_port https u = (n, p) \<and> header h' ! 0 = url_first https u n p l0 \<and> header h' ! i = host_line https n p"
proof -
  note c = check_lines_ok [OF assms(1,2), of ident]
  define h1 where "h1 = check_first (hd (header h)) (check_lines ident h)"
  have h1: "hh_ok h1" "is_response h1 = is_response h" using c by (simp_all add: h1_def check_first_ok)
  obtain h2 where h2: "check_persistence (hd (header h)) ap h1 = Some h2" "hh_ok h2" "is_response h2 = is_response h"
    using check_persistence_ok [OF h1(1)] h1(2) by metis
  obtain u h3 where h3: "getUrl True False h2 = Some (u, h3)" "hh_ok h3" "is_response h3 = is_response h"
    using getUrl_ok [OF h2(2)] h2(3) by metis
  obtain u' where h4: "setURL u h3 = Some (u', h')"
    using assms(1,3,4) h2 h3 unfolding checkheader_def Let_def h1_def [symmetric] by (auto split: option.splits)
  have ph: "phost h' = phost h3" using h4 h3(2) by (auto simp: setURL_def set_line_def Let_def split: if_splits option.splits line_ptr.splits prod.splits)
  have "At 0 \<notin> ptrs h3" using h3(2) by (auto simp: hh_ok_def ptrs_ok_def)
  then have "i \<noteq> 0" "pport h3 \<noteq> At 0" using assms(5) ph phost_ptrs(1,2) [of h3] by metis+
  with setURL_lines [OF h4 _ _ _ _ _] h3(2) assms(5) ph show ?thesis by (metis hh_ok_def)
qed

lemma hh_in_host:
  assumes "ready h" "\<not> is_response h" "hh_in m ident ap ls h = Some (True, h', rest)" "phost h' = At i"
  shows "\<exists>https u n p l0. url_host_port https u = (n, p) \<and> header h' ! 0 = url_first https u n p l0 \<and> header h' ! i = host_line https n p"
proof -
  obtain ok h1 rest' where l: "in_loop m True ls ((hh_reset h)\<lparr>dirty := True\<rparr>) = (ok, h1, rest')"
    by (cases "in_loop m True ls ((hh_reset h)\<lparr>dirty := True\<rparr>)") auto
  have p: "ptrs h1 \<subseteq> {Null}" "is_response h1 = is_response h"
    using in_loop_frame [OF l] hh_reset_ready [OF assms(1)] by (auto simp: ptrs_def)
  from assms(3) have b: "butlast (header h1) \<noteq> []" "checkheader ident ap (h1\<lparr>header := butlast (header h1)\<rparr>) = Some h'"
    unfolding hh_in_def l by (auto simp: Let_def split: if_splits)
  from checkheader_host [OF _ _ _ b(2) assms(4)] b(1) p assms(2) show ?thesis by simp
qed

text \<open>A pointer to an identification line that is set stays as it is.\<close>

lemma index_line_ident: "pheaderident (index_line i h) = pheaderident h"
  unfolding index_line_def Let_def case_prod_unfold
  by (intro if_weak [where P = "\<lambda>x. pheaderident x = pheaderident h"]) (simp_all add: put_line_def)

lemma check_lines_ident:
  assumes "pheaderident h \<noteq> Null"
  shows "pheaderident (check_lines ident h) = pheaderident h"
proof -
  have "pheaderident x = pheaderident h \<Longrightarrow> pheaderident (fold (check_line ident) ks x) = pheaderident h" for ks x
  proof (induction ks arbitrary: x)
    case (Cons i ks)
    have "pheaderident (check_line ident i x) = pheaderident x"
      using assms Cons.prems by (simp add: check_line_def Let_def index_line_ident put_line_def)
    then show ?case using Cons by simp
  qed simp
  then show ?thesis unfolding check_lines_def by blast
qed

lemma set_line_ident: "set_line h p f = Some h' \<Longrightarrow> pheaderident h' = pheaderident h"
  by (auto simp: set_line_def split: line_ptr.splits if_splits)

lemma url_from_ident: "url_from https wp p0 a h = Some (u, h') \<Longrightarrow> pheaderident h' = pheaderident h"
  by (auto simp: url_from_def split: if_splits prod.splits)

lemma getUrl_ident:
  assumes "getUrl wp ssl h = Some (u, h')"
  shows "pheaderident h' = pheaderident h"
proof (cases "cachedurl h \<noteq> [] \<and> \<not> wp")
  case False
  define h1 where "h1 = (if ssl then h\<lparr>port := 80, mitm := True, hh_isdirect := True\<rparr> else h\<lparr>port := 80\<rparr>)"
  have h1: "pheaderident h1 = pheaderident h" by (simp add: h1_def)
  have "pheaderident h' = pheaderident h1"
  proof (cases "header h1 = []")
    case True
    then show ?thesis using assms unfolding getUrl_def Let_def h1_def [symmetric] if_not_P [OF False] by simp
  next
    case ne: False
    from assms obtain p0 a1 https b where "url_from https wp p0 a1 h1 = Some (u, b)" "h' = (if wp then b else b\<lparr>cachedurl := cstr u\<rparr>)"
      unfolding getUrl_def Let_def h1_def [symmetric] if_not_P [OF False] if_not_P [OF ne]
      by (auto simp only: map_option_eq_Some prod.inject prod.case split: option.split_asm)
    then show ?thesis by (auto dest: url_from_ident)
  qed
  then show ?thesis using h1 by simp
qed (use assms in \<open>auto simp: getUrl_def\<close>)

lemma setURL_ident: "setURL url h = Some (u, h') \<Longrightarrow> pheaderident h' = pheaderident h"
  by (auto simp: setURL_def Let_def dest!: set_line_ident split: if_splits option.splits prod.splits)

lemma check_persistence_ident: "check_persistence f ap h = Some h' \<Longrightarrow> pheaderident h' = pheaderident h"
  by (auto simp: check_persistence_def put_connection_def push_line_def Let_def dest!: set_line_ident split: if_splits option.splits)

lemma checkheader_ident: "checkheader ident ap h = Some h' \<Longrightarrow> pheaderident h \<noteq> Null \<Longrightarrow> pheaderident h' = pheaderident h"
proof (cases "header h = []")
  case False
  assume c: "checkheader ident ap h = Some h'" and p: "pheaderident h \<noteq> Null"
  define h1 where "h1 = check_first (hd (header h)) (check_lines ident h)"
  have 1: "pheaderident h1 = pheaderident h" using check_lines_ident [OF p] by (simp add: h1_def check_first_def Let_def)
  from c False obtain h2 where h2: "check_persistence (hd (header h)) ap h1 = Some h2"
    and r: "(if is_response h2 then Some h2 else case getUrl True False h2 of None \<Rightarrow> None | Some (newurl, h3) \<Rightarrow> map_option snd (setURL newurl h3)) = Some h'"
    unfolding checkheader_def Let_def h1_def [symmetric] by (auto split: option.splits)
  from r have "pheaderident h' = pheaderident h2"
    by (auto split: if_splits option.splits dest!: setURL_ident getUrl_ident)
  then show ?thesis using check_persistence_ident [OF h2] 1 by simp
qed (auto simp: checkheader_def)

lemma in_loop_ident: "in_loop m ft ls h = (ok, h', rest) \<Longrightarrow> pheaderident h' = pheaderident h"
proof (induction m ft ls h arbitrary: ok h' rest rule: in_loop.induct)
  case (3 m ft b ls h)
  have pl: "pheaderident (push_line v h) = pheaderident h" for v by (simp add: push_line_def)
  show ?case
  proof (cases "length (header h) > m")
    case False
    from "3.IH" [OF False refl _ refl refl] "3.prems" False pl show ?thesis
      by (auto simp: Let_def split: if_splits)
  qed (use "3.prems" in auto)
qed auto

lemma hh_in_ident:
  assumes "hh_in m ident ap ls h = Some (ok, h', rest)" "pheaderident (hh_reset h) \<noteq> Null"
  shows "pheaderident h' = pheaderident (hh_reset h)"
proof -
  obtain ok1 h1 rest' where l: "in_loop m True ls ((hh_reset h)\<lparr>dirty := True\<rparr>) = (ok1, h1, rest')"
    by (cases "in_loop m True ls ((hh_reset h)\<lparr>dirty := True\<rparr>)") auto
  have p: "pheaderident h1 = pheaderident (hh_reset h)" using in_loop_ident [OF l] by simp
  from assms(1) show ?thesis unfolding hh_in_def l using p assms(2) checkheader_ident
    by (fastforce simp: Let_def split: if_splits)
qed


section \<open>Base64\<close>

text \<open>The standard coding, with padding.\<close>

definition b64_digit :: "nat \<Rightarrow> char" where
  "b64_digit n = (if n < 26 then char_of (65 + n) else if n < 52 then char_of (71 + n) else if n < 62 then char_of (n - 4)
     else if n = 62 then CHR ''+'' else CHR ''/'')"

fun b64 :: "string \<Rightarrow> string" where
  "b64 (a # b # c # r) =
     (let n = of_char a * 65536 + of_char b * 256 + of_char c :: nat in
      [b64_digit (n div 262144), b64_digit (n div 4096 mod 64), b64_digit (n div 64 mod 64), b64_digit (n mod 64)] @ b64 r)"
| "b64 [a, b] =
     (let n = of_char a * 65536 + of_char b * 256 :: nat in
      [b64_digit (n div 262144), b64_digit (n div 4096 mod 64), b64_digit (n div 64 mod 64), CHR ''=''])"
| "b64 [a] =
     (let n = of_char a * 65536 :: nat in [b64_digit (n div 262144), b64_digit (n div 4096 mod 64), CHR ''='', CHR ''=''])"
| "b64 [] = []"

text \<open>Differences of bytes.\<close>

lemma byte_diff:
  assumes "a < 256" "b < 256"
  shows "(0x3F < (of_nat a - of_nat b :: 8 word)) \<longleftrightarrow> 63 < (if b \<le> a then a - b else 256 + a - b)"
proof -
  have "(of_nat a - of_nat b :: 8 word) = of_nat (if b \<le> a then a - b else 256 + a - b)"
    using assms by (auto simp: of_nat_diff)
  moreover have "(0x3F < (of_nat x :: 8 word)) \<longleftrightarrow> 63 < x" if "x < 256" for x
    using that by (simp add: word_less_nat_alt unsigned_of_nat take_bit_nat_eq_self)
  moreover have "(if b \<le> a then a - b else 256 + a - b) < 256" using assms by auto
  ultimately show ?thesis by presburger
qed

lemma decode1b64_of:
  assumes "m < 256" "m \<noteq> 43" "m \<noteq> 47" "m \<noteq> 61"
  shows "decode1b64 (char_of m) =
    (let diff = (\<lambda>a. if m \<le> a then a - m else 256 + a - m) in
     if \<not> 63 < diff 57 then of_nat m + 4 else if \<not> 63 < diff 90 then of_nat m - 65 else if \<not> 63 < diff 122 then of_nat m - 71 else 0x80)"
proof -
  have b: "byte_of (char_of m) = of_nat m" using assms(1) by (simp add: byte_of_def of_char_of)
  have c: "char_of m \<noteq> CHR ''+''" "char_of m \<noteq> CHR ''/''" "char_of m \<noteq> CHR ''=''"
    using assms by (auto simp: char_of_eq_iff take_bit_nat_eq_self)
  have k: "byte_of (CHR ''9'') = of_nat 57" "byte_of (CHR ''Z'') = of_nat 90" "byte_of (CHR ''z'') = of_nat 122"
    by (simp_all add: byte_of_def)
  show ?thesis unfolding decode1b64_def b k using c byte_diff [OF _ assms(1)] by (simp add: Let_def del: of_nat_numeral)
qed

lemma decode1b64_digit: "n < 64 \<Longrightarrow> decode1b64 (b64_digit n) = of_nat n"
proof -
  assume "n < 64"
  then consider "n < 26" | "26 \<le> n" "n < 52" | "52 \<le> n" "n < 62" | "n = 62" | "n = 63" by linarith
  then show ?thesis
  proof cases
    case 1
    then have "\<not> 63 < 25 - n" "63 < 248 - n" by linarith+
    then show ?thesis using 1 decode1b64_of [of "65 + n"] by (simp add: b64_digit_def Let_def)
  next
    case 2
    then have "\<not> 63 < 51 - n" "63 < 242 - n" "63 < 275 - n" by linarith+
    then show ?thesis using 2 decode1b64_of [of "71 + n"] by (simp add: b64_digit_def Let_def)
  next
    case 3
    then obtain k where "n = k + 4" by (intro that [of "n - 4"]) simp
    moreover from this 3 have "\<not> 63 < 57 - k" by linarith
    ultimately show ?thesis using 3 decode1b64_of [of k] by (simp add: b64_digit_def Let_def)
  qed (simp_all add: b64_digit_def decode1b64_def)
qed

lemma or_six:
  assumes "d < 64"
  shows "or (push_bit 6 w) (of_nat d :: 64 word) = push_bit 6 w + of_nat d"
proof -
  have "and (push_bit 6 w) (of_nat d :: 64 word) = 0"
  proof (rule bit_word_eqI)
    fix n
    have "\<not> bit d n" if "6 \<le> n"
    proof -
      have "d < 2 ^ n" using assms power_increasing [OF that, of "2::nat"] by simp
      then show ?thesis by (simp add: bit_nat_def)
    qed
    then show "bit (and (push_bit 6 w) (of_nat d :: 64 word)) n \<longleftrightarrow> bit (0 :: 64 word) n"
      by (auto simp: bit_and_iff bit_push_bit_iff bit_of_nat_iff)
  qed
  from disjunctive_add_eq_or [OF this] show ?thesis by simp
qed

lemma four_bytes_digits:
  assumes "d0 < 64" "d1 < 64" "d2 < 64" "d3 < 64" "decode1b64 c0 = of_nat d0" "decode1b64 c1 = of_nat d1" "decode1b64 c2 = of_nat d2"
    "decode1b64 c3 = of_nat d3"
  defines "N \<equiv> ((d0 * 64 + d1) * 64 + d2) * 64 + d3"
  shows "four_bytes c0 c1 c2 c3 = [char_of (N div 65536), char_of (N div 256), char_of N]"
proof -
  have N: "N < 2 ^ 24" using assms(1-4) unfolding N_def by simp
  have u: "ucast (of_nat d :: 8 word) = (of_nat d :: 64 word)" if "d < 64" for d
    using that by (simp add: unsigned_ucast_eq word_eq_iff_unsigned unsigned_of_nat take_bit_nat_eq_self)
  define four where "four = (of_nat N :: 64 word)"
  have "or (push_bit 6 (or (push_bit 6 (or (push_bit 6 (of_nat d0)) (of_nat d1))) (of_nat d2))) (of_nat d3) = four"
    unfolding four_def N_def by (simp only: or_six assms(1-4)) (simp add: push_bit_eq_mult algebra_simps)
  then have "four_bytes c0 c1 c2 c3 =
      [char_of (unat (and (drop_bit 16 four) 0xFF)), char_of (unat (and (drop_bit 8 four) 0xFF)), char_of (unat (and four 0xFF))]"
    unfolding four_bytes_def Let_def assms(5-8) by (simp only: u assms(1-4))
  moreover have "unat four = N" using N unfolding four_def by (simp add: unsigned_of_nat take_bit_nat_eq_self)
  moreover have "(0xFF :: 64 word) = semiring_bit_operations_class.mask 8" by (simp add: mask_eq_exp_minus_1)
  then have "unat (and w 0xFF) = unat w mod 256" for w :: "64 word"
    by (simp only: take_bit_eq_mask [symmetric] unsigned_take_bit_eq) (simp add: take_bit_eq_mod)
  moreover have "unat (drop_bit k four) = N div 2 ^ k" for k
    using calculation(2) by (simp only: unat_drop_bit_eq) (simp only: drop_bit_eq_div)
  ultimately have "four_bytes c0 c1 c2 c3 = [char_of (N div 2 ^ 16 mod 256), char_of (N div 2 ^ 8 mod 256), char_of (N mod 256)]"
    by (simp only:)
  then show ?thesis by simp
qed

lemma char_of_plus: "char_of (of_char a + 256 * k :: nat) = a"
  by (metis char_of_mod_256 char_of_char mod_mult_self2 mult.commute)

lemma b64_group:
  assumes "x < 16777216"
  defines "d0 \<equiv> x div 262144" and "d1 \<equiv> x div 4096 mod 64" and "d2 \<equiv> x div 64 mod 64" and "d3 \<equiv> x mod 64"
  assumes "c2 = b64_digit d2 \<or> d2 = 0 \<and> c2 = CHR ''=''" "c3 = b64_digit d3 \<or> d3 = 0 \<and> c3 = CHR ''=''"
  shows "four_bytes (b64_digit d0) (b64_digit d1) c2 c3 = [char_of (x div 65536), char_of (x div 256), char_of x]"
proof -
  have d: "d0 < 64" "d1 < 64" "d2 < 64" "d3 < 64" using assms(1) by (auto simp: d0_def d1_def d2_def d3_def)
  have e: "decode1b64 (CHR ''='') = 0" by (simp add: decode1b64_def)
  have x: "x div 4096 = x div 64 div 64" "x div 262144 = x div 64 div 64 div 64" by (simp_all add: div_mult2_eq [symmetric])
  have "((d0 * 64 + d1) * 64 + d2) * 64 + d3 = x" unfolding d0_def d1_def d2_def d3_def x by simp
  moreover have "decode1b64 c2 = of_nat d2" "decode1b64 c3 = of_nat d3" using assms(6,7) d e by (auto simp: decode1b64_digit)
  ultimately show ?thesis
    using four_bytes_digits [OF d decode1b64_digit [OF d(1)] decode1b64_digit [OF d(2)]] by simp
qed

lemma decodeb64_four: "length r > 0 \<Longrightarrow> decodeb64 (c0 # c1 # c2 # c3 # r) = four_bytes c0 c1 c2 c3 @ decodeb64 r"
  by (cases r) simp_all

lemma byte_less: "(of_char c :: nat) < 256"
  using of_char_of [of "of_char c :: nat"] by (metis char_of_char mod_less_divisor zero_less_numeral)

lemma div_eqI: "r < m \<Longrightarrow> (q * m + r) div m = (q::nat)"
  by simp

lemma decodeb64_b64:
  "decodeb64 (b64 s @ [t]) = s @ replicate ((3 - length s mod 3) mod 3) nul"
proof (induction s rule: b64.induct)
  case (1 a b c r)
  let ?n = "of_char a * 65536 + of_char b * 256 + of_char c :: nat"
  have "?n < 16777216" using byte_less [of a] byte_less [of b] byte_less [of c] by linarith
  from b64_group [OF this, of _ _] have
    "four_bytes (b64_digit (?n div 262144)) (b64_digit (?n div 4096 mod 64)) (b64_digit (?n div 64 mod 64)) (b64_digit (?n mod 64))
      = [char_of (?n div 65536), char_of (?n div 256), char_of ?n]" by blast
  moreover have "?n div 65536 = of_char a"
  proof -
    have "of_char b * 256 + of_char c < (65536::nat)" using byte_less [of b] byte_less [of c] by linarith
    from div_eqI [OF this, of "of_char a"] show ?thesis by (simp only: add.assoc)
  qed
  moreover have "?n div 256 = of_char b + 256 * of_char a"
    using div_eqI [of "of_char c" 256 "of_char b + 256 * of_char a"] byte_less [of c] by (simp add: algebra_simps)
  moreover have "char_of ?n = c" using char_of_plus [of c "of_char b + 256 * of_char a"] by (simp add: algebra_simps)
  ultimately have "four_bytes (b64_digit (?n div 262144)) (b64_digit (?n div 4096 mod 64)) (b64_digit (?n div 64 mod 64)) (b64_digit (?n mod 64)) = [a, b, c]"
    by (simp only: char_of_plus char_of_char)
  then show ?case using 1 by (simp only: b64.simps Let_def append_Cons append_Nil) (simp add: decodeb64_four)
next
  case (2 a b)
  let ?n = "of_char a * 65536 + of_char b * 256 :: nat"
  have n: "?n < 16777216" using byte_less [of a] byte_less [of b] by linarith
  have "?n = (of_char a * 1024 + of_char b * 4) * 64" by simp
  then have "?n mod 64 = 0" by (simp only: mod_mult_self2_is_0)
  then have "four_bytes (b64_digit (?n div 262144)) (b64_digit (?n div 4096 mod 64)) (b64_digit (?n div 64 mod 64)) (CHR ''='')
      = [char_of (?n div 65536), char_of (?n div 256), char_of ?n]" by (intro b64_group [OF n]) simp_all
  moreover have "?n div 65536 = of_char a"
  proof -
    have "of_char b * 256 < (65536::nat)" using byte_less [of b] by linarith
    from div_eqI [OF this, of "of_char a"] show ?thesis .
  qed
  moreover have "?n div 256 = of_char b + 256 * of_char a" by (simp add: algebra_simps)
  moreover have "char_of ?n = nul" using char_of_plus [of nul "of_char b + 256 * of_char a"] by (simp add: algebra_simps)
  ultimately have "four_bytes (b64_digit (?n div 262144)) (b64_digit (?n div 4096 mod 64)) (b64_digit (?n div 64 mod 64)) (CHR ''='') = [a, b, nul]"
    by (simp only: char_of_plus char_of_char)
  then show ?case by (simp only: b64.simps Let_def append_Cons append_Nil) (simp add: decodeb64_four)
next
  case (3 a)
  let ?n = "of_char a * 65536 :: nat"
  have n: "?n < 16777216" using byte_less [of a] by linarith
  have "four_bytes (b64_digit (?n div 262144)) (b64_digit (?n div 4096 mod 64)) (CHR ''='') (CHR ''='')
      = [char_of (?n div 65536), char_of (?n div 256), char_of ?n]" by (intro b64_group [OF n]) simp_all
  moreover have "?n div 65536 = of_char a" "char_of (?n div 256) = nul" "char_of ?n = nul"
    using char_of_plus [of nul "of_char a"] char_of_plus [of nul "256 * of_char a"] by (simp_all add: algebra_simps)
  ultimately have "four_bytes (b64_digit (?n div 262144)) (b64_digit (?n div 4096 mod 64)) (CHR ''='') (CHR ''='') = [a, nul, nul]"
    by (simp only: char_of_char)
  then show ?case by (simp only: b64.simps Let_def append_Cons append_Nil) (simp add: decodeb64_four numeral_2_eq_2)
qed simp


section \<open>Splitting at the first occurrence\<close>

lemma split_first:
  assumes "c \<notin> set a"
  shows "before (a @ c # p @ b) (c # p) = a" "after (a @ c # p @ b) (c # p) = b" "contains (a @ c # p @ b) (c # p)"
proof -
  have "\<not> prefix (c # p) (drop j (a @ (c # p) @ b))" if "j < length a" for j
    using single_absent [OF assms that, of "(c # p) @ b"] by (auto simp: prefix_def)
  from find_sub_skip [OF this] show "before (a @ c # p @ b) (c # p) = a" "after (a @ c # p @ b) (c # p) = b" by auto
  show "contains (a @ c # p @ b) (c # p)" unfolding contains_iff using sublist_appendI [of "c # p" a b] by simp
qed

lemma contains_single: "contains s [c] \<longleftrightarrow> c \<in> set s"
  by (simp add: contains_iff sublist_single)

lemmas split_char = split_first [where p = "[]", simplified]

lemma split_scheme:
  assumes "CHR '':'' \<notin> set a"
  shows "before (a @ ''://'' @ b) ''://'' = a" "after (a @ ''://'' @ b) ''://'' = b"
  using split_first [OF assms, of "''//''" b] by simp_all

section \<open>Malformed URLs\<close>

fun labels :: "string \<Rightarrow> string list" where
  "labels [] = [[]]"
| "labels (c # s) = (if c = CHR ''.'' then [] # labels s else (c # hd (labels s)) # tl (labels s))"

lemma labels_ne [simp]: "labels s \<noteq> []"
  by (cases s) auto

lemma labels_dot: "CHR ''.'' \<notin> set a \<Longrightarrow> labels (a @ CHR ''.'' # b) = a # labels b"
  by (induction a) auto

lemma labels_no_dot: "CHR ''.'' \<notin> set a \<Longrightarrow> labels a = [a]"
  by (induction a) auto

lemma labels_unfold: "labels s = (if contains s ''.'' then before s ''.'' # labels (after s ''.'') else [s])"
proof (cases "CHR ''.'' \<in> set s")
  case True
  then obtain a b where ab: "s = a @ CHR ''.'' # b" "CHR ''.'' \<notin> set a" by (meson split_list_first)
  then show ?thesis using split_char [OF ab(2), of b] by (simp add: labels_dot)
qed (simp add: contains_single labels_no_dot)

lemma parts_loop_labels:
  "parts_loop obf s \<longleftrightarrow> \<not> list_ex (\<lambda>p. c_isletter (char_at p 0)) (labels s) \<and> (obf \<or> list_ex part_obscured (labels s))"
proof (induction obf s rule: parts_loop.induct)
  case (1 obf s)
  show ?case
  proof (cases "contains s ''.''")
    case True
    then have l: "labels s = before s ''.'' # labels (after s ''.'')" by (subst labels_unfold) simp
    show ?thesis using "1.IH" True by (subst parts_loop.simps) (auto simp: Let_def l)
  next
    case False
    then have "labels s = [s]" by (subst labels_unfold) simp
    then show ?thesis using False by (subst parts_loop.simps) (auto simp: Let_def)
  qed
qed

lemma host_loop_spec: "host_loop b s = (if list_all host_char s then Some (b \<or> list_ex (\<lambda>c. \<not> obf_char c) s) else None)"
  by (induction s arbitrary: b) auto

text \<open>An address written in a way that hides it: only digits of addresses, no label that begins with a
  letter, and a label that is octal, hexadecimal or above 255.\<close>

definition obscured_address :: "string \<Rightarrow> bool" where
  "obscured_address host \<longleftrightarrow> list_all obf_char host \<and> \<not> list_ex (\<lambda>p. c_isletter (char_at p 0)) (labels host)
     \<and> list_ex part_obscured (labels host)"

definition no_end_dot :: "string \<Rightarrow> string" where
  "no_end_dot host = (if host \<noteq> [] \<and> last host = CHR ''.'' then butlast host else host)"

lemma takeWhile_before: "(if contains s [c] then before s [c] else s) = takeWhile (\<lambda>x. x \<noteq> c) s"
proof (cases "c \<in> set s")
  case True
  then obtain a b where ab: "s = a @ c # b" "c \<notin> set a" by (meson split_list_first)
  then have "takeWhile (\<lambda>x. x \<noteq> c) a = a" by (metis (mono_tags, lifting) takeWhile_eq_all_conv)
  then show ?thesis using split_char [OF ab(2), of b] ab by (simp add: takeWhile_tail)
next
  case False
  then show ?thesis by (metis (mono_tags, lifting) contains_single takeWhile_eq_all_conv)
qed

lemma chop_end_dot:
  assumes "list_all host_char host"
  shows "(if endsWith host ''.'' then chop host else host) = no_end_dot host"
proof -
  have "nul_free host" using assms by (auto simp: list_all_iff nul_def host_char_def c_isalnum_def c_isdigit_def c_isupper_def c_islower_def)
  then have "endsWith host ''.'' \<longleftrightarrow> host \<noteq> [] \<and> last host = CHR ''.''"
    using endsWith_suffix [of "''.''" host] by (cases host rule: rev_cases) (auto simp: suffix_def nul_def)
  then show ?thesis by (auto simp: no_end_dot_def chop_def butlast_conv_take)
qed

lemma malformed_iff:
  assumes "CHR '':'' \<notin> set scheme" "CHR ''/'' \<notin> set auth" "rest = [] \<or> hd rest = CHR ''/''"
  shows "malformedURL (scheme @ ''://'' @ auth @ rest)
    \<longleftrightarrow> length auth < 2 \<or> (let host = takeWhile (\<lambda>c. c \<noteq> CHR '':'') auth in
      sublist ''..'' host \<or> \<not> list_all host_char host \<or> obscured_address (no_end_dot host))"
proof -
  have a: "after (scheme @ ''://'' @ auth @ rest) ''://'' = auth @ rest" by (rule split_scheme(2) [OF assms(1)])
  have b: "takeWhile (\<lambda>x. x \<noteq> CHR ''/'') (auth @ rest) = auth"
    using assms(2,3) by (cases rest) (auto simp: takeWhile_tail takeWhile_append2 takeWhile_eq_all_conv)
  define host where "host = takeWhile (\<lambda>c. c \<noteq> CHR '':'') auth"
  have e: "list_all obf_char (no_end_dot host) \<longleftrightarrow> \<not> list_ex (\<lambda>c. \<not> obf_char c) host"
    by (cases host rule: rev_cases) (auto simp: no_end_dot_def list_all_iff list_ex_iff obf_char_def)
  show ?thesis
    unfolding malformedURL_def Let_def a takeWhile_before b host_def [symmetric]
    using e chop_end_dot [of host]
    by (auto simp: contains_iff host_loop_spec parts_loop_labels obscured_address_def split: bool.splits)
qed


section \<open>Setting and reading the URL\<close>

lemma removeWhiteSpace_id: "list_all (\<lambda>c. \<not> is_ws c) s \<Longrightarrow> removeWhiteSpace s = s"
proof (cases "s = []")
  case False
  assume s: "list_all (\<lambda>c. \<not> is_ws c) s"
  then have ends: "\<not> is_ws (last s)" "\<not> is_ws (hd s)" using False by (simp_all add: list_all_iff)
  then have "takeWhile is_ws s = []" "takeWhile is_ws (rev s) = []" using False by (simp_all add: takeWhile_eq_Nil_iff hd_rev)
  moreover have "\<not> (\<forall>c \<in> set s. is_ws c)" using ends False hd_in_set by blast
  moreover have "length s - 1 - 0 - 0 + 1 = length s" using False by (cases s) auto
  ultimately show ?thesis unfolding removeWhiteSpace_def Let_def by (simp only: if_False list.size drop_0 take_all order.refl)
qed (simp add: removeWhiteSpace_def)

lemma removeMultiChar_free:
  assumes "c \<notin> set a" "c \<notin> set b" "b \<noteq> []"
  shows "removeMultiChar (a @ c # b) c = a @ c # b"
proof -
  have free: "removeMultiChar_loop c w s = s" if "c \<notin> set s" for w s using that by (induction s arbitrary: w) auto
  have "removeMultiChar_loop c False (a @ c # b) = a @ c # b" using assms(1)
    by (induction a) (auto simp: free [OF assms(2)])
  then show ?thesis by (simp add: removeMultiChar_def)
qed

text \<open>A URL that has all its parts, none of them with a byte that separates parts.\<close>

definition plain_url :: "string \<Rightarrow> string \<Rightarrow> string \<Rightarrow> bool" where
  "plain_url scheme host path \<longleftrightarrow> scheme \<noteq> [] \<and> host \<noteq> [] \<and> path \<noteq> [] \<and> last host \<noteq> CHR ''.''
     \<and> CHR '':'' \<notin> set scheme \<and> CHR ''/'' \<notin> set scheme
     \<and> CHR '':'' \<notin> set host \<and> CHR ''/'' \<notin> set host \<and> CHR ''@'' \<notin> set host
     \<and> list_all (\<lambda>c. \<not> is_ws c) (scheme @ host @ path) \<and> nul_free (scheme @ host @ path)"

lemma absolute_url_plain:
  assumes "plain_url scheme host path"
  shows "absolute_url https False p0 (scheme @ ''://'' @ host @ ''/'' @ path) = (scheme @ ''://'' @ host @ ''/'' @ path, p0)"
proof -
  let ?r = "host @ ''/'' @ path"
  let ?a = "scheme @ ''://'' @ ?r"
  have p: "CHR '':'' \<notin> set scheme" "CHR ''/'' \<notin> set host" "CHR '':'' \<notin> set host" "CHR ''@'' \<notin> set host" "nul_free host"
    "list_all (\<lambda>c. \<not> is_ws c) path" "path \<noteq> []" "host \<noteq> []" "last host \<noteq> CHR ''.''" "nul_free path"
    using assms by (simp_all add: plain_url_def)
  note s = split_scheme [OF p(1), of ?r] and t = split_char [OF p(2), of path]
  have nd: "strip_dots host = host"
    using endsWith_suffix [of "''.''" host] p(5,8,9) by (subst strip_dots.simps) (auto simp: suffix_def nul_def)
  have h1: "before (if endsWith ?r ''.'' then chop ?r else ?r) ''/'' = host"
  proof (cases "endsWith ?r ''.''")
    case True
    have "chop ?r = host @ CHR ''/'' # butlast path" using p(7) by (cases path rule: rev_cases) (simp_all add: chop_def)
    then show ?thesis using True split_char(1) [OF p(2), of "butlast path"] by simp
  qed (use t in simp)
  have hp: "host_port https False p0 host = (host, p0)"
    using p(3) nd by (simp add: host_port_def contains_single)
  have c: "contains ?r ''/''" using t(3) by simp
  have a: "after ?r ''/'' = path" using t(2) by simp
  have nu: "\<not> contains host ''@''" using p(4) by (simp add: contains_single)
  show ?thesis
    unfolding absolute_url_def Let_def
    by (simp only: s c not_True_eq_False if_False h1 a removeWhiteSpace_id [OF p(6)] nu hp prod.case)
      (use p(7) in simp)
qed

lemma setURL_getUrl_plain:
  assumes "hh_ok h" "requesttype h \<noteq> ''CONNECT''" "pport h = Null"
    and l0: "hd (header h) = m @ '' '' @ t @ '' HTTP/'' @ v" "CHR '' '' \<notin> set (m @ t @ v)" "\<not> startsWith (hd (header h)) ''CONNECT''"
    and url: "url = scheme @ ''://'' @ host @ ''/'' @ path" "plain_url scheme host path"
  shows "\<exists>h' h''. setURL url h = Some (url, h') \<and> getUrl False False h' = Some (url, h'')"
proof -
  have pu: "CHR '':'' \<notin> set scheme" "CHR ''/'' \<notin> set host" "CHR ''/'' \<notin> set scheme" "scheme \<noteq> []"
    "list_all (\<lambda>c. \<not> is_ws c) (scheme @ host @ path)" "nul_free (scheme @ host @ path)" using url(2) by (simp_all add: plain_url_def)
  have sp: "CHR '' '' \<notin> set url" using pu(5) unfolding url(1) by (auto simp: list_all_iff is_ws_def)
  have aft: "after url ''://'' = host @ ''/'' @ path" unfolding url(1) by (rule split_scheme(2) [OF pu(1)])
  have cs: "contains (after url ''://'') ''/''" unfolding aft by (simp add: contains_single)
  define https where "https = (before url ''://'' = ''https'' \<or> requesttype h = ''CONNECT'')"
  obtain n p where np: "url_host_port https url = (n, p)" by fastforce
  have m: "before (hd (header h)) '' '' = m" "after (hd (header h)) '' '' = t @ '' HTTP/'' @ v"
    using split_char [of "CHR '' ''" m "t @ '' HTTP/'' @ v"] l0 by simp_all
  have r: "after (t @ '' HTTP/'' @ v) '' '' = ''HTTP/'' @ v" using split_char(2) [of "CHR '' ''" t "''HTTP/'' @ v"] l0(2) by simp
  define f where "f = m @ '' '' @ url @ '' HTTP/'' @ v"
  have first: "url_first https url n p (hd (header h)) = f"
    unfolding url_first_def m r f_def using l0(3) by simp
  have ne: "\<not> header h = []" "ptrs_ok h" using assms(1) by (auto simp: hh_ok_def)
  define h1 where "h1 = h\<lparr>header := f # tl (header h)\<rparr>"
  have h1: "hh_ok h1" unfolding h1_def by (rule hh_ok_first [OF assms(1)])
  define h2 where "h2 = (case phost h of At i \<Rightarrow> h1\<lparr>header := (header h1)[i := host_line https n p]\<rparr> | _ \<Rightarrow> h1)"
  have s1: "set_line h1 (phost h) (\<lambda>v. host_line https n p) = Some h2"
    using set_line_Some [of h1 "phost h1"] h1 unfolding h2_def by (simp add: hh_ok_def h1_def)
  have s2: "pport h2 = Null" "requesttype h2 = requesttype h" using assms(3) by (simp_all add: h2_def h1_def split: line_ptr.splits)
  have "At 0 \<notin> ptrs h" using ne(2) by (auto simp: ptrs_ok_def)
  then have "phost h \<noteq> At 0" using phost_ptrs(1) [of h] by metis
  then have hd2: "header h2 \<noteq> []" "hd (header h2) = f" by (auto simp: h2_def h1_def split: line_ptr.splits nat.splits)
  have set: "setURL url h = Some (url, h2\<lparr>cachedurl := []\<rparr>)"
    unfolding setURL_def Let_def if_not_P [OF ne(1)] https_def [symmetric]
    by (simp only: cs not_True_eq_False if_False np prod.case first h1_def [symmetric] s1 option.case)
      (simp add: s2(1) set_line_def)
  have rt: "request_target f = url"
  proof -
    have a: "after f '' '' = url @ CHR '' '' # (''HTTP/'' @ v)"
      unfolding f_def using split_char(2) [of "CHR '' ''" m "url @ '' HTTP/'' @ v"] l0(2) by simp
    have b: "removeMultiChar (url @ CHR '' '' # (''HTTP/'' @ v)) (CHR '' '') = url @ CHR '' '' # (''HTTP/'' @ v)"
      using sp l0(2) by (intro removeMultiChar_free) auto
    have c: "after (url @ CHR '' '' # (''HTTP/'' @ v)) '' '' = ''HTTP/'' @ v" using split_char(2) [OF sp] by simp
    have d: "before (url @ CHR '' '' # (''HTTP/'' @ v)) '' HTTP/'' = url" using split_first(1) [OF sp, of "''HTTP/''" v] by simp
    show ?thesis unfolding request_target_def Let_def a b c d by (simp add: startsWith_def cstr_def nul_def)
  qed
  obtain c cs' where "scheme = c # cs'" using pu(4) by (cases scheme) auto
  then have u: "url \<noteq> []" "hd url \<noteq> CHR ''/''" using pu(3) by (auto simp: url(1))
  have "\<exists>h''. getUrl False False (h2\<lparr>cachedurl := []\<rparr>) = Some (url, h'')"
  proof -
    have abs: "absolute_url False False p0 url = (url, p0)" for p0 unfolding url(1) by (rule absolute_url_plain [OF url(2)])
    show ?thesis unfolding getUrl_def Let_def using hd2 s2 assms(2) rt u by (simp add: with_line_def url_from_def abs)
  qed
  then show ?thesis using set by blast
qed

section \<open>Bypass cookies\<close>

text \<open>The site itself and the domains above it that have a dot.\<close>

lemma cookie_match_iff:
  "cookie_match md5 magic hash url \<longleftrightarrow> (\<exists>d. dom_above d url \<and> CHR ''.'' \<in> set d \<and> md5 (d @ cstr magic) = hash)"
proof (induction md5 magic hash url rule: cookie_match.induct)
  case (1 md5 magic hash url)
  show ?case
  proof (cases "CHR ''.'' \<in> set url")
    case True
    then have c: "contains url ''.''" by (simp add: contains_dot)
    have "dom_above d url \<longleftrightarrow> d = url \<or> dom_above d (after url ''.'')" for d using dom_above_step [OF True] by simp
    then show ?thesis using 1 c True by (subst cookie_match.simps) auto
  next
    case False
    then show ?thesis using dom_above_no_dot [OF False] by (subst cookie_match.simps) (auto simp: contains_dot)
  qed
qed


section \<open>Properties\<close>

text \<open>C15: reading a request never follows a pointer to a line that is gone. When it succeeds the
  header has at most one host line below the first line, and that line names the host and the port of the
  URL in the first line, whatever the client sent.\<close>

theorem request_one_host:
  assumes "ready h" and "\<not> is_response h"
  shows "\<exists>ok h' rest. hh_in max_lines ident ap ls h = Some (ok, h', rest)
    \<and> (ok \<longrightarrow> ptrs_ok h' \<and> length (filter (\<lambda>v. startsWithLower v ''host:'') (tl (header h'))) \<le> 1
        \<and> (phost h' = At i \<longrightarrow> (\<exists>https u n p l0. url_host_port https u = (n, p)
             \<and> header h' ! 0 = url_first https u n p l0 \<and> header h' ! i = host_line https n p)))"
proof -
  obtain ok h' rest where r: "hh_in max_lines ident ap ls h = Some (ok, h', rest)" "ok \<longrightarrow> hh_ok h' \<and> is_response h' = is_response h"
    using hh_in_ok [OF assms(1)] by blast
  then show ?thesis using hh_in_host [OF assms, of max_lines ident ap ls h' rest i] single_host_filter [of h'] assms(2)
    by (cases ok) (auto simp: hh_ok_def)
qed

definition demo_request :: "string option list" where
  "demo_request = [Some (''GET http://a.com/x HTTP/1.1'' @ cr), Some (''Host: b.com'' @ cr), Some (''host: c.com'' @ cr), Some cr]"

lemma demo_ready: "ready (http_header_new r Null)"
  by (simp add: ready_def http_header_new_def ptrs_def)

theorem request_one_host_witness:
  "\<exists>ok h' rest. hh_in 1000 [] True demo_request (http_header_new False Null) = Some (ok, h', rest)"
  using request_one_host [OF demo_ready [of False], of 1000 "[]" True demo_request] by (fastforce simp: http_header_new_def)

text \<open>C16: after a plain URL was set in a request it is the URL that is read back from it.\<close>

theorem setURL_then_getUrl:
  assumes "hh_ok h" and "requesttype h \<noteq> ''CONNECT''" and "pport h = Null"
    and "hd (header h) = m @ '' '' @ t @ '' HTTP/'' @ v" and "CHR '' '' \<notin> set (m @ t @ v)"
    and "\<not> startsWith (hd (header h)) ''CONNECT''"
    and "url = scheme @ ''://'' @ host @ ''/'' @ path" and "plain_url scheme host path"
  shows "\<exists>h' h''. setURL url h = Some (url, h') \<and> getUrl False False h' = Some (url, h'')"
  by (rule setURL_getUrl_plain [OF assms])

definition demo_header :: http_header where
  "demo_header = (http_header_new False Null)\<lparr>header := [''GET http://b.com/ HTTP/1.1'', ''Host: b.com''], requesttype := ''GET'', phost := At 1\<rparr>"

lemma demo_header_ok: "hh_ok demo_header"
  by (auto simp: hh_ok_def ptrs_ok_def ptrs_def ports_apart_def single_host_def demo_header_def http_header_new_def less_Suc_eq)

theorem setURL_then_getUrl_witness:
  "\<exists>h' h''. setURL ''http://a.com/x'' demo_header = Some (''http://a.com/x'', h')
     \<and> getUrl False False h' = Some (''http://a.com/x'', h'')"
  by (rule setURL_then_getUrl [OF demo_header_ok, where m = "''GET''" and t = "''http://b.com/''" and v = "''1.1''"
        and scheme = "''http''" and host = "''a.com''" and path = "''x''"])
    (simp_all add: demo_header_def http_header_new_def plain_url_def is_ws_def nul_def startsWith_def cstr_def)

text \<open>C18: a URL with a scheme is rejected exactly when its host with its port has fewer than two bytes, or the host without the port
  has two dots in a row or a byte that no host name has, or is, without a dot at its end, an address in a disguise.\<close>

theorem malformedURL_exact:
  assumes "CHR '':'' \<notin> set scheme" and "CHR ''/'' \<notin> set auth" and "rest = [] \<or> hd rest = CHR ''/''"
  shows "malformedURL (scheme @ ''://'' @ auth @ rest)
    \<longleftrightarrow> length auth < 2 \<or> (let host = takeWhile (\<lambda>c. c \<noteq> CHR '':'') auth in
      sublist ''..'' host \<or> \<not> list_all host_char host \<or> obscured_address (no_end_dot host))"
  by (rule malformed_iff [OF assms])

theorem malformedURL_exact_witness:
  "malformedURL ''http://0x7f.1:80/'' \<longleftrightarrow> length ''0x7f.1:80'' < 2 \<or> (let host = takeWhile (\<lambda>c. c \<noteq> CHR '':'') ''0x7f.1:80'' in
      sublist ''..'' host \<or> \<not> list_all host_char host \<or> obscured_address (no_end_dot host))"
  using malformedURL_exact [of "''http''" "''0x7f.1:80''" "''/''"] by simp

text \<open>C19: decoding base64 gives back the encoded text when a byte follows it, as the carriage return of a
  header line does; every padding sign of the last group gives a NUL byte after the text.\<close>

theorem decodeb64_encoded: "decodeb64 (b64 s @ [t]) = s @ replicate ((3 - length s mod 3) mod 3) nul"
  by (rule decodeb64_b64)

text \<open>a bypass cookie is accepted exactly when its time is not over and its first 32 bytes are the
  hash of the secret, the client, the user and the time with the site or a domain above it.\<close>

theorem bypass_cookie_exact:
  "isBypassCookie md5 now site magic clientip user h \<longleftrightarrow>
     (let c = getCookie ''GBYPASS'' h; t = after c (cstr (take 32 c)) in
      c \<noteq> [] \<and> now \<le> toLong t
      \<and> (\<exists>d. dom_above d site \<and> CHR ''.'' \<in> set d \<and> md5 (d @ cstr (magic @ clientip @ user @ t)) = take 32 c))"
  by (auto simp: isBypassCookie_def Let_def cookie_match_iff)

text \<open>once a request had an identification line, the pointer to it is never cleared nor set again: when
  the next header was read on the same object, asking for the identification follows a pointer to a line
  that is gone.\<close>

theorem stale_ident_pointer:
  assumes "dirty h" and "pheaderident h = At i" and "hh_in max_lines ident ap ls h = Some (ok, h', rest)"
  shows "getAuthHeader h' = None"
  using hh_in_ident [OF assms(3)] assms(1,2) by (simp add: hh_reset_def getAuthHeader_def with_line_def)

theorem stale_ident_pointer_witness:
  "\<exists>h'. hh_in 10 ''ident:'' False [None] ((http_header_new False (At 3))\<lparr>dirty := True\<rparr>) = Some (False, h', []) \<and> getAuthHeader h' = None"
proof -
  obtain h' where "hh_in 10 ''ident:'' False [None] ((http_header_new False (At 3))\<lparr>dirty := True\<rparr>) = Some (False, h', [])"
    by (simp add: hh_in_def)
  with stale_ident_pointer [OF _ _ this] show ?thesis by (simp add: http_header_new_def)
qed

text \<open>rewriting a CONNECT request drops the lines below the first one and forgets the host line only:
  a pointer to another line then leads to a line that is gone.\<close>

theorem setConnect_dangling:
  assumes "hh_ok h" and "requesttype h = ''CONNECT''" and "pproxyconnection h \<noteq> Null" and "ispersistent h"
  shows "makePersistent False (setConnect site h) = None"
proof -
  have "Gone \<notin> ptrs h" using assms(1) by (simp add: hh_ok_def ptrs_ok_def)
  then obtain i where i: "pproxyconnection h = At i" using assms(3) phost_ptrs(3) [of h] by (cases "pproxyconnection h") auto
  then have "0 < i" "i < length (header h)" using assms(1) phost_ptrs(3) [of h] by (auto simp: hh_ok_def ptrs_ok_def)
  then show ?thesis using assms i
    by (simp add: makePersistent_def setConnect_def drop_lines_def put_connection_def set_line_def hh_ok_def Let_def)
qed

definition demo_connect :: http_header where
  "demo_connect = (http_header_new False Null)\<lparr>header := [''CONNECT a.com:443 HTTP/1.1'', ''Connection: keep-alive''],
     requesttype := ''CONNECT'', pproxyconnection := At 1, ispersistent := True\<rparr>"

theorem setConnect_dangling_witness: "makePersistent False (setConnect ''b.com'' demo_connect) = None"
proof (rule setConnect_dangling)
  show "hh_ok demo_connect"
    by (auto simp: hh_ok_def ptrs_ok_def ptrs_def ports_apart_def single_host_def demo_connect_def http_header_new_def
      less_Suc_eq startsWithLower_def c_tolower_def c_isupper_def)
qed (simp_all add: demo_connect_def http_header_new_def)

end
