(* ===== verification/Naughty_Filter.thy ===== *)
theory Naughty_Filter
  imports HTTP_Header
begin

text \<open>
  The state of the filter for one request (\<^verbatim>\<open>src/src/NaughtyFilter.cpp\<close>), the messages it shows
  (\<^verbatim>\<open>src/src/LanguageContainer.cpp\<close>) and the records it passes on (\<^verbatim>\<open>UrlRec.hpp\<close>,
  \<^verbatim>\<open>Auth.hpp\<close>): setting the URL, the flags for the log, and the texts that are made anonymous.

  The members of \<^verbatim>\<open>NaughtyFilter\<close> have the prefix \<open>cm_\<close>, after the name the code calls the object by.
  The two headers it points to are part of the state. The global options and the regular expression
  library are a record.
\<close>

section \<open>Messages\<close>

record language_container =
  lk_keys :: "nat list"
  lk_values :: "string list"

definition language_reset :: "language_container \<Rightarrow> language_container" where
  "language_reset lang = lang\<lparr>lk_keys := [], lk_values := []\<rparr>"

fun translation_loop :: "nat \<Rightarrow> nat list \<Rightarrow> string list \<Rightarrow> string option" where
  "translation_loop index (k # ks) (v # vs) = (if k = index then Some v else translation_loop index ks vs)"
| "translation_loop index _ _ = None"

text \<open>The number of a message is converted to an unsigned one.\<close>

definition getTranslation :: "language_container \<Rightarrow> int \<Rightarrow> string" where
  "getTranslation lang index =
     (let i = nat (index mod 2 ^ 32) in
      case translation_loop i (lk_keys lang) (lk_values lang) of
        Some v \<Rightarrow> v
      | None \<Rightarrow> ''TRANSLATION KEY '' @ nat_str i @ '' MISSING '')"

definition quote_comma :: string where
  "quote_comma = dquote @ '','' @ dquote"

definition language_line :: "string \<Rightarrow> language_container \<Rightarrow> language_container" where
  "language_line linebuffer lang =
     (if linebuffer = [] then lang
      else let line = cstr linebuffer;
               k = nat (toInteger (before (after line dquote) quote_comma) mod 2 ^ 32);
               v = before (after line quote_comma) dquote
           in if v \<noteq> [] then lang\<lparr>lk_keys := lk_keys lang @ [k], lk_values := lk_values lang @ [v]\<rparr> else lang)"

text \<open>Reading the lines of the file; a file that is missing is \<open>None\<close>.\<close>

definition readLanguageList :: "string list option \<Rightarrow> language_container \<Rightarrow> bool \<times> language_container" where
  "readLanguageList file lang =
     (case file of None \<Rightarrow> (False, lang) | Some ls \<Rightarrow> (True, fold language_line ls lang))"


section \<open>State\<close>

record url_rec =
  ur_fullurl :: string
  ur_urldomain :: string
  ur_baseurl :: string
  ur_is_siteonly :: bool
  ur_site_is_ip :: bool

definition url_rec_new :: url_rec where
  "url_rec_new = \<lparr>ur_fullurl = [], ur_urldomain = [], ur_baseurl = [], ur_is_siteonly = False, ur_site_is_ip = False\<rparr>"

record auth_rec =
  ar_user_name :: string
  ar_is_authed :: bool
  ar_filter_group :: int
  ar_is_proxy :: bool
  ar_is_transparent :: bool
  ar_is_icap :: bool
  ar_user_source :: string
  ar_group_source :: string

record nf_env =
  ne_rx :: regex_lib
  ne_urldecode_re :: reg_exp
  ne_anonymise_logs :: bool
  ne_no_proxy :: bool

record naughty_filter =
  cm_isItNaughty :: bool
  cm_isException :: bool
  cm_isGrey :: bool
  cm_isSSLGrey :: bool
  cm_isSearch :: bool
  cm_isBlocked :: bool
  cm_hasSNI :: bool
  cm_isTLS :: bool
  cm_got_orig_ip :: bool
  cm_isReturn :: bool
  cm_reverse_checked :: bool
  cm_hasEmbededURL :: bool
  cm_gomitm :: bool
  cm_nomitm :: bool
  cm_automitm :: bool
  cm_deep_urls_checked :: bool
  cm_has_deep_urls :: bool
  cm_anon_user :: bool
  cm_anon_url :: bool
  cm_upfailure :: bool
  cm_waschecked :: bool
  cm_wasrequested :: bool
  cm_isexception :: bool
  cm_isourwebserver :: bool
  cm_wasclean :: bool
  cm_isbypass :: bool
  cm_iscookiebypass :: bool
  cm_isvirusbypass :: bool
  cm_isscanbypass :: bool
  cm_isbypassallowed :: bool
  cm_isinfectionbypassallowed :: bool
  cm_ispostblock :: bool
  cm_pausedtoobig :: bool
  cm_wasinfected :: bool
  cm_wasscanned :: bool
  cm_contentmodified :: bool
  cm_urlmodified :: bool
  cm_headermodified :: bool
  cm_headeradded :: bool
  cm_isconnect :: bool
  cm_ishead :: bool
  cm_isiphost :: bool
  cm_ismitmcandidate :: bool
  cm_is_ssl :: bool
  cm_ismitm :: bool
  cm_isdone :: bool
  cm_nolog :: bool
  cm_nocheckcert :: bool
  cm_logcategory :: bool
  cm_noviruscheck :: bool
  cm_urlredirect :: bool
  cm_isdirect :: bool
  cm_is_text :: bool
  cm_issiteonly :: bool
  cm_special_exception_ip :: bool
  cm_special_banned_ip :: bool
  cm_usedisplaycats :: bool
  cm_store :: bool
  cm_orig_ip :: string
  cm_search_words :: string
  cm_search_terms :: string
  cm_mimetype :: string
  cm_url :: string
  cm_baseurl :: string
  cm_logurl :: string
  cm_urld :: string
  cm_urldomain :: string
  cm_urldomainport :: string
  cm_connect_site :: string
  cm_user :: string
  cm_lastmatch :: string
  cm_result :: string
  cm_exceptioncat :: string
  cm_tempfilename :: string
  cm_tempfilemime :: string
  cm_tempfiledis :: string
  cm_whatIsNaughty :: string
  cm_whatIsNaughtyLog :: string
  cm_whatIsNaughtyCategories :: string
  cm_whatIsNaughtyDisplayCategories :: string
  cm_clienthost :: string
  cm_clientip :: string
  cm_gateway_name :: string
  cm_gateway_ip :: string
  cm_lastcategory :: string
  cm_orig_port :: int
  cm_listen_port :: int
  cm_headersent :: int
  cm_bypasstimestamp :: int
  cm_docsize :: int
  cm_filtergroup :: int
  cm_blocktype :: int
  cm_message_no :: int
  cm_log_message_no :: int
  cm_naughtiness :: int
  cm_reversedURLs :: "url_rec list"
  cm_deep_urls :: "url_rec list"
  cm_authrec :: "auth_rec option"
  cm_request_header :: http_header
  cm_response_header :: http_header
  ch_isiphost :: reg_exp

text \<open>The expression that host names with a letter match.\<close>

definition nf_pattern :: string where
  "nf_pattern = '',*[a-z|A-Z].*''"

definition nf_reset :: "nf_env \<Rightarrow> naughty_filter \<Rightarrow> naughty_filter" where
  "nf_reset env cm = cm\<lparr>
      cm_anon_user := ne_anonymise_logs env, cm_anon_url := False, cm_isItNaughty := False,
      cm_isException := False, cm_usedisplaycats := False, cm_store := False, cm_isGrey := False,
      cm_isSSLGrey := False, cm_isSearch := False, cm_is_text := False, cm_deep_urls_checked := False,
      cm_has_deep_urls := False, cm_issiteonly := False, cm_gomitm := False, cm_nomitm := False,
      cm_automitm := False, cm_waschecked := False, cm_wasrequested := False, cm_isexception := False,
      cm_isourwebserver := False, cm_wasclean := False, cm_isbypass := False, cm_iscookiebypass := False,
      cm_isvirusbypass := False, cm_isbypassallowed := False, cm_isinfectionbypassallowed := False,
      cm_isscanbypass := False, cm_ispostblock := False, cm_pausedtoobig := False, cm_wasinfected := False,
      cm_wasscanned := False, cm_contentmodified := False, cm_urlmodified := False, cm_headermodified := False,
      cm_headeradded := False, cm_nocheckcert := False, cm_urlredirect := False, cm_logcategory := False,
      cm_upfailure := False, cm_got_orig_ip := False, cm_noviruscheck := True, cm_isdirect := ne_no_proxy env,
      cm_mimetype := ''-'', cm_logurl := [], cm_whatIsNaughty := [], cm_whatIsNaughtyLog := [],
      cm_whatIsNaughtyCategories := [], cm_tempfilename := [], cm_tempfilemime := [], cm_tempfiledis := [],
      cm_orig_ip := [], cm_gateway_name := [], cm_gateway_ip := [], cm_blocktype := 0, cm_naughtiness := 0,
      cm_message_no := 0, cm_filtergroup := 0, cm_bypasstimestamp := 0, cm_headersent := 0,
      cm_log_message_no := 0, cm_docsize := 0, cm_orig_port := 0\<rparr>"

definition naughty_filter_new :: "nf_env \<Rightarrow> http_header \<Rightarrow> http_header \<Rightarrow> auth_rec option \<Rightarrow> naughty_filter" where
  "naughty_filter_new env request response auth = nf_reset env \<lparr>
      cm_isItNaughty = False, cm_isException = False, cm_isGrey = False, cm_isSSLGrey = False,
      cm_isSearch = False, cm_isBlocked = False, cm_hasSNI = False, cm_isTLS = False, cm_got_orig_ip = False,
      cm_isReturn = False, cm_reverse_checked = False, cm_hasEmbededURL = False, cm_gomitm = False,
      cm_nomitm = False, cm_automitm = False, cm_deep_urls_checked = False, cm_has_deep_urls = False,
      cm_anon_user = False, cm_anon_url = False, cm_upfailure = False, cm_waschecked = False,
      cm_wasrequested = False, cm_isexception = False, cm_isourwebserver = False, cm_wasclean = False,
      cm_isbypass = False, cm_iscookiebypass = False, cm_isvirusbypass = False, cm_isscanbypass = False,
      cm_isbypassallowed = False, cm_isinfectionbypassallowed = False, cm_ispostblock = False,
      cm_pausedtoobig = False, cm_wasinfected = False, cm_wasscanned = False, cm_contentmodified = False,
      cm_urlmodified = False, cm_headermodified = False, cm_headeradded = False, cm_isconnect = False,
      cm_ishead = False, cm_isiphost = False, cm_ismitmcandidate = False, cm_is_ssl = False, cm_ismitm = False,
      cm_isdone = False, cm_nolog = False, cm_nocheckcert = False, cm_logcategory = False,
      cm_noviruscheck = True, cm_urlredirect = False, cm_isdirect = False, cm_is_text = False,
      cm_issiteonly = False, cm_special_exception_ip = False, cm_special_banned_ip = False,
      cm_usedisplaycats = False, cm_store = False, cm_orig_ip = [], cm_search_words = [], cm_search_terms = [],
      cm_mimetype = [], cm_url = [], cm_baseurl = [], cm_logurl = [], cm_urld = [], cm_urldomain = [],
      cm_urldomainport = [], cm_connect_site = [], cm_user = [], cm_lastmatch = [], cm_result = [],
      cm_exceptioncat = [], cm_tempfilename = [], cm_tempfilemime = [], cm_tempfiledis = [],
      cm_whatIsNaughty = [], cm_whatIsNaughtyLog = [], cm_whatIsNaughtyCategories = [],
      cm_whatIsNaughtyDisplayCategories = [], cm_clienthost = [], cm_clientip = [], cm_gateway_name = [],
      cm_gateway_ip = [], cm_lastcategory = [], cm_orig_port = 0, cm_listen_port = 0, cm_headersent = 0,
      cm_bypasstimestamp = 0, cm_docsize = 0, cm_filtergroup = 0, cm_blocktype = 0, cm_message_no = 0,
      cm_log_message_no = 0, cm_naughtiness = 0, cm_reversedURLs = [], cm_deep_urls = [], cm_authrec = auth,
      cm_request_header = request, cm_response_header = response,
      ch_isiphost = snd (re_comp (ne_rx env) nf_pattern reg_exp_new)\<rparr>"


section \<open>Operations\<close>

text \<open>\<open>None\<close> is a match that does not end.\<close>

definition isIPHostnameStrip :: "nf_env \<Rightarrow> naughty_filter \<Rightarrow> string \<Rightarrow> bool option" where
  "isIPHostnameStrip env cm url =
     map_option (\<lambda>(b, rs). \<not> b) (re_match (ne_rx env) (ch_isiphost cm) (cstr (getHostname url)) reg_result_new)"

definition base_url :: "string \<Rightarrow> string" where
  "base_url url = removePTP (toLower (removeWhiteSpace url))"

text \<open>The parts of the state that come from the URL, in both forms of \<^verbatim>\<open>setURL\<close>.\<close>

definition url_members :: "nf_env \<Rightarrow> string \<Rightarrow> string \<Rightarrow> naughty_filter \<Rightarrow> naughty_filter option" where
  "url_members env url logurl cm =
     (let domain = toLower (getHostname url) in
      case decode (ne_rx env) (ne_urldecode_re env) url False of
        None \<Rightarrow> None
      | Some urld \<Rightarrow>
          map_option (\<lambda>ip. cm\<lparr>cm_url := url, cm_baseurl := base_url url, cm_logurl := logurl, cm_urld := urld,
              cm_urldomain := domain, cm_connect_site := domain, cm_isiphost := ip,
              cm_issiteonly := (cm_issiteonly cm \<or> base_url url = domain), cm_docsize := 0\<rparr>)
            (isIPHostnameStrip env cm domain))"

definition nf_setURL :: "nf_env \<Rightarrow> bool \<Rightarrow> naughty_filter \<Rightarrow> naughty_filter option" where
  "nf_setURL env set_ismitm cm =
     (case getUrl False False (cm_request_header cm) of
        None \<Rightarrow> None
      | Some (url, h1) \<Rightarrow>
          (case getLogUrl False set_ismitm h1 of
             None \<Rightarrow> None
           | Some (logurl, h2) \<Rightarrow>
               (case getUrl True False h2 of
                  None \<Rightarrow> None
                | Some (temp, h3) \<Rightarrow>
                    map_option (\<lambda>cm'. cm'\<lparr>cm_request_header := h3, cm_urldomainport := toLower (getHostname temp),
                        cm_is_ssl := startsWith (requesttype h3) ''CONNECT'', cm_ishead := startsWith (requesttype h3) ''HEAD'',
                        cm_isconnect := startsWith (requesttype h3) ''CONNECT'', cm_ismitm := set_ismitm\<rparr>)
                      (url_members env url logurl cm))))"

definition nf_setURL_sni :: "nf_env \<Rightarrow> string \<Rightarrow> naughty_filter \<Rightarrow> naughty_filter option" where
  "nf_setURL_sni env sni cm = url_members env sni sni cm"

definition getFlags :: "naughty_filter \<Rightarrow> string" where
  "getFlags cm =
     int_str (cm_listen_port cm) @ '':'' @
     (case cm_authrec cm of
        None \<Rightarrow> []
      | Some a \<Rightarrow>
          (if ar_is_transparent a then ''T'' else if ar_is_icap a then ''I'' else ''P'')
          @ (if cm_ismitm cm then ''M'' else if cm_isconnect cm then ''S'' else if \<not> ar_is_icap a then ''H'' else [])
          @ '':'' @ ar_user_source a @ '':'' @ ar_group_source a
          @ (if cm_gateway_name cm \<noteq> [] then '':'' @ cm_gateway_name cm else []))"

definition get_lastmatch :: "naughty_filter \<Rightarrow> string" where
  "get_lastmatch cm = (if cm_anon_url cm then anonimise (cm_lastmatch cm) else cm_lastmatch cm)"

definition get_logUrl :: "naughty_filter \<Rightarrow> string" where
  "get_logUrl cm =
     (if cm_anon_url cm then before (cm_logurl cm) ''://'' @ ''://'' @ anonimise (after (cm_logurl cm) ''://'')
      else cm_logurl cm)"

end
