(* ===== verification/Story_Board.thy ===== *)
theory Story_Board
  imports Naughty_Filter IP_Match
begin

text \<open>
  Storyboards (\<^verbatim>\<open>src/src/SBFunction.cpp\<close>, \<^verbatim>\<open>src/src/StoryBoard.cpp\<close>): the rules that decide
  what happens to a request. A storyboard is a list of functions, a function a list of lines, a line a test
  and an action that is a built-in one or a call of another function.

  Reading: \<open>addline\<close>, \<open>readFile\<close> with includes, and the second pass that looks up lists and actions.
  Running: \<open>runFunct\<close> with a bound \<open>k\<close> on the depth of calls; the outcome tells a call that needs more
  depth from an access out of range and from a list or header test that does not return.
\<close>

section \<open>Functions\<close>

abbreviation (input) SB_STATE_URLIN :: nat where "SB_STATE_URLIN \<equiv> 1"
abbreviation (input) SB_STATE_SITEIN :: nat where "SB_STATE_SITEIN \<equiv> 2"
abbreviation (input) SB_STATE_SEARCHIN :: nat where "SB_STATE_SEARCHIN \<equiv> 3"
abbreviation (input) SB_STATE_EMBEDDEDIN :: nat where "SB_STATE_EMBEDDEDIN \<equiv> 4"
abbreviation (input) SB_STATE_REFERERIN :: nat where "SB_STATE_REFERERIN \<equiv> 5"
abbreviation (input) SB_STATE_HEADERIN :: nat where "SB_STATE_HEADERIN \<equiv> 6"
abbreviation (input) SB_STATE_FULLURLIN :: nat where "SB_STATE_FULLURLIN \<equiv> 7"
abbreviation (input) SB_STATE_EXTENSIONIN :: nat where "SB_STATE_EXTENSIONIN \<equiv> 8"
abbreviation (input) SB_STATE_MIMEIN :: nat where "SB_STATE_MIMEIN \<equiv> 9"
abbreviation (input) SB_STATE_CLIENTIN :: nat where "SB_STATE_CLIENTIN \<equiv> 10"
abbreviation (input) SB_STATE_USERAGENTIN :: nat where "SB_STATE_USERAGENTIN \<equiv> 11"
abbreviation (input) SB_STATE_TIMEIN :: nat where "SB_STATE_TIMEIN \<equiv> 12"
abbreviation (input) SB_STATE_USERIN :: nat where "SB_STATE_USERIN \<equiv> 13"
abbreviation (input) SB_STATE_LISTEN_PORTIN :: nat where "SB_STATE_LISTEN_PORTIN \<equiv> 14"
abbreviation (input) SB_STATE_RESHEADERIN :: nat where "SB_STATE_RESHEADERIN \<equiv> 15"
abbreviation (input) SB_STATE_TOPIN :: nat where "SB_STATE_TOPIN \<equiv> 16"

text \<open>Names of tests, in the order of their numbers, and of the built-in actions, whose numbers begin
  above \<^verbatim>\<open>SB_BI_FUNC_BASE\<close>.\<close>

definition state_map :: "string list" where
  "state_map = [''urlin'', ''sitein'', ''searchin'', ''embeddedin'', ''refererin'', ''headerin'', ''fullurlin'',
     ''extensionin'', ''mimein'', ''clientin'', ''useragentin'', ''timein'', ''userin'', ''listenportin'',
     ''responseheaderin'', ''connect'', ''post'', ''get'', ''siteisip'', ''tls'', ''exceptionset'', ''greyset'',
     ''blockset'', ''mitmset'', ''doneset'', ''returnset'', ''true'', ''hassniset'', ''redirectset'', ''viruscheckset'',
     ''bypassset'', ''bypassallowset'', ''infectionbypassallowset'']"

definition bi_funct_map :: "string list" where
  "bi_funct_map = [''setexception'', ''setgrey'', ''setblock'', ''setmodurl'', ''setdone'', ''true'', ''false'',
     ''setgomitm'', ''setlogcategory'', ''setaddheader'', ''setredirect'', ''setnocheckcert'', ''setsearchterm'',
     ''setmodheader'', ''setgodirect'', ''setnolog'', ''unsetviruscheck'', ''unsetbypass'', ''setconnectsite'',
     ''unsetbypassallow'', ''unsetinfectionbypassallow'', ''setnomitm'', ''setautomitm'', ''unsetautomitm'', ''setgroup'']"

abbreviation (input) SB_BI_FUNC_BASE :: nat where "SB_BI_FUNC_BASE \<equiv> 5000"

record com_rec =
  isif :: bool
  state :: nat
  list_id_dq :: "list_info list"
  mess_no :: int
  log_mess_no :: int
  action_id :: nat
  return_after_action :: bool
  return_after_action_is_true :: bool
  optional :: bool
  file_lineno :: nat
  action_name :: string
  list_name :: string

definition com_rec_new :: com_rec where
  "com_rec_new = \<lparr>isif = False, state = 0, list_id_dq = [], mess_no = 0, log_mess_no = 0, action_id = 0,
     return_after_action = False, return_after_action_is_true = False, optional = False, file_lineno = 0,
     action_name = [], list_name = []\<rparr>"

record sb_function =
  fn_name :: string
  fn_id :: nat
  comm_dq :: "com_rec list"
  fn_file_name :: string
  fn_file_lineno :: nat

text \<open>An object on which \<^verbatim>\<open>start\<close> was not called yet.\<close>

definition sb_function_new :: sb_function where
  "sb_function_new = \<lparr>fn_name = [], fn_id = 0, comm_dq = [], fn_file_name = [], fn_file_lineno = 0\<rparr>"

definition sb_start :: "string \<Rightarrow> nat \<Rightarrow> nat \<Rightarrow> string \<Rightarrow> sb_function \<Rightarrow> sb_function" where
  "sb_start sname fid line_no filename f =
     f\<lparr>fn_name := sname, fn_id := fid, fn_file_lineno := line_no, fn_file_name := filename, comm_dq := []\<rparr>"

fun index_loop :: "string \<Rightarrow> string list \<Rightarrow> nat \<Rightarrow> nat option" where
  "index_loop s [] i = None"
| "index_loop s (x # xs) i = (if s = x then Some (Suc i) else index_loop s xs (Suc i))"

definition getStateID :: "string \<Rightarrow> nat" where
  "getStateID s = (case index_loop s state_map 0 of Some i \<Rightarrow> i | None \<Rightarrow> 0)"

definition getBIFunctID :: "string \<Rightarrow> nat" where
  "getBIFunctID action = (case index_loop action bi_funct_map 0 of Some i \<Rightarrow> i + SB_BI_FUNC_BASE | None \<Rightarrow> 0)"

text \<open>The number is unsigned: 0 wraps around.\<close>

definition getState :: "nat \<Rightarrow> string" where
  "getState sid = (let i = (if sid = 0 then 2 ^ 32 - 1 else sid - 1) in if i < length state_map then state_map ! i else [])"

definition getBIFunct :: "nat \<Rightarrow> string" where
  "getBIFunct fid =
     (if fid > 5000 then let i = fid - 5001 in if i < length bi_funct_map then bi_funct_map ! i else [] else [])"

text \<open>The next parameter and what is left of the parameters.\<close>

definition next_param :: "string \<Rightarrow> string \<times> string" where
  "next_param temp =
     (if contains temp '','' then (removeWhiteSpace (before temp '',''), after temp '','') else (removeWhiteSpace temp, []))"

definition line_params :: "string \<Rightarrow> com_rec \<Rightarrow> com_rec" where
  "line_params t0 rec =
     (let (p1, t1) = next_param t0; r1 = (if t0 \<noteq> [] then rec\<lparr>list_name := p1\<rparr> else rec);
          t1' = (if t0 \<noteq> [] then t1 else t0);
          (p2, t2) = next_param t1'; r2 = (if t1' \<noteq> [] then r1\<lparr>mess_no := toInteger p2 mod 2 ^ 32\<rparr> else r1);
          t2' = (if t1' \<noteq> [] then t2 else t1');
          (p3, t3) = next_param t2'; r3 = (if t2' \<noteq> [] then r2\<lparr>log_mess_no := toInteger p3 mod 2 ^ 32\<rparr> else r2);
          t3' = (if t2' \<noteq> [] then t3 else t2');
          (p4, t4) = next_param t3'
      in if t3' \<noteq> [] \<and> p4 = ''optional'' then r3\<lparr>optional := True\<rparr> else r3)"

definition addline :: "string \<Rightarrow> string \<Rightarrow> string \<Rightarrow> nat \<Rightarrow> sb_function \<Rightarrow> bool \<times> sb_function" where
  "addline command params action line_no f =
     (if command \<noteq> ''if'' \<and> command \<noteq> ''ifnot'' then (False, f)
      else let st = getStateID (removeWhiteSpace (if contains params '','' then before params '','' else params));
               rest = (if contains params '','' then after params '','' else [])
        in if st = 0 then (False, f)
           else let r0 = com_rec_new\<lparr>isif := (command = ''if''), action_id := (if command = ''if'' then 3 else 4),
                      file_lineno := line_no, state := st\<rparr>;
                    r1 = line_params rest r0;
                    ret = startsWith action ''return ''; retif = (\<not> ret \<and> startsWith action ''returnif '');
                    a = (if ret then after action ''return '' else if retif then after action ''returnif '' else action)
                in (True, f\<lparr>comm_dq := comm_dq f @ [r1\<lparr>return_after_action := ret, return_after_action_is_true := retif,
                      action_name := removeWhiteSpace a\<rparr>]\<rparr>))"


section \<open>Storyboards\<close>

text \<open>The entry table has 20 places, which the constructor leaves uninitialised.\<close>

record story_board =
  entrys :: "nat list"
  fnt_cnt :: nat
  funct_vec :: "sb_function list"

definition story_board_new :: "nat list \<Rightarrow> story_board" where
  "story_board_new garbage = \<lparr>entrys = garbage, fnt_cnt = 0, funct_vec = []\<rparr>"

text \<open>Built-in actions are known only when the vector of functions is not empty.\<close>

definition getFunctID :: "story_board \<Rightarrow> string \<Rightarrow> nat" where
  "getFunctID sb fname =
     (let i = (if funct_vec sb \<noteq> [] then getBIFunctID fname else 0) in
      if i > 0 then i
      else case List.find (\<lambda>f. fn_name f = fname) (funct_vec sb) of Some f \<Rightarrow> fn_id f | None \<Rightarrow> 0)"

text \<open>The function that is being read: what is kept between the lines.\<close>

record reading =
  rd_sb :: story_board
  rd_curr :: sb_function
  rd_fnt_id :: nat
  rd_overwrite :: bool
  rd_in_function :: bool

text \<open>Storing the function; \<^verbatim>\<open>at\<close> raises an exception when the number is out of range, as 0 or a number
  beyond the vector is: \<open>None\<close>.\<close>

definition push_function :: "reading \<Rightarrow> reading option" where
  "push_function rd =
     (let sb = rd_sb rd in
      if rd_overwrite rd then
        (if 0 < rd_fnt_id rd \<and> rd_fnt_id rd - 1 < length (funct_vec sb)
         then Some (rd\<lparr>rd_sb := sb\<lparr>funct_vec := (funct_vec sb)[rd_fnt_id rd - 1 := rd_curr rd]\<rparr>, rd_fnt_id := rd_fnt_id rd - 1\<rparr>)
         else None)
      else Some (rd\<lparr>rd_sb := sb\<lparr>funct_vec := funct_vec sb @ [rd_curr rd]\<rparr>\<rparr>))"

text \<open>Reading a file: success, a file that is rejected, an exception, or includes nested too deep for the
  given bound.\<close>

datatype 'a read_result = Ok 'a | Bad_file | Raised | Too_deep

fun rbind :: "'a read_result \<Rightarrow> ('a \<Rightarrow> 'b read_result) \<Rightarrow> 'b read_result" where
  "rbind (Ok x) f = f x"
| "rbind Bad_file f = Bad_file"
| "rbind Raised f = Raised"
| "rbind Too_deep f = Too_deep"

definition pushed :: "reading \<Rightarrow> reading read_result" where
  "pushed rd = (case push_function rd of None \<Rightarrow> Raised | Some rd1 \<Rightarrow> Ok rd1)"

text \<open>A line \<open>function(...)\<close>, which ends the function before it.\<close>

definition start_function :: "string \<Rightarrow> string \<Rightarrow> nat \<Rightarrow> reading \<Rightarrow> reading read_result" where
  "start_function filename params line_no rd =
     rbind (if rd_in_function rd then pushed rd else Ok rd) (\<lambda>rd1.
       let oldf = getFunctID (rd_sb rd1) params in
       if oldf > SB_BI_FUNC_BASE then Bad_file
       else let fid = (if oldf > 0 then oldf else Suc (fnt_cnt (rd_sb rd1)));
                sb = (if oldf > 0 then rd_sb rd1 else (rd_sb rd1)\<lparr>fnt_cnt := fid\<rparr>)
         in Ok (rd1\<lparr>rd_sb := sb, rd_fnt_id := fid, rd_overwrite := oldf > 0, rd_in_function := True,
              rd_curr := sb_start params fid line_no filename (rd_curr rd1)\<rparr>))"

definition end_function :: "reading \<Rightarrow> reading read_result" where
  "end_function rd =
     (if rd_in_function rd then rbind (pushed rd) (\<lambda>rd1. Ok (rd1\<lparr>rd_in_function := False\<rparr>)) else Ok rd)"

text \<open>The three parts of a line.\<close>

definition line_parts :: "string \<Rightarrow> string \<times> string \<times> string" where
  "line_parts line0 =
     (let line = toLower line0;
          action0 = after line '')'';
          action = (if contains action0 ''#'' then before action0 ''#'' else action0)
      in (removeWhiteSpace (before line ''(''), removeWhiteSpace (after (before line '')'') ''(''), removeWhiteSpace action))"

text \<open>One line of a file; \<open>include\<close> reads an included file.\<close>

definition sb_line :: "(string \<Rightarrow> story_board \<Rightarrow> story_board read_result) \<Rightarrow> string \<Rightarrow> string \<Rightarrow> nat \<Rightarrow> reading \<Rightarrow> reading read_result" where
  "sb_line include filename linebuffer line_no rd =
     (if linebuffer = [] then Ok rd
      else let line = removeWhiteSpace (cstr linebuffer) in
      if startsWith line ''.'' then
        (let temp = before (after line ''.Include<'') ''>'' in
         if temp \<noteq> [] then
           rbind (include (cstr (fullPath temp (baseDir filename))) (rd_sb rd)) (\<lambda>sb. Ok (rd\<lparr>rd_sb := sb\<rparr>))
         else Ok rd)
      else if startsWith line ''#'' then Ok rd
      else case line_parts line of
        (command, params, action) \<Rightarrow>
          if command = ''function'' then start_function filename params line_no rd
          else if command = ''end'' then end_function rd
          else case addline command params action line_no (rd_curr rd) of
            (True, f) \<Rightarrow> Ok (rd\<lparr>rd_curr := f\<rparr>)
          | (False, f) \<Rightarrow> Bad_file)"

fun sb_lines :: "(string \<Rightarrow> story_board \<Rightarrow> story_board read_result) \<Rightarrow> string \<Rightarrow> string list \<Rightarrow> nat \<Rightarrow> reading \<Rightarrow> reading read_result" where
  "sb_lines include filename [] line_no rd = Ok rd"
| "sb_lines include filename (b # bs) line_no rd =
     rbind (sb_line include filename b (Suc line_no) rd) (sb_lines include filename bs (Suc line_no))"

text \<open>The first pass over a file and the files it includes, to a depth of \<open>n\<close>; a nesting that is deeper
  is \<open>Too_deep\<close>. The file system gives the lines of a file.\<close>

definition file_pass :: "(string \<Rightarrow> story_board \<Rightarrow> story_board read_result) \<Rightarrow> (string \<rightharpoonup> string list) \<Rightarrow> string \<Rightarrow> story_board \<Rightarrow> story_board read_result" where
  "file_pass include files filename sb =
     (if length filename < 3 then Bad_file
      else case files filename of
        None \<Rightarrow> Bad_file
      | Some ls \<Rightarrow>
          rbind (sb_lines include filename ls 0
              \<lparr>rd_sb = sb, rd_curr = sb_function_new, rd_fnt_id = 0, rd_overwrite = False, rd_in_function = False\<rparr>)
            (\<lambda>rd. if rd_in_function rd then rbind (pushed rd) (\<lambda>rd1. Ok (rd_sb rd1)) else Ok (rd_sb rd)))"

fun sb_pass1 :: "nat \<Rightarrow> (string \<rightharpoonup> string list) \<Rightarrow> string \<Rightarrow> story_board \<Rightarrow> story_board read_result" where
  "sb_pass1 0 files filename sb = Too_deep"
| "sb_pass1 (Suc n) files filename sb = file_pass (sb_pass1 n files) files filename sb"

text \<open>The second pass: the lists and the action of every line.\<close>

definition types_of :: "nat \<Rightarrow> nat list" where
  "types_of st =
     (if st = SB_STATE_SITEIN then [LIST_TYPE_IPSITE, LIST_TYPE_SITE, LIST_TYPE_REGEXP_BOOL]
      else if st = SB_STATE_URLIN then [LIST_TYPE_IPSITE, LIST_TYPE_SITE, LIST_TYPE_URL, LIST_TYPE_FILE_EXT, LIST_TYPE_REGEXP_BOOL]
      else if st = SB_STATE_SEARCHIN then [LIST_TYPE_SEARCH]
      else if st = SB_STATE_EMBEDDEDIN \<or> st = SB_STATE_REFERERIN
        then [LIST_TYPE_IPSITE, LIST_TYPE_SITE, LIST_TYPE_URL, LIST_TYPE_REGEXP_BOOL]
      else if st = SB_STATE_FULLURLIN then [LIST_TYPE_REGEXP_REP]
      else if st = SB_STATE_HEADERIN \<or> st = SB_STATE_RESHEADERIN then [LIST_TYPE_REGEXP_REP, LIST_TYPE_REGEXP_BOOL]
      else if st = SB_STATE_CLIENTIN then [LIST_TYPE_IP, LIST_TYPE_SITE, LIST_TYPE_IPMAP]
      else if st = SB_STATE_USERIN then [LIST_TYPE_IPMAP, LIST_TYPE_MAP]
      else if st = SB_STATE_EXTENSIONIN then [LIST_TYPE_FILE_EXT]
      else if st = SB_STATE_MIMEIN then [LIST_TYPE_MIME]
      else if st = SB_STATE_USERAGENTIN then [LIST_TYPE_REGEXP_BOOL]
      else if st = SB_STATE_TIMEIN then [LIST_TYPE_TIME]
      else if st = SB_STATE_LISTEN_PORTIN then [LIST_TYPE_MAP]
      else [])"

text \<open>The list of a name and a type is marked as used and its record, as it was before, is copied.\<close>

fun add_lists :: "string \<Rightarrow> nat list \<Rightarrow> list_info list \<Rightarrow> list_info list \<times> list_info list" where
  "add_lists name [] lv = ([], lv)"
| "add_lists name (t # ts) lv =
     (case findListPtr name t lv of
        None \<Rightarrow> add_lists name ts lv
      | Some i \<Rightarrow>
          if li_name (lv ! i) \<noteq> [] then
            (case add_lists name ts (lv[i := (lv ! i)\<lparr>li_used := True\<rparr>]) of (found, lv') \<Rightarrow> (lv ! i # found, lv'))
          else add_lists name ts lv)"

definition bind_line :: "story_board \<Rightarrow> com_rec \<Rightarrow> list_info list \<Rightarrow> com_rec \<times> list_info list" where
  "bind_line sb c lv =
     (case (if state c < SB_STATE_TOPIN then add_lists (list_name c) (types_of (state c)) lv else ([], lv)) of
        (found, lv') \<Rightarrow> (c\<lparr>list_id_dq := list_id_dq c @ found, action_id := getFunctID sb (action_name c)\<rparr>, lv'))"

fun bind_lines :: "story_board \<Rightarrow> com_rec list \<Rightarrow> list_info list \<Rightarrow> com_rec list \<times> list_info list" where
  "bind_lines sb [] lv = ([], lv)"
| "bind_lines sb (c # cs) lv =
     (case bind_line sb c lv of (c', lv1) \<Rightarrow> (case bind_lines sb cs lv1 of (cs', lv2) \<Rightarrow> (c' # cs', lv2)))"

fun bind_functions :: "story_board \<Rightarrow> sb_function list \<Rightarrow> list_info list \<Rightarrow> sb_function list \<times> list_info list" where
  "bind_functions sb [] lv = ([], lv)"
| "bind_functions sb (f # fs) lv =
     (case bind_lines sb (comm_dq f) lv of
        (cs, lv1) \<Rightarrow> (case bind_functions sb fs lv1 of (fs', lv2) \<Rightarrow> (f\<lparr>comm_dq := cs\<rparr> # fs', lv2)))"

definition sb_readFile :: "nat \<Rightarrow> (string \<rightharpoonup> string list) \<Rightarrow> string \<Rightarrow> list_info list \<Rightarrow> story_board
    \<Rightarrow> (story_board \<times> list_info list) read_result" where
  "sb_readFile n files filename lv sb =
     rbind (sb_pass1 n files filename sb)
       (\<lambda>sb1. case bind_functions sb1 (funct_vec sb1) lv of (fs, lv') \<Rightarrow> Ok (sb1\<lparr>funct_vec := fs\<rparr>, lv'))"

text \<open>\<open>None\<close> is a place outside of the table.\<close>

definition setEntry :: "nat \<Rightarrow> string \<Rightarrow> story_board \<Rightarrow> (bool \<times> story_board) option" where
  "setEntry index fname sb =
     (if index < length (entrys sb)
      then let fid = getFunctID sb fname in Some (fid > 0, sb\<lparr>entrys := (entrys sb)[index := fid]\<rparr>)
      else None)"

text \<open>Whether there is an entry, the name of its function and its file.\<close>

definition getEntryDebugInfo :: "nat \<Rightarrow> story_board \<Rightarrow> bool \<times> string \<times> string" where
  "getEntryDebugInfo index sb =
     (if index \<ge> length (entrys sb) \<or> entrys sb ! index = 0 then (False, [], [])
      else let entry_id = entrys sb ! index in
        case List.find (\<lambda>f. fn_id f = entry_id) (funct_vec sb) of
          Some f \<Rightarrow> (True, cstr (fn_name f), cstr (fn_file_name f))
        | None \<Rightarrow>
            if entry_id > SB_BI_FUNC_BASE \<and> funct_vec sb \<noteq> [] then (True, cstr (getBIFunct entry_id), [])
            else (False, [], []))"

end
