(* ===== verification/Story_Run.thy ===== *)
theory Story_Run
  imports Story_Board
begin

text \<open>
  Running storyboards (\<^verbatim>\<open>StoryBoard::runFunct\<close> and the functions it calls in \<^verbatim>\<open>src/src/StoryBoard.cpp\<close>, with the group labels
  of \<^verbatim>\<open>setgroup\<close>): the tests of a line against the lists, the built-in actions, and the interpreter. The
  laws of the runs are in the theory \<open>Story_Laws\<close>.

  The interpreter has a bound on the depth of calls, as the code recurses without one: \<open>More_depth\<close> is a run that
  needs more, \<open>Stop\<close> an access out of range, or a test in a list that does not return.
\<close>

section \<open>Group labels\<close>

text \<open>What running a storyboard needs of the rest of the program: the lists and their manager, the options,
  the messages, the names of the groups if lists are loaded, and the reverse lookup of an address.\<close>

record sb_env = nf_env +
  se_fuel :: nat
  se_meta :: meta_env
  se_manager :: manager
  se_search_sitelist_for_ip :: bool
  se_reverse_lookups :: bool
  se_numfg :: int
  se_default_fg :: int
  se_groups :: "string option list option"
  se_language :: language_container
  se_gethost :: "string \<Rightarrow> string option"

abbreviation nf_of :: "sb_env \<Rightarrow> nf_env" where
  "nf_of env \<equiv> nf_env.truncate env"

definition in_groups :: "int \<Rightarrow> int \<Rightarrow> bool" where
  "in_groups max_groups g \<longleftrightarrow> 1 \<le> g \<and> g \<le> max_groups"

fun group_by_name :: "string \<Rightarrow> string option list \<Rightarrow> nat \<Rightarrow> int" where
  "group_by_name normalised [] idx = 0"
| "group_by_name normalised (None # gs) idx = group_by_name normalised gs (Suc idx)"
| "group_by_name normalised (Some name # gs) idx =
     (let base_name = (if name \<noteq> [] then cstr name else ''group'' @ nat_str (Suc idx));
          b = normalise_group_label base_name;
          t = normalise_group_label (before base_name '' '')
      in if b \<noteq> [] \<and> normalised = b then int (Suc idx)
         else if contains base_name '' '' \<and> t \<noteq> [] \<and> normalised = t then int (Suc idx)
         else group_by_name normalised gs (Suc idx))"

definition resolve_filter_group_from_label :: "sb_env \<Rightarrow> string \<Rightarrow> int" where
  "resolve_filter_group_from_label env label =
     (let max_groups = (case se_groups env of None \<Rightarrow> se_numfg env | Some gs \<Rightarrow> max (se_numfg env) (int (length gs)));
          trimmed = removeWhiteSpace label; lowered = toLower trimmed; normalised = normalise_group_label lowered
      in if label = [] \<or> trimmed = [] then 0
         else if in_groups max_groups (toInteger trimmed) then toInteger trimmed
         else if lowered = ''default'' \<or> lowered = ''defaultgroup'' \<or> lowered = ''defaultfiltergroup'' then
           (if se_default_fg env \<ge> 0 \<and> in_groups max_groups (se_default_fg env + 1) then se_default_fg env + 1 else 1)
         else if normalised = [] then 0
         else if in_groups max_groups (toInteger (cstr normalised)) then toInteger (cstr normalised)
         else let digits = first_digits normalised in
           if digits \<noteq> [] \<and> in_groups max_groups (toInteger digits) then toInteger digits
           else case se_groups env of None \<Rightarrow> 0 | Some gs \<Rightarrow> group_by_name normalised gs 0)"


section \<open>The targets of a test\<close>

text \<open>The addresses embedded in a URL. The first byte is dropped while the text begins with \<open>:'\<close>, as the
  source has it, or a slash.\<close>

lemma startsWith_nonempty: "startsWith s (c # t) \<Longrightarrow> c \<noteq> nul \<Longrightarrow> s \<noteq> []"
  by (auto simp: startsWith_def cstr_def)

function drop_marks :: "string \<Rightarrow> string" where
  "drop_marks durl = (if startsWith durl [CHR '':'', CHR 0x27] \<or> startsWith durl ''/'' then drop_marks (lop durl) else durl)"
  by pat_completeness auto
termination
  by (relation "measure length") (auto simp: lop_def nul_def dest!: startsWith_nonempty)

declare drop_marks.simps [simp del]

lemma drop_marks_length: "length (drop_marks s) \<le> length s"
proof (induction s rule: drop_marks.induct)
  case (1 s)
  then show ?case by (subst drop_marks.simps) (auto simp: lop_def intro: order_trans)
qed

definition deep_rec :: "nf_env \<Rightarrow> naughty_filter \<Rightarrow> string \<Rightarrow> url_rec option" where
  "deep_rec env cm durl =
     (let base = removePTP durl; dom = getHostname base in
      map_option (\<lambda>ip. \<lparr>ur_fullurl = durl, ur_urldomain = dom, ur_baseurl = base, ur_is_siteonly = (base = dom), ur_site_is_ip = ip\<rparr>)
        (isIPHostnameStrip env cm dom))"

lemma after_colon_shorter: "contains s '':'' \<Longrightarrow> length (after s '':'') < length s"
  by (auto simp: contains_def indexOf_def after_def split: if_splits option.splits)

lemma after_length: "length (after s t) \<le> length s"
  by (auto simp: after_def split: option.splits)

function deep_urls :: "nf_env \<Rightarrow> naughty_filter \<Rightarrow> string \<Rightarrow> url_rec list option" where
  "deep_urls env cm durl =
     (if contains durl '':'' then
        let d1 = after durl '':'' in
        if \<not> contains d1 ''.'' then Some []
        else let d2 = drop_marks d1 in
          if length d2 > 5 then
            (case deep_rec env cm d2 of
               None \<Rightarrow> None
             | Some t \<Rightarrow>
                 map_option (\<lambda>ts. t # ts)
                   (deep_urls env cm (if startsWith d2 ''http:'' \<or> startsWith d2 ''https:'' then after d2 '':'' else d2)))
          else Some []
      else Some [])"
  by pat_completeness auto
termination
proof (relation "measure (\<lambda>(_, _, s). length s)", goal_cases)
  case (2 env cm durl d1 d2 t)
  then have "length d2 < length durl" using after_colon_shorter [of durl] drop_marks_length [of d1] by simp
  then show ?case using after_length [of d2 "'':''"] by simp
qed simp

declare deep_urls.simps [simp del]

definition ipToHostname :: "sb_env \<Rightarrow> naughty_filter \<Rightarrow> url_rec list" where
  "ipToHostname env cm =
     (case se_gethost env (cstr (cm_urldomain cm)) of
        None \<Rightarrow> []
      | Some name \<Rightarrow>
          let base = name @ ''/'' @ after (cm_urld cm) ''/'' in
          [url_rec_new\<lparr>ur_urldomain := name, ur_baseurl := base, ur_fullurl := ''http://'' @ base\<rparr>])"

text \<open>Whether there are names for the address, the records, and the state, which keeps them.\<close>

definition has_reverse_hosts :: "sb_env \<Rightarrow> naughty_filter \<Rightarrow> bool \<times> url_rec list \<times> naughty_filter" where
  "has_reverse_hosts env cm =
     (if \<not> (cm_isiphost cm \<and> se_reverse_lookups env) then (False, [], cm)
      else let cm1 = (if \<not> cm_reverse_checked cm then cm\<lparr>cm_reversedURLs := ipToHostname env cm, cm_reverse_checked := True\<rparr> else cm)
        in if cm_reversedURLs cm1 \<noteq> [] then (True, cm_reversedURLs cm1, cm1) else (False, [], cm1))"

datatype which_header = No_header | Request_header | Response_header

text \<open>What the first switch of \<^verbatim>\<open>runFunct\<close> prepares.\<close>

record probe =
  pr_list :: bool
  pr_multi :: bool
  pr_header :: which_header
  pr_result :: bool
  pr_target :: string
  pr_target2 :: string
  pr_targetful :: string
  pr_dq :: "url_rec list"

definition probe_new :: probe where
  "probe_new = \<lparr>pr_list = False, pr_multi = False, pr_header = No_header, pr_result = False, pr_target = [], pr_target2 = [],
     pr_targetful = [], pr_dq = []\<rparr>"

definition url_probe :: "sb_env \<Rightarrow> string \<Rightarrow> naughty_filter \<Rightarrow> probe \<times> naughty_filter" where
  "url_probe env target cm =
     (case has_reverse_hosts env cm of
        (multi, dq, cm1) \<Rightarrow>
          (probe_new\<lparr>pr_list := True, pr_target := target, pr_target2 := cm_urldomain cm, pr_targetful := cm_url cm,
             pr_multi := multi, pr_dq := dq\<rparr>, cm1))"

definition embedded_probe :: "sb_env \<Rightarrow> naughty_filter \<Rightarrow> (probe \<times> naughty_filter) option" where
  "embedded_probe env cm =
     map_option (\<lambda>cm1. (if cm_hasEmbededURL cm1 then probe_new\<lparr>pr_multi := True, pr_dq := cm_deep_urls cm1, pr_target := ''mutli''\<rparr>
           else probe_new, cm1))
       (if \<not> cm_deep_urls_checked cm
        then map_option (\<lambda>ds. cm\<lparr>cm_deep_urls := ds, cm_hasEmbededURL := (cm_hasEmbededURL cm \<or> ds \<noteq> [])\<rparr>)
               (deep_urls (nf_of env) cm (cm_baseurl cm))
        else Some cm)"

definition response_probe :: "string option \<Rightarrow> naughty_filter \<Rightarrow> (probe \<times> naughty_filter) option" where
  "response_probe t cm = map_option (\<lambda>s. (probe_new\<lparr>pr_target := s, pr_list := (length s > 4)\<rparr>, cm)) t"

text \<open>The tests with a list.\<close>

definition list_probe :: "sb_env \<Rightarrow> nat \<Rightarrow> naughty_filter \<Rightarrow> (probe \<times> naughty_filter) option" where
  "list_probe env st cm =
     (if st = SB_STATE_SITEIN then Some (url_probe env (cm_urldomain cm) cm)
      else if st = SB_STATE_URLIN \<or> st = SB_STATE_FULLURLIN then Some (url_probe env (cm_baseurl cm) cm)
      else if st = SB_STATE_SEARCHIN then
        Some (if cm_isSearch cm then probe_new\<lparr>pr_list := True, pr_target := cm_search_words cm\<rparr> else probe_new, cm)
      else if st = SB_STATE_EMBEDDEDIN then embedded_probe env cm
      else if st = SB_STATE_REFERERIN then
        (let r = getReferer (cm_request_header cm) in
         Some (probe_new\<lparr>pr_list := True, pr_target := r, pr_target2 := getHostname r\<rparr>, cm))
      else if st = SB_STATE_HEADERIN then Some (probe_new\<lparr>pr_header := Request_header\<rparr>, cm)
      else if st = SB_STATE_RESHEADERIN then Some (probe_new\<lparr>pr_header := Response_header\<rparr>, cm)
      else if st = SB_STATE_CLIENTIN then
        Some (probe_new\<lparr>pr_list := True, pr_target := cm_clientip cm, pr_target2 := cm_clienthost cm\<rparr>, cm)
      else if st = SB_STATE_USERIN then
        (let cm1 = cm\<lparr>cm_user := toLower (cm_user cm)\<rparr> in
         Some (probe_new\<lparr>pr_list := True, pr_target := cm_user cm1, pr_target2 := cm_clienthost cm1\<rparr>, cm1))
      else if st = SB_STATE_LISTEN_PORTIN then Some (probe_new\<lparr>pr_list := True, pr_target := int_str (cm_listen_port cm)\<rparr>, cm)
      else if st = SB_STATE_TIMEIN then Some (probe_new\<lparr>pr_list := True\<rparr>, cm)
      else if st = SB_STATE_USERAGENTIN then
        Some (probe_new\<lparr>pr_list := True, pr_targetful := useragent (cm_request_header cm)\<rparr>, cm)
      else if st = SB_STATE_EXTENSIONIN then response_probe (disposition (cm_response_header cm)) cm
      else response_probe (getContentType (cm_response_header cm)) cm)"

text \<open>The tests of a flag; an unknown test is false.\<close>

definition flag_test :: "nat \<Rightarrow> naughty_filter \<Rightarrow> bool" where
  "flag_test st cm =
     (if st = 16 then cm_isconnect cm
      else if st = 17 then requesttype (cm_request_header cm) = ''POST''
      else if st = 18 then requesttype (cm_request_header cm) = ''GET''
      else if st = 19 then cm_isiphost cm
      else if st = 20 then cm_isTLS cm
      else if st = 21 then cm_isexception cm
      else if st = 22 then cm_isGrey cm
      else if st = 23 then cm_isBlocked cm
      else if st = 24 then cm_ismitm cm
      else if st = 25 then cm_isdone cm
      else if st = 26 then cm_isReturn cm
      else if st = 27 then True
      else if st = 28 then cm_hasSNI cm
      else if st = 29 then cm_urlredirect cm
      else if st = 30 then \<not> cm_noviruscheck cm
      else if st = 31 then cm_isbypass cm
      else if st = 32 then cm_isbypassallowed cm
      else if st = 33 then cm_isinfectionbypassallowed cm
      else False)"

definition probe_of :: "sb_env \<Rightarrow> nat \<Rightarrow> naughty_filter \<Rightarrow> (probe \<times> naughty_filter) option" where
  "probe_of env st cm =
     (if 1 \<le> st \<and> st < SB_STATE_TOPIN then list_probe env st cm
      else Some (probe_new\<lparr>pr_result := flag_test st cm\<rparr>, cm))"


section \<open>Tests\<close>

definition lists_in :: "sb_env \<Rightarrow> list_info \<Rightarrow> string \<Rightarrow> list_result \<Rightarrow> (bool \<times> list_result) option" where
  "lists_in env li t res = inList (se_fuel env) (se_meta env) (se_manager env) li t res"

text \<open>The lists are tried in order until one has the text that \<open>pick\<close> chooses for it; \<open>None\<close> skips a list.
  The record \<open>res\<close> is shared by all tests of a line. The first component is the list that was found.\<close>

fun first_list :: "sb_env \<Rightarrow> (list_info \<Rightarrow> string option) \<Rightarrow> list_info list \<Rightarrow> list_result \<Rightarrow> (list_info option \<times> list_result) option" where
  "first_list env pick [] res = Some (None, res)"
| "first_list env pick (j # js) res =
     (case pick j of
        None \<Rightarrow> first_list env pick js res
      | Some t \<Rightarrow>
          (case lists_in env j t res of
             None \<Rightarrow> None
           | Some (True, res') \<Rightarrow> Some (Some j, res')
           | Some (False, res') \<Rightarrow> first_list env pick js res'))"

definition pick_text :: "nat \<Rightarrow> string \<Rightarrow> string \<Rightarrow> string \<Rightarrow> string" where
  "pick_text t target target2 targetful =
     (if LIST_TYPE_SITE \<le> t \<and> t < LIST_TYPE_URL then target2
      else if t = LIST_TYPE_REGEXP_BOOL \<or> t = LIST_TYPE_REGEXP_REP then targetful
      else target)"

definition pick_target :: "sb_env \<Rightarrow> naughty_filter \<Rightarrow> probe \<Rightarrow> list_info \<Rightarrow> string option" where
  "pick_target env cm pr j =
     (let t = li_type j in
      if cm_issiteonly cm \<and> (t = LIST_TYPE_URL \<or> t = LIST_TYPE_FILE_EXT) then None
      else if \<not> cm_isiphost cm \<and> t = LIST_TYPE_IPSITE then None
      else if cm_isiphost cm \<and> t = LIST_TYPE_SITE \<and> \<not> se_search_sitelist_for_ip env then None
      else Some (pick_text t (pr_target pr) (pr_target2 pr) (pr_targetful pr)))"

definition pick_rec :: "sb_env \<Rightarrow> url_rec \<Rightarrow> list_info \<Rightarrow> string option" where
  "pick_rec env u j =
     (let t = li_type j in
      if ur_is_siteonly u \<and> t = LIST_TYPE_URL then None
      else if \<not> ur_site_is_ip u \<and> t = LIST_TYPE_IPSITE then None
      else if ur_site_is_ip u \<and> t = LIST_TYPE_SITE \<and> \<not> se_search_sitelist_for_ip env then None
      else Some (pick_text t (ur_baseurl u) (ur_urldomain u) (ur_fullurl u)))"

definition update_messages :: "list_result \<Rightarrow> naughty_filter \<Rightarrow> naughty_filter" where
  "update_messages res cm =
     cm\<lparr>cm_lastcategory := res_category res, cm_whatIsNaughtyCategories := res_category res, cm_message_no := res_mess_no res,
        cm_log_message_no := res_log_mess_no res, cm_lastmatch := res_match res, cm_result := res_result res,
        cm_anon_user := (cm_anon_user cm \<or> res_anon_log res), cm_anon_url := (cm_anon_url cm \<or> res_anon_log res)\<rparr>"

text \<open>The lines of a header are tried in order; a line that a replacement list changes is put back when the
  test is an \<open>if\<close>.\<close>

fun header_lines :: "sb_env \<Rightarrow> com_rec \<Rightarrow> string list \<Rightarrow> list_result \<Rightarrow> naughty_filter
    \<Rightarrow> (bool \<times> string list \<times> list_result \<times> naughty_filter) option" where
  "header_lines env c [] res cm = Some (False, [], res, cm)"
| "header_lines env c (u # us) res cm =
     (case first_list env (\<lambda>j. Some u) (list_id_dq c) res of
        None \<Rightarrow> None
      | Some (Some j, res') \<Rightarrow>
          Some (True, (if isif c \<and> li_type j = LIST_TYPE_REGEXP_REP then res_result res' else u) # us, res',
            if isif c then update_messages res' cm else cm)
      | Some (None, res') \<Rightarrow>
          (case header_lines env c us res' cm of
             None \<Rightarrow> None
           | Some (b, us', res'', cm') \<Rightarrow> Some (b, u # us', res'', cm')))"

definition header_check :: "sb_env \<Rightarrow> com_rec \<Rightarrow> probe \<Rightarrow> list_result \<Rightarrow> naughty_filter
    \<Rightarrow> (bool \<times> list_result \<times> naughty_filter) option" where
  "header_check env c pr res cm =
     (case pr_header pr of
        No_header \<Rightarrow> Some (pr_result pr, res, cm)
      | Request_header \<Rightarrow>
          map_option (\<lambda>(b, hs, res', cm'). (b, res', cm'\<lparr>cm_request_header := (cm_request_header cm')\<lparr>header := hs\<rparr>\<rparr>))
            (header_lines env c (header (cm_request_header cm)) res cm)
      | Response_header \<Rightarrow>
          map_option (\<lambda>(b, hs, res', cm'). (b, res', cm'\<lparr>cm_response_header := (cm_response_header cm')\<lparr>header := hs\<rparr>\<rparr>))
            (header_lines env c (header (cm_response_header cm)) res cm))"

definition found_result :: "com_rec \<Rightarrow> list_result \<Rightarrow> naughty_filter \<Rightarrow> naughty_filter" where
  "found_result c res cm = (if isif c then cm\<lparr>cm_result := res_result res\<rparr> else cm)"

definition list_check :: "sb_env \<Rightarrow> com_rec \<Rightarrow> probe \<Rightarrow> bool \<times> list_result \<times> naughty_filter
    \<Rightarrow> (bool \<times> list_result \<times> naughty_filter) option" where
  "list_check env c pr st =
     (case st of (b, res, cm) \<Rightarrow>
        if \<not> pr_list pr then Some st
        else case first_list env (pick_target env cm pr) (list_id_dq c) res of
          None \<Rightarrow> None
        | Some (Some j, res') \<Rightarrow> Some (True, res', found_result c res' cm)
        | Some (None, res') \<Rightarrow> Some (b, res', cm))"

fun multi_recs :: "sb_env \<Rightarrow> com_rec \<Rightarrow> url_rec list \<Rightarrow> bool \<times> list_result \<times> naughty_filter
    \<Rightarrow> (bool \<times> list_result \<times> naughty_filter) option" where
  "multi_recs env c [] st = Some st"
| "multi_recs env c (u # us) (b, res, cm) =
     (case first_list env (pick_rec env u) (list_id_dq c) res of
        None \<Rightarrow> None
      | Some (Some j, res') \<Rightarrow> Some (True, res', found_result c res' cm)
      | Some (None, res') \<Rightarrow> multi_recs env c us (b, res', cm))"

text \<open>The test of a line: its value before the sense of the line is applied, the record and the state.\<close>

definition test_line :: "sb_env \<Rightarrow> com_rec \<Rightarrow> naughty_filter \<Rightarrow> (probe \<times> bool \<times> list_result \<times> naughty_filter) option" where
  "test_line env c cm =
     (case probe_of env (state c) cm of
        None \<Rightarrow> None
      | Some (pr, cm1) \<Rightarrow>
          (case header_check env c pr list_result_new cm1 of
             None \<Rightarrow> None
           | Some st1 \<Rightarrow>
               (case list_check env c pr st1 of
                  None \<Rightarrow> None
                | Some st2 \<Rightarrow>
                    map_option (\<lambda>st3. (pr, st3))
                      (if pr_multi pr \<and> \<not> fst st2 then multi_recs env c (pr_dq pr) st2 else Some st2))))"


section \<open>Actions\<close>

text \<open>The messages of a match, which the line may override; the numbers of a line are unsigned.\<close>

definition line_messages :: "com_rec \<Rightarrow> list_result \<Rightarrow> naughty_filter \<Rightarrow> naughty_filter" where
  "line_messages c res cm =
     (let cm1 = update_messages res cm;
          cm2 = (if mess_no c > 0 then cm1\<lparr>cm_message_no := wrap_int (mess_no c)\<rparr> else cm1)
      in if log_mess_no c > 0 then cm2\<lparr>cm_log_message_no := wrap_int (log_mess_no c)\<rparr> else cm2)"

definition log_text :: "sb_env \<Rightarrow> naughty_filter \<Rightarrow> naughty_filter" where
  "log_text env cm =
     (let w = getTranslation (se_language env) (cm_message_no cm) @ cm_lastmatch cm in
      cm\<lparr>cm_whatIsNaughty := w,
         cm_whatIsNaughtyLog := (if cm_log_message_no cm = 0 then w
           else getTranslation (se_language env) (cm_log_message_no cm) @ cm_lastmatch cm)\<rparr>)"

definition setexception :: "sb_env \<Rightarrow> com_rec \<Rightarrow> list_result \<Rightarrow> naughty_filter \<Rightarrow> naughty_filter" where
  "setexception env c res cm =
     (let cm1 = log_text env (line_messages c res (cm\<lparr>cm_isexception := True, cm_isGrey := False, cm_isBlocked := False\<rparr>));
          cm2 = cm1\<lparr>cm_exceptioncat := cm_lastcategory cm1\<rparr>
      in if cm_message_no cm2 = 600 \<or> cm_message_no cm2 = 631 \<or> cm_log_message_no cm2 = 600 \<or> cm_log_message_no cm2 = 631
         then cm2\<lparr>cm_special_exception_ip := True, cm_filtergroup := - 1, cm_nomitm := True, cm_automitm := False\<rparr>
         else cm2)"

definition setblock :: "sb_env \<Rightarrow> com_rec \<Rightarrow> list_result \<Rightarrow> naughty_filter \<Rightarrow> naughty_filter" where
  "setblock env c res cm =
     (let cm1 = line_messages c res (cm\<lparr>cm_isBlocked := True, cm_isGrey := False, cm_isexception := False\<rparr>);
          t = getTranslation (se_language env) (cm_message_no cm1);
          cm2 = cm1\<lparr>cm_whatIsNaughty := (if cm_message_no cm1 = 503 then t else t @ get_lastmatch cm1),
                    cm_whatIsNaughtyLog := (if cm_log_message_no cm1 = 0 then t
                        else getTranslation (se_language env) (cm_log_message_no cm1)) @ get_lastmatch cm1,
                    cm_whatIsNaughtyCategories := cm_lastcategory cm1\<rparr>
      in if cm_message_no cm2 = 100 \<or> cm_log_message_no cm2 = 103 \<or> cm_log_message_no cm2 = 104
         then cm2\<lparr>cm_special_banned_ip := True, cm_filtergroup := - 1\<rparr> else cm2)"

definition setmodurl :: "sb_env \<Rightarrow> naughty_filter \<Rightarrow> naughty_filter option" where
  "setmodurl env cm =
     (case setURL (cm_result cm) (cm_request_header cm) of
        None \<Rightarrow> None
      | Some (url, h1) \<Rightarrow>
          (case getLogUrl False (cm_ismitm cm) h1 of
             None \<Rightarrow> None
           | Some (logurl, h2) \<Rightarrow>
               map_option (\<lambda>urld. cm\<lparr>cm_urlmodified := True, cm_result := url, cm_request_header := h2, cm_url := url,
                   cm_baseurl := base_url url, cm_logurl := logurl, cm_urld := urld,
                   cm_urldomain := toLower (getHostname url), cm_connect_site := toLower (getHostname url)\<rparr>)
                 (decode (ne_rx env) (ne_urldecode_re env) url False)))"

definition setlogcat :: "sb_env \<Rightarrow> com_rec \<Rightarrow> list_result \<Rightarrow> naughty_filter \<Rightarrow> naughty_filter" where
  "setlogcat env c res cm =
     (let cm1 = log_text env (line_messages c res (cm\<lparr>cm_logcategory := True\<rparr>))
      in cm1\<lparr>cm_whatIsNaughtyCategories := cm_lastcategory cm1\<rparr>)"

definition setsearchterm :: "naughty_filter \<Rightarrow> naughty_filter" where
  "setsearchterm cm =
     (if cm_result cm \<noteq> [] then
        (case sort_search (cm_result cm) of
           (words, r) \<Rightarrow> cm\<lparr>cm_isSearch := True, cm_result := r, cm_search_words := words,
             cm_search_terms := swapChar r (CHR ''+'') (CHR '' '')\<rparr>)
      else cm)"

definition setgroup :: "sb_env \<Rightarrow> com_rec \<Rightarrow> probe \<Rightarrow> naughty_filter \<Rightarrow> bool \<times> naughty_filter" where
  "setgroup env c pr cm =
     (if \<not> (pr_list pr \<or> pr_header pr \<noteq> No_header \<or> pr_multi pr) \<or> cm_result cm = [] then (False, cm)
      else let g = resolve_filter_group_from_label env (cm_result cm) in
        if g > 0 \<and> g \<le> se_numfg env
        then (True, cm\<lparr>cm_filtergroup := g - 1, cm_authrec := map_option (\<lambda>a. a\<lparr>ar_group_source := list_name c\<rparr>) (cm_authrec cm)\<rparr>)
        else (False, cm))"

text \<open>The built-in actions: what the action returns and the state. \<open>None\<close> is a failure in the request
  header. A number that no action has does nothing.\<close>

definition builtin :: "sb_env \<Rightarrow> com_rec \<Rightarrow> probe \<Rightarrow> list_result \<Rightarrow> naughty_filter \<Rightarrow> (bool \<times> naughty_filter) option" where
  "builtin env c pr res cm =
     (let a = action_id c in
      if a = 5001 then Some (True, setexception env c res cm)
      else if a = 5002 then Some (True, cm\<lparr>cm_isGrey := True, cm_isexception := False, cm_isBlocked := False\<rparr>)
      else if a = 5003 then Some (True, setblock env c res cm)
      else if a = 5004 then map_option (Pair True) (setmodurl env cm)
      else if a = 5005 then Some (True, cm\<lparr>cm_isdone := True\<rparr>)
      else if a = 5006 then Some (True, cm)
      else if a = 5007 then Some (False, cm)
      else if a = 5008 then
        Some (if cm_ismitmcandidate cm \<and> \<not> cm_nomitm cm then (True, cm\<lparr>cm_gomitm := True\<rparr>) else (False, cm))
      else if a = 5009 then Some (True, setlogcat env c res cm)
      else if a = 5010 then
        Some (True, cm\<lparr>cm_headeradded := True, cm_request_header := snd (addHeader (cm_result cm) (cm_request_header cm))\<rparr>)
      else if a = 5011 then
        Some (if cm_result cm \<noteq> [] then (True, cm\<lparr>cm_request_header := (cm_request_header cm)\<lparr>redirect := cm_result cm\<rparr>, cm_urlredirect := True\<rparr>)
              else (False, cm))
      else if a = 5012 then Some (True, cm\<lparr>cm_nocheckcert := True\<rparr>)
      else if a = 5013 then Some (True, setsearchterm cm)
      else if a = 5014 then Some (True, cm\<lparr>cm_headermodified := True\<rparr>)
      else if a = 5015 then Some (True, cm\<lparr>cm_isdirect := True\<rparr>)
      else if a = 5016 then Some (True, cm\<lparr>cm_nolog := True\<rparr>)
      else if a = 5017 then Some (True, cm\<lparr>cm_noviruscheck := True\<rparr>)
      else if a = 5018 then
        Some (True, cm\<lparr>cm_isbypass := False, cm_iscookiebypass := False, cm_isscanbypass := False, cm_isvirusbypass := False,
          cm_isexception := False\<rparr>)
      else if a = 5019 then
        Some (True, cm\<lparr>cm_urlmodified := True, cm_logurl := cm_result cm, cm_connect_site := getHostname (cm_result cm)\<rparr>)
      else if a = 5020 then Some (cm_isbypassallowed cm, cm\<lparr>cm_isbypassallowed := False\<rparr>)
      else if a = 5021 then Some (cm_isinfectionbypassallowed cm, cm\<lparr>cm_isinfectionbypassallowed := False\<rparr>)
      else if a = 5022 then Some (True, cm\<lparr>cm_nomitm := True, cm_gomitm := False, cm_automitm := False\<rparr>)
      else if a = 5023 then Some (True, if \<not> cm_nomitm cm then cm\<lparr>cm_automitm := True\<rparr> else cm)
      else if a = 5024 then Some (True, cm\<lparr>cm_automitm := False\<rparr>)
      else if a = 5025 then Some (setgroup env c pr cm)
      else Some (True, cm))"


section \<open>Running\<close>

datatype fault = Bad_index | Bad_test | Bad_action

datatype 'a outcome = Done 'a | Stop fault | More_depth

fun obind :: "'a outcome \<Rightarrow> ('a \<Rightarrow> 'b outcome) \<Rightarrow> 'b outcome" where
  "obind (Done x) f = f x"
| "obind (Stop e) f = Stop e"
| "obind More_depth f = More_depth"

definition of_option :: "fault \<Rightarrow> 'a option \<Rightarrow> 'a outcome" where
  "of_option e x = (case x of None \<Rightarrow> Stop e | Some y \<Rightarrow> Done y)"

text \<open>The action of a line; \<open>call\<close> runs a function of the storyboard.\<close>

definition run_action :: "(nat \<Rightarrow> naughty_filter \<Rightarrow> (bool \<times> naughty_filter) outcome) \<Rightarrow> sb_env \<Rightarrow> com_rec \<Rightarrow> probe \<Rightarrow> list_result
    \<Rightarrow> naughty_filter \<Rightarrow> (bool \<times> naughty_filter) outcome" where
  "run_action call env c pr res cm =
     (if action_id c > SB_BI_FUNC_BASE then of_option Bad_action (builtin env c pr res cm)
      else if action_id c > 0 then call (action_id c) cm
      else Done (True, cm))"

text \<open>One line: whether the function ends here, the value and the state.\<close>

definition run_line :: "(nat \<Rightarrow> naughty_filter \<Rightarrow> (bool \<times> naughty_filter) outcome) \<Rightarrow> sb_env \<Rightarrow> com_rec \<Rightarrow> naughty_filter
    \<Rightarrow> (bool \<times> bool \<times> naughty_filter) outcome" where
  "run_line call env c cm =
     obind (of_option Bad_test (test_line env c cm)) (\<lambda>(pr, b, res, cm1).
       if b \<noteq> isif c then Done (False, False, cm1\<lparr>cm_isReturn := False\<rparr>)
       else obind (run_action call env c pr res cm1) (\<lambda>(r, cm2).
         Done (return_after_action c \<or> return_after_action_is_true c \<and> r, r, cm2\<lparr>cm_isReturn := r\<rparr>)))"

fun run_lines :: "(nat \<Rightarrow> naughty_filter \<Rightarrow> (bool \<times> naughty_filter) outcome) \<Rightarrow> sb_env \<Rightarrow> com_rec list \<Rightarrow> bool \<Rightarrow> naughty_filter
    \<Rightarrow> (bool \<times> naughty_filter) outcome" where
  "run_lines call env [] r cm = Done (r, cm)"
| "run_lines call env (c # cs) r cm =
     obind (run_line call env c cm) (\<lambda>(stop, r', cm'). if stop then Done (r', cm') else run_lines call env cs r' cm')"

text \<open>The function with a number; the number 0, which wraps around, and one beyond the vector are out of
  range.\<close>

fun runFunct :: "nat \<Rightarrow> sb_env \<Rightarrow> story_board \<Rightarrow> nat \<Rightarrow> naughty_filter \<Rightarrow> (bool \<times> naughty_filter) outcome" where
  "runFunct 0 env sb fID cm = More_depth"
| "runFunct (Suc k) env sb fID cm =
     (if 0 < fID \<and> fID \<le> length (funct_vec sb)
      then run_lines (runFunct k env sb) env (comm_dq (funct_vec sb ! (fID - 1))) False cm
      else Stop Bad_index)"

definition runFunct_name :: "nat \<Rightarrow> sb_env \<Rightarrow> story_board \<Rightarrow> string \<Rightarrow> naughty_filter \<Rightarrow> (bool \<times> naughty_filter) outcome" where
  "runFunct_name k env sb fname cm = runFunct k env sb (getFunctID sb fname) cm"

definition runFunctEntry :: "nat \<Rightarrow> sb_env \<Rightarrow> story_board \<Rightarrow> nat \<Rightarrow> naughty_filter \<Rightarrow> (bool \<times> naughty_filter) outcome" where
  "runFunctEntry k env sb index cm =
     (let cm1 = cm\<lparr>cm_isdone := False\<rparr> in
      if index \<ge> length (entrys sb) then Stop Bad_index
      else if entrys sb ! index > 0 then runFunct k env sb (entrys sb ! index) cm1
      else Done (False, cm1))"

end
