(* ===== verification/Story_Laws.thy ===== *)
theory Story_Laws
  imports Story_Run
begin

text \<open>
  Laws of storyboards: what a test may change, the relations between the state before and after that every
  run keeps (the locales \<open>story_relation\<close> and \<open>story_invariant\<close>, interpreted for the decisions, the
  decryption flags, the group and the rights that are only withdrawn), the depth that is enough for a run,
  and the numbers of functions in a storyboard that was read.
\<close>

section \<open>What a test may change\<close>

text \<open>A test writes the caches of embedded and reverse addresses, the texts and numbers of the last match,
  the lines of the headers and the case of the user, and raises the anonymity flags; nothing else. The
  state without these members is what a test keeps.\<close>

definition test_kept :: "naughty_filter \<Rightarrow> naughty_filter" where
  "test_kept cm = cm\<lparr>cm_reversedURLs := [], cm_reverse_checked := False, cm_deep_urls := [],
     cm_hasEmbededURL := False, cm_user := [], cm_result := [], cm_lastcategory := [],
     cm_whatIsNaughtyCategories := [], cm_message_no := 0, cm_log_message_no := 0, cm_lastmatch := [],
     cm_anon_user := False, cm_anon_url := False,
     cm_request_header := (cm_request_header cm)\<lparr>header := []\<rparr>,
     cm_response_header := (cm_response_header cm)\<lparr>header := []\<rparr>\<rparr>"

definition test_frame :: "naughty_filter \<Rightarrow> naughty_filter \<Rightarrow> bool" where
  "test_frame cm cm' \<longleftrightarrow> test_kept cm' = test_kept cm \<and>
     (cm_anon_user cm \<longrightarrow> cm_anon_user cm') \<and> (cm_anon_url cm \<longrightarrow> cm_anon_url cm')"

lemma test_frame_refl [simp]: "test_frame cm cm"
  by (simp add: test_frame_def)

lemma test_frame_trans: "test_frame a b \<Longrightarrow> test_frame b c \<Longrightarrow> test_frame a c"
  by (simp add: test_frame_def)

lemma test_frame_flag:
  assumes "test_frame cm cm'" and "\<And>x. f (test_kept x) = f x"
  shows "f cm' = f cm"
  using assms by (metis test_frame_def)

lemma test_frame_intros [simp]:
  "test_frame cm (cm\<lparr>cm_reversedURLs := us, cm_reverse_checked := b\<rparr>)"
  "test_frame cm (cm\<lparr>cm_deep_urls := us, cm_hasEmbededURL := b\<rparr>)"
  "test_frame cm (cm\<lparr>cm_user := t\<rparr>)"
  "test_frame cm (cm\<lparr>cm_result := t\<rparr>)"
  "test_frame cm (cm\<lparr>cm_request_header := (cm_request_header cm)\<lparr>header := hs\<rparr>\<rparr>)"
  "test_frame cm (cm\<lparr>cm_response_header := (cm_response_header cm)\<lparr>header := hs\<rparr>\<rparr>)"
  "test_frame cm (update_messages res cm)"
  "test_frame cm (found_result c res cm)"
  by (simp_all add: test_frame_def test_kept_def update_messages_def found_result_def)

lemma has_reverse_hosts_frame: "has_reverse_hosts env cm = (b, us, cm') \<Longrightarrow> test_frame cm cm'"
  by (auto simp: has_reverse_hosts_def Let_def split: if_splits)

lemma url_probe_frame: "url_probe env t cm = (pr, cm') \<Longrightarrow> test_frame cm cm'"
  by (auto simp: url_probe_def dest!: has_reverse_hosts_frame split: prod.splits)

lemma embedded_probe_frame: "embedded_probe env cm = Some (pr, cm') \<Longrightarrow> test_frame cm cm'"
  by (auto simp: embedded_probe_def split: if_splits)

lemma response_probe_frame: "response_probe t cm = Some (pr, cm') \<Longrightarrow> test_frame cm cm'"
  by (auto simp: response_probe_def)

lemma list_probe_frame: "list_probe env st cm = Some (pr, cm') \<Longrightarrow> test_frame cm cm'"
  unfolding list_probe_def Let_def
  by (auto split: if_split_asm dest: url_probe_frame embedded_probe_frame response_probe_frame)

lemma probe_of_frame: "probe_of env st cm = Some (pr, cm') \<Longrightarrow> test_frame cm cm'"
  by (auto simp: probe_of_def split: if_split_asm dest: list_probe_frame)

lemma header_lines_frame: "header_lines env c us res cm = Some (b, us', res', cm') \<Longrightarrow> test_frame cm cm'"
proof (induction us arbitrary: res b us' res' cm')
  case (Cons u us)
  then show ?case
    by (auto split: option.split_asm prod.split_asm if_split_asm)
qed simp

lemma header_check_frame: "header_check env c pr res cm = Some (b, res', cm') \<Longrightarrow> test_frame cm cm'"
  by (auto simp: header_check_def split: which_header.splits dest!: header_lines_frame
      intro: test_frame_trans)

lemma list_check_frame: "list_check env c pr (b, res, cm) = Some (b', res', cm') \<Longrightarrow> test_frame cm cm'"
  by (auto simp: list_check_def split: option.splits if_splits)

lemma multi_recs_frame: "multi_recs env c us (b, res, cm) = Some (b', res', cm') \<Longrightarrow> test_frame cm cm'"
  by (induction us arbitrary: b res) (auto split: option.split_asm)

lemma test_line_frame: "test_line env c cm = Some (pr, b, res, cm') \<Longrightarrow> test_frame cm cm'"
  unfolding test_line_def
  by (auto split: option.split_asm prod.split_asm if_split_asm intro: test_frame_trans
      dest!: probe_of_frame header_check_frame list_check_frame multi_recs_frame)

section \<open>Relations kept by a run\<close>

lemma obind_Done [simp]: "obind x f = Done y \<longleftrightarrow> (\<exists>z. x = Done z \<and> f z = Done y)"
  by (cases x) auto

lemma of_option_Done [simp]: "of_option e x = Done y \<longleftrightarrow> x = Some y"
  by (cases x) (auto simp: of_option_def)

text \<open>A relation between the state before and after that every test and every built-in action respects
  holds between the states before and after a run.\<close>

locale story_relation =
  fixes env :: sb_env
    and rel :: "naughty_filter \<Rightarrow> naughty_filter \<Rightarrow> bool"
  assumes rel_refl: "rel cm cm"
    and rel_trans: "rel s t \<Longrightarrow> rel t u \<Longrightarrow> rel s u"
    and rel_test: "test_frame cm cm' \<Longrightarrow> rel cm cm'"
    and rel_return: "rel cm (cm\<lparr>cm_isReturn := r\<rparr>)"
    and rel_action: "builtin env c pr res cm = Some (r, cm') \<Longrightarrow> rel cm cm'"
begin

lemma run_line_rel:
  assumes call: "\<And>f a r b. call f a = Done (r, b) \<Longrightarrow> rel a b"
    and run: "run_line call env c cm = Done (stop, r, cm')"
  shows "rel cm cm'"
proof -
  obtain pr b res cm1 where t: "test_line env c cm = Some (pr, b, res, cm1)"
    and rest: "(if b \<noteq> isif c then Done (False, False, cm1\<lparr>cm_isReturn := False\<rparr>)
       else obind (run_action call env c pr res cm1) (\<lambda>(r, cm2).
         Done (return_after_action c \<or> return_after_action_is_true c \<and> r, r, cm2\<lparr>cm_isReturn := r\<rparr>))) = Done (stop, r, cm')"
    using run by (auto simp: run_line_def)
  have one: "rel cm cm1" by (rule rel_test, rule test_line_frame, rule t)
  show ?thesis
  proof (cases "b = isif c")
    case False
    then show ?thesis using rest one rel_return rel_trans by auto
  next
    case True
    then obtain cm2 where "run_action call env c pr res cm1 = Done (r, cm2)" "cm' = cm2\<lparr>cm_isReturn := r\<rparr>"
      using rest by auto
    then have "rel cm1 cm2" "rel cm2 cm'"
      using rel_return by (auto simp: run_action_def rel_refl split: if_splits dest: rel_action call)
    then show ?thesis using one rel_trans by blast
  qed
qed

lemma run_lines_rel:
  assumes call: "\<And>f a r b. call f a = Done (r, b) \<Longrightarrow> rel a b"
  shows "run_lines call env cs r0 cm = Done (r, cm') \<Longrightarrow> rel cm cm'"
proof (induction cs arbitrary: r0 cm)
  case Nil
  then show ?case by (simp add: rel_refl)
next
  case (Cons c cs)
  obtain stop r1 cm1 where one: "run_line call env c cm = Done (stop, r1, cm1)"
    and rest: "(if stop then Done (r1, cm1) else run_lines call env cs r1 cm1) = Done (r, cm')"
    using Cons.prems by auto
  have "rel cm cm1" by (rule run_line_rel [OF call one])
  moreover have "rel cm1 cm'" using rest Cons.IH by (cases stop) (auto simp: rel_refl)
  ultimately show ?case by (rule rel_trans)
qed

lemma runFunct_rel: "runFunct k env sb fID cm = Done (r, cm') \<Longrightarrow> rel cm cm'"
proof (induction k arbitrary: fID cm r cm')
  case (Suc k)
  then show ?case by (auto split: if_splits intro: run_lines_rel [OF Suc.IH])
qed simp

end

text \<open>An invariant is such a relation.\<close>

locale story_invariant =
  fixes env :: sb_env
    and inv :: "naughty_filter \<Rightarrow> bool"
  assumes inv_test: "test_frame cm cm' \<Longrightarrow> inv cm \<Longrightarrow> inv cm'"
    and inv_return: "inv cm \<Longrightarrow> inv (cm\<lparr>cm_isReturn := r\<rparr>)"
    and inv_action: "builtin env c pr res cm = Some (r, cm') \<Longrightarrow> inv cm \<Longrightarrow> inv cm'"

sublocale story_invariant \<subseteq> story_relation env "\<lambda>cm cm'. inv cm \<longrightarrow> inv cm'"
  by unfold_locales (auto intro: inv_test inv_return inv_action)


section \<open>Decisions\<close>

text \<open>At most one of the three decisions is set.\<close>

definition one_decision :: "naughty_filter \<Rightarrow> bool" where
  "one_decision cm \<longleftrightarrow> \<not> (cm_isexception cm \<and> cm_isGrey cm) \<and> \<not> (cm_isexception cm \<and> cm_isBlocked cm) \<and>
     \<not> (cm_isGrey cm \<and> cm_isBlocked cm)"

lemmas action_defs = line_messages_def log_text_def update_messages_def setexception_def setblock_def setlogcat_def
  setsearchterm_def setgroup_def Let_def

lemma test_kept_flags [simp]:
  "cm_isexception (test_kept cm) = cm_isexception cm" "cm_isGrey (test_kept cm) = cm_isGrey cm"
  "cm_isBlocked (test_kept cm) = cm_isBlocked cm" "cm_nomitm (test_kept cm) = cm_nomitm cm"
  "cm_gomitm (test_kept cm) = cm_gomitm cm" "cm_automitm (test_kept cm) = cm_automitm cm"
  "cm_filtergroup (test_kept cm) = cm_filtergroup cm" "cm_isbypass (test_kept cm) = cm_isbypass cm"
  "cm_iscookiebypass (test_kept cm) = cm_iscookiebypass cm" "cm_isvirusbypass (test_kept cm) = cm_isvirusbypass cm"
  "cm_isscanbypass (test_kept cm) = cm_isscanbypass cm" "cm_isbypassallowed (test_kept cm) = cm_isbypassallowed cm"
  "cm_isinfectionbypassallowed (test_kept cm) = cm_isinfectionbypassallowed cm"
  "cm_noviruscheck (test_kept cm) = cm_noviruscheck cm" "cm_nolog (test_kept cm) = cm_nolog cm"
  by (simp_all add: test_kept_def)

lemma setexception_flags [simp]:
  "cm_isexception (setexception env c res cm)" "\<not> cm_isGrey (setexception env c res cm)"
  "\<not> cm_isBlocked (setexception env c res cm)"
  by (simp_all add: action_defs)

lemma setblock_flags [simp]:
  "cm_isBlocked (setblock env c res cm)" "\<not> cm_isGrey (setblock env c res cm)"
  "\<not> cm_isexception (setblock env c res cm)"
  by (simp_all add: action_defs)

text \<open>A predicate on the state after a built-in action.\<close>

definition after_action :: "(naughty_filter \<Rightarrow> bool) \<Rightarrow> (bool \<times> naughty_filter) option \<Rightarrow> bool" where
  "after_action P x \<longleftrightarrow> (case x of None \<Rightarrow> True | Some (r, cm') \<Rightarrow> P cm')"

lemma after_action_simps [simp]:
  "after_action P (Some p) = P (snd p)"
  "after_action P (map_option (Pair b) x) = pred_option P x"
  by (simp_all add: after_action_def case_prod_beta split: option.split)

lemma after_actionD: "x = Some (r, cm') \<Longrightarrow> after_action P x \<Longrightarrow> P cm'"
  by simp

text \<open>The actions that change the URL or the search terms, or that only write texts, keep the flags.\<close>

definition same_flags :: "naughty_filter \<Rightarrow> naughty_filter \<Rightarrow> bool" where
  "same_flags cm cm' \<longleftrightarrow> cm_isexception cm' = cm_isexception cm \<and> cm_isGrey cm' = cm_isGrey cm
     \<and> cm_isBlocked cm' = cm_isBlocked cm \<and> cm_nomitm cm' = cm_nomitm cm \<and> cm_gomitm cm' = cm_gomitm cm
     \<and> cm_automitm cm' = cm_automitm cm \<and> cm_filtergroup cm' = cm_filtergroup cm \<and> cm_isbypass cm' = cm_isbypass cm
     \<and> cm_iscookiebypass cm' = cm_iscookiebypass cm \<and> cm_isvirusbypass cm' = cm_isvirusbypass cm
     \<and> cm_isscanbypass cm' = cm_isscanbypass cm \<and> cm_isbypassallowed cm' = cm_isbypassallowed cm
     \<and> cm_isinfectionbypassallowed cm' = cm_isinfectionbypassallowed cm
     \<and> cm_noviruscheck cm' = cm_noviruscheck cm \<and> cm_nolog cm' = cm_nolog cm"

lemma test_frame_flags: "test_frame cm cm' \<Longrightarrow> same_flags cm cm'"
  unfolding same_flags_def by (intro conjI; rule test_frame_flag) simp_all

lemma setmodurl_flags: "pred_option (same_flags cm) (setmodurl env cm)"
  by (simp add: setmodurl_def same_flags_def option.pred_map comp_def option.pred_True split: option.split)

lemma setlogcat_flags: "same_flags cm (setlogcat env c res cm)"
  by (simp add: action_defs same_flags_def)

lemma setsearchterm_flags: "same_flags cm (setsearchterm cm)"
  by (simp add: setsearchterm_def same_flags_def split: prod.split)

lemma builtin_rule:
  assumes same: "\<And>cm'. same_flags cm cm' \<Longrightarrow> P cm'"
    and "P (setexception env c res cm)" "P (setblock env c res cm)" "P (snd (setgroup env c pr cm))"
    and "P (cm\<lparr>cm_isGrey := True, cm_isexception := False, cm_isBlocked := False\<rparr>)"
    and "cm_ismitmcandidate cm \<Longrightarrow> \<not> cm_nomitm cm \<Longrightarrow> P (cm\<lparr>cm_gomitm := True\<rparr>)"
    and "P (cm\<lparr>cm_nolog := True\<rparr>)" "P (cm\<lparr>cm_noviruscheck := True\<rparr>)"
    and "P (cm\<lparr>cm_isbypass := False, cm_iscookiebypass := False, cm_isscanbypass := False, cm_isvirusbypass := False,
          cm_isexception := False\<rparr>)"
    and "P (cm\<lparr>cm_isbypassallowed := False\<rparr>)" "P (cm\<lparr>cm_isinfectionbypassallowed := False\<rparr>)"
    and "P (cm\<lparr>cm_nomitm := True, cm_gomitm := False, cm_automitm := False\<rparr>)"
    and "\<not> cm_nomitm cm \<Longrightarrow> P (cm\<lparr>cm_automitm := True\<rparr>)" "P (cm\<lparr>cm_automitm := False\<rparr>)"
  shows "after_action P (builtin env c pr res cm)"
proof -
  have m: "pred_option P (setmodurl env cm)"
    using setmodurl_flags [of cm env] same by (auto simp: pred_option_def)
  have s: "P cm" "P (cm\<lparr>cm_isdone := True\<rparr>)" "P (cm\<lparr>cm_nocheckcert := True\<rparr>)" "P (cm\<lparr>cm_headermodified := True\<rparr>)"
    "P (cm\<lparr>cm_isdirect := True\<rparr>)" "\<And>h. P (cm\<lparr>cm_headeradded := True, cm_request_header := h\<rparr>)"
    "\<And>h. P (cm\<lparr>cm_request_header := h, cm_urlredirect := True\<rparr>)"
    "\<And>t u. P (cm\<lparr>cm_urlmodified := True, cm_logurl := t, cm_connect_site := u\<rparr>)"
    by (rule same, simp add: same_flags_def)+
  have t: "P (setlogcat env c res cm)" "P (setsearchterm cm)"
    using same setlogcat_flags setsearchterm_flags by blast+
  show ?thesis unfolding builtin_def Let_def
    by (intro if_weak [where P = "after_action P"]) (simp_all add: assms(2-) m s t)
qed

lemma setgroup_rule:
  assumes "P cm" and "\<And>g a. 0 \<le> g \<Longrightarrow> g < se_numfg env \<Longrightarrow> P (cm\<lparr>cm_filtergroup := g, cm_authrec := a\<rparr>)"
  shows "P (snd (setgroup env c pr cm))"
  unfolding setgroup_def Let_def using assms by simp

lemma builtin_decision: "builtin env c pr res cm = Some (r, cm') \<Longrightarrow> one_decision cm \<Longrightarrow> one_decision cm'"
proof (erule after_actionD, rule builtin_rule)
  assume ok: "one_decision cm"
  show "one_decision (snd (setgroup env c pr cm))"
    by (rule setgroup_rule) (use ok in \<open>simp_all add: one_decision_def\<close>)
qed (auto simp: one_decision_def same_flags_def)

interpretation decisions: story_invariant env one_decision for env
proof
  show "test_frame cm cm' \<Longrightarrow> one_decision cm \<Longrightarrow> one_decision cm'" for cm cm'
    using test_frame_flags [of cm cm'] by (simp add: one_decision_def same_flags_def)
  show "one_decision cm \<Longrightarrow> one_decision (cm\<lparr>cm_isReturn := r\<rparr>)" for cm r
    by (simp add: one_decision_def)
qed (rule builtin_decision)


text \<open>No decryption is final: it stays set, and the other two flags are not raised any more.\<close>

definition nomitm_final :: "naughty_filter \<Rightarrow> naughty_filter \<Rightarrow> bool" where
  "nomitm_final cm cm' \<longleftrightarrow> (cm_nomitm cm \<longrightarrow> cm_nomitm cm' \<and> (cm_gomitm cm' \<longrightarrow> cm_gomitm cm)
     \<and> (cm_automitm cm' \<longrightarrow> cm_automitm cm))"

lemma setexception_mitm:
  "cm_nomitm (setexception env c res cm) \<and> \<not> cm_automitm (setexception env c res cm)
     \<or> cm_nomitm (setexception env c res cm) = cm_nomitm cm \<and> cm_automitm (setexception env c res cm) = cm_automitm cm"
  "cm_gomitm (setexception env c res cm) = cm_gomitm cm"
  by (simp_all add: action_defs)

lemma setblock_mitm:
  "cm_nomitm (setblock env c res cm) = cm_nomitm cm" "cm_automitm (setblock env c res cm) = cm_automitm cm"
  "cm_gomitm (setblock env c res cm) = cm_gomitm cm"
  by (simp_all add: action_defs)

lemma builtin_nomitm: "builtin env c pr res cm = Some (r, cm') \<Longrightarrow> nomitm_final cm cm'"
proof (erule after_actionD, rule builtin_rule)
  show "nomitm_final cm (snd (setgroup env c pr cm))"
    by (rule setgroup_rule) (simp_all add: nomitm_final_def)
  show "nomitm_final cm (setexception env c res cm)"
    using setexception_mitm [of env c res cm] by (auto simp: nomitm_final_def)
qed (auto simp: nomitm_final_def same_flags_def setblock_mitm)

interpretation nomitm: story_relation env nomitm_final for env
proof
  show "nomitm_final cm cm'" if "test_frame cm cm'" for cm cm'
    using test_frame_flags [OF that] by (simp add: nomitm_final_def same_flags_def)
qed (auto simp: nomitm_final_def dest: builtin_nomitm [unfolded nomitm_final_def])

text \<open>A state that is not to be decrypted is not to be decrypted automatically either.\<close>

definition mitm_ok :: "naughty_filter \<Rightarrow> bool" where
  "mitm_ok cm \<longleftrightarrow> \<not> (cm_nomitm cm \<and> cm_automitm cm)"

lemma builtin_mitm_ok: "builtin env c pr res cm = Some (r, cm') \<Longrightarrow> mitm_ok cm \<Longrightarrow> mitm_ok cm'"
proof (erule after_actionD, rule builtin_rule)
  assume ok: "mitm_ok cm"
  show "mitm_ok (snd (setgroup env c pr cm))"
    by (rule setgroup_rule) (use ok in \<open>simp_all add: mitm_ok_def\<close>)
  show "mitm_ok (setexception env c res cm)"
    using ok setexception_mitm [of env c res cm] by (auto simp: mitm_ok_def)
qed (auto simp: mitm_ok_def same_flags_def setblock_mitm)

interpretation mitm: story_invariant env mitm_ok for env
proof
  show "mitm_ok cm \<Longrightarrow> mitm_ok cm'" if "test_frame cm cm'" for cm cm'
    using test_frame_flags [OF that] by (simp add: mitm_ok_def same_flags_def)
qed (simp_all add: mitm_ok_def builtin_mitm_ok [unfolded mitm_ok_def])

text \<open>The number of the group is in the range of the groups, or \<open>- 1\<close> for an address that has an exception
  or is banned.\<close>

definition group_ok :: "sb_env \<Rightarrow> naughty_filter \<Rightarrow> bool" where
  "group_ok env cm \<longleftrightarrow> - 1 \<le> cm_filtergroup cm \<and> cm_filtergroup cm < max 1 (se_numfg env)"

lemma special_group:
  "cm_filtergroup (setexception env c res cm) = - 1 \<or> cm_filtergroup (setexception env c res cm) = cm_filtergroup cm"
  "cm_filtergroup (setblock env c res cm) = - 1 \<or> cm_filtergroup (setblock env c res cm) = cm_filtergroup cm"
  by (simp_all add: action_defs)

lemma builtin_group_ok: "builtin env c pr res cm = Some (r, cm') \<Longrightarrow> group_ok env cm \<Longrightarrow> group_ok env cm'"
proof (erule after_actionD, rule builtin_rule)
  assume ok: "group_ok env cm"
  show "group_ok env (snd (setgroup env c pr cm))"
    by (rule setgroup_rule) (use ok in \<open>auto simp: group_ok_def\<close>)
  show "group_ok env (setexception env c res cm)" "group_ok env (setblock env c res cm)"
    using ok special_group [of env c res cm] by (auto simp: group_ok_def)
qed (auto simp: group_ok_def same_flags_def)

interpretation groups: story_invariant env "group_ok env" for env
proof
  show "group_ok env cm \<Longrightarrow> group_ok env cm'" if "test_frame cm cm'" for cm cm'
    using test_frame_flags [OF that] by (simp add: group_ok_def same_flags_def)
qed (simp_all add: group_ok_def builtin_group_ok [unfolded group_ok_def])

text \<open>What a storyboard withdraws it does not give back, and what it hides stays hidden.\<close>

definition only_withdraws :: "naughty_filter \<Rightarrow> naughty_filter \<Rightarrow> bool" where
  "only_withdraws cm cm' \<longleftrightarrow>
     (cm_isbypass cm' \<longrightarrow> cm_isbypass cm) \<and> (cm_iscookiebypass cm' \<longrightarrow> cm_iscookiebypass cm) \<and>
     (cm_isvirusbypass cm' \<longrightarrow> cm_isvirusbypass cm) \<and> (cm_isscanbypass cm' \<longrightarrow> cm_isscanbypass cm) \<and>
     (cm_isbypassallowed cm' \<longrightarrow> cm_isbypassallowed cm) \<and>
     (cm_isinfectionbypassallowed cm' \<longrightarrow> cm_isinfectionbypassallowed cm) \<and>
     (cm_noviruscheck cm \<longrightarrow> cm_noviruscheck cm') \<and> (cm_nolog cm \<longrightarrow> cm_nolog cm')"

lemma decision_withdraws:
  "only_withdraws cm (setexception env c res cm)" "only_withdraws cm (setblock env c res cm)"
  unfolding only_withdraws_def by (simp_all add: action_defs)

lemma builtin_withdraws: "builtin env c pr res cm = Some (r, cm') \<Longrightarrow> only_withdraws cm cm'"
proof (erule after_actionD, rule builtin_rule)
  show "only_withdraws cm (snd (setgroup env c pr cm))"
    by (rule setgroup_rule) (simp_all add: only_withdraws_def)
qed (rule decision_withdraws | simp add: only_withdraws_def same_flags_def)+

interpretation withdraws: story_relation env only_withdraws for env
proof
  show "only_withdraws cm cm'" if "test_frame cm cm'" for cm cm'
    using test_frame_flags [OF that] by (simp add: only_withdraws_def same_flags_def)
qed (auto simp: only_withdraws_def dest: builtin_withdraws [unfolded only_withdraws_def])

section \<open>Depth\<close>

text \<open>A run that ends with some depth ends in the same way with more.\<close>

lemma run_lines_mono:
  assumes "\<And>f a. call f a \<noteq> More_depth \<Longrightarrow> call' f a = call f a"
    and "run_lines call env cs r cm \<noteq> More_depth"
  shows "run_lines call' env cs r cm = run_lines call env cs r cm"
  using assms(2)
proof (induction cs arbitrary: r cm)
  case (Cons c cs)
  have act: "run_action call env c pr res a \<noteq> More_depth \<Longrightarrow> run_action call' env c pr res a = run_action call env c pr res a"
    for pr res a by (auto simp: run_action_def assms(1))
  have line: "run_line call' env c cm = run_line call env c cm"
  proof (cases "test_line env c cm")
    case (Some t)
    obtain pr b res cm1 where t: "t = (pr, b, res, cm1)" by (cases t)
    have "run_action call env c pr res cm1 \<noteq> More_depth" if "b = isif c"
      using Cons.prems that by (auto simp: run_line_def Some t of_option_def)
    then show ?thesis using act by (simp add: run_line_def Some t of_option_def)
  qed (simp add: run_line_def of_option_def)
  show ?case
  proof (cases "run_line call env c cm")
    case (Done p)
    obtain stop r1 cm1 where p: "p = (stop, r1, cm1)" by (cases p)
    have "stop \<or> run_lines call' env cs r1 cm1 = run_lines call env cs r1 cm1"
      using Cons.IH [of r1 cm1] Cons.prems Done by (cases stop) (simp_all add: p)
    then show ?thesis using line by (auto simp: Done p)
  qed (use line in simp_all)
qed simp

lemma runFunct_Suc: "runFunct k env sb fID cm \<noteq> More_depth \<Longrightarrow> runFunct (Suc k) env sb fID cm = runFunct k env sb fID cm"
proof (induction k arbitrary: fID cm)
  case (Suc k)
  then show ?case
    by (subst (1 2) runFunct.simps) (auto intro!: run_lines_mono [OF Suc.IH] split: if_splits)
qed simp

lemma runFunct_more: "runFunct k env sb fID cm \<noteq> More_depth \<Longrightarrow> k \<le> n \<Longrightarrow> runFunct n env sb fID cm = runFunct k env sb fID cm"
  by (rotate_tac, induction n rule: dec_induct) (use runFunct_Suc in fastforce)+

text \<open>A ranking of the functions that every call lowers. A depth above the rank is enough.\<close>

definition ranked :: "(nat \<Rightarrow> nat) \<Rightarrow> story_board \<Rightarrow> bool" where
  "ranked rk sb \<longleftrightarrow> (\<forall>i < length (funct_vec sb). \<forall>c \<in> set (comm_dq (funct_vec sb ! i)).
     0 < action_id c \<and> action_id c \<le> SB_BI_FUNC_BASE \<longrightarrow> rk (action_id c) < rk (Suc i))"

text \<open>What is wrong with an outcome. A run of lines has only the faults of tests, of built-in actions and of
  its calls.\<close>

fun trouble :: "'a outcome \<Rightarrow> fault option option" where
  "trouble (Done x) = None"
| "trouble (Stop e) = Some (Some e)"
| "trouble More_depth = Some None"

lemma trouble_obind: "trouble (obind x f) = (case x of Done y \<Rightarrow> trouble (f y) | _ \<Rightarrow> trouble x)"
  by (cases x) simp_all

lemma trouble_of_option: "trouble (of_option e x) = (if x = None then Some (Some e) else None)"
  by (cases x) (simp_all add: of_option_def)

lemma run_lines_trouble:
  assumes calls: "\<And>c a. c \<in> set cs \<Longrightarrow> 0 < action_id c \<Longrightarrow> action_id c \<le> SB_BI_FUNC_BASE \<Longrightarrow> trouble (call (action_id c) a) \<noteq> Some w"
    and w: "w \<noteq> Some Bad_test" "w \<noteq> Some Bad_action"
  shows "trouble (run_lines call env cs r cm) \<noteq> Some w"
  using calls
proof (induction cs arbitrary: r cm)
  case (Cons c cs)
  have act: "trouble (run_action call env c pr res a) \<noteq> Some w" for pr res a
    using Cons.prems w by (auto simp: run_action_def trouble_of_option)
  have "trouble (run_line call env c cm) \<noteq> Some w"
  proof (cases "test_line env c cm")
    case (Some t)
    obtain pr b res cm1 where t: "t = (pr, b, res, cm1)" by (cases t)
    show ?thesis using act [of pr res cm1]
      by (auto simp: run_line_def Some t of_option_def trouble_obind split: outcome.splits)
  qed (use w in \<open>simp add: run_line_def of_option_def\<close>)
  moreover have "trouble (run_lines call env cs r1 a) \<noteq> Some w" for r1 a
    using Cons by simp
  ultimately show ?case by (auto simp: trouble_obind split: outcome.split)
qed simp

lemma trouble_More_depth: "trouble x \<noteq> Some None \<longleftrightarrow> x \<noteq> More_depth"
  by (cases x) simp_all

lemma trouble_Bad_index: "trouble x \<noteq> Some (Some Bad_index) \<longleftrightarrow> x \<noteq> Stop Bad_index"
  by (cases x) simp_all

lemmas run_lines_depth = run_lines_trouble [of _ _ None, simplified trouble_More_depth]
lemmas run_lines_in_range = run_lines_trouble [of _ _ "Some Bad_index", simplified trouble_Bad_index]

lemma runFunct_ranked:
  assumes "ranked rk sb" "rk fID < k"
  shows "runFunct k env sb fID cm \<noteq> More_depth"
  using assms(2)
proof (induction k arbitrary: fID cm)
  case (Suc k)
  show ?case
  proof (cases "0 < fID \<and> fID \<le> length (funct_vec sb)")
    case True
    have "rk (action_id c) < k"
      if "c \<in> set (comm_dq (funct_vec sb ! (fID - 1)))" "0 < action_id c" "action_id c \<le> SB_BI_FUNC_BASE" for c
      using assms(1) [unfolded ranked_def, rule_format, of "fID - 1" c] True that Suc.prems by fastforce
    then show ?thesis using True by (simp add: run_lines_depth Suc.IH)
  qed auto
qed simp

section \<open>Numbers of functions\<close>

text \<open>The number of a function is its place in the vector, counted from 1.\<close>

definition ids_ok :: "story_board \<Rightarrow> bool" where
  "ids_ok sb \<longleftrightarrow> fnt_cnt sb = length (funct_vec sb) \<and> (\<forall>i < length (funct_vec sb). fn_id (funct_vec sb ! i) = Suc i)"

text \<open>An action is a built-in one, a function of the vector, or none.\<close>

definition actions_ok :: "story_board \<Rightarrow> bool" where
  "actions_ok sb \<longleftrightarrow> (\<forall>f \<in> set (funct_vec sb). \<forall>c \<in> set (comm_dq f).
     action_id c \<le> length (funct_vec sb) \<or> action_id c > SB_BI_FUNC_BASE)"

lemma index_loop_pos: "index_loop s xs i = Some j \<Longrightarrow> i < j"
  by (induction s xs i rule: index_loop.induct) (auto split: if_splits)

lemma getBIFunctID_range: "getBIFunctID s = 0 \<or> getBIFunctID s > SB_BI_FUNC_BASE"
  using index_loop_pos by (auto simp: getBIFunctID_def split: option.split)

lemma getFunctID_range:
  assumes "\<forall>i < length (funct_vec sb). fn_id (funct_vec sb ! i) = Suc i"
  shows "getFunctID sb fname \<le> length (funct_vec sb) \<or> getFunctID sb fname > SB_BI_FUNC_BASE"
proof (cases "List.find (\<lambda>f. fn_name f = fname) (funct_vec sb)")
  case None
  then show ?thesis using getBIFunctID_range [of fname] by (auto simp: getFunctID_def Let_def)
next
  case (Some f)
  then obtain i where "i < length (funct_vec sb)" "f = funct_vec sb ! i" by (auto simp: find_Some_iff)
  then show ?thesis using Some assms getBIFunctID_range [of fname] by (auto simp: getFunctID_def Let_def)
qed

text \<open>While a file is read: the function that is being read has the next number, or the number it
  replaces.\<close>

definition reading_ok :: "reading \<Rightarrow> bool" where
  "reading_ok rd \<longleftrightarrow>
     (let n = length (funct_vec (rd_sb rd)) in
      (\<forall>i < n. fn_id (funct_vec (rd_sb rd) ! i) = Suc i) \<and>
      (if rd_in_function rd \<and> \<not> rd_overwrite rd then fnt_cnt (rd_sb rd) = Suc n \<and> fn_id (rd_curr rd) = Suc n
       else fnt_cnt (rd_sb rd) = n) \<and>
      (rd_in_function rd \<and> rd_overwrite rd \<longrightarrow> 0 < rd_fnt_id rd \<and> rd_fnt_id rd \<le> n \<and> fn_id (rd_curr rd) = rd_fnt_id rd))"

lemma rbind_Ok [simp]: "rbind x f = Ok y \<longleftrightarrow> (\<exists>z. x = Ok z \<and> f z = Ok y)"
  by (cases x) auto

lemma pushed_ids:
  assumes "reading_ok rd" "rd_in_function rd" "pushed rd = Ok rd'"
  shows "ids_ok (rd_sb rd') \<and> rd_curr rd' = rd_curr rd"
proof (cases "rd_overwrite rd")
  case True
  then show ?thesis using assms
    by (auto simp: pushed_def push_function_def reading_ok_def ids_ok_def Let_def nth_list_update split: if_splits)
next
  case False
  then show ?thesis using assms
    by (auto simp: pushed_def push_function_def reading_ok_def ids_ok_def Let_def nth_append less_Suc_eq)
qed

lemma start_function_ok:
  assumes "reading_ok rd" "start_function filename params line_no rd = Ok rd'"
  shows "reading_ok rd' \<and> rd_in_function rd'"
proof -
  obtain rd1 where one: "(if rd_in_function rd then pushed rd else Ok rd) = Ok rd1"
    and two: "(let oldf = getFunctID (rd_sb rd1) params in
       if oldf > SB_BI_FUNC_BASE then Bad_file
       else let fid = (if oldf > 0 then oldf else Suc (fnt_cnt (rd_sb rd1)));
                sb = (if oldf > 0 then rd_sb rd1 else (rd_sb rd1)\<lparr>fnt_cnt := fid\<rparr>)
         in Ok (rd1\<lparr>rd_sb := sb, rd_fnt_id := fid, rd_overwrite := oldf > 0, rd_in_function := True,
              rd_curr := sb_start params fid line_no filename (rd_curr rd1)\<rparr>)) = Ok rd'"
    using assms(2) by (auto simp: start_function_def)
  have ids: "ids_ok (rd_sb rd1)"
  proof (cases "rd_in_function rd")
    case True
    then show ?thesis using pushed_ids [OF assms(1)] one by simp
  next
    case False
    then show ?thesis using assms(1) one by (simp add: reading_ok_def ids_ok_def Let_def)
  qed
  then have "getFunctID (rd_sb rd1) params \<le> length (funct_vec (rd_sb rd1)) \<or> getFunctID (rd_sb rd1) params > SB_BI_FUNC_BASE"
    by (intro getFunctID_range) (simp add: ids_ok_def)
  then show ?thesis using two ids
    by (auto simp: reading_ok_def ids_ok_def sb_start_def Let_def split: if_splits)
qed

lemma end_function_ok:
  "reading_ok rd \<Longrightarrow> end_function rd = Ok rd' \<Longrightarrow> reading_ok rd' \<and> \<not> rd_in_function rd'"
proof (cases "rd_in_function rd")
  case True
  assume ok: "reading_ok rd" and e: "end_function rd = Ok rd'"
  obtain rd1 where "pushed rd = Ok rd1" "rd' = rd1\<lparr>rd_in_function := False\<rparr>"
    using e True by (auto simp: end_function_def)
  then show ?thesis using pushed_ids [OF ok True, of rd1] by (simp add: reading_ok_def ids_ok_def Let_def)
qed (simp add: end_function_def)

lemma addline_id: "addline command params action line_no f = (b, f') \<Longrightarrow> fn_id f' = fn_id f"
  by (auto simp: addline_def Let_def split: if_splits)

text \<open>Whether a file includes others only between its functions.\<close>

definition line_command :: "string \<Rightarrow> string" where
  "line_command b = fst (line_parts (removeWhiteSpace (cstr b)))"

fun includes_outside :: "bool \<Rightarrow> string list \<Rightarrow> bool" where
  "includes_outside within [] = True"
| "includes_outside within (b # bs) =
     (if b = [] \<or> startsWith (removeWhiteSpace (cstr b)) ''#'' then includes_outside within bs
      else if startsWith (removeWhiteSpace (cstr b)) ''.'' then \<not> within \<and> includes_outside within bs
      else includes_outside (if line_command b = ''function'' then True else if line_command b = ''end'' then False else within) bs)"

lemma sb_line_ok:
  assumes "\<And>f sb sb'. include f sb = Ok sb' \<Longrightarrow> ids_ok sb \<Longrightarrow> ids_ok sb'"
    and "reading_ok rd" "includes_outside (rd_in_function rd) (b # bs)" "sb_line include filename b n rd = Ok rd'"
  shows "reading_ok rd' \<and> includes_outside (rd_in_function rd') bs"
proof -
  have hash: "\<not> startsWith line ''.''" if "startsWith line ''#''" for line
    using that by (cases line) (auto simp: startsWith_def cstr_def nul_def)
  consider (skip) "b = []" | (hash) "b \<noteq> []" "startsWith (removeWhiteSpace (cstr b)) ''#''"
    | (dot) "b \<noteq> []" "startsWith (removeWhiteSpace (cstr b)) ''.''" "\<not> startsWith (removeWhiteSpace (cstr b)) ''#''"
    | (line) "b \<noteq> []" "\<not> startsWith (removeWhiteSpace (cstr b)) ''.''" "\<not> startsWith (removeWhiteSpace (cstr b)) ''#''"
    by blast
  then show ?thesis
  proof cases
    case dot
    then have "\<not> rd_in_function rd \<and> includes_outside (rd_in_function rd) bs" using assms(3)
      by (auto split: if_split_asm)
    then show ?thesis using assms(1,2,4) dot
      by (auto simp: sb_line_def Let_def reading_ok_def ids_ok_def split: if_splits)
  next
    case line
    obtain command params action where parts: "line_parts (removeWhiteSpace (cstr b)) = (command, params, action)"
      by (metis prod_cases3)
    have "line_command b = command" by (simp add: line_command_def parts)
    moreover have "if command = ''function'' then start_function filename params n rd = Ok rd'
       else if command = ''end'' then end_function rd = Ok rd'
       else \<exists>f. addline command params action n (rd_curr rd) = (True, f) \<and> rd' = rd\<lparr>rd_curr := f\<rparr>"
      using assms(4) line by (auto simp: sb_line_def Let_def parts split: if_splits prod.splits bool.splits)
    moreover have "includes_outside (if command = ''function'' then True else if command = ''end'' then False
        else rd_in_function rd) bs"
      using assms(3) line unfolding includes_outside.simps calculation(1) by (simp split del: if_split)
    ultimately show ?thesis using assms(2) start_function_ok [of rd filename params n rd'] end_function_ok [of rd rd']
      addline_id [of command params action n "rd_curr rd"]
      by (cases "command = ''function''"; cases "command = ''end''") (auto simp: reading_ok_def Let_def)
  qed (use assms(2-) hash in \<open>auto simp: sb_line_def Let_def\<close>)
qed

lemma sb_lines_ok:
  assumes "\<And>f sb sb'. include f sb = Ok sb' \<Longrightarrow> ids_ok sb \<Longrightarrow> ids_ok sb'"
  shows "reading_ok rd \<Longrightarrow> includes_outside (rd_in_function rd) ls \<Longrightarrow> sb_lines include filename ls n rd = Ok rd' \<Longrightarrow> reading_ok rd'"
proof (induction ls arbitrary: n rd)
  case (Cons b bs)
  obtain rd1 where one: "sb_line include filename b (Suc n) rd = Ok rd1"
    and rest: "sb_lines include filename bs (Suc n) rd1 = Ok rd'"
    using Cons.prems(3) by auto
  have "reading_ok rd1 \<and> includes_outside (rd_in_function rd1) bs"
    by (rule sb_line_ok [OF assms Cons.prems(1,2) one])
  then show ?case using Cons.IH rest by blast
qed simp

lemma sb_pass1_ids:
  assumes "\<And>f ls. files f = Some ls \<Longrightarrow> includes_outside False ls"
  shows "sb_pass1 n files filename sb = Ok sb' \<Longrightarrow> ids_ok sb \<Longrightarrow> ids_ok sb'"
proof (induction n arbitrary: filename sb sb')
  case (Suc n)
  define rd where "rd = \<lparr>rd_sb = sb, rd_curr = sb_function_new, rd_fnt_id = 0, rd_overwrite = False, rd_in_function = False\<rparr>"
  obtain ls rd1 where ls: "files filename = Some ls" "sb_lines (sb_pass1 n files) filename ls 0 rd = Ok rd1"
    and fin: "(if rd_in_function rd1 then rbind (pushed rd1) (\<lambda>rd2. Ok (rd_sb rd2)) else Ok (rd_sb rd1)) = Ok sb'"
    using Suc.prems(1) by (auto simp: file_pass_def rd_def split: if_splits option.splits)
  have "reading_ok rd1"
  proof (rule sb_lines_ok [OF Suc.IH])
    show "reading_ok rd" using Suc.prems(2) by (simp add: rd_def reading_ok_def ids_ok_def Let_def)
    show "includes_outside (rd_in_function rd) ls" using assms [OF ls(1)] by (simp add: rd_def)
  qed (use ls in auto)
  then show ?case
  proof (cases "rd_in_function rd1")
    case True
    then obtain rd2 where "pushed rd1 = Ok rd2" "sb' = rd_sb rd2" using fin by auto
    then show ?thesis using pushed_ids [OF \<open>reading_ok rd1\<close> True, of rd2] by simp
  next
    case False
    then show ?thesis using fin \<open>reading_ok rd1\<close> by (simp add: reading_ok_def ids_ok_def Let_def)
  qed
qed simp

text \<open>The second pass.\<close>

lemma bind_lines_actions:
  "bind_lines sb cs lv = (cs', lv') \<Longrightarrow> \<forall>c \<in> set cs'. \<exists>fname. action_id c = getFunctID sb fname"
proof (induction cs arbitrary: lv cs' lv')
  case (Cons c cs)
  then show ?case by (force simp: bind_line_def split: prod.splits)
qed simp

lemma bind_functions_ok:
  "bind_functions sb fs lv = (fs', lv') \<Longrightarrow> map fn_id fs' = map fn_id fs \<and>
     (\<forall>f \<in> set fs'. \<forall>c \<in> set (comm_dq f). \<exists>fname. action_id c = getFunctID sb fname)"
proof (induction fs arbitrary: lv fs' lv')
  case (Cons f fs)
  then show ?case using bind_lines_actions by (fastforce split: prod.splits)
qed simp

lemma sb_readFile_ok:
  assumes "\<And>f ls. files f = Some ls \<Longrightarrow> includes_outside False ls" "ids_ok sb0"
    and "sb_readFile n files filename lv sb0 = Ok (sb, lv')"
  shows "ids_ok sb \<and> actions_ok sb"
proof -
  obtain sb1 where one: "sb_pass1 n files filename sb0 = Ok sb1"
    and rest: "(case bind_functions sb1 (funct_vec sb1) lv of (fs, lv') \<Rightarrow> Ok (sb1\<lparr>funct_vec := fs\<rparr>, lv')) = Ok (sb, lv')"
    using assms(3) by (simp only: sb_readFile_def rbind_Ok) blast
  obtain fs where two: "bind_functions sb1 (funct_vec sb1) lv = (fs, lv')" "sb = sb1\<lparr>funct_vec := fs\<rparr>"
    using rest by (cases "bind_functions sb1 (funct_vec sb1) lv") simp
  have ids: "ids_ok sb1" by (rule sb_pass1_ids [OF assms(1) one assms(2)])
  note b = bind_functions_ok [OF two(1)]
  have same: "length fs = length (funct_vec sb1)" "fn_id (fs ! i) = fn_id (funct_vec sb1 ! i)" if "i < length fs" for i
    using b that by (metis length_map, metis length_map nth_map)
  have "length fs = length (funct_vec sb1)" using b by (metis length_map)
  moreover have "getFunctID sb1 fname \<le> length (funct_vec sb1) \<or> getFunctID sb1 fname > SB_BI_FUNC_BASE" for fname
    using ids by (intro getFunctID_range) (simp add: ids_ok_def)
  ultimately show ?thesis using ids same b two(2) by (force simp: ids_ok_def actions_ok_def)
qed

text \<open>A run of such a storyboard stays in range.\<close>

lemma runFunct_in_range:
  assumes "actions_ok sb" "0 < fID" "fID \<le> length (funct_vec sb)"
  shows "runFunct k env sb fID cm \<noteq> Stop Bad_index"
  using assms(2,3)
proof (induction k arbitrary: fID cm)
  case (Suc k)
  have "action_id c \<le> length (funct_vec sb)"
    if "c \<in> set (comm_dq (funct_vec sb ! (fID - 1)))" "action_id c \<le> SB_BI_FUNC_BASE" for c
    using assms(1) Suc.prems that by (fastforce simp: actions_ok_def)
  then have "run_lines (runFunct k env sb) env (comm_dq (funct_vec sb ! (fID - 1))) False cm \<noteq> Stop Bad_index"
    by (intro run_lines_in_range Suc.IH) auto
  then show ?case using Suc.prems by simp
qed simp

section \<open>Properties\<close>

text \<open>The entry of a storyboard runs a function on the state in which the request is not done.\<close>

lemma runFunctEntry_cases:
  assumes "runFunctEntry k env sb index cm = Done (r, cm')"
  obtains "cm' = cm\<lparr>cm_isdone := False\<rparr>"
    | fID where "runFunct k env sb fID (cm\<lparr>cm_isdone := False\<rparr>) = Done (r, cm')"
  using assms by (auto simp: runFunctEntry_def Let_def split: if_splits)

lemma isdone_kept [simp]:
  "one_decision (cm\<lparr>cm_isdone := b\<rparr>) = one_decision cm" "mitm_ok (cm\<lparr>cm_isdone := b\<rparr>) = mitm_ok cm"
  "nomitm_final (cm\<lparr>cm_isdone := b\<rparr>) cm' = nomitm_final cm cm'" "group_ok env (cm\<lparr>cm_isdone := b\<rparr>) = group_ok env cm"
  "only_withdraws (cm\<lparr>cm_isdone := b\<rparr>) cm' = only_withdraws cm cm'"
  by (simp_all add: one_decision_def mitm_ok_def nomitm_final_def group_ok_def only_withdraws_def)

text \<open>A storyboard with two functions: the first blocks, forbids decryption and calls the second, which
  makes the request grey and asks for decryption.\<close>

definition true_line :: "nat \<Rightarrow> com_rec" where
  "true_line a = com_rec_new\<lparr>isif := True, state := 27, action_id := a\<rparr>"

definition demo_story :: story_board where
  "demo_story = \<lparr>entrys = [1], fnt_cnt = 2, funct_vec =
     [sb_function_new\<lparr>fn_id := 1, comm_dq := [true_line 5003, true_line 5022, true_line 2]\<rparr>,
      sb_function_new\<lparr>fn_id := 2, comm_dq := [true_line 5002, true_line 5023]\<rparr>]\<rparr>"

definition demo_senv :: sb_env where
  "demo_senv = \<lparr>ne_rx = lib_a, ne_urldecode_re = reg_exp_new, ne_anonymise_logs = False, ne_no_proxy = False,
     se_fuel = 1, se_meta = demo_meta, se_manager = demo_manager, se_search_sitelist_for_ip = True,
     se_reverse_lookups = False, se_numfg = 2, se_default_fg = 0, se_groups = None,
     se_language = \<lparr>lk_keys = [], lk_values = []\<rparr>, se_gethost = (\<lambda>_. None)\<rparr>"

definition demo_cm :: naughty_filter where
  "demo_cm = naughty_filter_new (nf_of demo_senv) demo_header (http_header_new True Null) None"

lemma demo_cm_flags:
  "\<not> cm_isexception demo_cm" "\<not> cm_isGrey demo_cm" "\<not> cm_isBlocked demo_cm" "\<not> cm_nomitm demo_cm"
  "\<not> cm_automitm demo_cm" "cm_filtergroup demo_cm = 0"
  by (simp_all add: demo_cm_def naughty_filter_new_def nf_reset_def)

lemma test_true_line [simp]: "test_line env (true_line a) cm = Some (probe_new\<lparr>pr_result := True\<rparr>, True, list_result_new, cm)"
  by (simp add: test_line_def probe_of_def true_line_def com_rec_new_def flag_test_def header_check_def list_check_def
      probe_new_def)

lemma true_line_simps [simp]: "action_id (true_line a) = a" "isif (true_line a)" "\<not> return_after_action (true_line a)"
  "\<not> return_after_action_is_true (true_line a)"
  by (simp_all add: true_line_def com_rec_new_def)

lemma demo_run: "\<exists>cm'. runFunctEntry 2 demo_senv demo_story 0 demo_cm = Done (True, cm')"
  by (simp add: runFunctEntry_def demo_story_def sb_function_new_def numeral_2_eq_2 run_line_def of_option_def run_action_def
      builtin_def Let_def)

text \<open>C4: a run of a storyboard keeps at most one of the decisions exception, grey and blocked.\<close>

theorem story_one_decision:
  assumes "runFunctEntry k env sb index cm = Done (r, cm')" and "one_decision cm"
  shows "one_decision cm'"
  using assms(1)
proof (cases rule: runFunctEntry_cases)
  case 1
  then show ?thesis using assms(2) by (simp add: one_decision_def)
next
  case (2 fID)
  then show ?thesis using decisions.runFunct_rel [OF 2] assms(2) by simp
qed

theorem story_one_decision_witness:
  "\<exists>r cm'. runFunctEntry 2 demo_senv demo_story 0 demo_cm = Done (r, cm') \<and> one_decision cm'"
  using demo_run story_one_decision [of 2 demo_senv demo_story 0 demo_cm] demo_cm_flags by (auto simp: one_decision_def)

text \<open>C5: that a connection is not to be decrypted is final. After it was decided no run of a storyboard
  takes it back or asks for decryption, and a run never leaves a state with both the decision and
  automatic decryption.\<close>

theorem story_nomitm_final:
  assumes "runFunctEntry k env sb index cm = Done (r, cm')"
  shows "nomitm_final cm cm' \<and> (mitm_ok cm \<longrightarrow> mitm_ok cm')"
  using assms(1)
proof (cases rule: runFunctEntry_cases)
  case 1
  then show ?thesis by (simp add: nomitm_final_def mitm_ok_def)
next
  case (2 fID)
  then show ?thesis using nomitm.runFunct_rel [OF 2] mitm.runFunct_rel [OF 2] by simp
qed

theorem story_nomitm_final_witness:
  "\<exists>r cm'. runFunctEntry 2 demo_senv demo_story 0 demo_cm = Done (r, cm') \<and> mitm_ok cm'"
  using demo_run story_nomitm_final [of 2 demo_senv demo_story 0 demo_cm] demo_cm_flags by (auto simp: mitm_ok_def)

text \<open>C8: a run of a storyboard leaves a group that exists, or the mark \<open>- 1\<close>.\<close>

theorem story_group_range:
  assumes "runFunctEntry k env sb index cm = Done (r, cm')" and "group_ok env cm"
  shows "group_ok env cm'"
  using assms(1)
proof (cases rule: runFunctEntry_cases)
  case 1
  then show ?thesis using assms(2) by (simp add: group_ok_def)
next
  case (2 fID)
  then show ?thesis using groups.runFunct_rel [OF 2] assms(2) by simp
qed

theorem story_group_range_witness:
  "\<exists>r cm'. runFunctEntry 2 demo_senv demo_story 0 demo_cm = Done (r, cm') \<and> group_ok demo_senv cm'"
  using demo_run story_group_range [of 2 demo_senv demo_story 0 demo_cm] demo_cm_flags by (auto simp: group_ok_def)

text \<open>C7: a storyboard only withdraws: no run grants a bypass or the permission for one, makes a request
  subject to virus scanning again, or puts a request back into the log.\<close>

theorem story_only_withdraws:
  assumes "runFunctEntry k env sb index cm = Done (r, cm')"
  shows "only_withdraws cm cm'"
  using assms(1)
proof (cases rule: runFunctEntry_cases)
  case 1
  then show ?thesis by (simp add: only_withdraws_def)
next
  case (2 fID)
  then show ?thesis using withdraws.runFunct_rel [OF 2] by simp
qed

theorem story_only_withdraws_witness:
  "\<exists>r cm'. runFunctEntry 2 demo_senv demo_story 0 demo_cm = Done (r, cm') \<and> only_withdraws demo_cm cm'"
  using demo_run story_only_withdraws [of 2 demo_senv demo_story 0 demo_cm] by blast

text \<open>C6: when every call goes to a function of a lower rank, a run with a depth above the rank has an
  outcome (a return value, or a fault of the run), which no larger depth changes.\<close>

theorem runFunct_terminates:
  assumes "ranked rk sb" and "rk fID < k"
  shows "\<exists>out. out \<noteq> More_depth \<and> (\<forall>n \<ge> k. runFunct n env sb fID cm = out)"
  using runFunct_ranked [OF assms, of env cm] runFunct_more [of k env sb fID cm] by blast

theorem runFunct_terminates_witness: "runFunct 2 demo_senv demo_story 1 demo_cm \<noteq> More_depth"
proof -
  have "ranked (\<lambda>f. 2 - f) demo_story"
    by (auto simp: ranked_def demo_story_def sb_function_new_def less_Suc_eq)
  from runFunct_terminates [OF this, of 1 2] show ?thesis by auto
qed

text \<open>a function that calls itself on its first line, without a condition, never returns.\<close>

theorem self_call_never_returns:
  assumes "0 < fID" and "fID \<le> length (funct_vec sb)" and "fID \<le> SB_BI_FUNC_BASE"
    and "comm_dq (funct_vec sb ! (fID - 1)) = true_line fID # cs"
  shows "runFunct k env sb fID cm = More_depth"
  using assms by (induction k arbitrary: cm) (simp_all add: run_line_def of_option_def run_action_def)

text \<open>C3: in a storyboard read from files that include others only between their functions, an entry that
  names one of the functions never runs out of the range of the functions.\<close>

theorem storyboard_in_range:
  assumes "\<And>f ls. files f = Some ls \<Longrightarrow> includes_outside False ls"
    and "sb_readFile n files filename lv (story_board_new garbage) = Ok (sb, lv')"
    and "setEntry index fname sb = Some (True, sb')" and "getBIFunctID fname = 0"
  shows "runFunctEntry k env sb' index cm \<noteq> Stop Bad_index"
proof -
  have ok: "ids_ok sb" "actions_ok sb"
    using sb_readFile_ok [OF assms(1) _ assms(2)] by (auto simp: ids_ok_def story_board_new_def)
  let ?e = "getFunctID sb fname"
  have sb': "sb' = sb\<lparr>entrys := (entrys sb)[index := ?e]\<rparr>" "index < length (entrys sb)" "0 < ?e"
    using assms(3) by (auto simp: setEntry_def Let_def split: if_splits)
  have "?e \<le> length (funct_vec sb)"
  proof (cases "List.find (\<lambda>f. fn_name f = fname) (funct_vec sb)")
    case None
    then show ?thesis using assms(4) by (simp add: getFunctID_def Let_def)
  next
    case (Some f)
    then obtain i where "i < length (funct_vec sb)" "f = funct_vec sb ! i" by (auto simp: find_Some_iff)
    then show ?thesis using Some assms(4) ok(1) by (simp add: getFunctID_def Let_def ids_ok_def)
  qed
  moreover have "actions_ok sb'" using ok(2) sb' by (simp add: actions_ok_def)
  ultimately show ?thesis using runFunct_in_range [of sb' ?e k env "cm\<lparr>cm_isdone := False\<rparr>"] sb'
    by (simp add: runFunctEntry_def Let_def)
qed

theorem self_call_never_returns_witness:
  "runFunct 1000 demo_senv \<lparr>entrys = [1], fnt_cnt = 1, funct_vec = [sb_function_new\<lparr>comm_dq := [true_line 1]\<rparr>]\<rparr> 1 demo_cm = More_depth"
  by (rule self_call_never_returns [where cs = "[]"]) simp_all

definition demo_files :: "string \<rightharpoonup> string list" where
  "demo_files f = (if f = ''/e2/site.story'' then Some [''# entries'', '''', ''function(a)'', ''if(true) setblock'', ''ifnot(tls) return b'', ''end()'',
       ''.Include</e2/more>'']
     else if f = ''/e2/more'' then Some [''function(B)'', ''if(true,,1,2) setgrey'', ''end()'']
     else None)"

definition demo_board :: story_board where
  "demo_board = (case sb_readFile 2 demo_files ''/e2/site.story'' [] (story_board_new [0]) of Ok (sb, lv) \<Rightarrow> sb | _ \<Rightarrow> story_board_new [0])"

lemma demo_read:
  "sb_readFile 2 demo_files ''/e2/site.story'' [] (story_board_new [0]) = Ok (demo_board, []) \<and> getFunctID demo_board ''a'' = 1
     \<and> length (entrys demo_board) = 1"
  by code_simp

lemma demo_includes:
  "includes_outside False [''# entries'', '''', ''function(a)'', ''if(true) setblock'', ''ifnot(tls) return b'', ''end()'', ''.Include</e2/more>'']"
  "includes_outside False [''function(B)'', ''if(true,,1,2) setgrey'', ''end()'']"
  by code_simp+

lemma demo_not_builtin: "getBIFunctID ''a'' = 0"
  by code_simp

theorem storyboard_in_range_witness:
  "runFunctEntry 2 demo_senv (demo_board\<lparr>entrys := [1]\<rparr>) 0 demo_cm \<noteq> Stop Bad_index"
proof -
  have "includes_outside False ls" if "demo_files f = Some ls" for f ls
    using that demo_includes by (auto simp: demo_files_def simp del: includes_outside.simps split: if_split_asm)
  moreover have "length (entrys demo_board) = 1" using demo_read by simp
  then have "setEntry 0 ''a'' demo_board = Some (True, demo_board\<lparr>entrys := [1]\<rparr>)"
    using demo_read by (cases "entrys demo_board") (auto simp: setEntry_def Let_def)
  ultimately show ?thesis using demo_read demo_not_builtin storyboard_in_range by blast
qed

text \<open>An include inside of a function breaks the numbers: here the name of the first function leads to the
  second one, which was included.\<close>

lemma include_inside_function:
  "(case sb_readFile 2 (demo_files(''/e2/bad.story'' \<mapsto> [''function(a)'', ''.Include</e2/more>'', ''if(true) setblock'', ''end()'']))
       ''/e2/bad.story'' [] (story_board_new [0]) of
      Ok (sb, lv) \<Rightarrow> getFunctID sb ''a'' = 1 \<and> fn_name (funct_vec sb ! 0) = ''b'' | _ \<Rightarrow> False)"
  by code_simp

text \<open>The first function may have the name of a built-in action, which then hides it from every later line.\<close>

lemma builtin_name_accepted:
  "(case sb_readFile 1 [''/e2/b.story'' \<mapsto> [''function(setblock)'', ''if(true) setgrey'', ''end()'']] ''/e2/b.story'' [] (story_board_new [0]) of
      Ok (sb, lv) \<Rightarrow> map fn_name (funct_vec sb) = [''setblock''] \<and> getFunctID sb ''setblock'' = 5003 | _ \<Rightarrow> False)"
  by code_simp

text \<open>An entry that names a built-in action is accepted and then runs out of range.\<close>

lemma builtin_entry:
  assumes "0 < getBIFunctID fname" "funct_vec sb \<noteq> []" "length (funct_vec sb) \<le> SB_BI_FUNC_BASE" "index < length (entrys sb)"
  shows "\<exists>sb'. setEntry index fname sb = Some (True, sb') \<and> runFunctEntry (Suc k) env sb' index cm = Stop Bad_index"
  using assms getBIFunctID_range [of fname] by (simp add: setEntry_def getFunctID_def runFunctEntry_def Let_def)

end
