(* ===== verification/Phrase_Search.thy ===== *)
theory Phrase_Search
  imports Phrase_Tree
begin

text \<open>
  The phrase search (\<^verbatim>\<open>src/src/ListContainer.cpp\<close>: \<^verbatim>\<open>makeGraph\<close> and \<^verbatim>\<open>graphSearch\<close>). The tree that \<^verbatim>\<open>graphAdd\<close> builds is
  one: its links lead to later nodes, no two links of a node have the same letter, and each node
  carries a phrase that its letters begin. Pruning moves a branch to the phrases that are searched
  one by one, so that each phrase is in the tree or among those. The search follows the tree down at each place of the
  document; together the two searches report each phrase that the document contains.
\<close>

section \<open>Lemmas: the tree\<close>

text \<open>The node that a text leads to.\<close>

fun descend :: "gnode list \<Rightarrow> nat \<Rightarrow> string \<Rightarrow> nat option" where
  "descend g n [] = Some n"
| "descend g n (c # cs) = (case letter_links g n c of [] \<Rightarrow> None | m # ms \<Rightarrow> descend g m cs)"

lemma descend_append: "descend g n (s @ t) = Option.bind (descend g n s) (\<lambda>m. descend g m t)"
  by (induction s arbitrary: n) (auto split: list.split)

text \<open>Links lead to later nodes, no two links of a node have the same letter and no two nodes link to the same
  node.\<close>

definition tree_ok :: "gnode list \<Rightarrow> bool" where
  "tree_ok g \<longleftrightarrow> g \<noteq> [] \<and> \<not> g_last (g ! 0)
     \<and> (\<forall>n < length g. \<forall>m \<in> set (g_links (g ! n)). n < m \<and> m < length g)
     \<and> (\<forall>n < length g. distinct (map (\<lambda>m. g_char (g ! m)) (g_links (g ! n))))
     \<and> (\<forall>n < length g. \<forall>n' < length g. \<forall>m. m \<in> set (g_links (g ! n)) \<and> m \<in> set (g_links (g ! n')) \<longrightarrow> n = n')"

lemma tree_ok_pos: "tree_ok g \<Longrightarrow> 0 < length g"
  by (simp add: tree_ok_def)

lemma letter_links_set: "m \<in> set (letter_links g n c) \<longleftrightarrow> m \<in> set (g_links (g ! n)) \<and> g_char (g ! m) = c"
  by (auto simp: letter_links_def)

lemma descend_step:
  "descend g n (s @ [c]) = Some m \<Longrightarrow> \<exists>k. descend g n s = Some k \<and> m \<in> set (g_links (g ! k)) \<and> g_char (g ! m) = c"
  by (cases "descend g n s") (auto simp: descend_append simp flip: letter_links_set split: list.splits)

lemma descend_range:
  assumes "tree_ok g"
  shows "descend g n s = Some m \<Longrightarrow> n < length g \<Longrightarrow> m < length g \<and> n + length s \<le> m"
proof (induction s arbitrary: m rule: rev_induct)
  case (snoc c s)
  obtain k where k: "descend g n s = Some k" "m \<in> set (g_links (g ! k))" using descend_step [OF snoc.prems(1)] by blast
  then have "k < length g" "n + length s \<le> k" using snoc by auto
  then have "k < m \<and> m < length g" using assms k(2) unfolding tree_ok_def by blast
  then show ?case using \<open>n + length s \<le> k\<close> by simp
qed simp

lemma descend_inj:
  assumes "tree_ok g"
  shows "descend g 0 s = Some m \<Longrightarrow> descend g 0 t = Some m \<Longrightarrow> s = t"
proof (induction s arbitrary: t m rule: rev_induct)
  case Nil
  then have "descend g 0 t = Some 0" by simp
  from descend_range [OF assms this tree_ok_pos [OF assms]] show ?case by simp
next
  case (snoc c s)
  have g0: "0 < length g" by (rule tree_ok_pos [OF assms])
  obtain k where k: "descend g 0 s = Some k" "m \<in> set (g_links (g ! k))" "g_char (g ! m) = c"
    using descend_step [OF snoc.prems(1)] by blast
  have "m \<noteq> 0" using descend_range [OF assms snoc.prems(1) g0] by simp
  then obtain t' d where t: "t = t' @ [d]" using snoc.prems(2) by (cases t rule: rev_cases) auto
  obtain k' where k': "descend g 0 t' = Some k'" "m \<in> set (g_links (g ! k'))" "g_char (g ! m) = d"
    using descend_step snoc.prems(2) t by blast
  have "k < length g" "k' < length g" using descend_range [OF assms _ g0] k(1) k'(1) by blast+
  then have "k = k'" using assms k(2) k'(2) unfolding tree_ok_def by blast
  then show ?case using snoc.IH [OF k(1)] k' k(3) t by simp
qed

text \<open>The phrases of the tree, and what its nodes say about them: \<open>T\<close> gives the text of a phrase and \<open>N\<close> their
  number.\<close>

definition tree_phrases :: "gnode list \<Rightarrow> string set" where
  "tree_phrases g = {s. \<exists>m. descend g 0 s = Some m \<and> g_last (g ! m)}"

definition nodes_ok :: "(nat \<Rightarrow> string) \<Rightarrow> nat \<Rightarrow> gnode list \<Rightarrow> bool" where
  "nodes_ok T N g \<longleftrightarrow> (\<forall>s m. s \<noteq> [] \<and> descend g 0 s = Some m \<longrightarrow>
     g_item (g ! m) < N \<and> prefix s (T (g_item (g ! m))) \<and> T (g_item (g ! m)) \<in> tree_phrases g
     \<and> (g_last (g ! m) \<longrightarrow> T (g_item (g ! m)) = s))"

text \<open>A new branch.\<close>

lemma graph_chain_length [simp]: "length (graph_chain i s item) = length s"
  by (induction i s item rule: graph_chain.induct) auto

lemma graph_chain_nth:
  assumes "k < length s"
  shows "graph_chain i s item ! k = gnode_new\<lparr>g_char := s ! k, g_links := (if Suc k < length s then [Suc (i + k)] else []),
      g_last := (Suc k = length s), g_item := item\<rparr>"
  using assms
proof (induction i s item arbitrary: k rule: graph_chain.induct)
  case (3 i c d cs item)
  then show ?case by (cases k) (auto simp: gnode_new_def)
qed (simp_all add: gnode_new_def)

definition branched :: "string \<Rightarrow> nat \<Rightarrow> nat \<Rightarrow> gnode list \<Rightarrow> gnode list" where
  "branched s inx item g = g[inx := (g ! inx)\<lparr>g_links := g_links (g ! inx) @ [length g]\<rparr>] @ graph_chain (length g) s item"

lemma branched_old:
  "n < length g \<Longrightarrow> branched s inx item g ! n = (if n = inx then (g ! inx)\<lparr>g_links := g_links (g ! inx) @ [length g]\<rparr> else g ! n)"
  by (simp add: branched_def nth_append)

lemma branched_new:
  "k < length s \<Longrightarrow> branched s inx item g ! (length g + k) =
     gnode_new\<lparr>g_char := s ! k, g_links := (if Suc k < length s then [Suc (length g + k)] else []), g_last := (Suc k = length s), g_item := item\<rparr>"
  by (simp add: branched_def nth_append graph_chain_nth)

lemma branched_length [simp]: "length (branched s inx item g) = length g + length s"
  by (simp add: branched_def)

lemma branched_links:
  assumes "tree_ok g" "inx < length g" "n < length g" "s \<noteq> []"
  shows "letter_links (branched s inx item g) n c = letter_links g n c @ (if n = inx \<and> c = hd s then [length g] else [])"
proof -
  have old: "g_char (branched s inx item g ! m) = g_char (g ! m)" if "m < length g" for m
    using that by (simp add: branched_old)
  have lnk: "g_links (branched s inx item g ! n) = g_links (g ! n) @ (if n = inx then [length g] else [])"
    using assms by (simp add: branched_old)
  have hd: "g_char (branched s inx item g ! length g) = hd s" using branched_new [of 0 s inx item g] assms(4) by (simp add: hd_conv_nth gnode_new_def)
  have "\<forall>m \<in> set (g_links (g ! n)). m < length g" using assms unfolding tree_ok_def by blast
  then have "filter (\<lambda>m. g_char (branched s inx item g ! m) = c) (g_links (g ! n)) = letter_links g n c"
    unfolding letter_links_def by (intro filter_cong) (auto simp: old)
  then show ?thesis by (auto simp: letter_links_def lnk hd)
qed

lemma branched_chain_links:
  assumes "k < length s"
  shows "letter_links (branched s inx item g) (length g + k) c = (if Suc k < length s \<and> c = s ! Suc k then [Suc (length g + k)] else [])"
proof -
  have "g_char (branched s inx item g ! Suc (length g + k)) = s ! Suc k" if "Suc k < length s"
    using branched_new [of "Suc k" s inx item g] that by (simp add: gnode_new_def)
  then show ?thesis using branched_new [OF assms, of inx item g] by (auto simp: letter_links_def gnode_new_def)
qed

lemma branched_keeps:
  assumes "tree_ok g" "inx < length g" "s \<noteq> []"
  shows "descend g n t = Some m \<Longrightarrow> n < length g \<Longrightarrow> descend (branched s inx item g) n t = Some m"
proof (induction t arbitrary: n)
  case (Cons c t)
  then obtain k ks where k: "letter_links g n c = k # ks" "descend g k t = Some m" by (auto split: list.splits)
  then have "k \<in> set (g_links (g ! n))" by (metis letter_links_set list.set_intros(1))
  then have "k < length g" using assms(1) Cons.prems(2) unfolding tree_ok_def by blast
  then show ?case using Cons k branched_links [OF assms(1,2) Cons.prems(2) assms(3), of item c] by simp
qed simp

text \<open>What the tree with the new branch leads to.\<close>

lemma branched_descend:
  assumes "tree_ok g" "descend g 0 u = Some inx" "s \<noteq> []" "letter_links g inx (hd s) = []"
  shows "descend (branched s inx item g) 0 t = Some m \<longleftrightarrow>
     descend g 0 t = Some m \<or> (\<exists>k < length s. t = u @ take (Suc k) s \<and> m = length g + k)"
proof -
  let ?g = "branched s inx item g"
  have g0: "0 < length g" by (rule tree_ok_pos [OF assms(1)])
  have inx: "inx < length g" using descend_range [OF assms(1,2) g0] by simp
  have new: "descend ?g 0 (u @ take (Suc k) s) = Some (length g + k)" if "k < length s" for k
    using that
  proof (induction k)
    case 0
    then have "take (Suc 0) s = [hd s]" by (cases s) auto
    then show ?case
      using branched_keeps [OF assms(1) inx assms(3) assms(2) g0, of item] branched_links [OF assms(1) inx inx assms(3), of item "hd s"] assms(4)
      by (simp add: descend_append)
  next
    case (Suc k)
    then have "take (Suc (Suc k)) s = take (Suc k) s @ [s ! Suc k]" by (simp add: take_Suc_conv_app_nth)
    then show ?case using Suc branched_chain_links [of k s inx item g "s ! Suc k"]
      by (simp add: descend_append del: append_assoc add: append_assoc [symmetric])
  qed
  have "descend ?g 0 t = Some m \<Longrightarrow> descend g 0 t = Some m \<or> (\<exists>k < length s. t = u @ take (Suc k) s \<and> m = length g + k)"
  proof (induction t arbitrary: m rule: rev_induct)
    case (snoc d t)
    from snoc.prems obtain n where n: "descend ?g 0 t = Some n" and last: "descend ?g n [d] = Some m"
      by (auto simp: descend_append bind_eq_Some_conv)
    from snoc.IH [OF n] consider (old) "descend g 0 t = Some n" | (chain) k where "k < length s" "t = u @ take (Suc k) s" "n = length g + k"
      by blast
    then show ?case
    proof cases
      case old
      have nl: "n < length g" using descend_range [OF assms(1) old g0] by simp
      have links: "letter_links ?g n d = letter_links g n d @ (if n = inx \<and> d = hd s then [length g] else [])"
        by (rule branched_links [OF assms(1) inx nl assms(3)])
      show ?thesis
      proof (cases "letter_links g n d")
        case Nil
        then have "n = inx" "d = hd s" "m = length g" using last links by (auto split: if_splits list.splits)
        then have "t = u" using descend_inj [OF assms(1) old, of u] assms(2) by simp
        moreover have "take (Suc 0) s = [d]" using \<open>d = hd s\<close> assms(3) by (cases s) auto
        ultimately show ?thesis using \<open>m = length g\<close> assms(3) by (intro disjI2 exI [of _ 0]) simp
      next
        case (Cons x xs)
        then show ?thesis using last links old by (simp add: descend_append)
      qed
    next
      case chain
      have step: "descend ?g n [d] = (if Suc k < length s \<and> d = s ! Suc k then Some (Suc (length g + k)) else None)"
        using branched_chain_links [OF chain(1), of inx item g d] chain(3) by simp
      then have k: "Suc k < length s" "d = s ! Suc k" "m = length g + Suc k"
        using last by (simp_all split: if_splits)
      have "t @ [d] = u @ take (Suc (Suc k)) s" using chain(2) k take_Suc_conv_app_nth [OF k(1)] by simp
      then show ?thesis using k by blast
    qed
  qed simp
  moreover have "descend g 0 t = Some m \<Longrightarrow> descend ?g 0 t = Some m"
    by (rule branched_keeps [OF assms(1) inx assms(3) _ g0])
  ultimately show ?thesis by (auto simp: new)
qed

lemma branched_tree_ok:
  assumes ok: "tree_ok g" and inx: "inx < length g" and s: "s \<noteq> []" and new: "letter_links g inx (hd s) = []"
  shows "tree_ok (branched s inx item g)"
proof -
  let ?g = "branched s inx item g"
  have links_old: "g_links (?g ! n) = g_links (g ! n) @ (if n = inx then [length g] else [])" if "n < length g" for n
    using that by (simp add: branched_old)
  have links_new: "g_links (?g ! n) = (if Suc n < length ?g then [Suc n] else [])" if "length g \<le> n" "n < length ?g" for n
    using branched_new [of "n - length g" s inx item g] that by (auto simp: gnode_new_def)
  have range: "n < m \<and> m < length g" if "n < length g" "m \<in> set (g_links (g ! n))" for n m
    using ok that unfolding tree_ok_def by blast
  have char: "g_char (?g ! m) = g_char (g ! m)" if "m < length g" for m using that by (simp add: branched_old)
  have hd: "g_char (?g ! length g) = hd s" using branched_new [of 0 s inx item g] s by (simp add: hd_conv_nth gnode_new_def)
  have "distinct (map (\<lambda>m. g_char (?g ! m)) (g_links (?g ! n)))" if "n < length ?g" for n
  proof (cases "n < length g")
    case True
    have eqm: "map (\<lambda>m. g_char (?g ! m)) (g_links (g ! n)) = map (\<lambda>m. g_char (g ! m)) (g_links (g ! n))"
      using range [OF True] char by auto
    have "distinct (map (\<lambda>m. g_char (g ! m)) (g_links (g ! n)))" using ok True unfolding tree_ok_def by blast
    moreover have "hd s \<notin> (\<lambda>m. g_char (g ! m)) ` set (g_links (g ! inx))"
      using new by (auto simp: letter_links_def filter_empty_conv)
    ultimately show ?thesis unfolding links_old [OF True] map_append eqm using hd by auto
  next
    case False
    then show ?thesis using links_new that by simp
  qed
  moreover have "n < m \<and> m < length ?g" if "n < length ?g" "m \<in> set (g_links (?g ! n))" for n m
    using that links_old [of n] links_new [of n] range [of n m] s by (cases "n < length g") (auto split: if_splits)
  moreover have "n = n'" if "n < length ?g" "n' < length ?g" "m \<in> set (g_links (?g ! n))" "m \<in> set (g_links (?g ! n'))" for n n' m
  proof -
    have parent: "n = (if m < length g then (THE k. k < length g \<and> m \<in> set (g_links (g ! k))) else if m = length g then inx else m - 1)"
      if at: "n < length ?g" "m \<in> set (g_links (?g ! n))" for n
    proof (cases "n < length g")
      case True
      then consider "m \<in> set (g_links (g ! n))" | "n = inx" "m = length g" using links_old [OF True] at by (auto split: if_splits)
      then show ?thesis
      proof cases
        case 1
        then have "(THE k. k < length g \<and> m \<in> set (g_links (g ! k))) = n"
          using ok True unfolding tree_ok_def by (intro the_equality) blast+
        then show ?thesis using range [OF True 1] by simp
      qed simp
    next
      case False
      then show ?thesis using links_new [of n] at by (auto split: if_splits)
    qed
    show ?thesis by (rule trans [OF parent [OF that(1,3)] parent [OF that(2,4), symmetric]])
  qed
  moreover have "\<not> g_last (g ! 0)" using ok unfolding tree_ok_def by blast
  then have "\<not> g_last (?g ! 0)" using tree_ok_pos [OF ok] by (simp add: branched_old)
  moreover have "?g \<noteq> []" using s by (metis branched_length length_0_conv add_is_0)
  ultimately show ?thesis unfolding tree_ok_def by blast
qed

lemma branched_nodes_ok:
  assumes ok: "tree_ok g" "nodes_ok T N g" and u: "descend g 0 u = Some inx" and s: "s \<noteq> []" and new: "letter_links g inx (hd s) = []"
    and item: "item < N" "T item = u @ s"
  shows "nodes_ok T N (branched s inx item g) \<and> tree_phrases (branched s inx item g) = insert (u @ s) (tree_phrases g)"
proof -
  let ?g = "branched s inx item g"
  note desc = branched_descend [OF ok(1) u s new]
  have g0: "0 < length g" by (rule tree_ok_pos [OF ok(1)])
  have old: "g_item (?g ! m) = g_item (g ! m)" "g_last (?g ! m) = g_last (g ! m)" if "descend g 0 t = Some m" for t m
    using descend_range [OF ok(1) that g0] by (simp_all add: branched_old)
  have chain: "g_item (?g ! (length g + k)) = item" "g_last (?g ! (length g + k)) = (Suc k = length s)" if "k < length s" for k
    using branched_new [OF that, of inx item g] by (simp_all add: gnode_new_def)
  have phrases: "tree_phrases ?g = insert (u @ s) (tree_phrases g)"
  proof (intro set_eqI)
    fix t
    have "t \<in> tree_phrases ?g \<longleftrightarrow> (\<exists>m. descend g 0 t = Some m \<and> g_last (g ! m)) \<or> (\<exists>k < length s. t = u @ take (Suc k) s \<and> Suc k = length s)"
      unfolding tree_phrases_def using desc [of item t] old(2) chain(2) by auto
    also have "(\<exists>k < length s. t = u @ take (Suc k) s \<and> Suc k = length s) = (t = u @ s)"
      using s by (auto intro: exI [of _ "length s - 1"])
    finally show "t \<in> tree_phrases ?g \<longleftrightarrow> t \<in> insert (u @ s) (tree_phrases g)" by (auto simp: tree_phrases_def)
  qed
  have "g_item (?g ! m) < N \<and> prefix t (T (g_item (?g ! m))) \<and> T (g_item (?g ! m)) \<in> tree_phrases ?g
     \<and> (g_last (?g ! m) \<longrightarrow> T (g_item (?g ! m)) = t)" if t: "t \<noteq> []" "descend ?g 0 t = Some m" for t m
  proof -
    consider (keep) "descend g 0 t = Some m" | (grown) k where "k < length s" "t = u @ take (Suc k) s" "m = length g + k"
      using desc [of item t m] t(2) by blast
    then show ?thesis
    proof cases
      case keep
      then show ?thesis using ok(2) [unfolded nodes_ok_def, rule_format, of t m] t(1) phrases by (simp add: old [OF keep])
    next
      case grown
      have "prefix t (u @ s)" using grown(2) by (metis append_take_drop_id prefixI append_assoc)
      then show ?thesis using grown item phrases chain [OF grown(1)] by auto
    qed
  qed
  then show ?thesis using phrases unfolding nodes_ok_def by blast
qed

lemma graph_same_keeps [simp]:
  "p_graph (fold (graph_same item) cs ps) = p_graph ps" "p_items (fold (graph_same item) cs ps) = p_items ps"
  "slowgraph (fold (graph_same item) cs ps) = slowgraph ps" "force_quick_search (fold (graph_same item) cs ps) = force_quick_search ps"
  by (induction cs arbitrary: ps) (simp_all add: graph_same_def copy_values_def Let_def)

text \<open>Entering a phrase that is at least as long as all phrases in the tree.\<close>

lemma graphAdd_phrase:
  assumes "tree_ok (p_graph ps)" "nodes_ok T N (p_graph ps)" "\<forall>t \<in> tree_phrases (p_graph ps). length t \<le> length (u @ s)"
    and "item < N" "T item = u @ s" "s \<noteq> []" "descend (p_graph ps) 0 u = Some inx" "graphAdd s inx item ps = Some ps'"
  shows "tree_ok (p_graph ps') \<and> nodes_ok T N (p_graph ps') \<and> tree_phrases (p_graph ps') = insert (u @ s) (tree_phrases (p_graph ps))
     \<and> p_items ps' = p_items ps \<and> slowgraph ps' = slowgraph ps \<and> force_quick_search ps' = force_quick_search ps"
  using assms
proof (induction s inx item ps arbitrary: u rule: graphAdd.induct)
  case (1 s inx item ps)
  let ?g = "p_graph ps"
  define cs where "cs = letter_links ?g inx (first_char s)"
  have fc: "first_char s = hd s" using "1.prems"(6) by (simp add: first_char_def hd_def split: list.split)
  have inx: "inx < length ?g" using descend_range [OF "1.prems"(1,7) tree_ok_pos [OF "1.prems"(1)]] by simp
  have step: "graphAdd s inx item ps =
     (if cs = [] then map_option (\<lambda>g. ps\<lparr>p_graph := g\<rparr>) (graph_new s inx item ?g)
      else if tl s \<noteq> [] then graphAdd (tl s) (hd cs) item ps
      else Some (fold (graph_same item) cs ps))"
    by (subst graphAdd.simps) (simp add: cs_def Let_def)
  show ?case
  proof (cases "cs = []")
    case True
    have hs: "hd s # tl s = s" using "1.prems"(6) by simp
    have "p_graph ps' = branched s inx item ?g" "ps' = ps\<lparr>p_graph := p_graph ps'\<rparr>"
      using "1.prems"(8) step True by (auto simp: graph_new_def Let_def fc hs branched_def split: if_splits)
    moreover have new: "letter_links ?g inx (hd s) = []" using True cs_def fc by simp
    ultimately show ?thesis
      using branched_tree_ok [OF "1.prems"(1) inx "1.prems"(6) new]
        branched_nodes_ok [OF "1.prems"(1,2,7,6) new "1.prems"(4,5)]
      by (metis phrase_store.select_convs(1,9,10) phrase_store.update_convs(11) phrase_store.surjective)
  next
    case False
    then obtain m ms where cs: "cs = m # ms" by (cases cs) auto
    have m: "descend ?g 0 (u @ [hd s]) = Some m" using "1.prems"(7) cs fc by (simp add: descend_append cs_def)
    show ?thesis
    proof (cases "tl s = []")
      case True
      then have s: "s = [hd s]" using "1.prems"(6) by (metis list.collapse)
      have "u @ s \<in> tree_phrases ?g"
      proof -
        have n: "prefix (u @ [hd s]) (T (g_item (?g ! m)))" "T (g_item (?g ! m)) \<in> tree_phrases ?g"
          using "1.prems"(2) m unfolding nodes_ok_def by blast+
        moreover have "length (T (g_item (?g ! m))) \<le> length (u @ [hd s])" using "1.prems"(3) n(2) s by (metis)
        ultimately show ?thesis using s by (metis prefix_length_prefix prefix_order.antisym prefix_order.refl)
      qed
      then show ?thesis using "1.prems" step False True by auto
    next
      case False
      have "u @ s = (u @ [hd s]) @ tl s" using "1.prems"(6) by simp
      then show ?thesis
        using "1.IH" [OF cs_def refl \<open>cs \<noteq> []\<close>, of "u @ [hd s]"] False "1.prems" m cs step by auto
    qed
  qed
qed

text \<open>The texts that are searched one by one.\<close>

definition slow_texts :: "phrase_store \<Rightarrow> string set" where
  "slow_texts ps = p_text ps ` set (slowgraph ps)"

text \<open>Every phrase is in the tree or is searched on its own.\<close>

definition graph_ready :: "phrase_store \<Rightarrow> bool" where
  "graph_ready ps \<longleftrightarrow> tree_ok (p_graph ps) \<and> nodes_ok (p_text ps) (p_size ps) (p_graph ps) \<and> (\<forall>i \<in> set (slowgraph ps). i < p_size ps)
     \<and> tree_phrases (p_graph ps) \<subseteq> p_text ps ` {..<p_size ps}
     \<and> (\<forall>i < p_size ps. p_text ps i \<in> tree_phrases (p_graph ps) \<union> slow_texts ps)"

lemma empty_tree:
  "tree_ok [gnode_new]" "tree_phrases [gnode_new] = {}" "nodes_ok T N [gnode_new]"
proof -
  have d: "descend [gnode_new] 0 s = (if s = [] then Some 0 else None)" for s
    by (cases s) (simp_all add: letter_links_def gnode_new_def)
  show "tree_ok [gnode_new]" "tree_phrases [gnode_new] = {}" "nodes_ok T N [gnode_new]"
    by (auto simp: tree_ok_def tree_phrases_def nodes_ok_def d) (auto simp: gnode_new_def)
qed

lemma add_all_phrases:
  assumes "tree_ok (p_graph ps)" "nodes_ok (p_text ps) (p_size ps) (p_graph ps)" "\<forall>t \<in> tree_phrases (p_graph ps). \<forall>i \<in> set xs. length t \<le> length (p_text ps i)"
    and "\<forall>i \<in> set xs. i < p_size ps \<and> p_text ps i \<noteq> []" "sorted (map (\<lambda>i. length (p_text ps i)) xs)"
    and "obind_fold graph_item xs ps = Some ps'"
  shows "tree_ok (p_graph ps') \<and> nodes_ok (p_text ps) (p_size ps) (p_graph ps')
     \<and> tree_phrases (p_graph ps') = tree_phrases (p_graph ps) \<union> p_text ps ` set xs
     \<and> p_items ps' = p_items ps \<and> slowgraph ps' = slowgraph ps \<and> force_quick_search ps' = force_quick_search ps"
  using assms
proof (induction xs arbitrary: ps)
  case (Cons x xs)
  obtain ps1 where one: "graphAdd (p_text ps x) 0 x ps = Some ps1" and rest: "obind_fold graph_item xs ps1 = Some ps'"
    using Cons.prems(6) by (auto simp: graph_item_def [of x] bind_eq_Some_conv)
  have ps1: "tree_ok (p_graph ps1)" "nodes_ok (p_text ps) (p_size ps) (p_graph ps1)"
    "tree_phrases (p_graph ps1) = insert (p_text ps x) (tree_phrases (p_graph ps))" "p_items ps1 = p_items ps"
    "slowgraph ps1 = slowgraph ps" "force_quick_search ps1 = force_quick_search ps"
    using graphAdd_phrase [OF Cons.prems(1,2), of "[]" "p_text ps x" x 0 ps1] Cons.prems(3,4) one by auto
  have same: "p_text ps1 = p_text ps" "p_size ps1 = p_size ps" using ps1(4) by (simp_all add: p_size_def fun_eq_iff)
  have "\<forall>t \<in> tree_phrases (p_graph ps1). \<forall>i \<in> set xs. length t \<le> length (p_text ps1 i)"
    using Cons.prems(3,5) ps1(3,4) by auto
  then show ?case using Cons.IH [of ps1] ps1 same(2) rest Cons.prems by auto
qed simp

section \<open>Lemmas: pruning\<close>

lemma slow_add_texts:
  assumes "i < p_size ps" "\<forall>j \<in> set (slowgraph ps). j < p_size ps"
  shows "p_items (slow_add i ps) = p_items ps" "p_graph (slow_add i ps) = p_graph ps"
    "slow_texts (slow_add i ps) = insert (p_text ps i) (slow_texts ps)" "\<forall>j \<in> set (slowgraph (slow_add i ps)). j < p_size ps"
    "force_quick_search (slow_add i ps) = force_quick_search ps"
proof -
  show "p_items (slow_add i ps) = p_items ps" "p_graph (slow_add i ps) = p_graph ps"
    "\<forall>j \<in> set (slowgraph (slow_add i ps)). j < p_size ps" "force_quick_search (slow_add i ps) = force_quick_search ps"
    using assms by (auto simp: slow_add_def copy_values_def split: option.splits)
  show "slow_texts (slow_add i ps) = insert (p_text ps i) (slow_texts ps)"
  proof (cases "find_same ps i")
    case None
    then show ?thesis by (auto simp: slow_add_def slow_texts_def)
  next
    case (Some j)
    then have "j \<in> set (slowgraph ps)" "p_text ps j = p_text ps i"
      by (auto simp: find_same_def find_Some_iff)
    then have "p_text ps i \<in> slow_texts ps" by (metis slow_texts_def imageI)
    then show ?thesis using Some by (auto simp: slow_add_def slow_texts_def copy_values_def)
  qed
qed

lemma graphCopy_texts:
  assumes "graphCopyNodePhrases n pos ps = Some ps'" "\<forall>v m. descend (p_graph ps) pos v = Some m \<longrightarrow> g_item (p_graph ps ! m) < p_size ps"
    "\<forall>j \<in> set (slowgraph ps). j < p_size ps"
    "tree_ok (p_graph ps)" "pos < length (p_graph ps)"
  shows "p_items ps' = p_items ps \<and> p_graph ps' = p_graph ps \<and> force_quick_search ps' = force_quick_search ps
     \<and> (\<forall>j \<in> set (slowgraph ps'). j < p_size ps) \<and> slow_texts ps \<subseteq> slow_texts ps'
     \<and> (\<forall>v m. descend (p_graph ps) pos v = Some m \<longrightarrow> p_text ps (g_item (p_graph ps ! m)) \<in> slow_texts ps')"
  using assms
proof (induction n arbitrary: pos ps ps')
  case (Suc n)
  let ?g = "p_graph ps"
  let ?links = "g_links (?g ! pos)"
  define keeps where "keeps q \<longleftrightarrow> p_items q = p_items ps \<and> p_graph q = ?g \<and> force_quick_search q = force_quick_search ps
      \<and> (\<forall>j \<in> set (slowgraph q). j < p_size ps)" for q :: phrase_store
  have child: "m \<in> set ?links \<Longrightarrow> m < length ?g" for m using Suc.prems(4,5) unfolding tree_ok_def by blast
  have hd: "letter_links ?g pos (g_char (?g ! m)) = [m]" if m: "m \<in> set ?links" for m
  proof -
    have "distinct (map (\<lambda>m. g_char (?g ! m)) ?links)" using Suc.prems(4,5) unfolding tree_ok_def by blast
    then have "inj_on (\<lambda>m. g_char (?g ! m)) (set ?links)" "distinct ?links" by (simp_all add: distinct_map)
    then have "set (letter_links ?g pos (g_char (?g ! m))) = {m}" "distinct (letter_links ?g pos (g_char (?g ! m)))"
      using m by (auto simp: letter_links_def inj_on_def)
    then show ?thesis by (cases "letter_links ?g pos (g_char (?g ! m))") (auto simp: subset_singleton_iff)
  qed
  have fold: "keeps q' \<and> slow_texts q \<subseteq> slow_texts q' \<and>
       (\<forall>x \<in> set xs. \<forall>v m. descend ?g x v = Some m \<longrightarrow> p_text ps (g_item (?g ! m)) \<in> slow_texts q')"
    if "obind_fold (graphCopyNodePhrases n) xs q = Some q'" "keeps q" "set xs \<subseteq> set ?links" for xs q q'
    using that
  proof (induction xs arbitrary: q)
    case (Cons x xs)
    obtain q1 where q1: "graphCopyNodePhrases n x q = Some q1" "obind_fold (graphCopyNodePhrases n) xs q1 = Some q'"
      using Cons.prems(1) by (auto simp: bind_eq_Some_conv)
    have q: "p_graph q = ?g" "p_size q = p_size ps" "p_text q = p_text ps" using Cons.prems(2)
      by (simp_all add: keeps_def p_size_def fun_eq_iff)
    have x: "x \<in> set ?links" using Cons.prems(3) by simp
    have "g_item (?g ! m) < p_size ps" if "descend ?g x v = Some m" for v m
      using Suc.prems(2) [rule_format, of "g_char (?g ! x) # v" m] hd [OF x] that by simp
    then have "keeps q1 \<and> slow_texts q \<subseteq> slow_texts q1 \<and> (\<forall>v m. descend ?g x v = Some m \<longrightarrow> p_text ps (g_item (?g ! m)) \<in> slow_texts q1)"
      using Suc.IH [OF q1(1)] Cons.prems(2) q child [OF x] Suc.prems(4) by (auto simp: keeps_def)
    moreover from this have "keeps q' \<and> slow_texts q1 \<subseteq> slow_texts q' \<and>
       (\<forall>x \<in> set xs. \<forall>v m. descend ?g x v = Some m \<longrightarrow> p_text ps (g_item (?g ! m)) \<in> slow_texts q')"
      using Cons.IH [OF q1(2)] Cons.prems(3) by auto
    ultimately show ?case by auto
  qed auto
  obtain q where q: "obind_fold (graphCopyNodePhrases n) ?links ps = Some q" "ps' = slow_add (g_item (?g ! pos)) q"
    using Suc.prems(1) by auto
  have "keeps ps" using Suc.prems(3) by (simp add: keeps_def)
  from fold [OF q(1) this] have k: "keeps q" "slow_texts ps \<subseteq> slow_texts q"
    "\<forall>x \<in> set ?links. \<forall>v m. descend ?g x v = Some m \<longrightarrow> p_text ps (g_item (?g ! m)) \<in> slow_texts q" by auto
  have same: "p_size q = p_size ps" "p_text q = p_text ps" using k(1) by (simp_all add: keeps_def p_size_def fun_eq_iff)
  have item: "g_item (?g ! pos) < p_size ps" using Suc.prems(2) [rule_format, of "[]" pos] by simp
  have q': "keeps ps'" "slow_texts ps' = insert (p_text ps (g_item (?g ! pos))) (slow_texts q)"
    using slow_add_texts [of "g_item (?g ! pos)" q] item k(1) q(2) same by (auto simp: keeps_def)
  have "p_text ps (g_item (?g ! m)) \<in> slow_texts ps'" if at: "descend ?g pos v = Some m" for v m
  proof (cases v)
    case (Cons c cs)
    then obtain x xs where "letter_links ?g pos c = x # xs" "descend ?g x cs = Some m" using at by (auto split: list.splits)
    moreover from this have "x \<in> set ?links" by (metis letter_links_set list.set_intros(1))
    ultimately show ?thesis using k(3) q'(2) by blast
  qed (use at q' in simp)
  then show ?case using q' k(2) by (auto simp: keeps_def)
qed simp

text \<open>Removing a link of the root.\<close>

definition unlinked :: "nat \<Rightarrow> gnode list \<Rightarrow> gnode list" where
  "unlinked i g = g[0 := (g ! 0)\<lparr>g_links := remove_at i (g_links (g ! 0))\<rparr>]"

lemma remove_at_facts:
  "set (remove_at i xs) \<subseteq> set xs" "distinct (map f xs) \<Longrightarrow> distinct (map f (remove_at i xs))"
  "i < length xs \<Longrightarrow> length (remove_at i xs) = length xs - 1"
proof -
  show "set (remove_at i xs) \<subseteq> set xs" by (auto simp: remove_at_def dest: in_set_takeD in_set_dropD)
  show "i < length xs \<Longrightarrow> length (remove_at i xs) = length xs - 1" by (simp add: remove_at_def)
  assume d: "distinct (map f xs)"
  show "distinct (map f (remove_at i xs))"
  proof (cases "i < length xs")
    case True
    then have "distinct (map f (take i xs @ xs ! i # drop (Suc i) xs))" using d id_take_nth_drop [OF True] by metis
    then show ?thesis by (auto simp: remove_at_def)
  next
    case False
    then show ?thesis using d by (simp add: remove_at_def)
  qed
qed

lemma unlinked_tree_ok:
  assumes "tree_ok g"
  shows "tree_ok (unlinked i g)"
proof -
  let ?g = "unlinked i g"
  have g0: "0 < length g" by (rule tree_ok_pos [OF assms])
  have nth: "?g ! n = (if n = 0 then (g ! 0)\<lparr>g_links := remove_at i (g_links (g ! 0))\<rparr> else g ! n)" for n
    using g0 by (simp add: unlinked_def)
  have len: "length ?g = length g" by (simp add: unlinked_def)
  have sub: "set (g_links (?g ! n)) \<subseteq> set (g_links (g ! n))" for n
    using remove_at_facts(1) [of i "g_links (g ! 0)"] by (simp add: nth)
  have char: "g_char (?g ! n) = g_char (g ! n)" for n by (simp add: nth)
  have "distinct (map (\<lambda>m. g_char (?g ! m)) (g_links (?g ! n)))" if "n < length ?g" for n
  proof -
    have "distinct (map (\<lambda>m. g_char (g ! m)) (g_links (g ! n)))" 
      using that len assms unfolding tree_ok_def by metis
    then show ?thesis unfolding char using remove_at_facts(2) [of "\<lambda>m. g_char (g ! m)" "g_links (g ! 0)" i] by (cases "n = 0") (simp_all add: nth)
  qed
  moreover have "n < m \<and> m < length ?g" if "n < length ?g" "m \<in> set (g_links (?g ! n))" for n m
    using assms that sub len unfolding tree_ok_def by (metis subsetD)
  moreover have "n = n'" if "n < length ?g" "n' < length ?g" "m \<in> set (g_links (?g ! n))" "m \<in> set (g_links (?g ! n'))" for n n' m
  proof -
    have "m \<in> set (g_links (g ! n))" "m \<in> set (g_links (g ! n'))" using that sub by blast+
    then show ?thesis using assms that(1,2) len unfolding tree_ok_def by metis
  qed
  moreover have "\<not> g_last (g ! 0)" using assms unfolding tree_ok_def by blast
  then have "\<not> g_last (?g ! 0)" by (simp add: nth)
  ultimately show ?thesis using g0 len unfolding tree_ok_def by (metis length_greater_0_conv)
qed

lemma unlinked_descend:
  assumes ok: "tree_ok g" and i: "i < length (g_links (g ! 0))"
  shows "descend (unlinked i g) 0 t = Some m \<longleftrightarrow> descend g 0 t = Some m \<and> (t \<noteq> [] \<longrightarrow> hd t \<noteq> g_char (g ! (g_links (g ! 0) ! i)))"
proof -
  let ?g = "unlinked i g" and ?links = "g_links (g ! 0)"
  have g0: "0 < length g" by (rule tree_ok_pos [OF ok])
  have nth: "?g ! n = (if n = 0 then (g ! 0)\<lparr>g_links := remove_at i ?links\<rparr> else g ! n)" for n
    using g0 by (simp add: unlinked_def)
  have char: "g_char (?g ! n) = g_char (g ! n)" for n by (simp add: nth)
  have other: "letter_links ?g n c = letter_links g n c" if "n \<noteq> 0" for n c
    unfolding letter_links_def char using that by (simp add: nth)
  have deep: "descend ?g n t = descend g n t" if "0 < n" "n < length g" for n t
    using that
  proof (induction t arbitrary: n)
    case (Cons c t)
    show ?case
    proof (cases "letter_links g n c")
      case Nil
      then show ?thesis using other Cons.prems by simp
    next
      case (Cons k ks)
      then have "k \<in> set (g_links (g ! n))" by (metis letter_links_set list.set_intros(1))
      then have "n < k" "k < length g" using ok Cons.prems unfolding tree_ok_def by blast+
      then show ?thesis using Cons.IH [of k] Cons other Cons.prems by simp
    qed
  qed simp
  have split: "?links = take i ?links @ (?links ! i) # drop (Suc i) ?links" using i by (simp add: id_take_nth_drop [symmetric])
  have root: "letter_links ?g 0 c = (if c = g_char (g ! (?links ! i)) then [] else letter_links g 0 c)" for c
  proof -
    have r: "letter_links ?g 0 c = filter (\<lambda>m. g_char (g ! m) = c) (take i ?links @ drop (Suc i) ?links)"
      unfolding letter_links_def char by (simp add: nth remove_at_def)
    have "letter_links g 0 c = filter (\<lambda>m. g_char (g ! m) = c) (take i ?links @ (?links ! i) # drop (Suc i) ?links)"
      unfolding letter_links_def using split by metis
    moreover have "distinct (map (\<lambda>m. g_char (g ! m)) (take i ?links @ (?links ! i) # drop (Suc i) ?links))"
      using ok g0 split unfolding tree_ok_def by metis
    then have "filter (\<lambda>m. g_char (g ! m) = g_char (g ! (?links ! i))) (take i ?links @ drop (Suc i) ?links) = []"
      by (force simp: filter_empty_conv image_iff)
    ultimately show ?thesis using r by auto
  qed
  show ?thesis
  proof (cases t)
    case (Cons c cs)
    have "descend ?g m' cs = descend g m' cs" if "letter_links g 0 c = m' # ms" for m' ms
    proof -
      have "m' \<in> set ?links" using that by (metis letter_links_set list.set_intros(1))
      then have "0 < m'" "m' < length g" using ok g0 unfolding tree_ok_def by blast+
      then show ?thesis by (rule deep)
    qed
    then show ?thesis using Cons root [of c] by (auto split: list.splits)
  qed simp
qed

lemma unlinked_nodes_ok:
  assumes "tree_ok g" "nodes_ok T N g" "i < length (g_links (g ! 0))"
  shows "nodes_ok T N (unlinked i g) \<and>
     tree_phrases (unlinked i g) = {t \<in> tree_phrases g. hd t \<noteq> g_char (g ! (g_links (g ! 0) ! i))}"
proof -
  let ?g = "unlinked i g" and ?c = "g_char (g ! (g_links (g ! 0) ! i))"
  have same: "g_item (?g ! m) = g_item (g ! m)" "g_last (?g ! m) = g_last (g ! m)" for m
    using tree_ok_pos [OF assms(1)] by (cases m; simp add: unlinked_def)+
  have nl: "\<not> g_last (g ! 0)" using assms(1) unfolding tree_ok_def by blast
  note d = unlinked_descend [OF assms(1,3)]
  have ph: "t \<in> tree_phrases ?g \<longleftrightarrow> t \<in> tree_phrases g \<and> hd t \<noteq> ?c" for t
    unfolding tree_phrases_def using nl by (auto simp: d same)
  have "g_item (?g ! m) < N \<and> prefix s (T (g_item (?g ! m))) \<and> T (g_item (?g ! m)) \<in> tree_phrases ?g
     \<and> (g_last (?g ! m) \<longrightarrow> T (g_item (?g ! m)) = s)" if s: "s \<noteq> []" "descend ?g 0 s = Some m" for s m
  proof -
    have "descend g 0 s = Some m" "hd s \<noteq> ?c" using s by (simp_all add: d)
    moreover from this have n: "g_item (g ! m) < N" "prefix s (T (g_item (g ! m)))" "T (g_item (g ! m)) \<in> tree_phrases g"
      "g_last (g ! m) \<longrightarrow> T (g_item (g ! m)) = s" using assms(2) s(1) unfolding nodes_ok_def by blast+
    moreover have "hd (T (g_item (g ! m))) = hd s" using n(2) s(1) by (auto simp: prefix_def)
    ultimately show ?thesis using same ph by simp
  qed
  then show ?thesis using ph unfolding nodes_ok_def by blast
qed

lemma prune_root_ready:
  assumes "graph_ready ps" "i < length (g_links (p_graph ps ! 0))" "prune_root i ps = Some ps'"
  shows "graph_ready ps' \<and> i \<le> length (g_links (p_graph ps' ! 0)) \<and> p_items ps' = p_items ps \<and> force_quick_search ps' = force_quick_search ps"
proof -
  let ?g = "p_graph ps"
  define c where "c = g_links (?g ! 0) ! i"
  note R = assms(1) [unfolded graph_ready_def]
  have ok: "tree_ok ?g" using R by blast
  obtain b where b: "graphFindBranches (length ?g) ?g c = Some b" using assms(3) by (auto simp: prune_root_def c_def Let_def split: option.splits)
  show ?thesis
  proof (cases "b < 12")
    case False
    then have "ps' = ps" using assms(3) b by (simp add: prune_root_def c_def Let_def)
    then show ?thesis using assms by simp
  next
    case True
    obtain ps1 where ps1: "graphCopyNodePhrases (length ?g) c ps = Some ps1"
      "ps' = ps1\<lparr>p_graph := (p_graph ps1)[0 := (p_graph ps1 ! 0)\<lparr>g_links := remove_at i (g_links (p_graph ps1 ! 0))\<rparr>]\<rparr>"
      using assms(3) b True by (auto simp: prune_root_def c_def Let_def)
    have c: "c \<in> set (g_links (?g ! 0))" using assms(2) c_def by simp
    then have cl: "0 < c" "c < length ?g" using ok tree_ok_pos [OF ok] unfolding tree_ok_def by blast+
    have hd: "descend ?g 0 (g_char (?g ! c) # v) = descend ?g c v" for v
    proof -
      have "c \<in> set (letter_links ?g 0 (g_char (?g ! c)))" using c by (simp add: letter_links_set)
      then obtain x xs where x: "letter_links ?g 0 (g_char (?g ! c)) = x # xs" by (cases "letter_links ?g 0 (g_char (?g ! c))") auto
      then have "x \<in> set (g_links (?g ! 0))" "g_char (?g ! x) = g_char (?g ! c)" by (metis letter_links_set list.set_intros(1))+
      moreover have "inj_on (\<lambda>m. g_char (?g ! m)) (set (g_links (?g ! 0)))"
        using ok tree_ok_pos [OF ok] unfolding tree_ok_def by (simp add: distinct_map)
      ultimately have "x = c" using c by (meson inj_onD)
      then show ?thesis using x by simp
    qed
    have nodes: "nodes_ok (p_text ps) (p_size ps) ?g" using R by blast
    have items: "\<forall>v m. descend ?g c v = Some m \<longrightarrow> g_item (?g ! m) < p_size ps"
      using nodes unfolding nodes_ok_def by (metis hd list.distinct(1))
    have sl: "\<forall>j \<in> set (slowgraph ps). j < p_size ps" using R by blast
    from graphCopy_texts [OF ps1(1) items sl ok cl(2)] have copy: "p_items ps1 = p_items ps" "p_graph ps1 = ?g"
      "force_quick_search ps1 = force_quick_search ps" "\<forall>j \<in> set (slowgraph ps1). j < p_size ps" "slow_texts ps \<subseteq> slow_texts ps1"
      "\<forall>v m. descend ?g c v = Some m \<longrightarrow> p_text ps (g_item (?g ! m)) \<in> slow_texts ps1" by blast+
    have g': "p_graph ps' = unlinked i ?g" "slowgraph ps' = slowgraph ps1" "p_items ps' = p_items ps" "force_quick_search ps' = force_quick_search ps"
      using ps1(2) copy by (simp_all add: unlinked_def)
    have un: "nodes_ok (p_text ps) (p_size ps) (unlinked i ?g)"
      "tree_phrases (unlinked i ?g) = {t \<in> tree_phrases ?g. hd t \<noteq> g_char (?g ! c)}"
      using unlinked_nodes_ok [OF ok nodes assms(2)] by (simp_all add: c_def)
    have covered: "t \<in> slow_texts ps1" if t: "t \<in> tree_phrases ?g" "hd t = g_char (?g ! c)" for t
    proof -
      obtain m where m: "descend ?g 0 t = Some m" "g_last (?g ! m)" using t(1) by (auto simp: tree_phrases_def)
      have nl: "\<not> g_last (?g ! 0)" using ok unfolding tree_ok_def by blast
      have "t \<noteq> []"
      proof
        assume "t = []"
        then have "m = 0" using m(1) by simp
        then show False using m(2) nl by simp
      qed
      then obtain v where v: "t = g_char (?g ! c) # v" using t(2) by (cases t) auto
      have "p_text ps (g_item (?g ! m)) = t" using nodes m \<open>t \<noteq> []\<close> unfolding nodes_ok_def by blast
      moreover have "p_text ps (g_item (?g ! m)) \<in> slow_texts ps1" using copy(6) m(1) hd v by auto
      ultimately show ?thesis by simp
    qed
    have st: "slow_texts ps' = slow_texts ps1" using g' copy(1) by (simp add: slow_texts_def)
    have "graph_ready ps'" unfolding graph_ready_def
    proof (intro conjI)
      show "tree_ok (p_graph ps')" using unlinked_tree_ok [OF ok] g'(1) by simp
      show "nodes_ok (p_text ps') (p_size ps') (p_graph ps')" using un(1) g' by (simp add: p_size_def)
      show "\<forall>i \<in> set (slowgraph ps'). i < p_size ps'" using copy(4) g' by (simp add: p_size_def)
      show "tree_phrases (p_graph ps') \<subseteq> p_text ps' ` {..<p_size ps'}" using R un(2) g' by (auto simp: p_size_def)
      show "\<forall>i < p_size ps'. p_text ps' i \<in> tree_phrases (p_graph ps') \<union> slow_texts ps'"
      proof (intro allI impI)
        fix j assume "j < p_size ps'"
        then have "p_text ps j \<in> tree_phrases ?g \<union> slow_texts ps" using R g'(3) by (simp add: p_size_def)
        then show "p_text ps' j \<in> tree_phrases (p_graph ps') \<union> slow_texts ps'"
          using covered [of "p_text ps j"] copy(5) st g' un(2) by auto
      qed
    qed
    moreover have "i \<le> length (g_links (p_graph ps' ! 0))"
      using g'(1) assms(2) remove_at_facts(3) [OF assms(2)] tree_ok_pos [OF ok] by (simp add: unlinked_def)
    ultimately show ?thesis using g' by simp
  qed
qed

lemma prune_all_ready:
  assumes "graph_ready ps" "k \<le> length (g_links (p_graph ps ! 0))" "obind_fold prune_root (rev [0..<k]) ps = Some ps'"
  shows "graph_ready ps' \<and> p_items ps' = p_items ps \<and> force_quick_search ps' = force_quick_search ps"
  using assms
proof (induction k arbitrary: ps)
  case (Suc k)
  then obtain ps1 where "prune_root k ps = Some ps1" "obind_fold prune_root (rev [0..<k]) ps1 = Some ps'"
    by (auto simp: bind_eq_Some_conv)
  then show ?case using Suc.IH [of ps1] prune_root_ready [of ps k ps1] Suc.prems by auto
qed simp

text \<open>The tree that is built holds every phrase, or leaves it to the search one by one.\<close>

lemma makeGraph_tree_ready:
  assumes "makeGraph_tree ps = Some ps'" "data_length (p_items ps) \<noteq> 0" "slowgraph ps = []" "\<forall>i < p_size ps. p_text ps i \<noteq> []"
  shows "graph_ready ps' \<and> p_items ps' = p_items ps \<and> \<not> force_quick_search ps'"
proof -
  let ?n = "items (p_items ps)"
  define ps1 where "ps1 = ps\<lparr>force_quick_search := False\<rparr>"
  have p1: "p_items ps1 = p_items ps" "slowgraph ps1 = []" "\<not> force_quick_search ps1" using assms(3) by (simp_all add: ps1_def)
  obtain xs ps2 where xs: "graphSizeSort ?n (item_size ps1) 0 ?n [0..<?n] = Some xs"
    and ps2: "obind_fold graph_item xs (ps1\<lparr>p_graph := [gnode_new]\<rparr>) = Some ps2"
    and fin: "obind_fold prune_root (rev [0..<length (g_links (p_graph ps2 ! 0))]) ps2 = Some ps'"
    using assms(1,2) by (auto simp: makeGraph_tree_def ps1_def [symmetric] p1 Let_def bind_eq_Some_conv)
  obtain ys where ys: "graphSizeSort ?n (item_size ps1) 0 ?n [0..<?n] = Some ys" "perm_in 0 ?n [0..<?n] ys"
    "\<forall>x y. 0 \<le> x \<and> x \<le> y \<and> y < ?n \<longrightarrow> item_size ps1 (ys ! x) \<le> item_size ps1 (ys ! y)"
    using graphSizeSort_range [of ?n "[0..<?n]" 0 ?n "item_size ps1"] by auto
  have "xs = ys" using xs ys(1) by simp
  then have perm: "mset xs = mset [0..<?n]" "length xs = ?n" using perm_in_mset [OF ys(2)] by simp_all
  have set: "set xs = {..<?n}" using perm(1) by (metis set_mset_mset atLeast_upt)
  have sorted: "sorted (map (\<lambda>i. length (p_text ps i)) xs)"
    using ys(3) \<open>xs = ys\<close> perm(2) p1(1) by (auto simp: sorted_iff_nth_mono item_size_def)
  let ?q = "ps1\<lparr>p_graph := [gnode_new]\<rparr>"
  have q: "p_items ?q = p_items ps" "p_size ?q = p_size ps" "p_graph ?q = [gnode_new]" using p1 by (simp_all add: p_size_def)
  have "tree_ok (p_graph ps2) \<and> nodes_ok (p_text ?q) (p_size ?q) (p_graph ps2)
     \<and> tree_phrases (p_graph ps2) = tree_phrases (p_graph ?q) \<union> p_text ?q ` set xs
     \<and> p_items ps2 = p_items ?q \<and> slowgraph ps2 = slowgraph ?q \<and> force_quick_search ps2 = force_quick_search ?q"
    by (rule add_all_phrases [OF _ _ _ _ _ ps2]) (use empty_tree set sorted assms(4) p1 in \<open>auto simp: p_size_def\<close>)
  then have "graph_ready ps2" "p_items ps2 = p_items ps" "\<not> force_quick_search ps2"
    using empty_tree(2) set p1 q by (auto simp: graph_ready_def p_size_def slow_texts_def)
  then show ?thesis using prune_all_ready [OF _ order_refl fin] by auto
qed

section \<open>Lemmas: search\<close>

text \<open>The nodes at which phrases end, on the way down from a node along a text.\<close>

fun hits :: "gnode list \<Rightarrow> nat \<Rightarrow> string \<Rightarrow> nat list" where
  "hits g n [] = []"
| "hits g n (c # r) = (case letter_links g n c of [] \<Rightarrow> [] | m # ms \<Rightarrow> (if g_last (g ! m) then [m] else []) @ hits g m r)"

lemma hits_set: "m \<in> set (hits g n r) \<longleftrightarrow> g_last (g ! m) \<and> (\<exists>t. t \<noteq> [] \<and> prefix t r \<and> descend g n t = Some m)"
proof (induction r arbitrary: n)
  case (Cons c r)
  have "(\<exists>t. t \<noteq> [] \<and> prefix t (c # r) \<and> descend g n t = Some m) \<longleftrightarrow> (\<exists>t. prefix t r \<and> descend g n (c # t) = Some m)" for n m
    by (metis list.distinct(1) prefix_Cons)
  moreover have "(\<exists>t. prefix t r \<and> descend g k t = Some m) \<longleftrightarrow> m = k \<or> (\<exists>t. t \<noteq> [] \<and> prefix t r \<and> descend g k t = Some m)" for k
    by (metis Nil_prefix descend.simps(1) option.inject)
  ultimately have "(\<exists>t. t \<noteq> [] \<and> prefix t (c # r) \<and> descend g n t = Some m) \<longleftrightarrow>
      (\<exists>k ks. letter_links g n c = k # ks \<and> (m = k \<or> (\<exists>t. t \<noteq> [] \<and> prefix t r \<and> descend g k t = Some m)))"
    by (cases "letter_links g n c") simp_all
  then show ?case using Cons.IH by (cases "letter_links g n c") auto
qed simp

lemma hits_distinct:
  assumes "tree_ok g"
  shows "n < length g \<Longrightarrow> distinct (hits g n r)"
proof (induction r arbitrary: n)
  case (Cons c r)
  show ?case
  proof (cases "letter_links g n c")
    case (Cons m ms)
    then have "m \<in> set (g_links (g ! n))" by (metis letter_links_set list.set_intros(1))
    then have m: "m < length g" using assms Cons.prems unfolding tree_ok_def by blast
    have "m \<notin> set (hits g m r)"
    proof
      assume "m \<in> set (hits g m r)"
      then obtain t where "t \<noteq> []" "descend g m t = Some m" by (auto simp: hits_set)
      from descend_range [OF assms this(2) m] this(1) show False by simp
    qed
    then show ?thesis using Cons Cons.IH [OF m] by simp
  qed simp
qed simp

lemma letter_links_child:
  assumes "tree_ok g" "n < length g" "m \<in> set (g_links (g ! n))"
  shows "\<exists>ms. letter_links g n (g_char (g ! m)) = m # ms"
proof -
  have "m \<in> set (letter_links g n (g_char (g ! m)))" using assms(3) by (simp add: letter_links_set)
  then obtain x xs where x: "letter_links g n (g_char (g ! m)) = x # xs" by (cases "letter_links g n (g_char (g ! m))") auto
  then have "x \<in> set (g_links (g ! n))" "g_char (g ! x) = g_char (g ! m)" by (metis letter_links_set list.set_intros(1))+
  moreover have "inj_on (\<lambda>m. g_char (g ! m)) (set (g_links (g ! n)))"
    using assms(1,2) unfolding tree_ok_def by (metis distinct_map)
  ultimately have "x = m" using assms(3) by (meson inj_onD)
  then show ?thesis using x by simp
qed

definition add_hits :: "phrase_store \<Rightarrow> nat list \<Rightarrow> (string \<rightharpoonup> nat \<times> nat) \<Rightarrow> (string \<rightharpoonup> nat \<times> nat)" where
  "add_hits ps = fold (\<lambda>m. bump (p_text ps (g_item (p_graph ps ! m))) (g_item (p_graph ps ! m)) 1)"

lemma add_hits_append [simp]: "add_hits ps (xs @ ys) res = add_hits ps ys (add_hits ps xs res)"
  by (simp add: add_hits_def)

lemma add_hits_Nil [simp]: "add_hits ps [] res = res"
  by (simp add: add_hits_def)

text \<open>The descent follows the one link with the letter of the buffer.\<close>

definition buffer_fits :: "gnode list \<Rightarrow> string \<Rightarrow> nat \<Rightarrow> bool" where
  "buffer_fits g buf i \<longleftrightarrow> (\<forall>t m. t \<noteq> [] \<and> descend g 0 t = Some m \<longrightarrow> i + length t \<le> length buf)"

lemma tree_walk_match:
  assumes "i + depth < length buf" "g_char (p_graph ps ! pos) = buf ! (i + depth)"
  shows "tree_walk ps buf i pos sl cur depth res =
    (let nd = p_graph ps ! pos; res1 = add_hits ps (if g_last nd then [pos] else []) res in
     if g_links nd \<noteq> [] then tree_walk ps buf i (g_links nd ! 0) (int (length (g_links nd))) pos (Suc depth) res1 else Some res1)"
  using assms by (subst tree_walk.simps) (simp add: Let_def add_hits_def)

lemma no_hits: "g_links (g ! n) = [] \<Longrightarrow> hits g n r = []"
  by (cases r) (simp_all add: letter_links_def)

lemma tree_walk_skip:
  assumes "i + depth < length buf" "k + d < length (g_links (p_graph ps ! cur))"
    and "\<forall>k' < d. g_char (p_graph ps ! (g_links (p_graph ps ! cur) ! (k + k'))) \<noteq> buf ! (i + depth)"
  shows "tree_walk ps buf i (g_links (p_graph ps ! cur) ! k) (int (length (g_links (p_graph ps ! cur))) - int k) cur depth res =
    tree_walk ps buf i (g_links (p_graph ps ! cur) ! (k + d)) (int (length (g_links (p_graph ps ! cur))) - int (k + d)) cur depth res"
  using assms(2,3)
proof (induction d arbitrary: k)
  case (Suc d)
  let ?l = "g_links (p_graph ps ! cur)"
  have ne: "g_char (p_graph ps ! (?l ! k)) \<noteq> buf ! (i + depth)" using Suc.prems(2) by (metis add_0_right zero_less_Suc)
  have e: "length ?l - nat (int (length ?l) - int k - 1) = Suc k" "int (length ?l) - int k - 1 = int (length ?l) - int (Suc k)"
    using Suc.prems(1) by auto
  have "tree_walk ps buf i (?l ! k) (int (length ?l) - int k) cur depth res =
     tree_walk ps buf i (?l ! Suc k) (int (length ?l) - int (Suc k)) cur depth res"
    using assms(1) ne Suc.prems(1) unfolding e(2) [symmetric]
    by (subst tree_walk.simps) (simp add: Let_def e(1) del: of_nat_Suc)
  also have "\<dots> = tree_walk ps buf i (?l ! (Suc k + d)) (int (length ?l) - int (Suc k + d)) cur depth res"
    using Suc.prems by (intro Suc.IH) (simp, metis Suc_mono add_Suc add_Suc_right)
  finally show ?case by simp
qed simp

lemma tree_walk_none:
  assumes "i + depth < length buf" "g_links (p_graph ps ! cur) \<noteq> []"
    and "\<forall>m \<in> set (g_links (p_graph ps ! cur)). g_char (p_graph ps ! m) \<noteq> buf ! (i + depth)"
  shows "tree_walk ps buf i (g_links (p_graph ps ! cur) ! 0) (int (length (g_links (p_graph ps ! cur)))) cur depth res = Some res"
proof -
  let ?l = "g_links (p_graph ps ! cur)" and ?d = "length (g_links (p_graph ps ! cur)) - 1"
  have len: "0 < length ?l" using assms(2) by simp
  have "tree_walk ps buf i (?l ! 0) (int (length ?l) - int 0) cur depth res =
      tree_walk ps buf i (?l ! (0 + ?d)) (int (length ?l) - int (0 + ?d)) cur depth res"
    by (rule tree_walk_skip) (use assms len in auto)
  also have "\<dots> = Some res" using assms len by (subst tree_walk.simps) (auto simp: Let_def)
  finally show ?thesis by simp
qed

lemma tree_walk_hits:
  assumes ok: "tree_ok (p_graph ps)" and fits: "buffer_fits (p_graph ps) buf i"
  shows "descend (p_graph ps) 0 s = Some cur \<Longrightarrow> g_links (p_graph ps ! cur) \<noteq> [] \<Longrightarrow>
    tree_walk ps buf i (g_links (p_graph ps ! cur) ! 0) (int (length (g_links (p_graph ps ! cur)))) cur (length s) res =
      Some (add_hits ps (hits (p_graph ps) cur (drop (i + length s) buf)) res)"
proof (induction "length buf - (i + length s)" arbitrary: s cur res rule: less_induct)
  case less
  let ?g = "p_graph ps" and ?l = "g_links (p_graph ps ! cur)" and ?b = "buf ! (i + length s)"
  have cur: "cur < length ?g" using descend_range [OF ok less.prems(1) tree_ok_pos [OF ok]] by simp
  have child: "descend ?g 0 (s @ [g_char (?g ! m)]) = Some m" if "m \<in> set ?l" for m
    using letter_links_child [OF ok cur that] less.prems(1) by (auto simp: descend_append)
  have i: "i + length s < length buf"
  proof -
    have "i + length (s @ [g_char (?g ! (?l ! 0))]) \<le> length buf"
      using fits child [of "?l ! 0"] less.prems(2) unfolding buffer_fits_def by (metis length_greater_0_conv nth_mem snoc_eq_iff_butlast)
    then show ?thesis by simp
  qed
  have buf: "drop (i + length s) buf = ?b # drop (Suc (i + length s)) buf" using i by (simp add: Cons_nth_drop_Suc)
  show ?case
  proof (cases "\<exists>m \<in> set ?l. g_char (?g ! m) = ?b")
    case False
    then have "letter_links ?g cur ?b = []" by (auto simp: letter_links_def filter_empty_conv)
    then show ?thesis using tree_walk_none [OF i less.prems(2)] False buf by simp
  next
    case True
    then have "\<exists>d. d < length ?l \<and> g_char (?g ! (?l ! d)) = ?b" by (auto simp: in_set_conv_nth)
    then obtain d where d: "d < length ?l" "g_char (?g ! (?l ! d)) = ?b" "\<forall>k < d. g_char (?g ! (?l ! k)) \<noteq> ?b"
      using exists_least_iff [of "\<lambda>d. d < length ?l \<and> g_char (?g ! (?l ! d)) = ?b"] by auto
    let ?m = "?l ! d"
    have m: "?m \<in> set ?l" using d(1) by simp
    obtain ms where ms: "letter_links ?g cur ?b = ?m # ms" using letter_links_child [OF ok cur m] d(2) by auto
    have "tree_walk ps buf i (?l ! 0) (int (length ?l) - int 0) cur (length s) res =
        tree_walk ps buf i (?l ! (0 + d)) (int (length ?l) - int (0 + d)) cur (length s) res"
      by (rule tree_walk_skip) (use i d in auto)
    also have "\<dots> = (let res1 = add_hits ps (if g_last (?g ! ?m) then [?m] else []) res in
       if g_links (?g ! ?m) \<noteq> [] then tree_walk ps buf i (g_links (?g ! ?m) ! 0) (int (length (g_links (?g ! ?m)))) ?m (Suc (length s)) res1 else Some res1)"
      using tree_walk_match [OF i, of ps ?m] d(2) by (simp add: Let_def)
    also have "\<dots> = Some (add_hits ps (hits ?g ?m (drop (Suc (i + length s)) buf)) (add_hits ps (if g_last (?g ! ?m) then [?m] else []) res))"
    proof (cases "g_links (?g ! ?m) = []")
      case True
      then show ?thesis by (simp add: no_hits)
    next
      case False
      then show ?thesis using less.hyps [OF _ child [OF m]] i by simp
    qed
    also have "\<dots> = Some (add_hits ps (hits ?g cur (drop (i + length s) buf)) res)" using buf ms by simp
    finally show ?thesis by simp
  qed
qed

lemma obind_fold_append: "obind_fold f (xs @ ys) s = Option.bind (obind_fold f xs s) (obind_fold f ys)"
proof (induction xs arbitrary: s)
  case (Cons x xs)
  then show ?case by (cases "f x s") simp_all
qed simp

lemma obind_fold_id: "\<forall>x \<in> set xs. f x s = Some s \<Longrightarrow> obind_fold f xs s = Some s"
  by (induction xs) simp_all

lemma root_walk:
  assumes ok: "tree_ok (p_graph ps)" and fits: "buffer_fits (p_graph ps) buf i" and pos: "pos \<in> set (g_links (p_graph ps ! 0))" and i: "i < length buf"
  shows "tree_walk ps buf i pos 0 0 0 res =
    Some (if g_char (p_graph ps ! pos) = buf ! i then add_hits ps (hits (p_graph ps) 0 (drop i buf)) res else res)"
proof (cases "g_char (p_graph ps ! pos) = buf ! i")
  case False
  then show ?thesis using i by (subst tree_walk.simps) (simp add: Let_def)
next
  case True
  let ?g = "p_graph ps"
  obtain ms where ms: "letter_links ?g 0 (buf ! i) = pos # ms" using letter_links_child [OF ok tree_ok_pos [OF ok] pos] True by auto
  have d: "descend ?g 0 [buf ! i] = Some pos" using ms by simp
  have h: "hits ?g 0 (drop i buf) = (if g_last (?g ! pos) then [pos] else []) @ hits ?g pos (drop (Suc i) buf)"
    using ms i by (simp add: Cons_nth_drop_Suc [symmetric])
  show ?thesis
  proof (cases "g_links (?g ! pos) = []")
    case True
    then show ?thesis using tree_walk_match [of i 0 buf ps pos] \<open>g_char (?g ! pos) = buf ! i\<close> i h by (simp add: Let_def no_hits)
  next
    case False
    then show ?thesis using tree_walk_match [of i 0 buf ps pos] tree_walk_hits [OF ok fits d False] \<open>g_char (?g ! pos) = buf ! i\<close> i h
      by (simp add: Let_def)
  qed
qed

lemma root_search:
  assumes ok: "tree_ok (p_graph ps)" and fits: "buffer_fits (p_graph ps) buf i" and i: "i < length buf"
  shows "obind_fold (\<lambda>pos. tree_walk ps buf i pos 0 0 0) (g_links (p_graph ps ! 0)) res = Some (add_hits ps (hits (p_graph ps) 0 (drop i buf)) res)"
proof -
  let ?g = "p_graph ps" and ?l = "g_links (p_graph ps ! 0)" and ?f = "\<lambda>pos. tree_walk ps buf i pos 0 0 0"
  have dist: "distinct (map (\<lambda>m. g_char (?g ! m)) ?l)" using ok tree_ok_pos [OF ok] unfolding tree_ok_def by metis
  show ?thesis
  proof (cases "\<exists>m \<in> set ?l. g_char (?g ! m) = buf ! i")
    case False
    then have "letter_links ?g 0 (buf ! i) = []" by (auto simp: letter_links_def filter_empty_conv)
    then have "hits ?g 0 (drop i buf) = []" using i by (simp add: Cons_nth_drop_Suc [symmetric])
    then show ?thesis using obind_fold_id [of ?l ?f res] root_walk [OF ok fits _ i] False by auto
  next
    case True
    then obtain m where m: "m \<in> set ?l" "g_char (?g ! m) = buf ! i" by blast
    then obtain xs ys where l: "?l = xs @ m # ys" by (meson split_list)
    have other: "?f x r = Some r" if "x \<in> set xs \<union> set ys" for x r
    proof -
      have "g_char (?g ! x) \<noteq> buf ! i" using dist that m(2) unfolding l by (auto simp: image_iff)
      then show ?thesis using root_walk [OF ok fits _ i, of x r] that l by simp
    qed
    have "obind_fold ?f xs res = Some res" "obind_fold ?f ys r = Some r" for r
      using obind_fold_id [of xs ?f] obind_fold_id [of ys ?f] other by simp_all
    then show ?thesis unfolding l using root_walk [OF ok fits m(1) i] m(2) by (simp add: obind_fold_append)
  qed
qed

lemma tree_search_hits:
  assumes ok: "tree_ok (p_graph ps)" and fits: "\<forall>i < len. buffer_fits (p_graph ps) buf i" and len: "len \<le> length buf"
  shows "tree_search ps buf len res = Some (add_hits ps (concat (map (\<lambda>i. hits (p_graph ps) 0 (drop i buf)) [0..<len])) res)"
  unfolding tree_search_def using fits len
proof (induction len)
  case (Suc len)
  then show ?case using root_search [OF ok, of buf len] by (simp add: obind_fold_append)
qed simp

text \<open>What the hits add to the result.\<close>

lemma add_hits_value:
  "add_hits ps ms res t =
     (let ns = filter (\<lambda>m. p_text ps (g_item (p_graph ps ! m)) = t) ms in
      if ns = [] then res t
      else Some (case res t of None \<Rightarrow> (g_item (p_graph ps ! hd ns), length ns) | Some (e, n) \<Rightarrow> (e, n + length ns)))"
proof (induction ms arbitrary: res)
  case (Cons m ms)
  let ?x = "p_text ps (g_item (p_graph ps ! m))"
  let ?r = "bump ?x (g_item (p_graph ps ! m)) 1 res"
  have r: "?r t = (if ?x = t then Some (case res t of None \<Rightarrow> (g_item (p_graph ps ! m), 1) | Some (e, n) \<Rightarrow> (e, n + 1)) else res t)"
    unfolding bump_value by auto
  have "add_hits ps (m # ms) res t = add_hits ps ms ?r t" by (simp add: add_hits_def)
  then show ?case unfolding Cons [of ?r] r by (cases "res t") (auto simp: Let_def)
qed simp

lemma hits_of_phrase:
  assumes ok: "tree_ok (p_graph ps)" and nodes: "nodes_ok (p_text ps) (p_size ps) (p_graph ps)"
  shows "length (filter (\<lambda>m. p_text ps (g_item (p_graph ps ! m)) = t) (hits (p_graph ps) 0 r)) = (if t \<in> tree_phrases (p_graph ps) \<and> prefix t r then 1 else 0)"
    and "m \<in> set (hits (p_graph ps) 0 r) \<Longrightarrow> g_item (p_graph ps ! m) < p_size ps"
proof -
  let ?g = "p_graph ps" and ?f = "filter (\<lambda>m. p_text ps (g_item (p_graph ps ! m)) = t) (hits (p_graph ps) 0 r)"
  have nl: "\<not> g_last (?g ! 0)" using ok unfolding tree_ok_def by blast
  have ne: "t \<noteq> []" if "t \<in> tree_phrases ?g" using that nl by (auto simp: tree_phrases_def)
  have d: "distinct ?f" using hits_distinct [OF ok tree_ok_pos [OF ok]] by simp
  have mem: "m \<in> set ?f \<longleftrightarrow> g_last (?g ! m) \<and> t \<noteq> [] \<and> prefix t r \<and> descend ?g 0 t = Some m" for m
    using nodes unfolding nodes_ok_def by (auto simp: hits_set)
  have len: "length ?f = card (set ?f)" using d by (metis distinct_card)
  show "length ?f = (if t \<in> tree_phrases ?g \<and> prefix t r then 1 else 0)"
  proof (cases "t \<in> tree_phrases ?g \<and> prefix t r")
    case True
    then obtain m where "descend ?g 0 t = Some m" "g_last (?g ! m)" by (auto simp: tree_phrases_def)
    then have "set ?f = {m}" using mem ne True by auto
    then show ?thesis using True len by simp
  next
    case False
    then have "set ?f = {}" using mem by (auto simp: tree_phrases_def)
    then show ?thesis using False len by simp
  qed
  show "g_item (?g ! m) < p_size ps" if "m \<in> set (hits ?g 0 r)"
    using that nodes unfolding nodes_ok_def by (auto simp: hits_set)
qed

text \<open>The places at which a text begins, the buffer behind the document included.\<close>

definition begins :: "string \<Rightarrow> string \<Rightarrow> nat \<Rightarrow> nat set" where
  "begins t buf len = {i. i < len \<and> prefix t (drop i buf)}"

lemma begins_Suc: "begins t buf (Suc n) = (if prefix t (drop n buf) then insert n (begins t buf n) else begins t buf n)"
  by (auto simp: begins_def less_Suc_eq)

lemma begins_finite [simp]: "finite (begins t buf n)" "n \<notin> begins t buf n"
  by (auto simp: begins_def)

lemma search_count:
  assumes "tree_ok (p_graph ps)" "nodes_ok (p_text ps) (p_size ps) (p_graph ps)"
  shows "length (filter (\<lambda>m. p_text ps (g_item (p_graph ps ! m)) = t) (concat (map (\<lambda>i. hits (p_graph ps) 0 (drop i buf)) [0..<len]))) =
    (if t \<in> tree_phrases (p_graph ps) then card (begins t buf len) else 0)"
proof (induction len)
  case (Suc len)
  then show ?case using hits_of_phrase(1) [OF assms, of t "drop len buf"] by (simp add: begins_Suc)
qed (simp add: begins_def)

text \<open>The search of the tree ends and adds to the result of each phrase the number of places at which it
  begins.\<close>

lemma tree_search_value:
  assumes ok: "tree_ok (p_graph ps)" and nodes: "nodes_ok (p_text ps) (p_size ps) (p_graph ps)"
    and fits: "\<forall>j < p_size ps. length (p_text ps j) \<le> Suc (length extra)"
  shows "\<exists>out. tree_search ps (doc @ extra) (length doc) res = Some out \<and>
    (\<forall>t. let k = (if t \<in> tree_phrases (p_graph ps) then card (begins t (doc @ extra) (length doc)) else 0) in
      (k = 0 \<longrightarrow> out t = res t) \<and>
      (0 < k \<longrightarrow> (case res t of None \<Rightarrow> \<exists>e. out t = Some (e, k) \<and> e < p_size ps \<and> p_text ps e = t | Some (e, n) \<Rightarrow> out t = Some (e, n + k))))"
proof -
  let ?g = "p_graph ps" and ?buf = "doc @ extra"
  let ?ms = "concat (map (\<lambda>i. hits (p_graph ps) 0 (drop i ?buf)) [0..<length doc])"
  have "buffer_fits ?g ?buf i" if i: "i < length doc" for i
  proof -
    have "length t \<le> Suc (length extra)" if "t \<noteq> []" "descend ?g 0 t = Some m" for t m
    proof -
      have "g_item (?g ! m) < p_size ps" "prefix t (p_text ps (g_item (?g ! m)))" using nodes that unfolding nodes_ok_def by blast+
      then show ?thesis using fits prefix_length_le order.trans by blast
    qed
    then show ?thesis using i unfolding buffer_fits_def by fastforce
  qed
  then have out: "tree_search ps ?buf (length doc) res = Some (add_hits ps ?ms res)" by (intro tree_search_hits [OF ok]) simp_all
  moreover have "let k = (if t \<in> tree_phrases ?g then card (begins t ?buf (length doc)) else 0) in
      (k = 0 \<longrightarrow> add_hits ps ?ms res t = res t) \<and>
      (0 < k \<longrightarrow> (case res t of None \<Rightarrow> \<exists>e. add_hits ps ?ms res t = Some (e, k) \<and> e < p_size ps \<and> p_text ps e = t
         | Some (e, n) \<Rightarrow> add_hits ps ?ms res t = Some (e, n + k)))" for t
  proof -
    define ns where "ns = filter (\<lambda>m. p_text ps (g_item (p_graph ps ! m)) = t) ?ms"
    have k: "length ns = (if t \<in> tree_phrases ?g then card (begins t ?buf (length doc)) else 0)"
      unfolding ns_def by (rule search_count [OF ok nodes])
    have v: "add_hits ps ?ms res t = (if ns = [] then res t
       else Some (case res t of None \<Rightarrow> (g_item (p_graph ps ! hd ns), length ns) | Some (e, n) \<Rightarrow> (e, n + length ns)))"
      unfolding ns_def using add_hits_value [of ps ?ms res t] by (simp only: Let_def)
    have h: "g_item (?g ! hd ns) < p_size ps \<and> p_text ps (g_item (?g ! hd ns)) = t" if "ns \<noteq> []"
    proof -
      have "hd ns \<in> set ns" using that by simp
      then have "hd ns \<in> set ?ms" "p_text ps (g_item (?g ! hd ns)) = t" by (auto simp: ns_def)
      then show ?thesis using hits_of_phrase(2) [OF ok nodes] by auto
    qed
    show ?thesis unfolding k [symmetric] Let_def using v h by (auto split: option.splits)
  qed
  ultimately show ?thesis by blast
qed

lemma bmsearch_counts:
  assumes "s \<noteq> []" "length s \<le> 126"
  shows "\<exists>n. bmsearch doc s = Some n \<and> card (occurrences s doc) \<le> n \<and> (0 < n \<longrightarrow> begins s (doc @ s) (length doc) \<noteq> {})"
proof (cases "length doc < length s")
  case True
  then have "occurrences s doc = {}" by (auto simp: occurrences_def)
  with True show ?thesis by (simp add: bmsearch_def)
next
  case False
  let ?A = "{i. i < length doc \<and> occurs_at s (doc @ s) i}"
  have n: "bmsearch doc s = Some (card ?A)"
    using bm_loop_counts [OF occurs_sentinel, of 0 doc s 0] False assms(2) by (simp add: bmsearch_def)
  have "occurrences s doc \<subseteq> ?A" using assms(1) by (auto simp: occurrences_def occurs_at_def neq_Nil_conv)
  then have "card (occurrences s doc) \<le> card ?A" by (intro card_mono) auto
  moreover have "begins s (doc @ s) (length doc) \<noteq> {}" if "0 < card ?A"
  proof -
    have "?A \<noteq> {}" using that by (metis card.empty less_irrefl)
    then obtain i where "i < length doc" "occurs_at s (doc @ s) i" by blast
    then have "i \<in> begins s (doc @ s) (length doc)" unfolding begins_def occurs_at_def by (metis mem_Collect_eq take_is_prefix)
    then show ?thesis by blast
  qed
  ultimately show ?thesis using n by (intro exI [of _ "card ?A"]) (intro conjI impI)
qed

text \<open>A text begins in the document when a part of it, at least one byte, is in the document and the rest may
  lie behind its end.\<close>

definition begun :: "string \<Rightarrow> string \<Rightarrow> bool" where
  "begun t doc \<longleftrightarrow> (\<exists>i < length doc. \<exists>v. prefix t (drop i doc @ v))"

lemma begins_begun: "begins t (doc @ v) (length doc) \<noteq> {} \<Longrightarrow> begun t doc"
  by (force simp: begins_def begun_def)

definition result_ok :: "phrase_store \<Rightarrow> string \<Rightarrow> (string \<rightharpoonup> nat \<times> nat) \<Rightarrow> bool" where
  "result_ok ps doc res \<longleftrightarrow> (\<forall>t e n. res t = Some (e, n) \<longrightarrow> e < p_size ps \<and> p_text ps e = t \<and> 0 < n \<and> begun t doc)"

definition reported :: "nat \<Rightarrow> string \<Rightarrow> (string \<rightharpoonup> nat \<times> nat) \<Rightarrow> bool" where
  "reported n t res \<longleftrightarrow> n = 0 \<or> (\<exists>e m. res t = Some (e, m) \<and> n \<le> m)"

lemma slow_search_value:
  assumes "\<forall>i \<in> set is. i < p_size ps \<and> p_text ps i \<noteq> [] \<and> length (p_text ps i) \<le> 126" "result_ok ps doc res"
  shows "\<exists>out. graphSearch_slow ps doc is res = Some out \<and> result_ok ps doc out
    \<and> (\<forall>i \<in> set is. reported (card (occurrences (p_text ps i) doc)) (p_text ps i) out)
    \<and> (\<forall>n t. reported n t res \<longrightarrow> reported n t out)"
  using assms
proof (induction "is" arbitrary: res)
  case (Cons i "is")
  let ?t = "p_text ps i"
  obtain n where n: "bmsearch doc ?t = Some n" "card (occurrences ?t doc) \<le> n" "0 < n \<longrightarrow> begins ?t (doc @ ?t) (length doc) \<noteq> {}"
    using bmsearch_counts [of ?t doc] Cons.prems by auto
  let ?res = "bump ?t i n res"
  have begun: "begun ?t doc" if "0 < n" using n(3) begins_begun that by blast
  have v: "?res x = (if n \<noteq> 0 \<and> x = ?t then Some (case res ?t of None \<Rightarrow> (i, n) | Some (e, m) \<Rightarrow> (e, m + n)) else res x)" for x
    by (simp add: bump_value)
  have ok: "result_ok ps doc ?res" using Cons.prems begun unfolding result_ok_def v by (auto split: if_splits option.splits)
  have keep: "reported k t ?res" if "reported k t res" for k t using that unfolding reported_def v by (auto split: option.splits)
  have this_one: "reported (card (occurrences ?t doc)) ?t ?res" using n(2) unfolding reported_def v by (auto split: option.splits)
  obtain out where out: "graphSearch_slow ps doc is ?res = Some out" "result_ok ps doc out"
    "\<forall>i \<in> set is. reported (card (occurrences (p_text ps i) doc)) (p_text ps i) out"
    "\<forall>n t. reported n t ?res \<longrightarrow> reported n t out"
    using Cons.IH [OF _ ok] Cons.prems(1) by auto
  then show ?case using n(1) keep this_one by (intro exI [of _ out]) (simp add: Let_def)
qed simp

lemma slow_residue_length: "length extra \<le> length (slow_residue ps doc extra)"
proof -
  have one: "length e \<le> length (bm_residue doc s e)" for e s by (simp add: bm_residue_def) linarith
  have "length e \<le> length (fold (\<lambda>i. bm_residue doc (p_text ps i)) xs e)" for xs e
    by (induction xs arbitrary: e) (auto intro: order.trans [OF one])
  then show ?thesis by (simp add: slow_residue_def)
qed

lemma occurrences_begin: "s \<noteq> [] \<Longrightarrow> occurrences s doc \<subseteq> begins s (doc @ v) (length doc)"
proof
  fix i assume s: "s \<noteq> []" and "i \<in> occurrences s doc"
  then have i: "i + length s \<le> length doc" "take (length s) (drop i doc) = s" by (simp_all add: occurrences_def)
  have "prefix s (drop i doc)" using i(2) by (metis take_is_prefix)
  moreover have "i < length doc" using i(1) s by (cases s) auto
  ultimately show "i \<in> begins s (doc @ v) (length doc)" by (auto simp: begins_def intro: prefix_order.trans)
qed

definition searchable :: "phrase_store \<Rightarrow> bool" where
  "searchable ps \<longleftrightarrow> (if force_quick_search ps then (\<forall>i \<in> set (slowgraph ps). i < p_size ps) \<and> slow_texts ps = p_text ps ` {..<p_size ps}
     else graph_ready ps)"

text \<open>The search reports every phrase of the list that is in the document, as often as it occurs at least, and it
  reports phrases of the list only.\<close>

lemma graphSearch_reports:
  assumes "searchable ps" "\<forall>i < p_size ps. p_text ps i \<noteq> [] \<and> length (p_text ps i) \<le> 126" "126 \<le> Suc (length extra)"
  shows "\<exists>out. graphSearch ps doc extra Map.empty = Some out \<and> result_ok ps doc out
    \<and> (\<forall>i < p_size ps. reported (card (occurrences (p_text ps i) doc)) (p_text ps i) out)"
proof -
  have slow: "\<forall>i \<in> set (slowgraph ps). i < p_size ps" using assms(1) by (auto simp: searchable_def graph_ready_def split: if_splits)
  then obtain res where res: "graphSearch_slow ps doc (slowgraph ps) Map.empty = Some res" "result_ok ps doc res"
    "\<forall>i \<in> set (slowgraph ps). reported (card (occurrences (p_text ps i) doc)) (p_text ps i) res"
    using slow_search_value [of "slowgraph ps" ps doc Map.empty] assms(2) by (auto simp: result_ok_def)
  have in_slow: "reported (card (occurrences t doc)) t res" if "t \<in> slow_texts ps" for t using res(3) that by (auto simp: slow_texts_def)
  show ?thesis
  proof (cases "force_quick_search ps")
    case True
    then have "slow_texts ps = p_text ps ` {..<p_size ps}" using assms(1) by (simp add: searchable_def)
    then show ?thesis using True res in_slow by (intro exI [of _ res]) (simp add: graphSearch_def)
  next
    case False
    then have R: "graph_ready ps" using assms(1) by (simp add: searchable_def)
    let ?v = "slow_residue ps doc extra" and ?g = "p_graph ps"
    have ok: "tree_ok ?g" and nodes: "nodes_ok (p_text ps) (p_size ps) ?g" using R by (simp_all add: graph_ready_def)
    have fit: "\<forall>j < p_size ps. length (p_text ps j) \<le> Suc (length ?v)"
      using assms(2,3) slow_residue_length [of extra ps doc] by (meson Suc_le_mono le_trans)
    define K where "K = (\<lambda>t. if t \<in> tree_phrases ?g then card (begins t (doc @ ?v) (length doc)) else 0)"
    obtain out where out: "tree_search ps (doc @ ?v) (length doc) res = Some out"
      "\<forall>t. (K t = 0 \<longrightarrow> out t = res t) \<and>
         (0 < K t \<longrightarrow> (case res t of None \<Rightarrow> \<exists>e. out t = Some (e, K t) \<and> e < p_size ps \<and> p_text ps e = t | Some (e, n) \<Rightarrow> out t = Some (e, n + K t)))"
      using tree_search_value [OF ok nodes fit, of doc res] unfolding K_def Let_def by blast
    have "?g \<noteq> []" using ok by (simp add: tree_ok_def)
    then have g: "graphSearch ps doc extra Map.empty = Some out" using False res(1) out(1) by (simp add: graphSearch_def)
    have bg: "begun t doc" if "0 < K t" for t
    proof -
      have "begins t (doc @ ?v) (length doc) \<noteq> {}" using that by (auto simp: K_def split: if_splits)
      then show ?thesis by (rule begins_begun)
    qed
    have vals: "out t = res t \<or> (res t = None \<and> (\<exists>e. out t = Some (e, K t) \<and> e < p_size ps \<and> p_text ps e = t) \<and> 0 < K t)
       \<or> (\<exists>e n. res t = Some (e, n) \<and> out t = Some (e, n + K t))" for t
      using spec [OF out(2), of t] by (cases "res t") auto
    have "result_ok ps doc out" unfolding result_ok_def
    proof (intro allI impI)
      fix t e n assume o: "out t = Some (e, n)"
      show "e < p_size ps \<and> p_text ps e = t \<and> 0 < n \<and> begun t doc"
        using vals [of t] o res(2) bg [of t] unfolding result_ok_def by (elim disjE) auto
    qed
    moreover have "reported (card (occurrences (p_text ps i) doc)) (p_text ps i) out" if "i < p_size ps" for i
    proof -
      let ?t = "p_text ps i"
      have ne: "?t \<noteq> []" using assms(2) that by blast
      have "?t \<in> tree_phrases ?g \<or> ?t \<in> slow_texts ps" using R that by (auto simp: graph_ready_def)
      then show ?thesis
      proof
        assume "?t \<in> slow_texts ps"
        from in_slow [OF this] show ?thesis using vals [of ?t] by (auto simp: reported_def)
      next
        assume "?t \<in> tree_phrases ?g"
        then have "card (occurrences ?t doc) \<le> K ?t" using occurrences_begin [OF ne] by (simp add: K_def card_mono)
        then show ?thesis using spec [OF out(2), of ?t] by (cases "K ?t = 0"; cases "res ?t") (auto simp: reported_def)
      qed
    qed
    ultimately show ?thesis using g by blast
  qed
qed

lemma fold_slow_add_force: "force_quick_search (fold slow_add xs ps) = force_quick_search ps"
proof (induction xs arbitrary: ps)
  case (Cons x xs)
  have "force_quick_search (slow_add x ps) = force_quick_search ps" by (auto simp: slow_add_def copy_values_def split: option.splits)
  then show ?case using Cons by simp
qed simp

lemma makeGraph_searchable:
  assumes "makeGraph fqs ps = Some ps'" "phrase_vecs ps" "slowgraph ps = []" "0 < p_size ps" "\<forall>i < p_size ps. p_text ps i \<noteq> []"
  shows "searchable ps' \<and> p_items ps' = p_items ps"
proof (cases fqs)
  case True
  then have ps': "ps' = makeGraph_quick ps" using assms(1) by (simp add: makeGraph_def)
  have "quick_inv ps (p_size ps) ps'" unfolding ps' by (rule makeGraph_quick_inv [OF assms(2,3)])
  then have q: "p_items ps' = p_items ps" "\<forall>i \<in> set (slowgraph ps'). i < p_size ps" "p_text ps ` set (slowgraph ps') = p_text ps ` {..<p_size ps}"
    by (simp_all add: quick_inv_def)
  have "force_quick_search ps'" unfolding ps' by (simp add: makeGraph_quick_def Let_def fold_slow_add_force)
  then show ?thesis using q by (simp add: searchable_def slow_texts_def p_size_def)
next
  case False
  have "data_length (p_items ps) \<noteq> 0"
  proof
    assume "data_length (p_items ps) = 0"
    then have "p_size ps = 0" using assms(2) by (auto simp: phrase_vecs_def p_size_def store_inv_def item_ok_def)
    then show False using assms(4) by simp
  qed
  moreover have "makeGraph_tree ps = Some ps'" using False assms(1) by (simp add: makeGraph_def)
  ultimately have "graph_ready ps'" "p_items ps' = p_items ps" "\<not> force_quick_search ps'"
    using makeGraph_tree_ready [OF _ _ assms(3,5)] by blast+
  then show ?thesis by (simp add: searchable_def)
qed


section \<open>Properties\<close>

text \<open>C13: once the index is made, as a tree or for quick search, the search of a list whose phrases have 1 to 126
  bytes ends (\<open>None\<close> of \<^verbatim>\<open>makeGraph\<close> stands for the code's exit at a node with too many links and for a bound of the
  recursion that is too small, about which nothing is said); it reports every phrase that the document contains, at least as often as it occurs, and
  reports only entries of the list that begin in the document.\<close>

theorem phrase_search_complete:
  assumes "makeGraph fqs ps = Some ps'" and "phrase_vecs ps" and "slowgraph ps = []" and "0 < p_size ps"
    and "\<forall>i < p_size ps. 0 < length (p_text ps i) \<and> length (p_text ps i) \<le> 126" and "125 \<le> length extra"
  shows "\<exists>out. graphSearch ps' doc extra Map.empty = Some out
    \<and> (\<forall>i < p_size ps. occurrences (p_text ps i) doc \<noteq> {} \<longrightarrow> (\<exists>e n. out (p_text ps i) = Some (e, n) \<and> card (occurrences (p_text ps i) doc) \<le> n))
    \<and> (\<forall>t e n. out t = Some (e, n) \<longrightarrow> e < p_size ps \<and> p_text ps e = t \<and> begun t doc)"
proof -
  have s: "searchable ps'" "p_items ps' = p_items ps" using makeGraph_searchable [OF assms(1-4)] assms(5) by auto
  have sz: "p_size ps' = p_size ps" using s(2) by (simp add: p_size_def)
  obtain out where out: "graphSearch ps' doc extra Map.empty = Some out" "result_ok ps' doc out"
    "\<forall>i < p_size ps'. reported (card (occurrences (p_text ps' i) doc)) (p_text ps' i) out"
    using graphSearch_reports [OF s(1), of extra doc] assms(5,6) s(2) sz by auto
  have fin: "finite (occurrences t doc)" for t by (rule finite_subset [of _ "{..length doc}"]) (auto simp: occurrences_def)
  show ?thesis using out s(2) sz by (intro exI [of _ out]) (auto simp: result_ok_def reported_def fin)
qed

definition demo_texts :: "string list" where
  "demo_texts = map (\<lambda>c. ''a'' @ [c]) ''abcdefghijklmn'' @ [''xyz'', ''abba'']"

definition demo_tree :: phrase_store where
  "demo_tree = phrase_store_new\<lparr>p_items := store_of demo_texts, weight := replicate 16 5, itemtype := replicate 16 1,
     categoryindex := replicate 16 0, timelimitindex := replicate 16 (- 1)\<rparr>"

lemma demo_tree_items: "item_list (p_items demo_tree) = demo_texts" "p_size demo_tree = 16" "phrase_vecs demo_tree" "slowgraph demo_tree = []"
  using store_of_items [of demo_texts]
  by (simp_all add: demo_tree_def demo_texts_def phrase_store_new_def phrase_vecs_def p_size_def nul_def)

lemma demo_tree_made:
  "makeGraph False demo_tree \<noteq> None \<and> length (p_graph (the (makeGraph False demo_tree))) = 21
     \<and> slowgraph (the (makeGraph False demo_tree)) = [14]"
  by code_simp

lemma demo_tree_texts: "map (p_text demo_tree) [0..<16] = demo_texts"
  by code_simp

lemma demo_tree_text:
  assumes "i < 16"
  shows "p_text demo_tree i = demo_texts ! i"
proof -
  have "map (p_text demo_tree) [0..<16] ! i = p_text demo_tree i" using assms by (simp del: upt_rec_numeral)
  then show ?thesis by (simp only: demo_tree_texts)
qed

theorem phrase_search_complete_witness:
  "\<exists>out e n. graphSearch (the (makeGraph False demo_tree)) ''an abba'' (replicate 125 nul) Map.empty = Some out
     \<and> out ''abba'' = Some (e, n) \<and> card (occurrences ''abba'' ''an abba'') \<le> n \<and> p_text demo_tree e = ''abba''"
proof -
  have made: "makeGraph False demo_tree = Some (the (makeGraph False demo_tree))" using demo_tree_made by simp
  have l: "length demo_texts = 16" by (simp add: demo_texts_def)
  have texts: "\<forall>i < p_size demo_tree. 0 < length (p_text demo_tree i) \<and> length (p_text demo_tree i) \<le> 126"
  proof (intro allI impI)
    fix i assume "i < p_size demo_tree"
    then have "p_text demo_tree i \<in> set demo_texts" using demo_tree_text [of i] demo_tree_items(2) nth_mem [of i demo_texts] l by simp
    then show "0 < length (p_text demo_tree i) \<and> length (p_text demo_tree i) \<le> 126" by (auto simp: demo_texts_def)
  qed
  have t: "p_text demo_tree 15 = ''abba''" using demo_tree_text [of 15] by (simp add: demo_texts_def)
  have "3 \<in> occurrences ''abba'' ''an abba''" by (simp add: occurrences_def)
  then have occ: "occurrences (p_text demo_tree 15) ''an abba'' \<noteq> {}" unfolding t by blast
  have sz: "0 < p_size demo_tree" "15 < p_size demo_tree" using demo_tree_items(2) by simp_all
  obtain out where out: "graphSearch (the (makeGraph False demo_tree)) ''an abba'' (replicate 125 nul) Map.empty = Some out"
    "\<forall>i < p_size demo_tree. occurrences (p_text demo_tree i) ''an abba'' \<noteq> {} \<longrightarrow>
       (\<exists>e n. out (p_text demo_tree i) = Some (e, n) \<and> card (occurrences (p_text demo_tree i) ''an abba'') \<le> n)"
    "\<forall>t e n. out t = Some (e, n) \<longrightarrow> e < p_size demo_tree \<and> p_text demo_tree e = t \<and> begun t ''an abba''"
    using phrase_search_complete [OF made demo_tree_items(3,4) sz(1) texts, of "replicate 125 nul" "''an abba''"]
    unfolding length_replicate by blast
  obtain e n where "out ''abba'' = Some (e, n)" "card (occurrences ''abba'' ''an abba'') \<le> n"
    using out(2) sz(2) occ t by metis
  then show ?thesis using out(1,3) by blast
qed

end
