(* ===== verification/Content_Check.thy ===== *)
theory Content_Check
  imports Naughty_Filter Phrase_Search
begin

text \<open>
  The scan of a document or of search terms for phrases (\<^verbatim>\<open>src/src/NaughtyFilter.cpp\<close>: \<^verbatim>\<open>checkme\<close> and
  \<^verbatim>\<open>checkphrase\<close>): the body is decoded, folded to lower case and freed of punctuation and markup, the phrases
  of a list are looked for, combinations and single phrases are scored, and an exception, a ban or a score
  above the limit decides.

  A buffer is the list of its bytes, with the 129 bytes the code reserves behind the text; the search for
  phrases writes there. Scores are integers without overflow, which is undefined in the source. The value
  that the uninitialised variable \<^verbatim>\<open>cat\<close> happens to have is an argument. \<open>None\<close> is an access out of range.
\<close>

section \<open>Options\<close>

record content_env =
  ce_lists :: lists_env
  ce_manager :: manager
  ce_language :: language_container
  ce_hex_decode_content :: bool
  ce_preserve_case :: nat
  ce_phrase_filter_mode :: nat
  ce_show_weighted_found :: bool
  ce_show_all_weighted_found :: bool

text \<open>The options of the filter group.\<close>

record phrase_options =
  po_weighted_phrase_mode :: nat
  po_category_threshold :: int

record listent =
  lent_weight :: int
  lent_string :: string


section \<open>Combinations\<close>

record score =
  sc_weighting :: int
  sc_cats :: "(int \<times> listent) list"
  sc_phrases :: string
  sc_combifound :: string
  sc_sofar :: string
  sc_all :: bool
  sc_lowest :: nat
  sc_bannedcombi :: bool
  sc_bannedcategory :: string
  sc_cat :: int

definition score_new :: "int \<Rightarrow> score" where
  "score_new cat = \<lparr>sc_weighting = 0, sc_cats = [], sc_phrases = [], sc_combifound = [], sc_sofar = [], sc_all = True,
     sc_lowest = 0, sc_bannedcombi = False, sc_bannedcategory = [], sc_cat = cat\<rparr>"

text \<open>How often a phrase counts.\<close>

definition repeats :: "nat \<Rightarrow> nat \<Rightarrow> int" where
  "repeats mode n = (if mode = 2 then 1 else int n)"

text \<open>The scores of the categories, in the order of their numbers. A new category starts with \<open>w\<close>, one that is
  there gets \<open>inc\<close>.\<close>

fun add_category :: "int \<Rightarrow> int \<Rightarrow> int \<Rightarrow> string \<Rightarrow> (int \<times> listent) list \<Rightarrow> (int \<times> listent) list" where
  "add_category cat inc w name [] = [(cat, \<lparr>lent_weight = w, lent_string = name\<rparr>)]"
| "add_category cat inc w name ((k, e) # cs) =
     (if k = cat then (k, e\<lparr>lent_weight := lent_weight e + inc\<rparr>) # cs
      else if cat < k then (cat, \<lparr>lent_weight = w, lent_string = name\<rparr>) # (k, e) # cs
      else (k, e) # add_category cat inc w name cs)"

definition unsigned32 :: "int \<Rightarrow> nat" where
  "unsigned32 i = nat (i mod 2 ^ 32)"

text \<open>One part of a combination.\<close>

definition combi_part :: "phrase_store \<Rightarrow> (string \<rightharpoonup> nat \<times> nat) \<Rightarrow> int \<Rightarrow> score \<Rightarrow> score option" where
  "combi_part ps found x st =
     (if x < 0 \<or> nat x \<ge> items (p_items ps) then None
      else let s1 = getItemAtInt (nat x) (p_items ps) in
        Some (case found s1 of
            None \<Rightarrow> st\<lparr>sc_all := False, sc_sofar := []\<rparr>
          | Some (e, n) \<Rightarrow> st\<lparr>sc_sofar := (if sc_sofar st \<noteq> [] then sc_sofar st @ '', '' else []) @ s1,
              sc_lowest := (if sc_lowest st = 0 \<or> sc_lowest st > n then n else sc_lowest st)\<rparr>))"

definition combi_weighted :: "phrase_store \<Rightarrow> nat \<Rightarrow> int \<Rightarrow> int \<Rightarrow> score \<Rightarrow> score" where
  "combi_weighted ps mode w ct st =
     (let k = repeats mode (sc_lowest st) in
      st\<lparr>sc_weighting := sc_weighting st + w * k,
         sc_cat := (if w > 0 then ct else sc_cat st),
         sc_cats := (if w > 0 then add_category ct (w * k) w (getListCategoryAtD (unsigned32 ct) ps) (sc_cats st) else sc_cats st),
         sc_phrases := (if sc_phrases st \<noteq> [] then sc_phrases st @ ''+'' else []) @ ''('' @ (if w < 0 then ''-'' else []) @ sc_sofar st @ '')'',
         sc_sofar := []\<rparr>)"

definition combi_banned :: "phrase_store \<Rightarrow> int \<Rightarrow> score \<Rightarrow> score" where
  "combi_banned ps ct st =
     st\<lparr>sc_bannedcombi := True, sc_combifound := sc_combifound st @ ''('' @ sc_sofar st @ '')'', sc_sofar := [],
        sc_cat := ct, sc_bannedcategory := getListCategoryAtD (unsigned32 ct) ps\<rparr>"

text \<open>The loop over the combinations: parts, the mark \<open>- 2\<close>, type, time limit, weight and category. An
  exception ends the scan.\<close>

datatype combi_result = Combi_exception string int | Combi_done score

fun combi_loop :: "lists_env \<Rightarrow> list_container \<Rightarrow> nat \<Rightarrow> (string \<rightharpoonup> nat \<times> nat) \<Rightarrow> int list \<Rightarrow> score \<Rightarrow> combi_result option" where
  "combi_loop le c mode found [] st = Some (Combi_done st)"
| "combi_loop le c mode found (x # xs) st =
     (if x = - 2 then
        (case xs of
           ty # tm # rest \<Rightarrow>
             if sc_all st then
               (case checkTimeAtD le tm c of
                  None \<Rightarrow> None
                | Some now \<Rightarrow>
                    if now \<and> ty \<noteq> - 1 \<and> ty \<noteq> 0 \<and> ty \<noteq> 1 then combi_loop le c mode found rest st
                    else
                      (case rest of
                         w # ct # others \<Rightarrow>
                           if \<not> now then combi_loop le c mode found others (st\<lparr>sc_sofar := []\<rparr>)
                           else if ty = - 1 then Some (Combi_exception (sc_sofar st) ct)
                           else combi_loop le c mode found others
                             (if ty = 1 then combi_weighted (lc_ps c) mode w ct st else combi_banned (lc_ps c) ct st)
                       | _ \<Rightarrow> None))
             else
               (case rest of
                  w # ct # others \<Rightarrow> combi_loop le c mode found others (st\<lparr>sc_all := True, sc_lowest := 0\<rparr>)
                | _ \<Rightarrow> None)
         | _ \<Rightarrow> None)
      else if sc_all st then
        (case combi_part (lc_ps c) found x st of None \<Rightarrow> None | Some st' \<Rightarrow> combi_loop le c mode found xs st')
      else combi_loop le c mode found xs st)"


section \<open>Single phrases\<close>

definition nth_opt :: "'a list \<Rightarrow> nat \<Rightarrow> 'a option" where
  "nth_opt xs i = (if i < length xs then Some (xs ! i) else None)"

text \<open>The category of a phrase and the variable \<^verbatim>\<open>cat\<close>, which a phrase without a category leaves as it is.\<close>

definition phrase_category :: "phrase_store \<Rightarrow> nat \<Rightarrow> int \<Rightarrow> (string \<times> int) option" where
  "phrase_category ps i cat =
     map_option (\<lambda>s. (s, if i \<ge> length (categoryindex ps) \<or> categoryindex ps ! i < 0 then cat else categoryindex ps ! i))
       (getListCategoryAt i ps)"

record singles =
  sg_score :: score
  sg_naughty :: bool
  sg_bannedphrase :: string

definition single_banned :: "phrase_store \<Rightarrow> string \<Rightarrow> nat \<Rightarrow> singles \<Rightarrow> singles option" where
  "single_banned ps phrase i sg =
     (if sc_bannedcombi (sg_score sg) then Some sg
      else map_option (\<lambda>(s, cat). sg\<lparr>sg_naughty := True, sg_bannedphrase := phrase,
               sg_score := (sg_score sg)\<lparr>sc_bannedcategory := s, sc_cat := cat\<rparr>\<rparr>)
             (phrase_category ps i (sc_cat (sg_score sg))))"

definition single_weighted :: "bool \<Rightarrow> phrase_store \<Rightarrow> nat \<Rightarrow> string \<Rightarrow> nat \<Rightarrow> nat \<Rightarrow> score \<Rightarrow> score option" where
  "single_weighted shown ps mode phrase i n st =
     (case nth_opt (weight ps) i of
        None \<Rightarrow> None
      | Some w0 \<Rightarrow>
          let w = w0 * repeats mode n;
              st1 = st\<lparr>sc_weighting := sc_weighting st + w,
                sc_phrases := (if shown then (if sc_phrases st \<noteq> [] then sc_phrases st @ ''+'' else []) @ (if w < 0 then ''-'' else []) @ phrase
                  else sc_phrases st)\<rparr>
          in if w > 0 then
               map_option (\<lambda>(s, cat). st1\<lparr>sc_cat := cat, sc_cats := add_category cat (w * repeats mode n) w s (sc_cats st)\<rparr>)
                 (phrase_category ps i (sc_cat st))
             else Some st1)"

datatype single_result = Single_exception string nat | Single_done singles

text \<open>The loop over the phrases that were found, in their order.\<close>

fun single_loop :: "lists_env \<Rightarrow> list_container \<Rightarrow> bool \<Rightarrow> nat \<Rightarrow> (string \<rightharpoonup> nat \<times> nat) \<Rightarrow> string list \<Rightarrow> singles \<Rightarrow> single_result option" where
  "single_loop le c shown mode found [] sg = Some (Single_done sg)"
| "single_loop le c shown mode found (phrase # ks) sg =
     (case found phrase of
        None \<Rightarrow> None
      | Some (i, n) \<Rightarrow>
          (case checkTimeAt le i c of
             None \<Rightarrow> None
           | Some False \<Rightarrow> single_loop le c shown mode found ks sg
           | Some True \<Rightarrow>
               (case nth_opt (itemtype (lc_ps c)) i of
                  None \<Rightarrow> None
                | Some ty \<Rightarrow>
                    if ty = - 1 then Some (Single_exception phrase i)
                    else
                      (case (if ty = 0 then single_banned (lc_ps c) phrase i sg
                             else if ty = 1 then map_option (\<lambda>s. sg\<lparr>sg_score := s\<rparr>) (single_weighted shown (lc_ps c) mode phrase i n (sg_score sg))
                             else Some sg) of
                         None \<Rightarrow> None
                       | Some sg' \<Rightarrow> single_loop le c shown mode found ks sg'))))"


section \<open>The decision\<close>

text \<open>The names of the categories, highest score first, and the part to display. \<^verbatim>\<open>std::sort\<close> leaves the order of
  equal scores open; here it is the order of the categories.\<close>

record cat_text =
  ct_categories :: string
  ct_nonempty :: bool
  ct_display :: "string option"

fun category_loop :: "int \<Rightarrow> listent list \<Rightarrow> cat_text \<Rightarrow> cat_text" where
  "category_loop threshold [] ct = ct"
| "category_loop threshold (k # ks) ct =
     (let ct1 = (if ct_display ct = None \<and> threshold > 0 \<and> lent_weight k < threshold then ct\<lparr>ct_display := Some (ct_categories ct)\<rparr> else ct);
          ct2 = (if lent_string k \<noteq> [] then ct1\<lparr>ct_categories := ct_categories ct1 @ (if ct_nonempty ct1 then '', '' else []) @ lent_string k,
            ct_nonempty := True\<rparr> else ct1);
          ct3 = (if ct_display ct2 = None \<and> threshold < 0 then ct2\<lparr>ct_display := Some (ct_categories ct2)\<rparr> else ct2)
      in category_loop threshold ks ct3)"

definition sorted_categories :: "(int \<times> listent) list \<Rightarrow> listent list" where
  "sorted_categories cats = sort_key (\<lambda>e. - lent_weight e) (map snd cats)"

text \<open>The lowest negative or the highest positive score of all scans.\<close>

definition new_naughtiness :: "int \<Rightarrow> int \<Rightarrow> int" where
  "new_naughtiness w n =
     (if w < 0 \<and> n \<le> 0 \<and> w < n \<or> n \<ge> 0 \<and> w > n \<or> n < 0 \<and> w > 0 then w else n)"

definition log_weighted :: "content_env \<Rightarrow> phrase_options \<Rightarrow> bool \<Rightarrow> int \<Rightarrow> score \<Rightarrow> naughty_filter \<Rightarrow> naughty_filter" where
  "log_weighted env foc searchterms limit st cm =
     (let ct = category_loop (po_category_threshold foc) (sorted_categories (sc_cats st)) \<lparr>ct_categories = [], ct_nonempty = False, ct_display = None\<rparr>;
          cm1 = cm\<lparr>cm_whatIsNaughtyLog := getTranslation (ce_language env) (if searchterms then 454 else 402) @ int_str limit @ '' : ''
                 @ int_str (sc_weighting st) @ (if ce_show_weighted_found env then '' ('' @ sc_phrases st @ '')'' else []),
               cm_whatIsNaughtyCategories := cstr (ct_categories ct)\<rparr>
      in case ct_display ct of None \<Rightarrow> cm1 | Some d \<Rightarrow> cm1\<lparr>cm_whatIsNaughtyDisplayCategories := cstr d, cm_usedisplaycats := True\<rparr>)"

definition decide :: "content_env \<Rightarrow> phrase_options \<Rightarrow> bool \<Rightarrow> int \<Rightarrow> singles \<Rightarrow> naughty_filter \<Rightarrow> naughty_filter" where
  "decide env foc searchterms limit sg cm0 =
     (let st = sg_score sg; tr = getTranslation (ce_language env);
          cm = cm0\<lparr>cm_isItNaughty := sg_naughty sg, cm_naughtiness := new_naughtiness (sc_weighting st) (cm_naughtiness cm0)\<rparr>;
          mno = (if searchterms then 454 else 402)
      in if sc_bannedcombi st then
           cm\<lparr>cm_isItNaughty := True, cm_message_no := (if searchterms then 453 else 401),
              cm_log_message_no := (if searchterms then 452 else 400),
              cm_whatIsNaughtyLog := tr (if searchterms then 452 else 400) @ sc_combifound st,
              cm_whatIsNaughty := tr (if searchterms then 453 else 401),
              cm_whatIsNaughtyCategories := cstr (sc_bannedcategory st)\<rparr>
         else if sg_naughty sg then
           cm\<lparr>cm_message_no := (if searchterms then 450 else 300),
              cm_whatIsNaughtyLog := tr (if searchterms then 450 else 300) @ sg_bannedphrase sg,
              cm_whatIsNaughty := tr (if searchterms then 451 else 301),
              cm_whatIsNaughtyCategories := cstr (sc_bannedcategory st)\<rparr>
         else
           let cm1 = (if sc_weighting st > limit
                then cm\<lparr>cm_isItNaughty := True, cm_message_no := mno, cm_whatIsNaughty := tr (if searchterms then 455 else 403)\<rparr> else cm)
           in if sc_weighting st > limit \<or> ce_show_all_weighted_found env then log_weighted env foc searchterms limit st cm1 else cm1)"

definition phrase_exception :: "content_env \<Rightarrow> int \<Rightarrow> string \<Rightarrow> string \<Rightarrow> naughty_filter \<Rightarrow> naughty_filter" where
  "phrase_exception env mno phrase cat cm =
     cm\<lparr>cm_isItNaughty := False, cm_isException := True, cm_message_no := mno,
        cm_whatIsNaughtyLog := getTranslation (ce_language env) mno @ phrase, cm_whatIsNaughty := [],
        cm_whatIsNaughtyCategories := cat\<rparr>"

text \<open>The phrases that were found, in the order of \<^verbatim>\<open>std::map\<close>; they are texts of the list.\<close>

definition found_keys :: "phrase_store \<Rightarrow> (string \<rightharpoonup> nat \<times> nat) \<Rightarrow> string list" where
  "found_keys ps found =
     sort (remdups (filter (\<lambda>s. found s \<noteq> None) (map (\<lambda>i. getItemAtInt i (p_items ps)) [0..<items (p_items ps)])))"

text \<open>The scan of the first \<open>filelen\<close> bytes of a buffer; the buffer changes behind them.\<close>

definition checkphrase :: "content_env \<Rightarrow> phrase_options \<Rightarrow> nat \<Rightarrow> int \<Rightarrow> bool \<Rightarrow> int \<Rightarrow> string \<Rightarrow> nat \<Rightarrow> naughty_filter
    \<Rightarrow> (string \<times> naughty_filter) option" where
  "checkphrase env foc phraselist limit searchterms cat file filelen cm =
     (case lc_get (ce_manager env) phraselist of
        None \<Rightarrow> None
      | Some c \<Rightarrow>
          let ps = lc_ps c; doc = take filelen file; mode = po_weighted_phrase_mode foc;
              file' = doc @ slow_residue ps doc (drop filelen file)
          in case graphSearch ps doc (drop filelen file) Map.empty of
               None \<Rightarrow> None
             | Some found \<Rightarrow>
                 (case combi_loop (ce_lists env) c mode found (combilist ps) (score_new cat) of
                    None \<Rightarrow> None
                  | Some (Combi_exception sofar ct) \<Rightarrow>
                      Some (file', phrase_exception env (if searchterms then 456 else 605) sofar (getListCategoryAtD (unsigned32 ct) ps) cm)
                  | Some (Combi_done st) \<Rightarrow>
                      (case single_loop (ce_lists env) c (ce_show_weighted_found env) mode found (found_keys ps found)
                            \<lparr>sg_score = st, sg_naughty = cm_isItNaughty cm, sg_bannedphrase = []\<rparr> of
                         None \<Rightarrow> None
                       | Some (Single_exception phrase i) \<Rightarrow>
                           map_option (\<lambda>s. (file', phrase_exception env (if searchterms then 457 else 604) phrase s cm)) (getListCategoryAt i ps)
                       | Some (Single_done sg) \<Rightarrow> Some (file', decide env foc searchterms limit sg cm))))"


section \<open>The body\<close>

definition hex_pair :: "char \<Rightarrow> bool" where
  "hex_pair c \<longleftrightarrow> (let n = of_char c :: nat in 48 \<le> n \<and> n \<le> 57 \<or> 97 \<le> n \<and> n \<le> 102 \<or> 65 \<le> n \<and> n \<le> 70)"

text \<open>Escapes are decoded except in the last three bytes.\<close>

fun hex_content :: "string \<Rightarrow> string" where
  "hex_content (c1 # c2 # c3 # c4 # cs) =
     (if c1 = CHR ''%'' \<and> hex_pair c2 \<and> hex_pair c3
      then char_of (16 * hex_digit c2 + hex_digit c3) # hex_content (c4 # cs)
      else c1 # hex_content (c2 # c3 # c4 # cs))"
| "hex_content cs = cs"

text \<open>A byte of the folded text: punctuation becomes a space, in one of two ways, and letters become lower case
  unless the case is preserved.\<close>

definition fold_byte :: "bool \<Rightarrow> bool \<Rightarrow> char \<Rightarrow> char" where
  "fold_byte preserve tags c =
     (let n = of_char c :: nat in
      if \<not> preserve \<and> 65 \<le> n \<and> n \<le> 90 \<or> \<not> preserve \<and> 192 \<le> n \<and> n \<le> 221 then char_of (n + 32)
      else if tags then
        (if n < 47 \<or> n = 58 \<or> n = 59 \<or> n = 61 \<or> n = 63 \<or> n = 64 \<or> 90 < n \<and> n < 97 then CHR '' '' else c)
      else (if n < 47 \<or> 57 < n \<and> n < 65 \<or> 90 < n \<and> n < 97 then CHR '' '' else c))"

text \<open>The end of the head of the document.\<close>

definition head_end :: "bool \<Rightarrow> string \<Rightarrow> nat" where
  "head_end preserve t =
     (case find_sub ''</head'' t of
        Some i \<Rightarrow> i
      | None \<Rightarrow> (case find_sub ''<body'' t of
          Some i \<Rightarrow> i
        | None \<Rightarrow>
            if preserve then
              (case find_sub ''</HEAD'' t of
                 Some i \<Rightarrow> i
               | None \<Rightarrow> (case find_sub ''<BODY'' t of Some i \<Rightarrow> i | None \<Rightarrow> length t))
            else length t))"

definition tag_at :: "bool \<Rightarrow> string \<Rightarrow> nat \<Rightarrow> string \<Rightarrow> string \<Rightarrow> bool" where
  "tag_at preserve buf i lower upper \<longleftrightarrow>
     take (length lower) (drop (Suc i) buf) = lower \<or> preserve \<and> take (length upper) (drop (Suc i) buf) = upper"

text \<open>The contents of the \<^verbatim>\<open>meta\<close> and \<^verbatim>\<open>title\<close> tags before the place \<open>fin\<close>, and whether there is one.
  The loop is run with a \<open>fin\<close> seven bytes before the end of the text, so that the reads after the skips
  of 6 and 7 bytes stay inside it; they are plain list reads here. When the first byte that is copied is a
  space the code compares the byte before its buffer, and \<^term>\<open>last []\<close> stands for that unknown byte.\<close>

function meta_loop :: "bool \<Rightarrow> string \<Rightarrow> nat \<Rightarrow> nat \<Rightarrow> bool \<Rightarrow> bool \<Rightarrow> string \<Rightarrow> bool \<times> string" where
  "meta_loop preserve buf fin i addit needcheck out =
     (if i < fin then
        let start = (\<not> addit \<and> buf ! i = CHR ''<'');
            meta = (start \<and> tag_at preserve buf i ''meta'' ''META'');
            title = (start \<and> \<not> meta \<and> tag_at preserve buf i ''title'' ''TITLE'');
            i1 = (if meta then i + 6 else if title then i + 7 else i);
            c = buf ! i1;
            addit1 = (addit \<or> meta \<or> title);
            closes = (addit1 \<and> (c = CHR ''>'' \<or> c = CHR ''<''));
            out1 = (if closes then out @ '' '' else out);
            addit2 = (addit1 \<and> \<not> closes);
            out2 = (if addit2 \<and> (c \<noteq> CHR '' '' \<or> last out1 \<noteq> CHR '' '') then out1 @ [c] else out1)
        in meta_loop preserve buf fin (Suc i1) addit2 (needcheck \<or> meta \<or> title) out2
      else (needcheck, out))"
  by pat_completeness auto
termination
  by (relation "measure (\<lambda>(_, _, fin, i, _). fin - i)") auto

declare meta_loop.simps [simp del]

text \<open>The text without its tags and without repeated spaces; \<open>out\<close> is what was written so far.\<close>

fun strip_loop :: "bool \<Rightarrow> string \<Rightarrow> string \<Rightarrow> string" where
  "strip_loop inhtml [] out = out"
| "strip_loop inhtml (c # cs) out =
     (let inhtml1 = (if c = CHR ''<'' then True else if c = CHR ''>'' then False else inhtml);
          c1 = (if c = CHR ''>'' then CHR '' '' else c)
      in strip_loop inhtml1 cs (if \<not> inhtml1 \<and> \<not> (c1 = CHR '' '' \<and> last out = CHR '' '') then out @ [c1] else out))"

definition untag :: "char \<Rightarrow> char" where
  "untag c = (if c = CHR ''>'' \<or> c = CHR ''<'' then CHR '' '' else c)"

definition zeros :: "nat \<Rightarrow> string" where
  "zeros n = replicate n (CHR 0x00)"


section \<open>The scan\<close>

text \<open>The arguments of one call, and what is scanned for.\<close>

record scan_args =
  sa_foc :: phrase_options
  sa_phraselist :: nat
  sa_limit :: int
  sa_searchterms :: bool
  sa_cat :: "nat \<Rightarrow> int"

definition scan :: "content_env \<Rightarrow> scan_args \<Rightarrow> nat \<Rightarrow> string \<Rightarrow> nat \<Rightarrow> naughty_filter \<Rightarrow> (string \<times> naughty_filter) option" where
  "scan env sa k = checkphrase env (sa_foc sa) (sa_phraselist sa) (sa_limit sa) (sa_searchterms sa) (sa_cat sa k)"

definition settled :: "naughty_filter \<Rightarrow> bool" where
  "settled cm \<longleftrightarrow> cm_isItNaughty cm \<or> cm_isException cm"

definition do_nohtml :: "content_env \<Rightarrow> scan_args \<Rightarrow> bool" where
  "do_nohtml env sa \<longleftrightarrow> \<not> sa_searchterms sa \<and> (ce_phrase_filter_mode env = 1 \<or> ce_phrase_filter_mode env = 2)"

definition do_raw :: "content_env \<Rightarrow> bool" where
  "do_raw env \<longleftrightarrow> ce_phrase_filter_mode env = 0 \<or> ce_phrase_filter_mode env = 2 \<or> ce_phrase_filter_mode env = 3"

text \<open>Only the \<^verbatim>\<open>meta\<close> and \<^verbatim>\<open>title\<close> tags.\<close>

definition scan_meta :: "content_env \<Rightarrow> scan_args \<Rightarrow> nat \<Rightarrow> bool \<Rightarrow> string \<Rightarrow> nat \<Rightarrow> naughty_filter \<Rightarrow> naughty_filter option" where
  "scan_meta env sa k preserve bodylc n cm =
     (let e = head_end preserve (take n bodylc) in
      case meta_loop preserve bodylc (e - 7) 0 False False '' '' of
        (needcheck, out) \<Rightarrow>
          if needcheck then map_option snd (scan env sa k (out @ zeros (e + 129 - length out)) (Suc (length out)) cm)
          else Some cm)"

text \<open>The text without tags, in the buffer for it.\<close>

definition scan_nohtml :: "content_env \<Rightarrow> scan_args \<Rightarrow> nat \<Rightarrow> string \<Rightarrow> string \<Rightarrow> nat \<Rightarrow> naughty_filter \<Rightarrow> (string \<times> naughty_filter) option" where
  "scan_nohtml env sa k bodylc bodynohtml n cm =
     (let out = strip_loop False (take n bodylc) '' '' in scan env sa k (out @ drop (length out) bodynohtml) (length out - 1) cm)"

fun check_rounds :: "content_env \<Rightarrow> scan_args \<Rightarrow> string \<Rightarrow> bool list \<Rightarrow> nat \<Rightarrow> string \<Rightarrow> string \<Rightarrow> naughty_filter \<Rightarrow> naughty_filter option" where
  "check_rounds env sa body [] k bodylc bodynohtml cm = Some cm"
| "check_rounds env sa body (preserve # ps) k bodylc bodynohtml cm =
     (let n = length body;
          lc = map (fold_byte preserve (do_nohtml env sa \<or> ce_phrase_filter_mode env = 3)) body @ drop n bodylc
      in if \<not> sa_searchterms sa \<and> ce_phrase_filter_mode env = 3 then scan_meta env sa k preserve lc n cm
         else
           (case (if do_nohtml env sa then scan_nohtml env sa k lc bodynohtml n cm else Some (bodynohtml, cm)) of
              None \<Rightarrow> None
            | Some (nohtml1, cm1) \<Rightarrow>
                if do_nohtml env sa \<and> settled cm1 \<or> \<not> do_raw env then Some cm1
                else
                  (case scan env sa (Suc k) (if do_nohtml env sa then map untag (take n lc) @ drop n lc else lc) n cm1 of
                     None \<Rightarrow> None
                   | Some (lc1, cm2) \<Rightarrow>
                       if settled cm2 then Some cm2 else check_rounds env sa body ps (k + 2) lc1 nohtml1 cm2)))"

definition checkme :: "content_env \<Rightarrow> scan_args \<Rightarrow> string \<Rightarrow> naughty_filter \<Rightarrow> naughty_filter option" where
  "checkme env sa rawbody cm =
     (if po_weighted_phrase_mode (sa_foc sa) = 0 then Some cm
      else
        let body = (if \<not> sa_searchterms sa \<and> ce_hex_decode_content env then hex_content rawbody else rawbody);
            buffer = zeros (length body + 129)
        in check_rounds env sa body (if ce_preserve_case env = 2 then [False, True] else [ce_preserve_case env \<noteq> 0]) 0 buffer buffer cm)"


section \<open>Lemmas: combinations\<close>

definition part_text :: "list_container \<Rightarrow> nat \<Rightarrow> string" where
  "part_text c i = getItemAtInt i (p_items (lc_ps c))"

text \<open>A combination is matched when all its parts were found, and counts when its time limit holds.\<close>

definition matched :: "list_container \<Rightarrow> (string \<rightharpoonup> nat \<times> nat) \<Rightarrow> nat list \<Rightarrow> bool" where
  "matched c found ids \<longleftrightarrow> (\<forall>i \<in> set ids. found (part_text c i) \<noteq> None)"

definition block_holds :: "lists_env \<Rightarrow> list_container \<Rightarrow> (string \<rightharpoonup> nat \<times> nat) \<Rightarrow> int \<Rightarrow> combi_block \<Rightarrow> bool" where
  "block_holds le c found ty b = (case b of (ids, t, ti, w, ct) \<Rightarrow> t = ty \<and> matched c found ids \<and> checkTimeAtD le ti c = Some True)"

definition block_weight :: "combi_block \<Rightarrow> int" where
  "block_weight b = (case b of (ids, t, ti, w, ct) \<Rightarrow> w)"

definition block_time :: "combi_block \<Rightarrow> int" where
  "block_time b = (case b of (ids, t, ti, w, ct) \<Rightarrow> ti)"

definition combi_total :: "lists_env \<Rightarrow> list_container \<Rightarrow> (string \<rightharpoonup> nat \<times> nat) \<Rightarrow> combi_block list \<Rightarrow> int" where
  "combi_total le c found bs = (\<Sum>b\<leftarrow>bs. if block_holds le c found 1 b then block_weight b else 0)"

lemma combi_loop_item:
  "combi_loop le c mode found (int i # xs) st =
     (if sc_all st then (case combi_part (lc_ps c) found (int i) st of None \<Rightarrow> None | Some st' \<Rightarrow> combi_loop le c mode found xs st')
      else combi_loop le c mode found xs st)"
  by simp

lemma combi_loop_skip: "\<not> sc_all st \<Longrightarrow> combi_loop le c mode found (map int is @ xs) st = combi_loop le c mode found xs st"
  by (induction "is") simp_all

declare combi_loop.simps(2) [simp del]

lemma combi_parts_loop:
  assumes "\<forall>i \<in> set ids. i < p_size (lc_ps c)" "sc_all st"
  shows "\<exists>so lo. combi_loop le c mode found (map int ids @ - 2 # rest) st
     = combi_loop le c mode found (- 2 # rest) (st\<lparr>sc_all := matched c found ids, sc_sofar := so, sc_lowest := lo\<rparr>)
     \<and> (ids = [] \<longrightarrow> so = sc_sofar st \<and> lo = sc_lowest st) \<and> (\<not> matched c found ids \<longrightarrow> so = [])"
  using assms
proof (induction ids arbitrary: st)
  case Nil
  have "matched c found []" by (simp add: matched_def)
  moreover have "st\<lparr>sc_all := True, sc_sofar := sc_sofar st, sc_lowest := sc_lowest st\<rparr> = st" using Nil(2) by simp
  ultimately show ?case
    by (intro exI [of _ "sc_sofar st"] exI [of _ "sc_lowest st"]) simp
next
  case (Cons i ids)
  let ?f = "found (part_text c i)"
  have in_range: "i < items (p_items (lc_ps c))" using Cons.prems(1) by (simp add: p_size_def)
  show ?case
  proof (cases ?f)
    case None
    then have "combi_loop le c mode found (map int (i # ids) @ - 2 # rest) st
       = combi_loop le c mode found (- 2 # rest) (st\<lparr>sc_all := False, sc_sofar := []\<rparr>)"
      using Cons.prems in_range by (simp add: combi_loop_item combi_part_def part_text_def combi_loop_skip)
    moreover have "\<not> matched c found (i # ids)" using None by (simp add: matched_def)
    ultimately show ?thesis by (intro exI [of _ "[]"] exI [of _ "sc_lowest st"]) simp
  next
    case (Some p)
    obtain st1 where st1: "combi_part (lc_ps c) found (int i) st = Some st1" "sc_all st1"
      "st1 = st\<lparr>sc_sofar := sc_sofar st1, sc_lowest := sc_lowest st1\<rparr>"
      using Cons.prems(2) in_range Some by (auto simp: combi_part_def part_text_def Let_def split: prod.split)
    obtain so lo where ih: "combi_loop le c mode found (map int ids @ - 2 # rest) st1
       = combi_loop le c mode found (- 2 # rest) (st1\<lparr>sc_all := matched c found ids, sc_sofar := so, sc_lowest := lo\<rparr>)"
      "\<not> matched c found ids \<longrightarrow> so = []"
      using Cons.IH [of st1] Cons.prems(1) st1(2) by auto
    have "matched c found (i # ids) = matched c found ids" using Some by (simp add: matched_def)
    moreover have "st1\<lparr>sc_all := a, sc_sofar := so, sc_lowest := lo\<rparr> = st\<lparr>sc_all := a, sc_sofar := so, sc_lowest := lo\<rparr>" for a
      by (subst st1(3)) simp
    ultimately show ?thesis using ih st1(1) Cons.prems(2)
      by (intro exI [of _ so] exI [of _ lo]) (simp add: combi_loop_item)
  qed
qed

text \<open>The loop over well-formed combinations: it ends with an exception exactly when one holds; otherwise a ban
  that holds is kept, and phrases that count once add up.\<close>

lemma combi_loop_blocks:
  assumes "list_all (block_ok (p_size (lc_ps c))) bs" "\<forall>b \<in> set bs. checkTimeAtD le (block_time b) c \<noteq> None" "sc_all st"
  shows "\<exists>r. combi_loop le c mode found (concat (map block_ints bs)) st = Some r \<and>
     (case r of
        Combi_exception s ct \<Rightarrow> \<exists>b \<in> set bs. block_holds le c found (- 1) b
      | Combi_done st' \<Rightarrow> \<not> (\<exists>b \<in> set bs. block_holds le c found (- 1) b) \<and>
          sc_bannedcombi st' = (sc_bannedcombi st \<or> (\<exists>b \<in> set bs. block_holds le c found 0 b)) \<and>
          (mode = 2 \<longrightarrow> sc_weighting st' = sc_weighting st + combi_total le c found bs) \<and> (bs = [] \<longrightarrow> st' = st))"
  using assms
proof (induction bs arbitrary: st)
  case Nil
  then show ?case by (simp add: combi_total_def)
next
  case (Cons b bs)
  obtain ids t ti w ct where b: "b = (ids, t, ti, w, ct)" by (metis prod.exhaust)
  have ids: "\<forall>i \<in> set ids. i < p_size (lc_ps c)" and ty: "t = - 1 \<or> t = 0 \<or> t = 1"
    using Cons.prems(1) by (auto simp: b block_ok_def)
  have ok: "list_all (block_ok (p_size (lc_ps c))) bs" using Cons.prems(1) by simp
  obtain now where now: "checkTimeAtD le ti c = Some now" using Cons.prems(2) by (auto simp: b block_time_def)
  let ?rest = "concat (map block_ints bs)"
  obtain so lo where parts: "combi_loop le c mode found (map int ids @ - 2 # t # ti # w # ct # ?rest) st
     = combi_loop le c mode found (- 2 # t # ti # w # ct # ?rest) (st\<lparr>sc_all := matched c found ids, sc_sofar := so, sc_lowest := lo\<rparr>)"
    using combi_parts_loop [OF ids Cons.prems(3)] by blast
  have split: "concat (map block_ints (b # bs)) = map int ids @ - 2 # t # ti # w # ct # ?rest" by (simp add: block_ints_def b)
  have holds: "block_holds le c found ty b \<longleftrightarrow> t = ty \<and> matched c found ids \<and> now" for ty
    by (simp add: block_holds_def b now)
  have wb: "block_weight b = w" by (simp add: block_weight_def b)
  define st1 where "st1 = st\<lparr>sc_all := matched c found ids, sc_sofar := so, sc_lowest := lo\<rparr>"
  define st2 where "st2 = (if \<not> matched c found ids then st1\<lparr>sc_all := True, sc_lowest := 0\<rparr>
     else if \<not> now then st1\<lparr>sc_sofar := []\<rparr>
     else if t = 1 then combi_weighted (lc_ps c) mode w ct st1 else combi_banned (lc_ps c) ct st1)"
  have step: "combi_loop le c mode found (concat (map block_ints (b # bs))) st =
     (if block_holds le c found (- 1) b then Some (Combi_exception (sc_sofar st1) ct) else combi_loop le c mode found ?rest st2)"
    using ty unfolding split parts st1_def [symmetric]
    by (auto simp: combi_loop.simps(2) now holds st2_def) (auto simp: st1_def)
  show ?case
  proof (cases "block_holds le c found (- 1) b")
    case True
    then show ?thesis using step by auto
  next
    case False
    have st2: "sc_all st2" "sc_bannedcombi st2 = (sc_bannedcombi st \<or> block_holds le c found 0 b)"
      "mode = 2 \<longrightarrow> sc_weighting st2 = sc_weighting st + (if block_holds le c found 1 b then block_weight b else 0)"
      using ty False Cons.prems(3)
      by (auto simp: st2_def st1_def holds combi_weighted_def combi_banned_def repeats_def wb Let_def)
    have times: "\<forall>b \<in> set bs. checkTimeAtD le (block_time b) c \<noteq> None" using Cons.prems(2) by simp
    from Cons.IH [OF ok times st2(1)] obtain r where r: "combi_loop le c mode found ?rest st2 = Some r"
      "case r of
        Combi_exception s ct \<Rightarrow> \<exists>b \<in> set bs. block_holds le c found (- 1) b
      | Combi_done st' \<Rightarrow> \<not> (\<exists>b \<in> set bs. block_holds le c found (- 1) b) \<and>
          sc_bannedcombi st' = (sc_bannedcombi st2 \<or> (\<exists>b \<in> set bs. block_holds le c found 0 b)) \<and>
          (mode = 2 \<longrightarrow> sc_weighting st' = sc_weighting st2 + combi_total le c found bs) \<and> (bs = [] \<longrightarrow> st' = st2)" by blast
    then show ?thesis using step False st2
      by (cases r) (auto simp: combi_total_def)
  qed
qed


section \<open>Lemmas: single phrases\<close>

text \<open>The entry of a found phrase counts, with a type.\<close>

definition entry_holds :: "lists_env \<Rightarrow> list_container \<Rightarrow> (string \<rightharpoonup> nat \<times> nat) \<Rightarrow> int \<Rightarrow> string \<Rightarrow> bool" where
  "entry_holds le c found ty phrase =
     (case found phrase of None \<Rightarrow> False | Some (i, n) \<Rightarrow> itemtype (lc_ps c) ! i = ty \<and> checkTimeAt le i c = Some True)"

definition entry_weight :: "list_container \<Rightarrow> nat \<Rightarrow> (string \<rightharpoonup> nat \<times> nat) \<Rightarrow> string \<Rightarrow> int" where
  "entry_weight c mode found phrase = (case found phrase of None \<Rightarrow> 0 | Some (i, n) \<Rightarrow> weight (lc_ps c) ! i * repeats mode n)"

definition single_total :: "lists_env \<Rightarrow> list_container \<Rightarrow> nat \<Rightarrow> (string \<rightharpoonup> nat \<times> nat) \<Rightarrow> string list \<Rightarrow> int" where
  "single_total le c mode found ks = (\<Sum>k\<leftarrow>ks. if entry_holds le c found 1 k then entry_weight c mode found k else 0)"

text \<open>The vectors of the list reach as far as its phrases, and its categories and time limits exist.\<close>

definition entries_ready :: "lists_env \<Rightarrow> list_container \<Rightarrow> bool" where
  "entries_ready le c \<longleftrightarrow> (\<forall>i < p_size (lc_ps c). checkTimeAt le i c \<noteq> None \<and> getListCategoryAt i (lc_ps c) \<noteq> None
     \<and> i < length (weight (lc_ps c)) \<and> i < length (itemtype (lc_ps c)))"

lemma single_weighted_total:
  assumes "i < length (weight ps)" "getListCategoryAt i ps \<noteq> None"
  shows "\<exists>st'. single_weighted shown ps mode phrase i n st = Some st' \<and> sc_bannedcombi st' = sc_bannedcombi st
     \<and> sc_weighting st' = sc_weighting st + weight ps ! i * repeats mode n"
  using assms by (auto simp: single_weighted_def nth_opt_def phrase_category_def Let_def)

lemma single_banned_naughty:
  assumes "getListCategoryAt i ps \<noteq> None"
  shows "\<exists>sg'. single_banned ps phrase i sg = Some sg' \<and> sc_bannedcombi (sg_score sg') = sc_bannedcombi (sg_score sg)
     \<and> sc_weighting (sg_score sg') = sc_weighting (sg_score sg)
     \<and> sg_naughty sg' = (sg_naughty sg \<or> \<not> sc_bannedcombi (sg_score sg))"
  using assms by (auto simp: single_banned_def phrase_category_def)

lemma single_loop_entries:
  assumes "entries_ready le c" "\<forall>k \<in> set ks. \<exists>i n. found k = Some (i, n) \<and> i < p_size (lc_ps c)"
  shows "\<exists>r. single_loop le c shown mode found ks sg = Some r \<and>
     (case r of
        Single_exception k i \<Rightarrow> (\<exists>k \<in> set ks. entry_holds le c found (- 1) k) \<and> i < p_size (lc_ps c)
      | Single_done sg' \<Rightarrow> \<not> (\<exists>k \<in> set ks. entry_holds le c found (- 1) k) \<and>
          sc_bannedcombi (sg_score sg') = sc_bannedcombi (sg_score sg) \<and>
          sg_naughty sg' = (sg_naughty sg \<or> \<not> sc_bannedcombi (sg_score sg) \<and> (\<exists>k \<in> set ks. entry_holds le c found 0 k)) \<and>
          sc_weighting (sg_score sg') = sc_weighting (sg_score sg) + single_total le c mode found ks)"
  using assms(2)
proof (induction ks arbitrary: sg)
  case Nil
  then show ?case by (simp add: single_total_def)
next
  case (Cons k ks)
  obtain i n where f: "found k = Some (i, n)" "i < p_size (lc_ps c)" using Cons.prems by auto
  obtain now where now: "checkTimeAt le i c = Some now" using assms(1) f(2) unfolding entries_ready_def by blast
  have rng: "getListCategoryAt i (lc_ps c) \<noteq> None" "i < length (weight (lc_ps c))" "i < length (itemtype (lc_ps c))"
    using assms(1) f(2) unfolding entries_ready_def by blast+
  define ty where "ty = itemtype (lc_ps c) ! i"
  have holds: "entry_holds le c found t k \<longleftrightarrow> ty = t \<and> now" for t by (simp add: entry_holds_def f now ty_def)
  have wt: "entry_weight c mode found k = weight (lc_ps c) ! i * repeats mode n" by (simp add: entry_weight_def f)
  define nx where "nx = (if ty = 0 then single_banned (lc_ps c) k i sg
     else if ty = 1 then map_option (\<lambda>s. sg\<lparr>sg_score := s\<rparr>) (single_weighted shown (lc_ps c) mode k i n (sg_score sg)) else Some sg)"
  obtain sg1 where sg1: "nx = Some sg1" "sc_bannedcombi (sg_score sg1) = sc_bannedcombi (sg_score sg)"
    "sg_naughty sg1 = (sg_naughty sg \<or> ty = 0 \<and> \<not> sc_bannedcombi (sg_score sg))"
    "sc_weighting (sg_score sg1) = sc_weighting (sg_score sg) + (if ty = 1 then entry_weight c mode found k else 0)"
    using single_banned_naughty [OF rng(1), of k sg] single_weighted_total [OF rng(2,1), of shown mode k n "sg_score sg"]
    by (cases "ty = 0"; cases "ty = 1") (auto simp: nx_def wt)
  have step: "single_loop le c shown mode found (k # ks) sg =
     (if \<not> now then single_loop le c shown mode found ks sg
      else if ty = - 1 then Some (Single_exception k i) else single_loop le c shown mode found ks sg1)"
    using sg1(1) rng by (auto simp: f now nth_opt_def ty_def [symmetric] nx_def [symmetric])
  show ?case
  proof (cases "now \<and> ty = - 1")
    case True
    then show ?thesis using step holds f by auto
  next
    case False
    have rest: "\<forall>k \<in> set ks. \<exists>i n. found k = Some (i, n) \<and> i < p_size (lc_ps c)" using Cons.prems by simp
    define sg2 where "sg2 = (if now then sg1 else sg)"
    have sg2: "sc_bannedcombi (sg_score sg2) = sc_bannedcombi (sg_score sg)"
      "sg_naughty sg2 = (sg_naughty sg \<or> entry_holds le c found 0 k \<and> \<not> sc_bannedcombi (sg_score sg))"
      "sc_weighting (sg_score sg2) = sc_weighting (sg_score sg) + (if entry_holds le c found 1 k then entry_weight c mode found k else 0)"
      using sg1 by (auto simp: sg2_def holds)
    have ex: "\<not> entry_holds le c found (- 1) k" using False holds by blast
    have "single_loop le c shown mode found (k # ks) sg = single_loop le c shown mode found ks sg2"
      using step False by (auto simp: sg2_def)
    moreover obtain r where r: "single_loop le c shown mode found ks sg2 = Some r"
      "case r of
        Single_exception k i \<Rightarrow> (\<exists>k \<in> set ks. entry_holds le c found (- 1) k) \<and> i < p_size (lc_ps c)
      | Single_done sg' \<Rightarrow> \<not> (\<exists>k \<in> set ks. entry_holds le c found (- 1) k) \<and>
          sc_bannedcombi (sg_score sg') = sc_bannedcombi (sg_score sg2) \<and>
          sg_naughty sg' = (sg_naughty sg2 \<or> \<not> sc_bannedcombi (sg_score sg2) \<and> (\<exists>k \<in> set ks. entry_holds le c found 0 k)) \<and>
          sc_weighting (sg_score sg') = sc_weighting (sg_score sg2) + single_total le c mode found ks"
      using Cons.IH [OF rest, of sg2] by blast
    ultimately show ?thesis using ex sg2 by (cases r) (auto simp: single_total_def)
  qed
qed


section \<open>Lemmas: the decision\<close>

lemma log_weighted_flags [simp]:
  "cm_isItNaughty (log_weighted env foc searchterms limit st cm) = cm_isItNaughty cm"
  "cm_isException (log_weighted env foc searchterms limit st cm) = cm_isException cm"
  by (simp_all add: log_weighted_def Let_def split: option.split)

lemma decide_flags:
  "cm_isItNaughty (decide env foc searchterms limit sg cm) =
     (sc_bannedcombi (sg_score sg) \<or> sg_naughty sg \<or> limit < sc_weighting (sg_score sg))"
  "cm_isException (decide env foc searchterms limit sg cm) = cm_isException cm"
  by (simp_all add: decide_def Let_def)

lemma phrase_exception_flags [simp]:
  "\<not> cm_isItNaughty (phrase_exception env mno phrase cat cm)" "cm_isException (phrase_exception env mno phrase cat cm)"
  by (simp_all add: phrase_exception_def)

lemma checkphrase_exclusive:
  assumes "checkphrase env foc pl limit searchterms cat file n cm = Some (file', cm')" "\<not> cm_isException cm"
  shows "\<not> (cm_isItNaughty cm' \<and> cm_isException cm')"
  using assms
  by (auto simp: checkphrase_def Let_def decide_flags split: option.splits combi_result.splits single_result.splits)

lemma found_keys_set: "set (found_keys ps found) = {k. found k \<noteq> None \<and> (\<exists>i < items (p_items ps). k = getItemAtInt i (p_items ps))}"
  by (auto simp: found_keys_def)

lemma score_new_simps [simp]: "sc_all (score_new cat)" "\<not> sc_bannedcombi (score_new cat)" "sc_weighting (score_new cat) = 0"
  by (simp_all add: score_new_def)

text \<open>What the decision depends on: an exception, a ban, and the score.\<close>

definition excepted :: "lists_env \<Rightarrow> list_container \<Rightarrow> (string \<rightharpoonup> nat \<times> nat) \<Rightarrow> combi_block list \<Rightarrow> bool" where
  "excepted le c found bs \<longleftrightarrow> (\<exists>b \<in> set bs. block_holds le c found (- 1) b) \<or> (\<exists>k \<in> set (found_keys (lc_ps c) found). entry_holds le c found (- 1) k)"

definition banned :: "lists_env \<Rightarrow> list_container \<Rightarrow> (string \<rightharpoonup> nat \<times> nat) \<Rightarrow> combi_block list \<Rightarrow> bool" where
  "banned le c found bs \<longleftrightarrow> (\<exists>b \<in> set bs. block_holds le c found 0 b) \<or> (\<exists>k \<in> set (found_keys (lc_ps c) found). entry_holds le c found 0 k)"

definition total_score :: "lists_env \<Rightarrow> list_container \<Rightarrow> nat \<Rightarrow> (string \<rightharpoonup> nat \<times> nat) \<Rightarrow> combi_block list \<Rightarrow> int" where
  "total_score le c mode found bs = combi_total le c found bs + single_total le c mode found (found_keys (lc_ps c) found)"

lemma checkphrase_decides_found:
  assumes get: "lc_get (ce_manager env) pl = Some c"
    and combis: "combilist (lc_ps c) = concat (map block_ints bs)" "list_all (block_ok (p_size (lc_ps c))) bs"
      "\<forall>b \<in> set bs. checkTimeAtD (ce_lists env) (block_time b) c \<noteq> None"
    and ready: "entries_ready (ce_lists env) c"
    and search: "graphSearch (lc_ps c) (take n file) (drop n file) Map.empty = Some found"
    and range: "\<And>k i m. found k = Some (i, m) \<Longrightarrow> i < p_size (lc_ps c)"
    and fresh: "\<not> cm_isItNaughty cm" "\<not> cm_isException cm" and mode: "po_weighted_phrase_mode foc = 2 \<or> bs = []"
  shows "\<exists>file' cm'. checkphrase env foc pl limit searchterms cat file n cm = Some (file', cm')
    \<and> cm_isException cm' = excepted (ce_lists env) c found bs
    \<and> cm_isItNaughty cm' = (\<not> excepted (ce_lists env) c found bs
        \<and> (banned (ce_lists env) c found bs \<or> limit < total_score (ce_lists env) c (po_weighted_phrase_mode foc) found bs))"
proof -
  let ?le = "ce_lists env" and ?ps = "lc_ps c" and ?mode = "po_weighted_phrase_mode foc"
  let ?keys = "found_keys ?ps found"
  have keys: "\<forall>k \<in> set ?keys. \<exists>i n. found k = Some (i, n) \<and> i < p_size ?ps"
    using range by (fastforce simp: found_keys_set)
  obtain r where r: "combi_loop ?le c ?mode found (combilist ?ps) (score_new cat) = Some r"
    "case r of
        Combi_exception s ct \<Rightarrow> \<exists>b \<in> set bs. block_holds ?le c found (- 1) b
      | Combi_done st' \<Rightarrow> \<not> (\<exists>b \<in> set bs. block_holds ?le c found (- 1) b) \<and>
          sc_bannedcombi st' = (sc_bannedcombi (score_new cat) \<or> (\<exists>b \<in> set bs. block_holds ?le c found 0 b)) \<and>
          (?mode = 2 \<longrightarrow> sc_weighting st' = sc_weighting (score_new cat) + combi_total ?le c found bs) \<and> (bs = [] \<longrightarrow> st' = score_new cat)"
    using combi_loop_blocks [OF combis(2,3) score_new_simps(1), of ?mode found cat] unfolding combis(1) by blast
  show ?thesis
  proof (cases r)
    case (Combi_exception s ct)
    then show ?thesis using r get search by (auto simp: checkphrase_def Let_def excepted_def)
  next
    case (Combi_done st)
    define sg where "sg = \<lparr>sg_score = st, sg_naughty = cm_isItNaughty cm, sg_bannedphrase = []\<rparr>"
    have w: "sc_weighting st = combi_total ?le c found bs"
      using r(2) mode by (auto simp: Combi_done combi_total_def)
    have cs: "\<not> (\<exists>b \<in> set bs. block_holds ?le c found (- 1) b)" "sc_bannedcombi st = (\<exists>b \<in> set bs. block_holds ?le c found 0 b)"
      using r(2) by (simp_all add: Combi_done)
    obtain r2 where r2: "single_loop ?le c (ce_show_weighted_found env) ?mode found ?keys sg = Some r2"
      "case r2 of
        Single_exception k i \<Rightarrow> (\<exists>k \<in> set ?keys. entry_holds ?le c found (- 1) k) \<and> i < p_size ?ps
      | Single_done sg' \<Rightarrow> \<not> (\<exists>k \<in> set ?keys. entry_holds ?le c found (- 1) k) \<and>
          sc_bannedcombi (sg_score sg') = sc_bannedcombi (sg_score sg) \<and>
          sg_naughty sg' = (sg_naughty sg \<or> \<not> sc_bannedcombi (sg_score sg) \<and> (\<exists>k \<in> set ?keys. entry_holds ?le c found 0 k)) \<and>
          sc_weighting (sg_score sg') = sc_weighting (sg_score sg) + single_total ?le c ?mode found ?keys"
      using single_loop_entries [OF ready keys] by blast
    show ?thesis
    proof (cases r2)
      case (Single_exception k i)
      then obtain s where "getListCategoryAt i ?ps = Some s" using r2(2) ready by (auto simp: entries_ready_def)
      then show ?thesis using r(1) r2 get search Combi_done Single_exception
        by (auto simp: checkphrase_def Let_def excepted_def sg_def)
    next
      case (Single_done sg')
      have "checkphrase env foc pl limit searchterms cat file n cm
         = Some (take n file @ slow_residue ?ps (take n file) (drop n file), decide env foc searchterms limit sg' cm)"
        using r(1) r2(1) get search by (simp add: checkphrase_def Let_def Combi_done Single_done sg_def)
      then show ?thesis using r2(2) cs w fresh
        by (auto simp: Single_done decide_flags excepted_def banned_def total_score_def sg_def)
    qed
  qed
qed


section \<open>Lemmas: the scan returns\<close>

text \<open>A phrase list that is ready: its graph is built, its phrases have at most 126 bytes and its combinations, categories
  and time limits are those it holds.\<close>

definition container_ready :: "lists_env \<Rightarrow> list_container \<Rightarrow> bool" where
  "container_ready le c \<longleftrightarrow> searchable (lc_ps c)
     \<and> (\<forall>i < p_size (lc_ps c). p_text (lc_ps c) i \<noteq> [] \<and> length (p_text (lc_ps c) i) \<le> 126) \<and> entries_ready le c
     \<and> (\<exists>bs. combilist (lc_ps c) = concat (map block_ints bs) \<and> list_all (block_ok (p_size (lc_ps c))) bs
         \<and> (\<forall>b \<in> set bs. checkTimeAtD le (block_time b) c \<noteq> None))"

definition list_ready :: "content_env \<Rightarrow> nat \<Rightarrow> bool" where
  "list_ready env i \<longleftrightarrow> (\<exists>c. lc_get (ce_manager env) i = Some c \<and> container_ready (ce_lists env) c)"

lemma checkphrase_returns:
  assumes "list_ready env pl" "n + 125 \<le> length file" "\<not> cm_isException cm"
  shows "\<exists>file' cm'. checkphrase env foc pl limit searchterms cat file n cm = Some (file', cm')
     \<and> length file \<le> length file' \<and> \<not> (cm_isItNaughty cm' \<and> cm_isException cm')"
proof -
  obtain c where get: "lc_get (ce_manager env) pl = Some c" and rd: "container_ready (ce_lists env) c"
    using assms(1) by (auto simp: list_ready_def)
  let ?le = "ce_lists env" and ?ps = "lc_ps c" and ?mode = "po_weighted_phrase_mode foc"
  let ?file = "take n file @ slow_residue ?ps (take n file) (drop n file)"
  obtain bs where bs: "combilist ?ps = concat (map block_ints bs)" "list_all (block_ok (p_size ?ps)) bs"
    "\<forall>b \<in> set bs. checkTimeAtD ?le (block_time b) c \<noteq> None" using rd unfolding container_ready_def by blast
  have s: "searchable ?ps" "\<forall>i < p_size ?ps. p_text ?ps i \<noteq> [] \<and> length (p_text ?ps i) \<le> 126" "entries_ready ?le c"
    using rd unfolding container_ready_def by blast+
  obtain found where f: "graphSearch ?ps (take n file) (drop n file) Map.empty = Some found" "result_ok ?ps (take n file) found"
  proof -
    have "126 \<le> Suc (length (drop n file))" using assms(2) by simp
    from graphSearch_reports [OF s(1,2) this, of "take n file"] show thesis using that by blast
  qed
  have keys: "\<forall>k \<in> set (found_keys ?ps found). \<exists>i n. found k = Some (i, n) \<and> i < p_size ?ps"
    using f(2) by (fastforce simp: found_keys_set result_ok_def)
  have len: "length file \<le> length ?file"
    using slow_residue_length [of "drop n file" ?ps "take n file"] by simp
  have ret: "\<exists>cm'. checkphrase env foc pl limit searchterms cat file n cm = Some (?file, cm')"
  proof -
    obtain r where r: "combi_loop ?le c ?mode found (combilist ?ps) (score_new cat) = Some r"
      using combi_loop_blocks [OF bs(2,3) score_new_simps(1), of ?mode found cat] unfolding bs(1) by blast
    show ?thesis
    proof (cases r)
      case (Combi_exception so ct)
      then show ?thesis using r get f(1) by (simp add: checkphrase_def Let_def)
    next
      case (Combi_done st)
      obtain r2 where r2: "single_loop ?le c (ce_show_weighted_found env) ?mode found (found_keys ?ps found)
            \<lparr>sg_score = st, sg_naughty = cm_isItNaughty cm, sg_bannedphrase = []\<rparr> = Some r2"
        "\<forall>k i. r2 = Single_exception k i \<longrightarrow> i < p_size ?ps"
      proof -
        let ?sg = "\<lparr>sg_score = st, sg_naughty = cm_isItNaughty cm, sg_bannedphrase = []\<rparr>"
        obtain r2 where "single_loop ?le c (ce_show_weighted_found env) ?mode found (found_keys ?ps found) ?sg = Some r2"
          "case r2 of Single_exception k i \<Rightarrow> i < p_size ?ps | Single_done sg' \<Rightarrow> True"
          using single_loop_entries [OF s(3) keys, of "ce_show_weighted_found env" ?mode ?sg] by (force split: single_result.splits)
        then show thesis using that by (cases r2) auto
      qed
      have "getListCategoryAt i ?ps \<noteq> None" if "r2 = Single_exception k i" for k i
        using r2(2) that s(3) unfolding entries_ready_def by blast
      then show ?thesis using r r2(1) get f(1) Combi_done
        by (cases r2) (auto simp: checkphrase_def Let_def)
    qed
  qed
  then obtain cm' where cm': "checkphrase env foc pl limit searchterms cat file n cm = Some (?file, cm')" by blast
  show ?thesis using cm' len checkphrase_exclusive [OF cm' assms(3)] by blast
qed

lemma strip_loop_bounds: "length out \<le> length (strip_loop b cs out) \<and> length (strip_loop b cs out) \<le> length out + length cs"
proof (induction cs arbitrary: b out)
  case (Cons c cs)
  let ?b = "if c = CHR ''<'' then True else if c = CHR ''>'' then False else b" and ?c = "if c = CHR ''>'' then CHR '' '' else c"
  have "\<exists>P. strip_loop b (c # cs) out = strip_loop ?b cs (if P then out @ [?c] else out)"
    unfolding strip_loop.simps Let_def by (rule exI) (rule refl)
  then obtain P where "strip_loop b (c # cs) out = strip_loop ?b cs (if P then out @ [?c] else out)" by blast
  then show ?case using Cons.IH [of out ?b] Cons.IH [of "out @ [?c]" ?b] by (cases P) (simp_all del: strip_loop.simps)
qed simp

lemma meta_loop_step:
  assumes "i < fin"
  shows "\<exists>i' a' n' out'. meta_loop preserve buf fin i addit needcheck out = meta_loop preserve buf fin i' a' n' out'
     \<and> i < i' \<and> length out' \<le> Suc (length out)"
  apply (subst meta_loop.simps)
  apply (simp only: assms if_True Let_def)
  apply (intro exI conjI, rule refl)
   apply simp_all
  done

lemma meta_loop_length:
  "meta_loop preserve buf fin i addit needcheck out = (b, out') \<Longrightarrow> length out' \<le> length out + (fin - i)"
proof (induction "fin - i" arbitrary: i addit needcheck out rule: less_induct)
  case less
  show ?case
  proof (cases "i < fin")
    case False
    then show ?thesis using less.prems by (simp add: meta_loop.simps)
  next
    case True
    then obtain i' a' n' out1 where step: "meta_loop preserve buf fin i addit needcheck out = meta_loop preserve buf fin i' a' n' out1"
      "i < i'" "length out1 \<le> Suc (length out)" using meta_loop_step by metis
    have "fin - i' < fin - i" using step(2) True by simp
    from less.hyps [OF this, of a' n' out1] have "length out' \<le> length out1 + (fin - i')" using less.prems step(1) by simp
    then show ?thesis using step(2,3) True by simp
  qed
qed

lemma scan_returns:
  assumes "list_ready env (sa_phraselist sa)" "n + 125 \<le> length file" "\<not> cm_isException cm"
  shows "\<exists>file' cm'. scan env sa k file n cm = Some (file', cm') \<and> length file \<le> length file' \<and> \<not> (cm_isItNaughty cm' \<and> cm_isException cm')"
  unfolding scan_def by (rule checkphrase_returns [OF assms])

lemma scan_meta_returns:
  assumes "list_ready env (sa_phraselist sa)" "\<not> settled cm"
  shows "\<exists>cm'. scan_meta env sa k preserve bodylc n cm = Some cm' \<and> \<not> (cm_isItNaughty cm' \<and> cm_isException cm')"
proof -
  let ?e = "head_end preserve (take n bodylc)"
  obtain b out where m: "meta_loop preserve bodylc (?e - 7) 0 False False '' '' = (b, out)" by (metis surj_pair)
  have "length out \<le> 1 + (?e - 7)" using meta_loop_length [OF m] by simp
  then have "Suc (length out) + 125 \<le> length (out @ zeros (?e + 129 - length out))" by (simp add: zeros_def)
  then obtain file' cm' where "scan env sa k (out @ zeros (?e + 129 - length out)) (Suc (length out)) cm = Some (file', cm')"
    "\<not> (cm_isItNaughty cm' \<and> cm_isException cm')"
    using scan_returns [OF assms(1)] assms(2) unfolding settled_def by blast
  then show ?thesis using assms(2) m by (auto simp: scan_meta_def settled_def)
qed

lemma scan_nohtml_returns:
  assumes "list_ready env (sa_phraselist sa)" "\<not> settled cm" "n + 129 \<le> length nohtml" "n \<le> length lc"
  shows "\<exists>file' cm'. scan_nohtml env sa k lc nohtml n cm = Some (file', cm') \<and> length nohtml \<le> length file' \<and> \<not> (cm_isItNaughty cm' \<and> cm_isException cm')"
proof -
  let ?out = "strip_loop False (take n lc) '' ''"
  have l: "length ?out \<le> 1 + n" "1 \<le> length ?out"
    using strip_loop_bounds [where b = False and cs = "take n lc" and out = "'' ''"] assms(4) by auto
  let ?file = "?out @ drop (length ?out) nohtml"
  have f: "length ?file = length nohtml" using l assms(3) by simp
  then have "(length ?out - 1) + 125 \<le> length ?file" using l assms(3) by simp
  then show ?thesis using scan_returns [OF assms(1), of "length ?out - 1" ?file cm k] assms(2) f
    unfolding scan_nohtml_def settled_def Let_def by metis
qed

lemma check_rounds_returns:
  assumes "list_ready env (sa_phraselist sa)"
  shows "\<not> settled cm \<Longrightarrow> length body + 129 \<le> length lc \<Longrightarrow> length body + 129 \<le> length nohtml \<Longrightarrow>
    \<exists>cm'. check_rounds env sa body ps k lc nohtml cm = Some cm' \<and> \<not> (cm_isItNaughty cm' \<and> cm_isException cm')"
proof (induction ps arbitrary: k lc nohtml cm)
  case Nil
  then show ?case by (simp add: settled_def)
next
  case (Cons preserve ps)
  let ?n = "length body"
  define lc0 where "lc0 = map (fold_byte preserve (do_nohtml env sa \<or> ce_phrase_filter_mode env = 3)) body @ drop ?n lc"
  define lc1 where "lc1 = (if do_nohtml env sa then map untag (take ?n lc0) @ drop ?n lc0 else lc0)"
  have lens: "length lc0 = length lc" "length lc1 = length lc" using Cons.prems(2) by (simp_all add: lc0_def lc1_def)
  show ?case
  proof (cases "\<not> sa_searchterms sa \<and> ce_phrase_filter_mode env = 3")
    case True
    then show ?thesis using scan_meta_returns [OF assms Cons.prems(1), of k preserve lc0 ?n] by (simp add: lc0_def Let_def)
  next
    case meta: False
    obtain nohtml1 cm1 where one: "(if do_nohtml env sa then scan_nohtml env sa k lc0 nohtml ?n cm else Some (nohtml, cm)) = Some (nohtml1, cm1)"
      "length nohtml \<le> length nohtml1" "\<not> (cm_isItNaughty cm1 \<and> cm_isException cm1)" "do_nohtml env sa \<or> cm1 = cm"
    proof (cases "do_nohtml env sa")
      case True
      then show thesis using that scan_nohtml_returns [OF assms Cons.prems(1,3), of lc0 k] lens Cons.prems(2) by auto
    next
      case False
      then show thesis using that Cons.prems(1) by (simp add: settled_def)
    qed
    have step: "check_rounds env sa body (preserve # ps) k lc nohtml cm =
       (if do_nohtml env sa \<and> settled cm1 \<or> \<not> do_raw env then Some cm1
        else case scan env sa (Suc k) lc1 ?n cm1 of None \<Rightarrow> None
          | Some (lc2, cm2) \<Rightarrow> if settled cm2 then Some cm2 else check_rounds env sa body ps (k + 2) lc2 nohtml1 cm2)"
      unfolding check_rounds.simps Let_def lc0_def [symmetric] lc1_def [symmetric] one(1) if_not_P [OF meta] option.case prod.case ..
    show ?thesis
    proof (cases "do_nohtml env sa \<and> settled cm1 \<or> \<not> do_raw env")
      case True
      then show ?thesis using step one(3) by simp
    next
      case False
      then have "\<not> settled cm1" using one(4) Cons.prems(1) by auto
      then have "\<not> cm_isException cm1" by (simp add: settled_def)
      then obtain lc2 cm2 where two: "scan env sa (Suc k) lc1 ?n cm1 = Some (lc2, cm2)" "length lc1 \<le> length lc2"
        "\<not> (cm_isItNaughty cm2 \<and> cm_isException cm2)"
        using scan_returns [OF assms, of ?n lc1 cm1 "Suc k"] lens Cons.prems(2) by auto
      show ?thesis
      proof (cases "settled cm2")
        case True
        then show ?thesis using step False two by simp
      next
        case s2: False
        have "\<exists>cm'. check_rounds env sa body ps (k + 2) lc2 nohtml1 cm2 = Some cm' \<and> \<not> (cm_isItNaughty cm' \<and> cm_isException cm')"
          by (rule Cons.IH [OF s2]) (use Cons.prems lens two(2) one(2) in linarith)+
        then show ?thesis using step False two(1) s2 by simp
      qed
    qed
  qed
qed

section \<open>Properties\<close>

text \<open>C14: with a phrase list that is ready, the scan of a body or of search terms ends, with every search for phrases inside
  of its buffer and the space behind it, and a request that was neither naughty nor an exception does not become both.\<close>

theorem checkme_returns:
  assumes "list_ready env (sa_phraselist sa)" and "\<not> cm_isItNaughty cm" and "\<not> cm_isException cm"
  shows "\<exists>cm'. checkme env sa body cm = Some cm' \<and> \<not> (cm_isItNaughty cm' \<and> cm_isException cm')"
proof -
  have s: "\<not> settled cm" using assms by (simp add: settled_def)
  show ?thesis using check_rounds_returns [OF assms(1) s] assms(2) by (simp add: checkme_def Let_def zeros_def)
qed

text \<open>C35: with phrase filter mode 1 search terms are not scanned at all.\<close>

theorem search_terms_unchecked:
  assumes "sa_searchterms sa" and "ce_phrase_filter_mode env = 1"
  shows "checkme env sa terms cm = Some cm"
  using assms by (simp add: checkme_def do_nohtml_def do_raw_def Let_def)


text \<open>C12: the decision on a text, where phrases count once: it is an exception exactly when an exception phrase or
  combination that is found holds at this time; otherwise it is naughty exactly when a banned one holds
  or the weights that hold add up to more than the limit.\<close>

theorem checkphrase_decides:
  assumes "lc_get (ce_manager env) pl = Some c" and "container_ready (ce_lists env) c"
    and "combilist (lc_ps c) = concat (map block_ints bs)" and "list_all (block_ok (p_size (lc_ps c))) bs"
    and "n + 125 \<le> length file" and "\<not> cm_isItNaughty cm" and "\<not> cm_isException cm" and "po_weighted_phrase_mode foc = 2"
    and "\<forall>b \<in> set bs. checkTimeAtD (ce_lists env) (block_time b) c \<noteq> None"
  shows "\<exists>found file' cm'. graphSearch (lc_ps c) (take n file) (drop n file) Map.empty = Some found
    \<and> checkphrase env foc pl limit searchterms cat file n cm = Some (file', cm')
    \<and> cm_isException cm' = excepted (ce_lists env) c found bs
    \<and> cm_isItNaughty cm' = (\<not> excepted (ce_lists env) c found bs
        \<and> (banned (ce_lists env) c found bs \<or> limit < total_score (ce_lists env) c 2 found bs))"
proof -
  let ?ps = "lc_ps c"
  have s: "searchable ?ps" "\<forall>i < p_size ?ps. p_text ?ps i \<noteq> [] \<and> length (p_text ?ps i) \<le> 126" "entries_ready (ce_lists env) c"
    using assms(2) unfolding container_ready_def by blast+
  have l: "126 \<le> Suc (length (drop n file))" using assms(5) by simp
  obtain found where f: "graphSearch ?ps (take n file) (drop n file) Map.empty = Some found" "result_ok ?ps (take n file) found"
    using graphSearch_reports [OF s(1,2) l, of "take n file"] by blast
  have "\<And>k i m. found k = Some (i, m) \<Longrightarrow> i < p_size ?ps" using f(2) unfolding result_ok_def by blast
  from checkphrase_decides_found [OF assms(1,3,4,9) s(3) f(1) this assms(6,7), where foc = foc and limit = limit and searchterms = searchterms and cat = cat] assms(8) f(1)
  show ?thesis by auto
qed

text \<open>A list with a banned phrase, an exception and a combination.\<close>

definition demo_phrase_store :: phrase_store where
  "demo_phrase_store = phrase_store_new\<lparr>p_items := store_of [''bad'', ''good'', ''sale'', ''pill''], weight := [0, 0, 0, 0], itemtype := [0, - 1, 10, 10],
     categoryindex := [0, 0, 0, 0], timelimitindex := [- 1, - 1, - 1, - 1], combilist := [2, 3, - 2, 1, - 1, 60, 0], listcategory := [''misc'']\<rparr>"

definition demo_phrases_list :: list_container where
  "demo_phrases_list = list_container_new\<lparr>lc_ps := makeGraph_quick demo_phrase_store\<rparr>"

definition demo_content :: content_env where
  "demo_content = \<lparr>ce_lists = demo_env, ce_manager = \<lparr>l = [Some demo_phrases_list], cin = []\<rparr>, ce_language = \<lparr>lk_keys = [], lk_values = []\<rparr>,
     ce_hex_decode_content = True, ce_preserve_case = 0, ce_phrase_filter_mode = 2, ce_show_weighted_found = True, ce_show_all_weighted_found = False\<rparr>"

lemma demo_phrase_items: "p_size demo_phrase_store = 4" "phrase_vecs demo_phrase_store" "slowgraph demo_phrase_store = []"
  using store_of_items [of "[''bad'', ''good'', ''sale'', ''pill'']"]
  by (simp_all add: demo_phrase_store_def phrase_store_new_def phrase_vecs_def p_size_def nul_def)

lemma demo_phrase_texts: "map (p_text (makeGraph_quick demo_phrase_store)) [0..<4] = [''bad'', ''good'', ''sale'', ''pill'']"
  by code_simp

lemma demo_entries:
  "list_all (\<lambda>i. checkTimeAt demo_env i demo_phrases_list \<noteq> None \<and> getListCategoryAt i (lc_ps demo_phrases_list) \<noteq> None
     \<and> i < length (weight (lc_ps demo_phrases_list)) \<and> i < length (itemtype (lc_ps demo_phrases_list))) [0..<4]"
  by code_simp

lemma demo_combis: "combilist (lc_ps demo_phrases_list) = concat (map block_ints [([2, 3], 1, - 1, 60, 0)])"
  "checkTimeAtD demo_env (- 1) demo_phrases_list \<noteq> None"
  by code_simp+

lemma demo_phrases_ready: "container_ready demo_env demo_phrases_list"
proof -
  let ?ps = "lc_ps demo_phrases_list"
  have ps: "?ps = makeGraph_quick demo_phrase_store" by (simp add: demo_phrases_list_def)
  have made: "makeGraph True demo_phrase_store = Some ?ps" by (simp add: makeGraph_def ps)
  have raw: "map (p_text demo_phrase_store) [0..<4] = [''bad'', ''good'', ''sale'', ''pill'']" by code_simp
  have nonempty: "\<forall>i < p_size demo_phrase_store. p_text demo_phrase_store i \<noteq> []"
    using raw demo_phrase_items(1) by (auto simp: numeral_eq_Suc less_Suc_eq)
  have s: "searchable ?ps" "p_items ?ps = p_items demo_phrase_store"
    using makeGraph_searchable [OF made demo_phrase_items(2,3) _ nonempty] demo_phrase_items(1) by simp_all
  have sz: "p_size ?ps = 4" using s(2) demo_phrase_items(1) by (simp add: p_size_def)
  have texts: "\<forall>i < 4. p_text ?ps i \<noteq> [] \<and> length (p_text ?ps i) \<le> 126"
    using demo_phrase_texts by (auto simp: ps numeral_eq_Suc less_Suc_eq)
  have entries: "entries_ready demo_env demo_phrases_list"
    using demo_entries unfolding entries_ready_def sz by (auto simp: numeral_eq_Suc less_Suc_eq)
  have blocks: "list_all (block_ok (p_size ?ps)) [([2, 3], 1, - 1, 60, 0)]" by (simp add: sz block_ok_def)
  show ?thesis unfolding container_ready_def sz
    using s(1) texts entries demo_combis blocks by (auto simp: block_time_def sz intro!: exI [of _ "[([2, 3], 1, - 1, 60, 0)]"])
qed


definition demo_scan :: scan_args where
  "demo_scan = \<lparr>sa_foc = \<lparr>po_weighted_phrase_mode = 2, po_category_threshold = 0\<rparr>, sa_phraselist = 0, sa_limit = 50, sa_searchterms = False, sa_cat = (\<lambda>_. 0)\<rparr>"

definition demo_request :: naughty_filter where
  "demo_request = naughty_filter_new \<lparr>ne_rx = lib_a, ne_urldecode_re = reg_exp_new, ne_anonymise_logs = False, ne_no_proxy = False\<rparr>
     demo_header (http_header_new True Null) None"

lemma demo_request_fresh: "\<not> cm_isItNaughty demo_request" "\<not> cm_isException demo_request"
  by (simp_all add: demo_request_def naughty_filter_new_def nf_reset_def)

lemma demo_content_list: "lc_get (ce_manager demo_content) 0 = Some demo_phrases_list" "ce_lists demo_content = demo_env"
  by (simp_all add: demo_content_def lc_get_def)

theorem checkphrase_decides_witness:
  "\<exists>found file' cm'. graphSearch (lc_ps demo_phrases_list) ''a bad pill'' (zeros 125) Map.empty = Some found
    \<and> checkphrase demo_content (sa_foc demo_scan) 0 50 False 0 (''a bad pill'' @ zeros 125) 10 demo_request = Some (file', cm')
    \<and> cm_isException cm' = excepted demo_env demo_phrases_list found [([2, 3], 1, - 1, 60, 0)]
    \<and> cm_isItNaughty cm' = (\<not> excepted demo_env demo_phrases_list found [([2, 3], 1, - 1, 60, 0)]
        \<and> (banned demo_env demo_phrases_list found [([2, 3], 1, - 1, 60, 0)]
           \<or> 50 < total_score demo_env demo_phrases_list 2 found [([2, 3], 1, - 1, 60, 0)]))"
proof -
  have sz: "p_size (lc_ps demo_phrases_list) = 4" by code_simp
  have blocks: "list_all (block_ok (p_size (lc_ps demo_phrases_list))) [([2, 3], 1, - 1, 60, 0)]" by (simp add: sz block_ok_def)
  have times: "\<forall>b \<in> set [([2, 3], 1, - 1, 60, 0)]. checkTimeAtD (ce_lists demo_content) (block_time b) demo_phrases_list \<noteq> None"
    using demo_combis(2) demo_content_list(2) by (simp add: block_time_def)
  have room: "10 + 125 \<le> length (''a bad pill'' @ zeros 125)" by (simp add: zeros_def)
  have mode: "po_weighted_phrase_mode (sa_foc demo_scan) = 2" by (simp add: demo_scan_def)
  have cut: "take 10 (''a bad pill'' @ zeros 125) = ''a bad pill''" "drop 10 (''a bad pill'' @ zeros 125) = zeros 125" by simp_all
  from checkphrase_decides [OF demo_content_list(1) demo_phrases_ready [folded demo_content_list(2)] demo_combis(1) blocks room demo_request_fresh mode times,
      where limit = 50 and searchterms = False and cat = 0]
  show ?thesis unfolding cut demo_content_list(2) .
qed

theorem checkme_returns_witness:
  "\<exists>cm'. checkme demo_content demo_scan ''<b>a bad pill</b>'' demo_request = Some cm' \<and> \<not> (cm_isItNaughty cm' \<and> cm_isException cm')"
proof -
  have "list_ready demo_content (sa_phraselist demo_scan)"
    using demo_content_list demo_phrases_ready by (auto simp: list_ready_def demo_scan_def)
  from checkme_returns [OF this demo_request_fresh] show ?thesis .
qed

theorem search_terms_unchecked_witness:
  "checkme (demo_content\<lparr>ce_phrase_filter_mode := 1\<rparr>) (demo_scan\<lparr>sa_searchterms := True\<rparr>) ''bad'' demo_request = Some demo_request"
  by (rule search_terms_unchecked) simp_all

end
