(* ===== verification/Auth_IP.thy ===== *)
theory Auth_IP
  imports Naughty_Filter IP_Match
begin

text \<open>
  The authentication plugin that maps addresses to filter groups (\<^verbatim>\<open>src/src/authplugins/ip.cpp\<close>): the file of
  addresses, subnets and ranges with their groups, its reload, the address a request counts for, and the group
  of an address. Two names stand for groups that do not exist: addresses that are always allowed and
  addresses that are always blocked.

  The resolver and the regular expressions are those of \<open>netlib\<close>. Files are a parameter: what can be read,
  which directories can be made and which files can be written. The number of the current lists
  (\<^verbatim>\<open>reload_id\<close>) is an argument. The mutex is not modelled: each operation is one step.
\<close>

section \<open>State\<close>

record ip_entry =
  ie_addr :: "32 word"
  ie_group :: int

record ip_subnet_entry =
  se_net :: ipl_subnetstruct
  se_group :: int

record ip_range_entry =
  re_range :: ipl_rangestruct
  re_group :: int

record ip_groups =
  ig_ips :: "ip_entry list"
  ig_subnets :: "ip_subnet_entry list"
  ig_ranges :: "ip_range_entry list"

definition ip_groups_new :: ip_groups where
  "ip_groups_new = \<lparr>ig_ips = [], ig_subnets = [], ig_ranges = []\<rparr>"

record ip_plugin =
  ip_lists :: ip_groups
  ipgroups_path :: string
  ipgroups_loaded :: bool
  ipgroups_parse_error_logged :: bool
  ipgroups_reload_id :: int
  xff_no_filter_warned :: bool

definition ip_plugin_new :: ip_plugin where
  "ip_plugin_new = \<lparr>ip_lists = ip_groups_new, ipgroups_path = [], ipgroups_loaded = False, ipgroups_parse_error_logged = False,
     ipgroups_reload_id = - 1, xff_no_filter_warned = False\<rparr>"

record file_system =
  fs_read :: "string \<rightharpoonup> string list"
  fs_mkdir :: "string \<Rightarrow> bool"
  fs_create :: "string \<Rightarrow> bool"


section \<open>Special groups\<close>

abbreviation (input) kHiddenExceptionGroup :: int where "kHiddenExceptionGroup \<equiv> - 2"
abbreviation (input) kHiddenBannedGroup :: int where "kHiddenBannedGroup \<equiv> - 3"

definition ip_special_group :: "string \<Rightarrow> SpecialIpGroup" where
  "ip_special_group token =
     (let t = removeChar (removeChar (removePunctuation (removeWhiteSpace (toLower token))) (CHR ''_'')) (CHR ''-'') in
      if t = [] then NoSpecial
      else if t = ''exceptioniplist'' \<or> t = ''exceptionlist'' \<or> t = ''exceptionip'' then Exception
      else if t = ''bannediplist'' \<or> t = ''bannedlist'' \<or> t = ''bannedip'' then Banned
      else NoSpecial)"

definition decode_hidden_group :: "int \<Rightarrow> SpecialIpGroup" where
  "decode_hidden_group gr =
     (if gr = kHiddenExceptionGroup then Exception else if gr = kHiddenBannedGroup then Banned else NoSpecial)"

definition named :: "string \<Rightarrow> auth_rec \<Rightarrow> auth_rec" where
  "named user ar = (if ar_user_name ar = [] then ar\<lparr>ar_user_name := user\<rparr> else ar)"

definition apply_hidden_group :: "SpecialIpGroup \<Rightarrow> string \<Rightarrow> naughty_filter \<Rightarrow> bool \<times> naughty_filter" where
  "apply_hidden_group special user cm =
     (if special = NoSpecial then (False, cm)
      else
        let cm1 = cm\<lparr>cm_authrec := map_option (\<lambda>ar. named user (ar\<lparr>ar_group_source := ''ip'', ar_filter_group := - 1, ar_is_authed := True\<rparr>))
              (cm_authrec cm)\<rparr>
        in (True,
          if special = Exception
          then cm1\<lparr>cm_isexception := True, cm_isException := True, cm_special_exception_ip := True, cm_nomitm := True, cm_automitm := False\<rparr>
          else cm1\<lparr>cm_isBlocked := True, cm_isItNaughty := True, cm_special_banned_ip := True\<rparr>))"


section \<open>Addresses of a request\<close>

definition trim_copy :: "string \<Rightarrow> string" where
  "trim_copy s = rev (dropWhile c_isspace (rev (dropWhile c_isspace s)))"

definition normalise_forwarded_ip :: "string \<Rightarrow> string" where
  "normalise_forwarded_ip v = trim_copy (takeWhile (\<lambda>c. c \<noteq> CHR '','') v)"

definition is_valid_ipv4_literal :: "netlib \<Rightarrow> string \<Rightarrow> bool" where
  "is_valid_ipv4_literal nl v \<longleftrightarrow> v \<noteq> [] \<and> inet_aton nl (cstr v) \<noteq> None"

fun select_first_valid_ip :: "netlib \<Rightarrow> string list \<Rightarrow> string" where
  "select_first_valid_ip nl [] = []"
| "select_first_valid_ip nl (c # cs) =
     (let t = trim_copy c in if t \<noteq> [] \<and> is_valid_ipv4_literal nl t then t else select_first_valid_ip nl cs)"

text \<open>Whether the forwarded address of a request from a peer is used: \<open>None\<close> when the option is off, else the addresses it
  is accepted from, all when there are none.\<close>

definition xff_accepted :: "string list option \<Rightarrow> string \<Rightarrow> bool" where
  "xff_accepted xff peer =
     (case xff of None \<Rightarrow> False | Some [] \<Rightarrow> True | Some filter_ip \<Rightarrow> list_ex (\<lambda>f. cstr f = cstr peer) filter_ip)"

text \<open>The user is the address. \<open>None\<close> is a header whose line is gone.\<close>

definition ip_identify :: "netlib \<Rightarrow> string list option \<Rightarrow> string \<Rightarrow> http_header \<Rightarrow> auth_rec \<Rightarrow> ip_plugin \<Rightarrow> (string \<times> auth_rec \<times> ip_plugin) option" where
  "ip_identify nl xff peer h ar p =
     (case (if xff_accepted xff peer then map_option (\<lambda>f. [normalise_forwarded_ip f, s_clientip h]) (getXForwardedForIP h)
            else Some [s_clientip h]) of
        None \<Rightarrow> None
      | Some candidates \<Rightarrow>
          let s = select_first_valid_ip nl (candidates @ [peer]);
              s1 = (if s = [] then trim_copy peer else s);
              user = (if s1 = [] then ''-'' else s1)
          in Some (user, ar\<lparr>ar_user_name := user, ar_user_source := ''ip''\<rparr>,
               if xff = Some [] then p\<lparr>xff_no_filter_warned := True\<rparr> else p))"


section \<open>The file of groups\<close>

text \<open>The number of a group and whether there is a warning.\<close>

definition group_digits :: "string \<Rightarrow> string" where
  "group_digits v =
     (let n0 = removeWhiteSpace (toLower v);
          n1 = (if startsWith n0 ''filter'' then after n0 ''filter'' else n0);
          n2 = (if startsWith n1 ''group'' then after n1 ''group'' else n1);
          n3 = removeWhiteSpace n2;
          digits = first_digits (cstr n3)
      in if digits \<noteq> [] then digits else n3)"

definition parseFilterGroup :: "int \<Rightarrow> string \<Rightarrow> int option" where
  "parseFilterGroup filter_groups v =
     (case ip_special_group v of
        Exception \<Rightarrow> Some kHiddenExceptionGroup
      | Banned \<Rightarrow> Some kHiddenBannedGroup
      | NoSpecial \<Rightarrow>
          let gr = toInteger (group_digits v) in
          if gr < 1 \<or> gr > filter_groups then None else Some (gr - 1))"

text \<open>An address, subnet or range with its group; the flag is a warning.\<close>

definition add_ip_entry :: "netlib \<Rightarrow> string \<Rightarrow> int \<Rightarrow> ip_groups \<Rightarrow> bool \<times> ip_groups" where
  "add_ip_entry nl key gr g =
     (if rx nl matchIP key then
        (False, case inet_aton nl (cstr key) of
           None \<Rightarrow> g | Some a \<Rightarrow> g\<lparr>ig_ips := ig_ips g @ [\<lparr>ie_addr = a, ie_group = gr\<rparr>]\<rparr>)
      else if rx nl matchSubnet key then
        (False, case (inet_aton nl (cstr (before key ''/'')), inet_aton nl (cstr (after key ''/''))) of
           (Some a, Some m) \<Rightarrow> g\<lparr>ig_subnets := ig_subnets g @ [\<lparr>se_net = masked a m, se_group = gr\<rparr>]\<rparr>
         | _ \<Rightarrow> g)
      else if rx nl matchCIDR key then
        (let m = toInteger (after key ''/'') in
         if m < 0 \<or> m > 32 then (True, g)
         else (False, case inet_aton nl (cstr (before key ''/'')) of
             None \<Rightarrow> g
           | Some a \<Rightarrow> g\<lparr>ig_subnets := ig_subnets g @ [\<lparr>se_net = masked a (cidr_mask m), se_group = gr\<rparr>]\<rparr>))
      else if rx nl matchRange key then
        (False, case (inet_aton nl (cstr (before key ''-'')), inet_aton nl (cstr (after key ''-''))) of
           (Some a, Some b) \<Rightarrow> g\<lparr>ig_ranges := ig_ranges g @ [\<lparr>re_range = \<lparr>startaddr = a, endaddr = b\<rparr>, re_group = gr\<rparr>]\<rparr>
         | _ \<Rightarrow> g)
      else (True, g))"

definition ip_line :: "netlib \<Rightarrow> int \<Rightarrow> string \<Rightarrow> bool \<times> ip_groups \<Rightarrow> bool \<times> ip_groups" where
  "ip_line nl filter_groups raw st =
     (case st of (warn, g) \<Rightarrow>
        let line = cstr raw in
        if char_at line 0 = CHR ''#'' \<or> removeWhiteSpace line = [] then (warn, g)
        else if \<not> contains line ''='' then (True, g)
        else
          let key = removeWhiteSpace (before line ''=''); v = removeWhiteSpace (after line ''='') in
          case parseFilterGroup filter_groups v of
            None \<Rightarrow> (True, g)
          | Some gr \<Rightarrow> (case add_ip_entry nl key gr g of (w, g') \<Rightarrow> (warn \<or> w, g')))"

text \<open>A line of more than 2047 bytes ends the file. \<^verbatim>\<open>std::sort\<close> leaves the order of equal addresses open; here it is the
  order of the file.\<close>

definition sort_ips :: "ip_entry list \<Rightarrow> ip_entry list" where
  "sort_ips es = stable_sort (\<lambda>x y. ie_addr x < ie_addr y) es"

definition ip_readIPMelangeList :: "netlib \<Rightarrow> int \<Rightarrow> string list option \<Rightarrow> int \<times> ip_groups" where
  "ip_readIPMelangeList nl filter_groups file =
     (case file of
        None \<Rightarrow> (- 1, ip_groups_new)
      | Some lines \<Rightarrow>
          (case fold (ip_line nl filter_groups) (takeWhile (\<lambda>s. length s \<le> 2047) lines) (False, ip_groups_new) of
             (warn, g) \<Rightarrow> (if warn then 1 else 0, g\<lparr>ig_ips := sort_ips (ig_ips g)\<rparr>)))"

definition ip_ensure_loaded :: "netlib \<Rightarrow> int \<Rightarrow> file_system \<Rightarrow> int option \<Rightarrow> ip_plugin \<Rightarrow> bool \<times> ip_plugin" where
  "ip_ensure_loaded nl filter_groups fs lsts p =
     (if ipgroups_path p = [] then (ipgroups_loaded p, p)
      else
        let current = (case lsts of None \<Rightarrow> - 1 | Some i \<Rightarrow> i) in
        if \<not> ipgroups_loaded p \<or> current \<noteq> ipgroups_reload_id p then
          (case ip_readIPMelangeList nl filter_groups (fs_read fs (ipgroups_path p)) of
             (rc, g) \<Rightarrow>
               if rc < 0 then (ipgroups_loaded p, p\<lparr>ipgroups_parse_error_logged := True\<rparr>)
               else (True, p\<lparr>ip_lists := g, ipgroups_parse_error_logged := False, ipgroups_reload_id := current, ipgroups_loaded := True\<rparr>))
        else (ipgroups_loaded p, p))"


section \<open>The group of an address\<close>

function ip_searchList :: "ip_entry list \<Rightarrow> 32 word \<Rightarrow> int \<Rightarrow> int \<Rightarrow> int" where
  "ip_searchList es ip a s =
     (if a > s then - 1
      else let m = (a + s) div 2; e = es ! nat m in
        if ie_addr e = ip then ie_group e
        else if ie_addr e < ip then ip_searchList es ip (m + 1) s
        else if a = s then - 1
        else ip_searchList es ip a (m - 1))"
  by pat_completeness auto
termination
  by (relation "measure (\<lambda>(es, ip, a, s). nat (s - a + 1))") auto

declare ip_searchList.simps [simp del]

definition ip_inList :: "32 word \<Rightarrow> ip_entry list \<Rightarrow> int" where
  "ip_inList ip es = (if es \<noteq> [] then ip_searchList es ip 0 (int (length es) - 1) else - 1)"

fun ip_inSubnet :: "32 word \<Rightarrow> ip_subnet_entry list \<Rightarrow> int" where
  "ip_inSubnet ip [] = - 1"
| "ip_inSubnet ip (s # ss) = (if in_subnet ip (se_net s) then se_group s else ip_inSubnet ip ss)"

fun ip_inRange :: "32 word \<Rightarrow> ip_range_entry list \<Rightarrow> int" where
  "ip_inRange ip [] = - 1"
| "ip_inRange ip (r # rs) = (if in_range ip (re_range r) then re_group r else ip_inRange ip rs)"

datatype auth_code = E2AUTH_OK | E2AUTH_NOMATCH | E2AUTH_NOGROUP | E2AUTH_REDIRECT | E2AUTH_OK_NOPERSIST | E2AUTH_NOIDENTPART | Auth_error int

text \<open>One of the three lookups: \<open>None\<close> goes on to the next.\<close>

definition ip_use_group :: "string \<Rightarrow> int \<Rightarrow> int \<Rightarrow> naughty_filter \<Rightarrow> (auth_code \<times> int \<times> naughty_filter) option" where
  "ip_use_group user rfg fg cm =
     (case apply_hidden_group (decode_hidden_group fg) user cm of
        (True, cm1) \<Rightarrow> Some (E2AUTH_NOGROUP, rfg, cm1\<lparr>cm_filtergroup := rfg\<rparr>)
      | (False, _) \<Rightarrow>
          if fg \<ge> 0 then
            Some (E2AUTH_OK, fg, cm\<lparr>cm_filtergroup := fg,
              cm_authrec := map_option (\<lambda>ar. named user (ar\<lparr>ar_group_source := ''ip'', ar_filter_group := fg\<rparr>)) (cm_authrec cm)\<rparr>)
          else None)"

definition ip_lookup :: "32 word \<Rightarrow> string \<Rightarrow> int \<Rightarrow> ip_groups \<Rightarrow> naughty_filter \<Rightarrow> auth_code \<times> int \<times> naughty_filter" where
  "ip_lookup addr user rfg g cm =
     (case ip_use_group user rfg (ip_inList addr (ig_ips g)) cm of
        Some r \<Rightarrow> r
      | None \<Rightarrow>
          (case ip_use_group user rfg (ip_inSubnet addr (ig_subnets g)) cm of
             Some r \<Rightarrow> r
           | None \<Rightarrow>
               (case ip_use_group user rfg (ip_inRange addr (ig_ranges g)) cm of
                  Some r \<Rightarrow> r
                | None \<Rightarrow> (E2AUTH_NOMATCH, rfg, cm))))"

text \<open>The result is the code, the user, the group, the request and the plugin.\<close>

definition ip_determineGroup :: "netlib \<Rightarrow> int \<Rightarrow> file_system \<Rightarrow> int option \<Rightarrow> string \<Rightarrow> int \<Rightarrow> naughty_filter \<Rightarrow> ip_plugin
    \<Rightarrow> auth_code \<times> string \<times> int \<times> naughty_filter \<times> ip_plugin" where
  "ip_determineGroup nl filter_groups fs lsts user0 rfg cm p =
     (let user = trim_copy user0 in
      case inet_aton nl (cstr user) of
        None \<Rightarrow> (E2AUTH_NOMATCH, user, rfg, cm, p)
      | Some addr \<Rightarrow>
          (case ip_ensure_loaded nl filter_groups fs lsts p of
             (False, p1) \<Rightarrow> (E2AUTH_NOMATCH, user, rfg, cm, p1)
           | (True, p1) \<Rightarrow>
               (case ip_lookup addr user rfg (ip_lists p1) cm of (rc, fg, cm1) \<Rightarrow> (rc, user, fg, cm1, p1))))"


section \<open>Start and end\<close>

definition ip_quit :: "ip_plugin \<Rightarrow> ip_plugin" where
  "ip_quit p = p\<lparr>ip_lists := ip_groups_new, ipgroups_path := [], ipgroups_loaded := False, ipgroups_parse_error_logged := False,
     ipgroups_reload_id := - 1\<rparr>"

fun split_at :: "char \<Rightarrow> string \<Rightarrow> string list" where
  "split_at d [] = [[]]"
| "split_at d (c # cs) =
     (if c = d then [] # split_at d cs else case split_at d cs of t # ts \<Rightarrow> (c # t) # ts | [] \<Rightarrow> [[c]])"

definition blank :: "char \<Rightarrow> bool" where
  "blank c \<longleftrightarrow> c = CHR '' '' \<or> c = CHR 0x09"

definition trim_blanks :: "string \<Rightarrow> string" where
  "trim_blanks s = rev (dropWhile blank (rev (dropWhile blank s)))"

definition map_token :: "string \<Rightarrow> string \<times> string \<Rightarrow> string \<times> string" where
  "map_token token st =
     (case st of (name, path) \<Rightarrow>
        let t = trim_blanks token in
        if take 5 t = ''name='' then (drop 5 t, path)
        else if take 5 t = ''path='' then (name, drop 5 t) else (name, path))"

fun map_path :: "string list \<Rightarrow> string" where
  "map_path [] = []"
| "map_path (e # es) =
     (case fold map_token (split_at (CHR '','') (cstr e)) ([], []) of
        (name, path) \<Rightarrow> if name = ''ipmap'' \<and> path \<noteq> [] then path else map_path es)"

definition ensure_directories :: "file_system \<Rightarrow> string \<Rightarrow> bool" where
  "ensure_directories fs path \<longleftrightarrow>
     path = [] \<or> list_all (fs_mkdir fs) (map (\<lambda>i. take i path) (filter (\<lambda>i. path ! i = CHR ''/'') [1..<length path]) @ [path])"

definition directory_of :: "string \<Rightarrow> string" where
  "directory_of path = (if CHR ''/'' \<in> set path then rev (drop 1 (dropWhile (\<lambda>c. c \<noteq> CHR ''/'') (rev path))) else [])"

definition generated_lines :: "string list" where
  "generated_lines = [''# e2guardian ipgroups auto-generated'', ''# Formato: <filtro> <IP>/<mascara> ou <inicio>-<fim>'']"

text \<open>The file is made when it cannot be read, from a sample when there is one; copying an empty sample fails.\<close>

definition make_ipgroups :: "file_system \<Rightarrow> string \<Rightarrow> file_system option" where
  "make_ipgroups fs path =
     (if fs_read fs path \<noteq> None then Some fs
      else if \<not> ensure_directories fs (directory_of path) then None
      else if \<not> fs_create fs path then None
      else case fs_read fs (path @ ''.sample'') of
          Some lines \<Rightarrow> if lines = [] then None else Some (fs\<lparr>fs_read := (fs_read fs)(path \<mapsto> lines)\<rparr>)
        | None \<Rightarrow> Some (fs\<lparr>fs_read := (fs_read fs)(path \<mapsto> generated_lines)\<rparr>))"

text \<open>The part of \<^verbatim>\<open>init\<close> after the function of the storyboard has been taken: \<open>cv_path\<close> is the option \<^verbatim>\<open>ipgroups\<close>.\<close>

definition ip_init :: "netlib \<Rightarrow> int \<Rightarrow> string \<Rightarrow> string list \<Rightarrow> int option \<Rightarrow> string \<Rightarrow> file_system \<Rightarrow> ip_plugin \<Rightarrow> int \<times> file_system \<times> ip_plugin" where
  "ip_init nl filter_groups confdir maps lsts cv_path fs p =
     (let p0 = (if cv_path \<noteq> [] then cstr cv_path else map_path maps);
          path = (if p0 = [] then confdir @ ''/lists/authplugins/ipgroups'' else p0)
      in case make_ipgroups fs path of
           None \<Rightarrow> (- 1, fs, p)
         | Some fs1 \<Rightarrow>
             (case ip_readIPMelangeList nl filter_groups (fs_read fs1 path) of
                (rc, g) \<Rightarrow>
                  if rc < 0 then (rc, fs1, p)
                  else (rc, fs1, p\<lparr>ipgroups_path := path, ipgroups_parse_error_logged := False, ip_lists := g, ipgroups_loaded := True,
                    ipgroups_reload_id := (case lsts of None \<Rightarrow> - 1 | Some i \<Rightarrow> i)\<rparr>)))"


section \<open>Lemmas\<close>

interpretation ip_srch: bin_search "ip_searchList es ip" "\<lambda>m. if ie_addr (es ! nat m) = ip then 0 else if ie_addr (es ! nat m) < ip then - 1 else 1"
    "\<lambda>m. ie_group (es ! nat m)" "\<lambda>a. - 1" for es ip
  by unfold_locales (subst ip_searchList.simps, simp add: Let_def)

text \<open>The groups of a file: the two special ones, or one of the filter groups.\<close>

definition ip_group_ok :: "int \<Rightarrow> int \<Rightarrow> bool" where
  "ip_group_ok fgs gr \<longleftrightarrow> gr = kHiddenExceptionGroup \<or> gr = kHiddenBannedGroup \<or> 0 \<le> gr \<and> gr < fgs"

definition ip_groups_of :: "ip_groups \<Rightarrow> int set" where
  "ip_groups_of g = ie_group ` set (ig_ips g) \<union> se_group ` set (ig_subnets g) \<union> re_group ` set (ig_ranges g)"

definition ip_groups_ok :: "int \<Rightarrow> ip_groups \<Rightarrow> bool" where
  "ip_groups_ok fgs g \<longleftrightarrow> (\<forall>gr \<in> ip_groups_of g. ip_group_ok fgs gr) \<and> sorted (map ie_addr (ig_ips g))"

lemma parseFilterGroup_ok: "parseFilterGroup fgs v = Some gr \<Longrightarrow> ip_group_ok fgs gr"
  by (auto simp: parseFilterGroup_def ip_group_ok_def Let_def split: SpecialIpGroup.splits if_splits)

lemma add_ip_entry_groups: "gr' \<in> ip_groups_of (snd (add_ip_entry nl key gr g)) \<Longrightarrow> gr' \<in> ip_groups_of g \<or> gr' = gr"
  by (auto simp: add_ip_entry_def ip_groups_of_def Let_def split: if_splits option.splits)

lemma ip_line_groups:
  assumes "\<forall>gr \<in> ip_groups_of (snd st). ip_group_ok fgs gr"
  shows "\<forall>gr \<in> ip_groups_of (snd (ip_line nl fgs raw st)). ip_group_ok fgs gr"
proof -
  obtain w g where st: "st = (w, g)" by (cases st)
  consider "snd (ip_line nl fgs raw st) = g"
    | key v gr where "parseFilterGroup fgs v = Some gr" "snd (ip_line nl fgs raw st) = snd (add_ip_entry nl key gr g)"
  proof -
    let ?line = "cstr raw"
    let ?v = "removeWhiteSpace (after ?line ''='')"
    show thesis
    proof (cases "char_at ?line 0 = CHR ''#'' \<or> removeWhiteSpace ?line = [] \<or> \<not> contains ?line ''='' \<or> parseFilterGroup fgs ?v = None")
      case True
      then have "snd (ip_line nl fgs raw st) = g" by (auto simp: ip_line_def st Let_def split: option.split)
      then show thesis by (rule that(1))
    next
      case False
      then obtain gr where "parseFilterGroup fgs ?v = Some gr" by auto
      moreover from this have "snd (ip_line nl fgs raw st) = snd (add_ip_entry nl (removeWhiteSpace (before ?line ''='')) gr g)"
        using False by (auto simp: ip_line_def st Let_def split: prod.split)
      ultimately show thesis by (rule that(2))
    qed
  qed
  then show ?thesis
  proof cases
    case 1
    then show ?thesis using assms st by simp
  next
    case 2
    then show ?thesis using add_ip_entry_groups [of _ nl key gr g] parseFilterGroup_ok [OF 2(1)] assms st by auto
  qed
qed

lemma sort_ips_facts: "set (sort_ips es) = set es" "sorted (map ie_addr (sort_ips es))"
  unfolding sort_ips_def by (simp add: set_stable_sort, rule sorted_by_key)

lemma readIPMelange_ok:
  assumes "ip_readIPMelangeList nl fgs fl = (rc, g)"
  shows "ip_groups_ok fgs g"
proof (cases fl)
  case None
  then show ?thesis using assms by (auto simp: ip_readIPMelangeList_def ip_groups_ok_def ip_groups_of_def ip_groups_new_def)
next
  case (Some lines)
  define r where "r = fold (ip_line nl fgs) (takeWhile (\<lambda>s. length s \<le> 2047) lines) (False, ip_groups_new)"
  have "\<forall>gr \<in> ip_groups_of (snd (fold (ip_line nl fgs) ls st)). ip_group_ok fgs gr"
    if "\<forall>gr \<in> ip_groups_of (snd st). ip_group_ok fgs gr" for ls st
    using that
  proof (induction ls arbitrary: st)
    case (Cons x ls)
    show ?case using Cons.IH [OF ip_line_groups [OF Cons.prems]] by simp
  qed simp
  moreover have "\<forall>gr \<in> ip_groups_of (snd (False, ip_groups_new)). ip_group_ok fgs gr"
    by (simp add: ip_groups_of_def ip_groups_new_def)
  ultimately have "\<forall>gr \<in> ip_groups_of (snd r). ip_group_ok fgs gr" unfolding r_def by blast
  moreover have "g = (snd r)\<lparr>ig_ips := sort_ips (ig_ips (snd r))\<rparr>"
    using assms Some by (auto simp: ip_readIPMelangeList_def r_def [symmetric] split: prod.splits)
  ultimately show ?thesis using sort_ips_facts by (auto simp: ip_groups_ok_def ip_groups_of_def)
qed

text \<open>The entries that decide: those for the address itself, else the first subnet, else the first range.\<close>

definition deciding_groups :: "32 word \<Rightarrow> ip_groups \<Rightarrow> int list" where
  "deciding_groups addr g =
     (case filter (\<lambda>e. ie_addr e = addr) (ig_ips g) of
        e # es \<Rightarrow> map ie_group (e # es)
      | [] \<Rightarrow> (case filter (\<lambda>s. in_subnet addr (se_net s)) (ig_subnets g) of
          s # _ \<Rightarrow> [se_group s]
        | [] \<Rightarrow> (case filter (\<lambda>r. in_range addr (re_range r)) (ig_ranges g) of r # _ \<Rightarrow> [re_group r] | [] \<Rightarrow> [])))"

lemma ip_inList_result:
  assumes "sorted (map ie_addr es)"
  shows "(\<exists>e \<in> set es. ie_addr e = ip \<and> ip_inList ip es = ie_group e) \<or> (\<forall>e \<in> set es. ie_addr e \<noteq> ip) \<and> ip_inList ip es = - 1"
proof -
  have s: "ip_inList ip es = ip_searchList es ip 0 (int (length es) - 1)"
    by (cases es) (simp_all add: ip_inList_def ip_searchList.simps [of "[]"])
  have mono: "ie_addr (es ! i) \<le> ie_addr (es ! j)" if "i < j" "j < length es" for i j
    using assms that sorted_nth_mono [of "map ie_addr es" i j] by simp
  have less: "ie_addr (es ! i) < ip" if "i < j" "j < length es" "ie_addr (es ! j) < ip" for i j
    using mono [OF that(1,2)] that(3) by order
  have greater: "ip < ie_addr (es ! j)" if "i < j" "j < length es" "ip < ie_addr (es ! i)" for i j
    using mono [OF that(1,2)] that(3) by order
  consider (found) k where "k < length es" "ie_addr (es ! k) = ip" "ip_inList ip es = ie_group (es ! k)"
    | (free) p where "ip_inList ip es = - 1" "\<forall>i < p. ie_addr (es ! i) < ip" "\<forall>i. p \<le> i \<and> i < length es \<longrightarrow> ip < ie_addr (es ! i)"
  proof (rule ip_srch.srch_nat_exact [of "length es" es ip], goal_cases)
    case (1 i j)
    then show ?case using less [of i j] by (auto split: if_splits)
  next
    case (2 i j)
    then show ?case using greater [of i j] by (auto simp: not_less order_le_less split: if_splits)
  next
    case (3 k)
    then show ?case using found [of k] s by (auto split: if_splits)
  next
    case (4 p)
    have "ip < ie_addr (es ! i)" if "p \<le> i" "i < length es" for i
    proof -
      have "0 < (if ie_addr (es ! nat (int i)) = ip then 0 else if ie_addr (es ! nat (int i)) < ip then - 1 else (1::int))"
        using 4(6) that by blast
      then show ?thesis by (auto simp: not_less order_le_less split: if_splits)
    qed
    moreover have "ie_addr (es ! i) < ip" if "i < p" for i
    proof -
      have "(if ie_addr (es ! nat (int i)) = ip then 0 else if ie_addr (es ! nat (int i)) < ip then - 1 else (1::int)) < 0"
        using 4(5) that by blast
      then show ?thesis by (auto split: if_splits)
    qed
    ultimately show ?case using 4(2) [of p] 4(4) s by simp
  qed
  then show ?thesis
  proof cases
    case found
    then show ?thesis by (metis nth_mem)
  next
    case free
    then show ?thesis by (metis in_set_conv_nth less_irrefl not_le)
  qed
qed

lemma ip_inSubnet_filter:
  "ip_inSubnet addr ss = (case filter (\<lambda>s. in_subnet addr (se_net s)) ss of [] \<Rightarrow> - 1 | s # _ \<Rightarrow> se_group s)"
  by (induction ss) simp_all

lemma ip_inRange_filter:
  "ip_inRange addr rs = (case filter (\<lambda>r. in_range addr (re_range r)) rs of [] \<Rightarrow> - 1 | r # _ \<Rightarrow> re_group r)"
  by (induction rs) simp_all

lemma use_group_missing: "ip_use_group user rfg (- 1) cm = None"
  by (simp add: ip_use_group_def decode_hidden_group_def apply_hidden_group_def)

lemma use_group_ok: "ip_group_ok fgs gr \<Longrightarrow> \<exists>r. ip_use_group user rfg gr cm = Some r"
  by (auto simp: ip_use_group_def ip_group_ok_def decode_hidden_group_def apply_hidden_group_def Let_def)

text \<open>The lookup answers with the group of a deciding entry, and with no match only when there is none.\<close>

lemma ip_lookup_decides:
  assumes ok: "ip_groups_ok fgs g"
  shows "deciding_groups addr g = [] \<and> ip_lookup addr user rfg g cm = (E2AUTH_NOMATCH, rfg, cm)
    \<or> (\<exists>gr \<in> set (deciding_groups addr g). ip_group_ok fgs gr \<and> ip_use_group user rfg gr cm = Some (ip_lookup addr user rfg g cm))"
proof -
  have grs: "ip_group_ok fgs gr" if "gr \<in> ip_groups_of g" for gr using ok that by (simp add: ip_groups_ok_def)
  let ?ips = "filter (\<lambda>e. ie_addr e = addr) (ig_ips g)"
  let ?subs = "filter (\<lambda>s. in_subnet addr (se_net s)) (ig_subnets g)" and ?rans = "filter (\<lambda>r. in_range addr (re_range r)) (ig_ranges g)"
  show ?thesis
  proof (cases "\<exists>e \<in> set (ig_ips g). ie_addr e = addr")
    case True
    then obtain e where e: "e \<in> set (ig_ips g)" "ie_addr e = addr" "ip_inList addr (ig_ips g) = ie_group e"
      using ip_inList_result [of "ig_ips g" addr] ok unfolding ip_groups_ok_def by blast
    have in_f: "e \<in> set ?ips" using e(1,2) by simp
    then have dg: "deciding_groups addr g = map ie_group ?ips" by (cases ?ips) (simp_all add: deciding_groups_def)
    have "ie_group e \<in> ip_groups_of g" using e(1) by (simp add: ip_groups_of_def)
    then show ?thesis using use_group_ok [OF grs, of "ie_group e" user rfg cm] in_f e(3) dg grs
      by (auto simp: ip_lookup_def)
  next
    case False
    then have none: "ip_inList addr (ig_ips g) = - 1" "?ips = []"
      using ip_inList_result [of "ig_ips g" addr] ok unfolding ip_groups_ok_def by (auto simp: filter_empty_conv)
    show ?thesis
    proof (cases ?subs)
      case (Cons s ss)
      then have "s \<in> set ?subs" by simp
      then have "s \<in> set (ig_subnets g)" by simp
      then have "se_group s \<in> ip_groups_of g" by (simp add: ip_groups_of_def)
      then show ?thesis using use_group_ok [OF grs, of "se_group s" user rfg cm] none Cons grs
        by (auto simp: ip_lookup_def deciding_groups_def use_group_missing ip_inSubnet_filter)
    next
      case Nil
      show ?thesis
      proof (cases ?rans)
        case (Cons r rs)
        then have "r \<in> set ?rans" by simp
      then have "r \<in> set (ig_ranges g)" by simp
        then have "re_group r \<in> ip_groups_of g" by (simp add: ip_groups_of_def)
        then show ?thesis using use_group_ok [OF grs, of "re_group r" user rfg cm] none Nil Cons grs
          by (auto simp: ip_lookup_def deciding_groups_def use_group_missing ip_inSubnet_filter ip_inRange_filter)
      next
        case empty: Nil
        then show ?thesis using none Nil
          by (simp add: ip_lookup_def deciding_groups_def use_group_missing ip_inSubnet_filter ip_inRange_filter)
      qed
    qed
  qed
qed


text \<open>The states of a plugin: it is made, started, asked and stopped.\<close>

inductive ip_reach :: "netlib \<Rightarrow> int \<Rightarrow> ip_plugin \<Rightarrow> bool" for nl fgs where
  made: "ip_reach nl fgs ip_plugin_new"
| started: "ip_reach nl fgs p \<Longrightarrow> ip_init nl fgs confdir maps lsts cv_path fs p = (rc, fs', p') \<Longrightarrow> ip_reach nl fgs p'"
| identified: "ip_reach nl fgs p \<Longrightarrow> ip_identify nl xff peer h ar p = Some (user, ar', p') \<Longrightarrow> ip_reach nl fgs p'"
| grouped: "ip_reach nl fgs p \<Longrightarrow> ip_determineGroup nl fgs fs lsts user rfg cm p = (code, user', fg, cm', p') \<Longrightarrow> ip_reach nl fgs p'"
| stopped: "ip_reach nl fgs p \<Longrightarrow> ip_reach nl fgs (ip_quit p)"

definition plugin_ok :: "int \<Rightarrow> ip_plugin \<Rightarrow> bool" where
  "plugin_ok fgs p \<longleftrightarrow> ip_groups_ok fgs (ip_lists p) \<and> (ipgroups_loaded p \<longrightarrow> ipgroups_path p \<noteq> [])"

lemma new_groups_ok: "ip_groups_ok fgs ip_groups_new"
  by (simp add: ip_groups_ok_def ip_groups_of_def ip_groups_new_def)

lemma ensure_loaded_ok:
  assumes "ip_ensure_loaded nl fgs fs lsts p = (b, p')" "plugin_ok fgs p"
  shows "plugin_ok fgs p' \<and> b = ipgroups_loaded p'"
proof -
  obtain rc g where r: "ip_readIPMelangeList nl fgs (fs_read fs (ipgroups_path p)) = (rc, g)" by (metis surj_pair)
  from readIPMelange_ok [OF r] show ?thesis
    using assms r by (auto simp: ip_ensure_loaded_def plugin_ok_def Let_def split: if_splits)
qed

lemma determine_keeps:
  assumes "ip_determineGroup nl fgs fs lsts user rfg cm p = (code, user', fg, cm', p')"
  shows "p' = p \<or> p' = snd (ip_ensure_loaded nl fgs fs lsts p)"
  using assms by (auto simp: ip_determineGroup_def Let_def split: option.splits prod.splits bool.splits)

lemma reach_ok: "ip_reach nl fgs p \<Longrightarrow> plugin_ok fgs p"
proof (induction rule: ip_reach.induct)
  case made
  then show ?case using new_groups_ok by (simp add: plugin_ok_def ip_plugin_new_def)
next
  case (started p confdir maps lsts cv_path fs rc fs' p')
  define p0 where "p0 = (if cv_path \<noteq> [] then cstr cv_path else map_path maps)"
  define path where "path = (if p0 = [] then confdir @ ''/lists/authplugins/ipgroups'' else p0)"
  have path: "path \<noteq> []" by (simp add: path_def)
  have i: "ip_init nl fgs confdir maps lsts cv_path fs p =
     (case make_ipgroups fs path of
           None \<Rightarrow> (- 1, fs, p)
         | Some fs1 \<Rightarrow>
             (case ip_readIPMelangeList nl fgs (fs_read fs1 path) of
                (rc, g) \<Rightarrow>
                  if rc < 0 then (rc, fs1, p)
                  else (rc, fs1, p\<lparr>ipgroups_path := path, ipgroups_parse_error_logged := False, ip_lists := g, ipgroups_loaded := True,
                    ipgroups_reload_id := (case lsts of None \<Rightarrow> - 1 | Some i \<Rightarrow> i)\<rparr>)))"
    by (simp only: ip_init_def Let_def p0_def path_def)
  show ?case
  proof (cases "make_ipgroups fs path")
    case None
    then show ?thesis using i started by simp
  next
    case (Some fs1)
    obtain rc1 g where r: "ip_readIPMelangeList nl fgs (fs_read fs1 path) = (rc1, g)" by (metis surj_pair)
    from readIPMelange_ok [OF r] show ?thesis using i started Some r path by (auto simp: plugin_ok_def split: if_splits)
  qed
next
  case (identified p xff peer h ar user ar' p')
  then have "ip_lists p' = ip_lists p" "ipgroups_loaded p' = ipgroups_loaded p" "ipgroups_path p' = ipgroups_path p"
    by (auto simp: ip_identify_def Let_def split: option.splits if_splits)
  then show ?case using identified.IH by (simp add: plugin_ok_def)
next
  case (grouped p fs lsts user rfg cm code user' fg cm' p')
  then show ?case using determine_keeps [OF grouped.hyps(2)] ensure_loaded_ok [of nl fgs fs lsts p] by (metis prod.collapse)
next
  case (stopped p)
  then show ?case using new_groups_ok by (simp add: plugin_ok_def ip_quit_def)
qed

text \<open>What a group does to the request.\<close>

lemma use_group_result:
  assumes "ip_use_group user rfg gr cm = Some (code, fg, cm')"
  shows "(if gr = kHiddenExceptionGroup then code = E2AUTH_NOGROUP \<and> fg = rfg \<and> cm_isexception cm' \<and> cm_nomitm cm'
     else if gr = kHiddenBannedGroup then code = E2AUTH_NOGROUP \<and> fg = rfg \<and> cm_isBlocked cm' \<and> cm_isItNaughty cm'
     else code = E2AUTH_OK \<and> fg = gr \<and> 0 \<le> gr) \<and> cm_filtergroup cm' = fg"
  using assms by (auto simp: ip_use_group_def apply_hidden_group_def decode_hidden_group_def Let_def split: if_splits)


section \<open>Properties\<close>

text \<open>C21: an address gets the group of an entry for the address itself, else of the first subnet that contains it, else of the
  first range, and no match only when no entry covers it; the special groups leave the group as it was and
  make the request an exception without interception, or blocked.\<close>

theorem ip_group_decided:
  assumes "ip_reach nl fgs p" and "inet_aton nl (cstr (trim_copy user)) = Some addr"
    and "ip_ensure_loaded nl fgs fs lsts p = (True, p1)"
  shows "\<exists>code fg cm'. ip_determineGroup nl fgs fs lsts user rfg cm p = (code, trim_copy user, fg, cm', p1)
    \<and> (if deciding_groups addr (ip_lists p1) = [] then code = E2AUTH_NOMATCH \<and> fg = rfg \<and> cm' = cm
       else \<exists>gr \<in> set (deciding_groups addr (ip_lists p1)).
         (if gr = - 2 then code = E2AUTH_NOGROUP \<and> fg = rfg \<and> cm_isexception cm' \<and> cm_nomitm cm'
          else if gr = - 3 then code = E2AUTH_NOGROUP \<and> fg = rfg \<and> cm_isBlocked cm' \<and> cm_isItNaughty cm'
          else code = E2AUTH_OK \<and> fg = gr \<and> gr < fgs))"
proof -
  have ok: "ip_groups_ok fgs (ip_lists p1)"
    using ensure_loaded_ok [OF assms(3) reach_ok [OF assms(1)]] by (simp add: plugin_ok_def)
  obtain code fg cm' where l: "ip_lookup addr (trim_copy user) rfg (ip_lists p1) cm = (code, fg, cm')" by (metis prod_cases3)
  have "ip_determineGroup nl fgs fs lsts user rfg cm p = (code, trim_copy user, fg, cm', p1)"
    using assms(2,3) l by (simp add: ip_determineGroup_def Let_def)
  moreover from ip_lookup_decides [OF ok, of addr "trim_copy user" rfg cm]
  have "if deciding_groups addr (ip_lists p1) = [] then code = E2AUTH_NOMATCH \<and> fg = rfg \<and> cm' = cm
       else \<exists>gr \<in> set (deciding_groups addr (ip_lists p1)).
         (if gr = - 2 then code = E2AUTH_NOGROUP \<and> fg = rfg \<and> cm_isexception cm' \<and> cm_nomitm cm'
          else if gr = - 3 then code = E2AUTH_NOGROUP \<and> fg = rfg \<and> cm_isBlocked cm' \<and> cm_isItNaughty cm'
          else code = E2AUTH_OK \<and> fg = gr \<and> gr < fgs)"
    (is "?P")
  proof
    assume "deciding_groups addr (ip_lists p1) = [] \<and> ip_lookup addr (trim_copy user) rfg (ip_lists p1) cm = (E2AUTH_NOMATCH, rfg, cm)"
    then show ?P using l by simp
  next
    assume "\<exists>gr \<in> set (deciding_groups addr (ip_lists p1)). ip_group_ok fgs gr
      \<and> ip_use_group (trim_copy user) rfg gr cm = Some (ip_lookup addr (trim_copy user) rfg (ip_lists p1) cm)"
    then obtain gr where gr: "gr \<in> set (deciding_groups addr (ip_lists p1))" "ip_group_ok fgs gr"
      "ip_use_group (trim_copy user) rfg gr cm = Some (code, fg, cm')" using l by auto
    from use_group_result [OF gr(3)] gr(2)
    have "if gr = - 2 then code = E2AUTH_NOGROUP \<and> fg = rfg \<and> cm_isexception cm' \<and> cm_nomitm cm'
          else if gr = - 3 then code = E2AUTH_NOGROUP \<and> fg = rfg \<and> cm_isBlocked cm' \<and> cm_isItNaughty cm'
          else code = E2AUTH_OK \<and> fg = gr \<and> gr < fgs" by (auto simp: ip_group_ok_def)
    moreover have "deciding_groups addr (ip_lists p1) \<noteq> []" using gr(1) by (metis empty_iff list.set(1))
    ultimately show ?P using gr(1) by (simp only: if_False) (rule bexI)
  qed
  ultimately show ?thesis by blast
qed

text \<open>a file that cannot be read at a reload leaves the groups of the plugin in force: the answer is that of the lists it
  has, and they stay.\<close>

theorem ip_reload_keeps:
  assumes "ip_reach nl fgs p" and "ipgroups_loaded p" and "fs_read fs (ipgroups_path p) = None"
    and "inet_aton nl (cstr (trim_copy user)) = Some addr"
  shows "\<exists>code fg cm' p'. ip_determineGroup nl fgs fs lsts user rfg cm p = (code, trim_copy user, fg, cm', p')
    \<and> ip_lookup addr (trim_copy user) rfg (ip_lists p) cm = (code, fg, cm') \<and> ip_lists p' = ip_lists p \<and> ipgroups_loaded p'"
proof -
  have r: "ip_readIPMelangeList nl fgs (fs_read fs (ipgroups_path p)) = (- 1, ip_groups_new)"
    using assms(3) by (simp add: ip_readIPMelangeList_def)
  obtain p1 where p1: "ip_ensure_loaded nl fgs fs lsts p = (True, p1)" "ip_lists p1 = ip_lists p" "ipgroups_loaded p1"
  proof -
    have "fst (ip_ensure_loaded nl fgs fs lsts p)" "ip_lists (snd (ip_ensure_loaded nl fgs fs lsts p)) = ip_lists p"
      "ipgroups_loaded (snd (ip_ensure_loaded nl fgs fs lsts p))"
      using assms(2) r by (simp_all add: ip_ensure_loaded_def Let_def)
    then show thesis using that by (metis (full_types) prod.collapse)
  qed
  obtain code fg cm' where l: "ip_lookup addr (trim_copy user) rfg (ip_lists p) cm = (code, fg, cm')" by (metis prod_cases3)
  then have "ip_determineGroup nl fgs fs lsts user rfg cm p = (code, trim_copy user, fg, cm', p1)"
    using assms(4) p1 by (simp add: ip_determineGroup_def Let_def)
  then show ?thesis using l p1 by blast
qed

text \<open>A file with an address of the second group.\<close>

definition demo_fs :: file_system where
  "demo_fs = \<lparr>fs_read = [''/g'' \<mapsto> [''# groups'', ''10.0.0.1 = filter2'']], fs_mkdir = (\<lambda>_. True), fs_create = (\<lambda>_. True)\<rparr>"

definition demo_ip :: ip_plugin where
  "demo_ip = snd (snd (ip_init net_test 3 ''/etc'' [] (Some 1) ''/g'' demo_fs ip_plugin_new))"

definition demo_ip_request :: naughty_filter where
  "demo_ip_request = naughty_filter_new \<lparr>ne_rx = lib_a, ne_urldecode_re = reg_exp_new, ne_anonymise_logs = False, ne_no_proxy = False\<rparr>
     demo_header (http_header_new True Null) None"

lemma demo_ip_state: "ip_reach net_test 3 demo_ip" "ipgroups_loaded demo_ip" "ipgroups_path demo_ip = ''/g''" "ipgroups_reload_id demo_ip = 1"
proof -
  have "ip_init net_test 3 ''/etc'' [] (Some 1) ''/g'' demo_fs ip_plugin_new =
    (fst (ip_init net_test 3 ''/etc'' [] (Some 1) ''/g'' demo_fs ip_plugin_new), fst (snd (ip_init net_test 3 ''/etc'' [] (Some 1) ''/g'' demo_fs ip_plugin_new)), demo_ip)"
    by (simp add: demo_ip_def)
  from started [OF made this] show "ip_reach net_test 3 demo_ip" .
  show "ipgroups_loaded demo_ip" "ipgroups_path demo_ip = ''/g''" "ipgroups_reload_id demo_ip = 1" by code_simp+
qed

lemma demo_ip_addr: "inet_aton net_test (cstr (trim_copy '' 10.0.0.1'')) = Some 0x0A000001" "trim_copy '' 10.0.0.1'' = ''10.0.0.1''"
  by code_simp+

theorem ip_group_decided_witness:
  "\<exists>code fg cm'. ip_determineGroup net_test 3 demo_fs (Some 1) '' 10.0.0.1'' 0 demo_ip_request demo_ip = (code, ''10.0.0.1'', fg, cm', demo_ip)
    \<and> code = E2AUTH_OK \<and> fg = 1"
proof -
  have l: "ip_ensure_loaded net_test 3 demo_fs (Some 1) demo_ip = (True, demo_ip)"
    using demo_ip_state by (simp add: ip_ensure_loaded_def)
  have d: "deciding_groups 0x0A000001 (ip_lists demo_ip) = [1]" by code_simp
  show ?thesis using ip_group_decided [OF demo_ip_state(1) demo_ip_addr(1) l, of 0 demo_ip_request] unfolding d demo_ip_addr(2)
    by (simp add: conj_commute)
qed

theorem ip_reload_keeps_witness:
  "\<exists>code fg cm' p'. ip_determineGroup net_test 3 (demo_fs\<lparr>fs_read := Map.empty\<rparr>) (Some 2) '' 10.0.0.1'' 0 demo_ip_request demo_ip
      = (code, trim_copy '' 10.0.0.1'', fg, cm', p')
    \<and> ip_lookup 0x0A000001 (trim_copy '' 10.0.0.1'') 0 (ip_lists demo_ip) demo_ip_request = (code, fg, cm')
    \<and> ip_lists p' = ip_lists demo_ip \<and> ipgroups_loaded p'"
  by (rule ip_reload_keeps [OF demo_ip_state(1,2) _ demo_ip_addr(1)]) simp

end
