(* ===== verification/Auth_Plugin.thy ===== *)
theory Auth_Plugin
  imports Auth_IP Story_Laws
begin

text \<open>
  Authentication plugins: their configuration (\<^verbatim>\<open>src/src/ConfigVar.cpp\<close>), the class they share (\<^verbatim>\<open>src/src/Auth.cpp\<close>), and the
  plugins for proxy credentials, digests, header lines, ident servers, ports and addresses
  (\<^verbatim>\<open>src/src/authplugins\<close>). A plugin first identifies the user of a request and then determines the
  filter group of the user, with a function of the storyboard or, for addresses, with its own file.

  The reply of an ident server and \<^verbatim>\<open>inet_pton\<close> are parameters. The plugins for DNS and NTLM are options of the
  build and left out. \<open>None\<close> is an exception, or a pointer to a line of the header that is gone.
\<close>

section \<open>Configuration files\<close>

type_synonym config_var = "string \<rightharpoonup> string"

definition cv_entry :: "config_var \<Rightarrow> string \<Rightarrow> string" where
  "cv_entry cv reference = (case cv reference of None \<Rightarrow> [] | Some v \<Rightarrow> v)"

text \<open>One step of \<^verbatim>\<open>strtok\<close>: the token and what follows it.\<close>

definition strtok :: "string \<Rightarrow> string \<Rightarrow> (string \<times> string) option" where
  "strtok delimiter s =
     (let t = dropWhile (\<lambda>c. c \<in> set delimiter) s in
      if t = [] then None
      else Some (takeWhile (\<lambda>c. c \<notin> set delimiter) t, drop 1 (dropWhile (\<lambda>c. c \<notin> set delimiter) t)))"

definition quote_char :: "char \<Rightarrow> bool" where
  "quote_char c \<longleftrightarrow> c = CHR 0x22 \<or> c = CHR 0x27"

definition strip_end :: "(char \<Rightarrow> bool) \<Rightarrow> string \<Rightarrow> string" where
  "strip_end P s = rev (dropWhile P (rev s))"

text \<open>One line: \<open>None\<close> is a name of spaces only at the beginning of the buffer, where the loop runs out of the buffer.\<close>

definition config_line :: "string \<Rightarrow> string \<Rightarrow> config_var \<Rightarrow> config_var option" where
  "config_line delimiter raw params =
     (let buffer = cstr raw in
      case strtok delimiter buffer of
        None \<Rightarrow> Some params
      | Some (command, rest) \<Rightarrow>
          (case strtok delimiter rest of
             None \<Rightarrow> Some params
           | Some (parameter, _) \<Rightarrow>
               let v = strip_end quote_char (dropWhile (\<lambda>c. quote_char c \<or> c = CHR '' '') parameter);
                   k = strip_end (\<lambda>c. c = CHR '' '') command
               in if k = [] \<and> hd buffer \<notin> set delimiter then None else Some (params(k \<mapsto> v))))"

fun config_lines :: "string \<Rightarrow> string list \<Rightarrow> config_var \<Rightarrow> config_var option" where
  "config_lines delimiter [] params = Some params"
| "config_lines delimiter (x # xs) params = Option.bind (config_line delimiter x params) (config_lines delimiter xs)"

text \<open>A line of more than 2047 bytes ends the file.\<close>

definition readVar :: "string \<Rightarrow> string list option \<Rightarrow> (int \<times> config_var) option" where
  "readVar delimiter fl =
     (case fl of
        None \<Rightarrow> Some (1, Map.empty)
      | Some xs \<Rightarrow> map_option (\<lambda>params. (0, params)) (config_lines delimiter (takeWhile (\<lambda>s. length s \<le> 2047) xs) Map.empty))"


section \<open>Users\<close>

definition normalise_auth_username :: "string \<Rightarrow> string" where
  "normalise_auth_username raw =
     (let r0 = trim_copy raw in
      if r0 = [] then []
      else
        let sep = (\<lambda>c. c = CHR 0x5C \<or> c = CHR ''/'');
            t = rev (takeWhile (\<lambda>c. \<not> sep c) (rev r0));
            r1 = (if list_ex sep r0 \<and> t \<noteq> [] then t else r0);
            r2 = takeWhile (\<lambda>c. c \<noteq> CHR ''@'') r1;
            r3 = (if length r2 > 1 \<and> quote_char (hd r2) \<and> last r2 = hd r2 then butlast (tl r2) else r2)
        in trim_copy r3)"

text \<open>The last part of the forwarded addresses that is not blank, when it is not an address.\<close>

definition extract_forwarded_user :: "(string \<Rightarrow> bool) \<Rightarrow> http_header \<Rightarrow> string option option" where
  "extract_forwarded_user is_ip h =
     map_option (\<lambda>forwarded.
       case rev (filter (\<lambda>t. t \<noteq> []) (map trim_copy (split_at (CHR '','') forwarded))) of
         [] \<Rightarrow> None
       | candidate # _ \<Rightarrow> if is_ip (cstr candidate) then None else Some candidate) (getXForwardedForIP h)"


section \<open>Plugins\<close>

datatype plugin_kind = Proxy_basic | Proxy_digest | Ident | Ip | Port | Proxy_header | Pf_basic

record auth_plugin =
  ap_kind :: plugin_kind
  ap_cv :: config_var
  ap_name :: string
  ap_default_fg :: int
  ap_tran_default_fg :: int
  ap_is_connection_based :: bool
  ap_needs_proxy_query :: bool
  ap_client_ip_based :: bool
  ap_story_entry :: nat
  ap_ip :: ip_plugin

datatype ident_reply = No_connection | Write_failed | Read_failed | Reply string

record auth_env =
  ae_net :: netlib
  ae_is_ip :: "string \<Rightarrow> bool"
  ae_xff :: "string list option"
  ae_filter_groups :: int
  ae_fs :: file_system
  ae_lists :: "int option"
  ae_ident :: "string \<Rightarrow> int \<Rightarrow> int \<Rightarrow> ident_reply"
  ae_story :: sb_env
  ae_board :: story_board
  ae_depth :: nat

record peer =
  pe_ip :: string
  pe_port :: int
  pe_source_port :: int

definition auth_plugin_new :: "bool \<Rightarrow> plugin_kind \<Rightarrow> config_var \<Rightarrow> auth_plugin" where
  "auth_plugin_new use_xff kind cv =
     \<lparr>ap_kind = kind, ap_cv = cv, ap_name = cv_entry cv ''plugname'', ap_default_fg = 0, ap_tran_default_fg = 0,
      ap_is_connection_based = (kind = Ip \<and> \<not> use_xff \<or> kind = Port),
      ap_needs_proxy_query = (kind = Proxy_digest \<or> kind = Proxy_header),
      ap_client_ip_based = (kind = Ip \<or> kind = Ident), ap_story_entry = 0, ap_ip = ip_plugin_new\<rparr>"

definition kind_of :: "string \<Rightarrow> plugin_kind option" where
  "kind_of plugname = map_of
     [(''proxy-basic'', Proxy_basic), (''proxy-digest'', Proxy_digest), (''ident'', Ident), (''ip'', Ip), (''port'', Port),
      (''proxy-header'', Proxy_header), (''pf-basic'', Pf_basic)] plugname"

definition auth_plugin_load :: "bool \<Rightarrow> string list option \<Rightarrow> auth_plugin option option" where
  "auth_plugin_load use_xff fl =
     (case readVar ''='' fl of
        None \<Rightarrow> None
      | Some (rc, cv) \<Rightarrow>
          if rc > 0 then Some None
          else let plugname = cv_entry cv ''plugname'' in
            if plugname = [] then Some None
            else Some (map_option (\<lambda>kind. auth_plugin_new use_xff kind cv) (kind_of plugname)))"

definition get_default :: "auth_plugin \<Rightarrow> bool \<Rightarrow> int" where
  "get_default ap is_transparent =
     (if is_transparent \<and> ap_tran_default_fg ap > 0 then ap_tran_default_fg ap
      else if ap_default_fg ap > 0 then ap_default_fg ap else 0)"

definition read_def_fg :: "int \<Rightarrow> auth_plugin \<Rightarrow> auth_plugin" where
  "read_def_fg filter_groups ap =
     (let i = toInteger (cv_entry (ap_cv ap) ''defaultfiltergroup'');
          j = toInteger (cv_entry (ap_cv ap) ''defaulttransparentfiltergroup'');
          ap1 = (if i > 0 \<and> i \<le> filter_groups then ap\<lparr>ap_default_fg := i\<rparr> else ap)
      in if j > 0 \<and> j \<le> filter_groups then ap1\<lparr>ap_tran_default_fg := j\<rparr> else ap1)"

fun entry_id :: "plugin_kind \<Rightarrow> nat" where
  "entry_id Ip = 11"
| "entry_id Port = 12"
| "entry_id Proxy_basic = 13"
| "entry_id Ident = 14"
| "entry_id Proxy_header = 15"
| "entry_id Proxy_digest = 17"
| "entry_id Pf_basic = 19"

text \<open>The result, the entries of the storyboard that plugins asked for, the files and the plugin.\<close>

definition plugin_init :: "auth_env \<Rightarrow> string \<Rightarrow> string list \<Rightarrow> (nat \<times> string) list \<Rightarrow> auth_plugin
    \<Rightarrow> int \<times> (nat \<times> string) list \<times> file_system \<times> auth_plugin" where
  "plugin_init env confdir maps entries ap =
     (let f = cv_entry (ap_cv ap) ''story_function''; n = entry_id (ap_kind ap) in
      if f = [] then (- 1, entries, ae_fs env, ap)
      else
        let entries1 = entries @ [(n, f)]; ap1 = ap\<lparr>ap_story_entry := n\<rparr> in
        if ap_kind ap = Ip then
          (case ip_init (ae_net env) (ae_filter_groups env) confdir maps (ae_lists env) (cv_entry (ap_cv ap) ''ipgroups'') (ae_fs env) (ap_ip ap) of
             (rc, fs, p) \<Rightarrow>
               if rc < 0 then (rc, entries1, fs, ap1\<lparr>ap_ip := p\<rparr>)
               else (rc, entries1, fs, read_def_fg (ae_filter_groups env) (ap1\<lparr>ap_ip := p\<rparr>)))
        else (0, entries1, ae_fs env, read_def_fg (ae_filter_groups env) ap1))"


section \<open>Identification\<close>

text \<open>What a plugin says of a request: the code, the user, whether the user is a person, and the record.\<close>

type_synonym identity = "auth_code \<times> string \<times> bool \<times> auth_rec"

definition found_user :: "string \<Rightarrow> string \<Rightarrow> bool \<Rightarrow> auth_rec \<Rightarrow> identity" where
  "found_user user source real ar = (E2AUTH_OK, user, real, ar\<lparr>ar_user_name := user, ar_user_source := source\<rparr>)"

definition header_identify :: "http_header \<Rightarrow> string \<Rightarrow> bool \<Rightarrow> auth_rec \<Rightarrow> identity option" where
  "header_identify h user real ar =
     map_option (\<lambda>v. if v \<noteq> [] then found_user v ''header'' False ar else (E2AUTH_NOMATCH, v, real, ar)) (getAuthHeader h)"

definition port_identify :: "peer \<Rightarrow> auth_rec \<Rightarrow> identity" where
  "port_identify pe ar = found_user (int_str (pe_port pe)) ''port'' False ar"

text \<open>What the two plugins for basic credentials do without them.\<close>

definition forwarded_identify :: "(string \<Rightarrow> bool) \<Rightarrow> http_header \<Rightarrow> string \<Rightarrow> bool \<Rightarrow> auth_rec \<Rightarrow> identity option" where
  "forwarded_identify is_ip h user real ar =
     map_option (\<lambda>f. case f of Some u \<Rightarrow> found_user u ''forwarded'' True ar | None \<Rightarrow> (E2AUTH_NOMATCH, user, real, ar))
       (extract_forwarded_user is_ip h)"

definition proxy_identify :: "(string \<Rightarrow> bool) \<Rightarrow> http_header \<Rightarrow> string \<Rightarrow> bool \<Rightarrow> auth_rec \<Rightarrow> identity option" where
  "proxy_identify is_ip h user real ar =
     (case (getAuthType h, getAuthData h) of
        (Some ty, Some authdata) \<Rightarrow>
          let t = toLower ty in
          if (t = ''basic'' \<or> t = []) \<and> CHR '':'' \<in> set authdata
          then Some (found_user (takeWhile (\<lambda>c. c \<noteq> CHR '':'') authdata) ''proxy'' True ar)
          else forwarded_identify is_ip h user real ar
      | _ \<Rightarrow> None)"

text \<open>\<^verbatim>\<open>resize (find_first_of (':'))\<close> raises an exception when there is no colon.\<close>

definition pf_basic_identify :: "(string \<Rightarrow> bool) \<Rightarrow> http_header \<Rightarrow> string \<Rightarrow> bool \<Rightarrow> auth_rec \<Rightarrow> identity option" where
  "pf_basic_identify is_ip h user real ar =
     (case (getAuthType h, getAuthData h) of
        (Some ty, Some authdata) \<Rightarrow>
          if toLower ty = ''basic'' then
            (if authdata = [] then forwarded_identify is_ip h [] real ar
             else if CHR '':'' \<in> set authdata then Some (found_user (takeWhile (\<lambda>c. c \<noteq> CHR '':'') authdata) ''pf_basic'' True ar)
             else None)
          else forwarded_identify is_ip h user real ar
      | _ \<Rightarrow> None)"

definition digest_identify :: "http_header \<Rightarrow> string \<Rightarrow> bool \<Rightarrow> auth_rec \<Rightarrow> identity option" where
  "digest_identify h user real ar =
     (case (getAuthType h, getRawAuthData h) of
        (Some ty, Some raw) \<Rightarrow>
          if toLower ty \<noteq> ''digest'' then Some (E2AUTH_NOMATCH, user, real, ar)
          else if raw = [] then Some (E2AUTH_NOMATCH, [], real, ar)
          else Some (found_user (before (after raw (''username='' @ dquote)) dquote) ''digest'' True ar)
      | _ \<Rightarrow> None)"

definition ident_identify :: "auth_env \<Rightarrow> peer \<Rightarrow> http_header \<Rightarrow> string \<Rightarrow> bool \<Rightarrow> auth_rec \<Rightarrow> identity option" where
  "ident_identify env pe h user real ar =
     (case (if xff_accepted (ae_xff env) (pe_ip pe) then getXForwardedForIP h else Some []) of
        None \<Rightarrow> None
      | Some f \<Rightarrow>
          let clientip = (if f = [] then pe_ip pe else f) in
          Some (case ae_ident env (cstr clientip) (pe_source_port pe) (pe_port pe) of
              No_connection \<Rightarrow> (E2AUTH_NOMATCH, user, real, ar)
            | Write_failed \<Rightarrow> (Auth_error (- 1), user, real, ar)
            | Read_failed \<Rightarrow> (Auth_error (- 2), user, real, ar)
            | Reply buff \<Rightarrow>
                let t1 = after (cstr buff) '':'' in
                if \<not> contains (before t1 '':'') ''USERID'' then (Auth_error (- 3), user, real, ar)
                else let t2 = removeWhiteSpace (after (after t1 '':'') '':'') in
                  if t2 \<noteq> [] then found_user (cstr t2) ''ident'' True ar else (E2AUTH_NOMATCH, user, real, ar)))"

definition identify :: "auth_env \<Rightarrow> peer \<Rightarrow> http_header \<Rightarrow> string \<Rightarrow> bool \<Rightarrow> auth_rec \<Rightarrow> auth_plugin \<Rightarrow> (identity \<times> auth_plugin) option" where
  "identify env pe h user real ar ap =
     (case ap_kind ap of
        Proxy_basic \<Rightarrow> map_option (\<lambda>r. (r, ap)) (proxy_identify (ae_is_ip env) h user real ar)
      | Proxy_digest \<Rightarrow> map_option (\<lambda>r. (r, ap)) (digest_identify h user real ar)
      | Ident \<Rightarrow> map_option (\<lambda>r. (r, ap)) (ident_identify env pe h user real ar)
      | Ip \<Rightarrow> map_option (\<lambda>(u, ar', p). ((E2AUTH_OK, u, True, ar'), ap\<lparr>ap_ip := p\<rparr>)) (ip_identify (ae_net env) (ae_xff env) (pe_ip pe) h ar (ap_ip ap))
      | Port \<Rightarrow> Some (port_identify pe ar, ap)
      | Proxy_header \<Rightarrow> map_option (\<lambda>r. (r, ap)) (header_identify h user real ar)
      | Pf_basic \<Rightarrow> map_option (\<lambda>r. (r, ap)) (pf_basic_identify (ae_is_ip env) h user real ar))"


section \<open>Groups\<close>

definition with_authrec :: "(auth_rec \<Rightarrow> auth_rec) \<Rightarrow> naughty_filter \<Rightarrow> naughty_filter" where
  "with_authrec f cm = cm\<lparr>cm_authrec := map_option f (cm_authrec cm)\<rparr>"

type_synonym grouping = "auth_code \<times> string \<times> int \<times> naughty_filter"

text \<open>\<^verbatim>\<open>AuthPlugin::determineGroup\<close>.\<close>

definition story_determineGroup :: "auth_env \<Rightarrow> auth_plugin \<Rightarrow> string \<Rightarrow> int \<Rightarrow> naughty_filter \<Rightarrow> grouping outcome" where
  "story_determineGroup env ap user0 fg cm =
     (if user0 = [] \<or> user0 = ''-'' then Done (E2AUTH_NOMATCH, user0, fg, cm)
      else
        let user = cstr (toLower (normalise_auth_username user0)) in
        obind (runFunctEntry (ae_depth env) (ae_story env) (ae_board env) (ap_story_entry ap) (cm\<lparr>cm_user := user\<rparr>)) (\<lambda>(found, cm1).
          if found then
            Done (E2AUTH_OK, user, cm_filtergroup cm1,
              with_authrec (\<lambda>ar. (named user (ar\<lparr>ar_filter_group := cm_filtergroup cm1\<rparr>))\<lparr>ar_is_authed := True\<rparr>) cm1)
          else
            let t = get_default ap (\<not> isProxyRequest (cm_request_header cm1)) in
            if t > 0 then
              Done (E2AUTH_OK, user, t - 1, with_authrec (\<lambda>ar. named user (ar\<lparr>ar_filter_group := t - 1, ar_group_source := ''pdef''\<rparr>)) cm1)
            else Done (E2AUTH_NOGROUP, user, fg, cm1)))"

definition pf_determineGroup :: "auth_env \<Rightarrow> auth_plugin \<Rightarrow> string \<Rightarrow> int \<Rightarrow> naughty_filter \<Rightarrow> grouping outcome" where
  "pf_determineGroup env ap user0 fg cm =
     (if user0 = [] \<or> user0 = ''-'' \<or> normalise_auth_username user0 = [] then Done (E2AUTH_NOMATCH, user0, fg, cm)
      else
        let user = cstr (toLower (cstr (normalise_auth_username user0))); source = cv_entry (ap_cv ap) ''plugname'' in
        obind (runFunctEntry (ae_depth env) (ae_story env) (ae_board env) (ap_story_entry ap) (cm\<lparr>cm_user := user\<rparr>)) (\<lambda>(found, cm1).
          if found then
            Done (E2AUTH_OK, user, cm_filtergroup cm1,
              with_authrec (\<lambda>ar. (named user (ar\<lparr>ar_group_source := source, ar_filter_group := cm_filtergroup cm1\<rparr>))\<lparr>ar_is_authed := True\<rparr>) cm1)
          else
            let t = get_default ap (\<not> isProxyRequest (cm_request_header cm1)) in
            if t > 0 then
              Done (E2AUTH_OK, user, t - 1, with_authrec (\<lambda>ar. named user (ar\<lparr>ar_group_source := source, ar_filter_group := t - 1\<rparr>))
                (cm1\<lparr>cm_filtergroup := t - 1\<rparr>))
            else Done (E2AUTH_NOGROUP, user, fg, cm1)))"

definition determineGroup :: "auth_env \<Rightarrow> auth_plugin \<Rightarrow> string \<Rightarrow> int \<Rightarrow> naughty_filter \<Rightarrow> (grouping \<times> auth_plugin) outcome" where
  "determineGroup env ap user fg cm =
     (if ap_kind ap = Ip then
        (case ip_determineGroup (ae_net env) (ae_filter_groups env) (ae_fs env) (ae_lists env) user fg cm (ap_ip ap) of
           (rc, user', fg', cm', p) \<Rightarrow> Done ((rc, user', fg', cm'), ap\<lparr>ap_ip := p\<rparr>))
      else
        obind ((if ap_kind ap = Pf_basic then pf_determineGroup else story_determineGroup) env ap user fg cm) (\<lambda>r. Done (r, ap)))"


section \<open>Properties\<close>

lemma strip_end_id: "s = [] \<or> \<not> P (last s) \<Longrightarrow> strip_end P s = s"
  by (cases s rule: rev_cases) (auto simp: strip_end_def)

lemma strip_end_snoc: "P c \<Longrightarrow> strip_end P (s @ [c]) = strip_end P s"
  by (simp add: strip_end_def)

text \<open>The line that sets an option.\<close>

definition option_line :: "string \<Rightarrow> string \<Rightarrow> string" where
  "option_line k v = k @ '' = '' @ [CHR 0x27] @ v @ [CHR 0x27]"

lemma option_line_read:
  assumes "k \<noteq> []" and "last k \<noteq> CHR '' ''" and "nul_free (k @ v)" and "CHR ''='' \<notin> set (k @ v)"
    and "v = [] \<or> \<not> quote_char (hd v) \<and> hd v \<noteq> CHR '' '' \<and> \<not> quote_char (last v)"
  shows "config_line ''='' (option_line k v) params = Some (params(k \<mapsto> v))"
proof -
  have k: "hd k \<noteq> CHR ''=''" using assms(1,4) by (metis UnCI hd_in_set set_append)
  have c: "cstr (option_line k v) = option_line k v" using assms(3) by (intro cstr_nul_free) (auto simp: option_line_def nul_def)
  have h: "hd (option_line k v) \<noteq> CHR ''=''" using k assms(1) by (simp add: option_line_def)
  have t1: "strtok ''='' (option_line k v) = Some (k @ '' '', '' '' @ [CHR 0x27] @ v @ [CHR 0x27])"
    using assms(1,4) k by (cases k) (auto simp: strtok_def option_line_def Let_def takeWhile_append dropWhile_append)
  have t2: "strtok ''='' ('' '' @ [CHR 0x27] @ v @ [CHR 0x27]) = Some ('' '' @ [CHR 0x27] @ v @ [CHR 0x27], [])"
    using assms(4) by (auto simp: strtok_def Let_def takeWhile_append dropWhile_append)
  have v: "strip_end quote_char (dropWhile (\<lambda>c. quote_char c \<or> c = CHR '' '') ('' '' @ [CHR 0x27] @ v @ [CHR 0x27])) = v"
  proof (cases v)
    case Nil
    then show ?thesis by (simp add: quote_char_def strip_end_def)
  next
    case (Cons a w)
    then have "dropWhile (\<lambda>c. quote_char c \<or> c = CHR '' '') ('' '' @ [CHR 0x27] @ v @ [CHR 0x27]) = v @ [CHR 0x27]"
      using assms(5) by (simp add: quote_char_def)
    moreover have "strip_end quote_char (v @ [CHR 0x27]) = v"
      using assms(5) Cons by (subst strip_end_snoc) (simp add: quote_char_def, rule strip_end_id, simp)
    ultimately show ?thesis by (simp only:)
  qed
  have kk: "strip_end (\<lambda>c. c = CHR '' '') (k @ '' '') = k"
    using assms(1,2) strip_end_snoc [of "\<lambda>c. c = CHR '' ''" "CHR '' ''" k] by (simp add: strip_end_id)
  show ?thesis unfolding config_line_def c Let_def using t1 t2 v kk assms(1) by simp
qed

lemma config_lines_append:
  "config_lines d (xs @ ys) params = Option.bind (config_lines d xs params) (config_lines d ys)"
  by (induction xs arbitrary: params) (auto split: Option.bind_split)

text \<open>The line names the option \<open>k\<close>: what stands before its first equals sign is \<open>k\<close>, up to blanks at the end.\<close>

definition names_option :: "string \<Rightarrow> string \<Rightarrow> bool" where
  "names_option k x = (case strtok ''='' (cstr x) of
     None \<Rightarrow> False | Some (command, _) \<Rightarrow> strip_end (\<lambda>c. c = CHR '' '') command = k)"

lemma config_line_upd:
  "\<not> names_option k x \<Longrightarrow> config_line ''='' x (params(k \<mapsto> v)) = map_option (\<lambda>p. p(k \<mapsto> v)) (config_line ''='' x params)"
  by (auto simp: names_option_def config_line_def Let_def fun_upd_twist split: option.splits)

lemma config_lines_upd:
  "\<forall>x \<in> set xs. \<not> names_option k x
   \<Longrightarrow> config_lines ''='' xs (params(k \<mapsto> v)) = map_option (\<lambda>p. p(k \<mapsto> v)) (config_lines ''='' xs params)"
proof (induction xs arbitrary: params)
  case (Cons x xs)
  then have "config_lines ''='' (x # xs) (params(k \<mapsto> v))
      = Option.bind (map_option (\<lambda>p. p(k \<mapsto> v)) (config_line ''='' x params)) (config_lines ''='' xs)"
    by (simp only: config_lines.simps config_line_upd list.set_intros simp_thms)
  also have "\<dots> = map_option (\<lambda>p. p(k \<mapsto> v)) (config_lines ''='' (x # xs) params)"
    using Cons.prems by (cases "config_line ''='' x params") (simp_all add: Cons.IH del: fun_upd_apply)
  finally show ?case .
qed simp

text \<open>C23: a quoted option that is added to a configuration file after every other line that names it is read back as
  it was written, in place of an earlier value, and every other option is read as before. Name and value have no equals
  sign and no NUL, the name does not end in a blank, the value has no quote at its ends and no blank in front, and no line
  up to the new one is too long for the buffer of 2048 bytes.\<close>

theorem option_read_back:
  assumes "readVar ''='' (Some (ls @ ms)) = Some (0, cv)" and "list_all (\<lambda>s. length s \<le> 2047) ls"
    and "\<forall>x \<in> set ms. \<not> names_option k x"
    and "k \<noteq> []" and "last k \<noteq> CHR '' ''" and "nul_free (k @ v)" and "CHR ''='' \<notin> set (k @ v)"
    and "v = [] \<or> \<not> quote_char (hd v) \<and> hd v \<noteq> CHR '' '' \<and> \<not> quote_char (last v)"
    and "length k + length v \<le> 2042"
  shows "readVar ''='' (Some (ls @ option_line k v # ms)) = Some (0, cv(k \<mapsto> v))"
proof -
  let ?short = "takeWhile (\<lambda>s. length s \<le> 2047)"
  have l: "?short (ls @ xs) = ls @ ?short xs" for xs using assms(2) by (induction ls) simp_all
  have o: "length (option_line k v) \<le> 2047" using assms(9) by (simp add: option_line_def)
  obtain p where p: "config_lines ''='' ls Map.empty = Some p" "config_lines ''='' (?short ms) p = Some cv"
    using assms(1) by (auto simp: readVar_def l config_lines_append split: Option.bind_splits)
  moreover have "\<forall>x \<in> set (?short ms). \<not> names_option k x" using assms(3) by (auto dest: set_takeWhileD)
  ultimately show ?thesis
    using o option_line_read [OF assms(4-8)] by (simp add: readVar_def l config_lines_append config_lines_upd)
qed

theorem option_read_back_witness:
  "readVar ''='' (Some [''# plugin'', ''plugname = old'', option_line ''plugname'' ''ip'', ''# end'']) = Some (0, [''plugname'' \<mapsto> ''ip''])"
proof -
  have e: "strtok ''='' (cstr ''# end'') = Some (''# end'', [])" "strtok ''='' [] = None" "strip_end (\<lambda>c. c = CHR '' '') ''# end'' = ''# end''"
    by code_simp+
  have "strtok ''='' (cstr ''# plugin'') = Some (''# plugin'', [])" by code_simp
  moreover have "strtok ''='' (cstr ''plugname = old'') = Some (''plugname '', '' old'')" "strtok ''='' '' old'' = Some ('' old'', [])"
    "strip_end quote_char (dropWhile (\<lambda>c. quote_char c \<or> c = CHR '' '') '' old'') = ''old''" "strip_end (\<lambda>c. c = CHR '' '') ''plugname '' = ''plugname''"
    by code_simp+
  ultimately have "readVar ''='' (Some ([''# plugin'', ''plugname = old''] @ [''# end''])) = Some (0, [''plugname'' \<mapsto> ''old''])"
    by (simp add: e readVar_def config_line_def Let_def)
  moreover have "\<not> names_option ''plugname'' ''# end''" by (simp only: names_option_def e option.case prod.case) simp
  ultimately show ?thesis
    using option_read_back [of "[''# plugin'', ''plugname = old'']" "[''# end'']" "[''plugname'' \<mapsto> ''old'']" "''plugname''" "''ip''"]
    by (simp add: quote_char_def nul_def)
qed

end
