(* ===== verification/Auth_Session.thy ===== *)
theory Auth_Session
  imports Auth_Plugin
begin

text \<open>
  Authentication of the requests of a connection (\<^verbatim>\<open>doAuth\<close> and the start of \<^verbatim>\<open>handleConnection\<close> in
  \<^verbatim>\<open>src/src/ConnectionHandler.cpp\<close>) and the loading of the plugins (\<^verbatim>\<open>src/src/OptionContainer.cpp\<close>). The plugins are asked in
  their order for the user of a request and then for the group of the user; the last answer is kept for the
  connection.

  A plugin is an object with two virtual methods: the loop is a function of the two methods, and
  \<open>doAuth\<close> runs it with those of the plugins. The connection to an upstream proxy that a plugin may ask for is left out,
  as only the plugin for NTLM asks for one.
\<close>

section \<open>Loading\<close>

text \<open>\<open>None\<close> is a line of a file that is read out of its buffer, \<open>Some None\<close> a failure.\<close>

fun loadAuthPlugins :: "auth_env \<Rightarrow> string \<Rightarrow> string list \<Rightarrow> string list option list \<Rightarrow> (bool \<times> auth_plugin list \<times> (nat \<times> string) list \<times> file_system)
    \<Rightarrow> (bool \<times> auth_plugin list \<times> (nat \<times> string) list \<times> file_system) option option" where
  "loadAuthPlugins env confdir maps [] st = Some (Some st)"
| "loadAuthPlugins env confdir maps (config # configs) st =
     (case auth_plugin_load (ae_xff env \<noteq> None) config of
        None \<Rightarrow> None
      | Some None \<Rightarrow> Some None
      | Some (Some ap) \<Rightarrow>
          (case st of (query, aps, entries, fs) \<Rightarrow>
             (case plugin_init (env\<lparr>ae_fs := fs\<rparr>) confdir maps entries ap of
                (rc, entries', fs', ap') \<Rightarrow>
                  if rc < 0 then Some None
                  else loadAuthPlugins env confdir maps configs (query \<or> ap_needs_proxy_query ap', aps @ [ap'], entries', fs'))))"

record auth_options =
  ao_map_auth_to_ports :: bool
  ao_filter_ports :: "string list"
  ao_auth_map :: "int \<rightharpoonup> string"
  ao_requires_user_and_group :: bool
  ao_needs_proxy_query :: bool
  ao_numfg :: int
  ao_default_fg :: int
  ao_default_trans_fg :: int

definition auth_map_of :: "bool \<Rightarrow> string list \<Rightarrow> auth_plugin list \<Rightarrow> int \<rightharpoonup> string" where
  "auth_map_of map_to_ports ports aps =
     foldl (\<lambda>m i. m((if \<not> map_to_ports \<or> length ports = 1 then int i else toInteger (ports ! i)) \<mapsto> ap_name (aps ! i)))
       Map.empty [0..<length aps]"


section \<open>The handler\<close>

record conn_handler =
  ch_filtergroup :: int
  ch_oldfg :: int
  ch_persistent_authed :: bool
  ch_overide_persist :: bool
  ch_is_real_user :: bool
  ch_clientuser :: string
  ch_oldclientuser :: string

text \<open>At the start of a connection, where the group is not set.\<close>

definition handlePeer_start :: "int \<Rightarrow> conn_handler" where
  "handlePeer_start fg = \<lparr>ch_filtergroup = fg, ch_oldfg = 0, ch_persistent_authed = False, ch_overide_persist = False,
     ch_is_real_user = False, ch_clientuser = [], ch_oldclientuser = []\<rparr>"

record auth_state =
  au_rc :: auth_code
  au_authed :: bool
  au_handler :: conn_handler
  au_cm :: naughty_filter
  au_reply :: string

type_synonym ident_method = "http_header \<Rightarrow> string \<Rightarrow> bool \<Rightarrow> auth_rec \<Rightarrow> auth_plugin \<Rightarrow> (identity \<times> auth_plugin) option"
type_synonym group_method = "auth_plugin \<Rightarrow> string \<Rightarrow> int \<Rightarrow> naughty_filter \<Rightarrow> (grouping \<times> auth_plugin) outcome"

definition with_handler :: "(conn_handler \<Rightarrow> conn_handler) \<Rightarrow> auth_state \<Rightarrow> auth_state" where
  "with_handler f st = st\<lparr>au_handler := f (au_handler st)\<rparr>"

text \<open>Whether a plugin is asked, and the number of plugins asked so far.\<close>

definition selects :: "auth_options \<Rightarrow> int \<Rightarrow> nat \<Rightarrow> auth_plugin \<Rightarrow> bool \<times> nat" where
  "selects opts lport authloop ap =
     (let at = (\<lambda>k. case ao_auth_map opts k of None \<Rightarrow> [] | Some s \<Rightarrow> s) in
      if \<not> ao_map_auth_to_ports opts then (True, authloop)
      else if length (ao_filter_ports opts) > 1 then (at lport = cstr (ap_name ap), authloop)
      else (at (int authloop) = cstr (ap_name ap), Suc authloop))"

text \<open>The header is that of the request, its record that of the connection. \<open>Stop Bad_test\<close> is a line of the header that is gone, or an exception.\<close>

definition ask_user :: "ident_method \<Rightarrow> auth_plugin \<Rightarrow> auth_state \<Rightarrow> (auth_plugin \<times> auth_state) outcome" where
  "ask_user ident ap st =
     (case cm_authrec (au_cm st) of
        None \<Rightarrow> Stop Bad_test
      | Some ar \<Rightarrow>
          (case ident (cm_request_header (au_cm st)) (ch_clientuser (au_handler st)) (ch_is_real_user (au_handler st)) ar ap of
             None \<Rightarrow> Stop Bad_test
           | Some ((rc, user, real, ar'), ap') \<Rightarrow>
               Done (ap', with_handler (\<lambda>h. h\<lparr>ch_clientuser := user, ch_is_real_user := real\<rparr>)
                 (st\<lparr>au_rc := rc, au_cm := (au_cm st)\<lparr>cm_authrec := Some ar'\<rparr>\<rparr>))))"

datatype loop_end = Go_on | Leave | Give_up

fun auth_failed :: "auth_code \<Rightarrow> bool" where
  "auth_failed (Auth_error _) = True"
| "auth_failed _ = False"

definition ask_group :: "group_method \<Rightarrow> auth_options \<Rightarrow> auth_plugin \<Rightarrow> auth_state \<Rightarrow> (loop_end \<times> auth_plugin \<times> auth_state) outcome" where
  "ask_group group_of opts ap st =
     (let h = au_handler st in
      obind (group_of ap (ch_clientuser h) (ch_filtergroup h) (au_cm st)) (\<lambda>((rc, user, fg, cm), ap').
        let st1 = st\<lparr>au_rc := rc, au_cm := cm, au_handler := h\<lparr>ch_clientuser := user, ch_filtergroup := fg\<rparr>\<rparr> in
        if rc = E2AUTH_OK then Done (Leave, ap', st1\<lparr>au_authed := True\<rparr>)
        else if rc = E2AUTH_NOMATCH then Done (Go_on, ap', with_handler (\<lambda>h. h\<lparr>ch_clientuser := []\<rparr>) st1)
        else if rc = E2AUTH_NOGROUP then
          (if ao_requires_user_and_group opts \<or> \<not> ch_is_real_user h
           then Done (Go_on, ap', with_handler (\<lambda>h. h\<lparr>ch_clientuser := []\<rparr>) (st1\<lparr>au_cm := with_authrec (\<lambda>ar. ar\<lparr>ar_user_source := []\<rparr>) cm\<rparr>))
           else Done (Leave, ap', st1\<lparr>au_authed := True\<rparr>))
        else if auth_failed rc then Done (Give_up, ap', st1)
        else Done (Go_on, ap', st1)))"

definition query_plugin :: "ident_method \<Rightarrow> group_method \<Rightarrow> auth_options \<Rightarrow> int \<Rightarrow> bool \<Rightarrow> bool \<Rightarrow> nat \<Rightarrow> auth_plugin \<Rightarrow> auth_state
    \<Rightarrow> (loop_end \<times> nat \<times> auth_plugin \<times> auth_state) outcome" where
  "query_plugin ident group_of opts lport only_client_ip isconnect_like authloop ap st =
     (if only_client_ip \<and> \<not> ap_client_ip_based ap then Done (Go_on, authloop, ap, st)
      else case selects opts lport authloop ap of (selected, n) \<Rightarrow>
        obind (if selected then ask_user ident ap st else Done (ap, st\<lparr>au_rc := E2AUTH_NOMATCH\<rparr>)) (\<lambda>(ap1, st1).
          let rc = au_rc st1; h = au_handler st1 in
          if rc = E2AUTH_NOMATCH then Done (Go_on, n, ap1, st1)
          else if rc = E2AUTH_REDIRECT then
            Done (Give_up, n, ap1, if isconnect_like then st1
              else st1\<lparr>au_reply := au_reply st1 @ cstr (''HTTP/1.1 302 Redirect'' @ [CHR 0x0D, CHR 0x0A] @ ''Location: '' @ ch_clientuser h
                @ [CHR 0x0D, CHR 0x0A, CHR 0x0D, CHR 0x0A])\<rparr>)
          else if auth_failed rc then Done (Give_up, n, ap1, st1)
          else
            let st2 = (if rc = E2AUTH_OK_NOPERSIST then with_handler (\<lambda>h. h\<lparr>ch_overide_persist := True\<rparr>) st1 else st1) in
            if ch_clientuser h = ch_oldclientuser h then
              Done (Leave, n, ap1, with_handler (\<lambda>h. h\<lparr>ch_filtergroup := ch_oldfg h\<rparr>) (st2\<lparr>au_authed := True\<rparr>))
            else obind (ask_group group_of opts ap1 st2) (\<lambda>(e, ap2, st3). Done (e, n, ap2, st3))))"

text \<open>The result is how the loop ended, the plugins, the last one that was looked at, and the state.\<close>

fun auth_loop :: "ident_method \<Rightarrow> group_method \<Rightarrow> auth_options \<Rightarrow> int \<Rightarrow> bool \<Rightarrow> bool \<Rightarrow> nat \<Rightarrow> auth_plugin list \<Rightarrow> auth_plugin \<Rightarrow> auth_state
    \<Rightarrow> (loop_end \<times> auth_plugin list \<times> auth_plugin \<times> auth_state) outcome" where
  "auth_loop ident group_of opts lport only_client_ip isconnect_like authloop [] lst st = Done (Go_on, [], lst, st)"
| "auth_loop ident group_of opts lport only_client_ip isconnect_like authloop (ap # aps) lst st =
     obind (query_plugin ident group_of opts lport only_client_ip isconnect_like authloop ap st) (\<lambda>(e, n, ap', st').
       if e = Go_on then
         obind (auth_loop ident group_of opts lport only_client_ip isconnect_like n aps ap' st') (\<lambda>(e', aps', lst', st'').
           Done (e', ap' # aps', lst', st''))
       else Done (e, ap' # aps, ap', st'))"

text \<open>What the handler keeps of the answer.\<close>

definition auth_answer :: "auth_options \<Rightarrow> auth_plugin \<Rightarrow> auth_state \<Rightarrow> auth_state" where
  "auth_answer opts lst st =
     (let h = au_handler st in
      if \<not> au_authed st \<or> ch_filtergroup h < 0 \<or> ch_filtergroup h \<ge> ao_numfg opts
      then st\<lparr>au_authed := \<not> ao_needs_proxy_query opts, au_handler := h\<lparr>ch_clientuser := ''-''\<rparr>\<rparr>
      else st\<lparr>au_handler := h\<lparr>ch_persistent_authed := ch_persistent_authed h \<or> ap_is_connection_based lst \<and> \<not> ch_overide_persist h,
        ch_oldclientuser := ch_clientuser h, ch_oldfg := ch_filtergroup h\<rparr>\<rparr>)"

definition do_auth :: "ident_method \<Rightarrow> group_method \<Rightarrow> auth_options \<Rightarrow> int \<Rightarrow> bool \<Rightarrow> bool \<Rightarrow> auth_plugin list \<Rightarrow> auth_state
    \<Rightarrow> (bool \<times> auth_plugin list \<times> auth_state) outcome" where
  "do_auth ident group_of opts lport only_client_ip isconnect_like aps st =
     (let st0 = st\<lparr>au_rc := E2AUTH_OK\<rparr> in
      if aps \<noteq> [] then
        obind (auth_loop ident group_of opts lport only_client_ip isconnect_like 0 aps (hd aps) st0) (\<lambda>(e, aps', lst, st1).
          Done (if e = Give_up then (False, aps', st1) else (True, aps', auth_answer opts lst st1)))
      else Done (True, [], with_handler (\<lambda>h. h\<lparr>ch_clientuser := ''-'', ch_persistent_authed := True\<rparr>) (st0\<lparr>au_authed := True\<rparr>)))"

definition doAuth :: "auth_env \<Rightarrow> peer \<Rightarrow> auth_options \<Rightarrow> bool \<Rightarrow> bool \<Rightarrow> auth_plugin list \<Rightarrow> auth_state
    \<Rightarrow> (bool \<times> auth_plugin list \<times> auth_state) outcome" where
  "doAuth env pe opts only_client_ip isconnect_like aps st =
     do_auth (identify env pe) (determineGroup env) opts (pe_port pe) only_client_ip isconnect_like aps st"


section \<open>The authentication of a request\<close>

text \<open>\<^verbatim>\<open>getFG\<close>: the options of the groups are a list.\<close>

definition getFG :: "'a list \<Rightarrow> int \<Rightarrow> 'a option" where
  "getFG fgs fg = (if fg < 0 \<or> fg \<ge> int (length fgs) then None else Some (fgs ! nat fg))"

definition exception_client :: "naughty_filter \<Rightarrow> bool" where
  "exception_client cm \<longleftrightarrow> cm_special_exception_ip cm \<or> cm_isexception cm \<and> (cm_message_no cm = 600 \<or> cm_message_no cm = 631)"

definition banned_client :: "naughty_filter \<Rightarrow> bool" where
  "banned_client cm \<longleftrightarrow> cm_special_banned_ip cm
     \<or> cm_isBlocked cm \<and> (cm_message_no cm = 100 \<or> cm_log_message_no cm = 103 \<or> cm_log_message_no cm = 104)"

definition set_group :: "auth_state \<Rightarrow> auth_state" where
  "set_group st =
     (let cm = (au_cm st)\<lparr>cm_filtergroup := ch_filtergroup (au_handler st)\<rparr> in
      st\<lparr>au_cm := if cm_special_exception_ip cm then cm\<lparr>cm_nomitm := True, cm_automitm := False\<rparr> else cm\<rparr>)"

text \<open>The block of \<^verbatim>\<open>handleConnection\<close>. \<open>ssl_mitm\<close> says for each group whether it intercepts. The result says whether the
  connection goes on.\<close>

definition authenticate :: "auth_env \<Rightarrow> peer \<Rightarrow> auth_options \<Rightarrow> bool list \<Rightarrow> auth_plugin list \<Rightarrow> auth_state
    \<Rightarrow> (bool \<times> auth_plugin list \<times> auth_state) outcome" where
  "authenticate env pe opts ssl_mitm aps st0 =
     (let st = with_handler (\<lambda>h. h\<lparr>ch_overide_persist := False\<rparr>) st0; cm = au_cm st in
      if exception_client cm then
        Done (True, aps, set_group (with_handler (\<lambda>h. h\<lparr>ch_filtergroup := - 1\<rparr>)
          (st\<lparr>au_authed := True, au_cm := cm\<lparr>cm_special_exception_ip := True, cm_filtergroup := - 1, cm_nomitm := True, cm_automitm := False\<rparr>\<rparr>)))
      else if banned_client cm then
        Done (True, aps, set_group (with_handler (\<lambda>h. h\<lparr>ch_filtergroup := - 1\<rparr>)
          (st\<lparr>au_authed := True, au_cm := cm\<lparr>cm_special_banned_ip := True, cm_filtergroup := - 1\<rparr>\<rparr>)))
      else if \<not> ch_persistent_authed (au_handler st) then
        let proxy = isProxyRequest (cm_request_header cm);
            st1 = with_handler (\<lambda>h. h\<lparr>ch_filtergroup := if proxy then ao_default_fg opts else ao_default_trans_fg opts\<rparr>)
              (st\<lparr>au_cm := with_authrec (\<lambda>ar. (if proxy then ar\<lparr>ar_is_proxy := True\<rparr> else ar\<lparr>ar_is_transparent := True\<rparr>)\<lparr>ar_group_source := ''def''\<rparr>) cm\<rparr>)
        in obind (doAuth env pe opts (\<not> proxy) (cm_isconnect cm) aps st1) (\<lambda>(ok, aps', st2).
             if ok then Done (True, aps', set_group st2)
             else if au_rc st2 = E2AUTH_REDIRECT \<and> cm_isconnect (au_cm st2) \<and> getFG ssl_mitm (ch_filtergroup (au_handler st2)) = Some True
             then Done (True, aps', set_group (st2\<lparr>au_cm := (au_cm st2)\<lparr>cm_gomitm := True, cm_isdone := True\<rparr>\<rparr>))
             else Done (False, aps', st2))
      else Done (True, aps, set_group (st\<lparr>au_authed := True\<rparr>)))"


text \<open>\<^verbatim>\<open>ConnectionHandler::determineGroup\<close>, for users named by an ICAP client.\<close>

definition icap_determineGroup :: "auth_env \<Rightarrow> string \<Rightarrow> int \<Rightarrow> naughty_filter \<Rightarrow> (auth_code \<times> int \<times> naughty_filter) outcome" where
  "icap_determineGroup env user fg cm =
     (if user = [] \<or> user = ''-'' then Done (E2AUTH_NOMATCH, fg, cm)
      else obind (runFunctEntry (ae_depth env) (ae_story env) (ae_board env) 18 (cm\<lparr>cm_user := user\<rparr>)) (\<lambda>(found, cm1).
        Done (if found then (E2AUTH_OK, cm_filtergroup cm1, cm1) else (E2AUTH_NOGROUP, fg, cm1))))"

text \<open>The block of \<^verbatim>\<open>handleICAPreqmod\<close>: the name the client gave is looked up first, and kept when a plugin gives the group.
  What \<open>doAuth\<close> returns is ignored.\<close>

definition icap_authenticate :: "auth_env \<Rightarrow> peer \<Rightarrow> auth_options \<Rightarrow> int \<Rightarrow> string \<Rightarrow> auth_plugin list \<Rightarrow> auth_state
    \<Rightarrow> (auth_plugin list \<times> auth_state) outcome" where
  "icap_authenticate env pe opts default_icap_fg username aps st0 =
     (let st = with_handler (\<lambda>h. h\<lparr>ch_overide_persist := False, ch_clientuser := username, ch_filtergroup := default_icap_fg\<rparr>) st0;
          given = (\<not> (username = [] \<or> username = ''-''));
          cm = (if given then with_authrec (\<lambda>ar. ar\<lparr>ar_user_name := username, ar_user_source := ''icaph''\<rparr>) (au_cm st) else au_cm st)
      in obind (if given then icap_determineGroup env username default_icap_fg cm else Done (E2AUTH_NOGROUP, default_icap_fg, cm)) (\<lambda>(rc, fg, cm1).
        let st1 = with_handler (\<lambda>h. h\<lparr>ch_filtergroup := fg\<rparr>) (st\<lparr>au_cm := cm1\<rparr>) in
        obind (if rc = E2AUTH_OK then Done (aps, st1)
            else obind (doAuth env pe opts True True aps st1) (\<lambda>(ok, aps', st2).
              Done (aps', if given then with_handler (\<lambda>h. h\<lparr>ch_clientuser := username\<rparr>) (st2\<lparr>au_cm := (au_cm st2)\<lparr>cm_user := username\<rparr>\<rparr>) else st2)))
          (\<lambda>(aps', st3). Done (aps', st3\<lparr>au_authed := True, au_cm := (au_cm st3)\<lparr>cm_filtergroup := ch_filtergroup (au_handler st3)\<rparr>\<rparr>))))"

text \<open>The block of \<^verbatim>\<open>handleTHTTPSConnection\<close>, for transparent connections with TLS: only plugins for addresses are asked, and a
  connection of a group without interception is not to be decrypted.\<close>

definition thttps_group :: "bool list \<Rightarrow> auth_state \<Rightarrow> auth_state" where
  "thttps_group ssl_mitm st =
     (let fg = ch_filtergroup (au_handler st); cm = (au_cm st)\<lparr>cm_filtergroup := fg\<rparr> in
      st\<lparr>au_cm := if \<not> cm_nomitm cm then cm\<lparr>cm_nomitm := (getFG ssl_mitm fg \<noteq> Some True)\<rparr> else cm\<rparr>)"

definition thttps_authenticate :: "auth_env \<Rightarrow> peer \<Rightarrow> auth_options \<Rightarrow> bool list \<Rightarrow> auth_plugin list \<Rightarrow> auth_state
    \<Rightarrow> (bool \<times> auth_plugin list \<times> auth_state) outcome" where
  "thttps_authenticate env pe opts ssl_mitm aps st0 =
     (let st = with_handler (\<lambda>h. h\<lparr>ch_filtergroup := ao_default_trans_fg opts\<rparr>) st0; cm = au_cm st in
      if exception_client cm then
        Done (True, aps, with_handler (\<lambda>h. h\<lparr>ch_filtergroup := - 1\<rparr>)
          (st\<lparr>au_authed := True, au_cm := cm\<lparr>cm_special_exception_ip := True, cm_filtergroup := - 1, cm_nomitm := True, cm_automitm := False\<rparr>\<rparr>))
      else if banned_client cm then
        Done (True, aps, with_handler (\<lambda>h. h\<lparr>ch_filtergroup := - 1\<rparr>)
          (st\<lparr>au_authed := True, au_cm := cm\<lparr>cm_special_banned_ip := True, cm_filtergroup := - 1\<rparr>\<rparr>))
      else
        let st1 = with_handler (\<lambda>h. h\<lparr>ch_overide_persist := False\<rparr>) st in
        obind (if \<not> (cm_isItNaughty cm \<or> cm_isexception cm) then doAuth env pe opts True True aps st1 else Done (True, aps, st1)) (\<lambda>(ok, aps', st2).
          if ok then Done (True, aps', thttps_group ssl_mitm st2)
          else if au_rc st2 = E2AUTH_REDIRECT \<and> getFG ssl_mitm (ch_filtergroup (au_handler st2)) = Some True
          then Done (True, aps', thttps_group ssl_mitm (st2\<lparr>au_cm := (au_cm st2)\<lparr>cm_gomitm := cm_gomitm (au_cm st2) \<or> \<not> cm_nomitm (au_cm st2),
            cm_isdone := True\<rparr>\<rparr>))
          else Done (False, aps', st2)))"

text \<open>\<^verbatim>\<open>goMITM\<close>, before the requests inside of the tunnel are handled on the same object.\<close>

definition goMITM_persist :: "bool \<Rightarrow> conn_handler \<Rightarrow> conn_handler" where
  "goMITM_persist authed h = (if authed then h\<lparr>ch_persistent_authed := True\<rparr> else h)"

text \<open>The start of \<^verbatim>\<open>handleICAPresmod\<close>: group and user are those of the header of the client, and only a negative group is refused.\<close>

definition resmod_group :: "int \<Rightarrow> string \<Rightarrow> conn_handler \<Rightarrow> conn_handler option" where
  "resmod_group icap_filtergroup icap_user h =
     (if icap_filtergroup < 0 then None
      else Some (h\<lparr>ch_overide_persist := False, ch_filtergroup := icap_filtergroup, ch_clientuser := icap_user\<rparr>))"

text \<open>The requests that are authenticated, by the kind of the connection.\<close>

datatype auth_request = Proxy_request | Thttps_request | Icap_request string

definition answer_request :: "auth_env \<Rightarrow> peer \<Rightarrow> auth_options \<Rightarrow> int \<Rightarrow> bool list \<Rightarrow> auth_request \<Rightarrow> auth_plugin list \<Rightarrow> auth_state
    \<Rightarrow> (bool \<times> auth_plugin list \<times> auth_state) outcome" where
  "answer_request env pe opts default_icap_fg ssl_mitm rq aps st =
     (case rq of
        Proxy_request \<Rightarrow> authenticate env pe opts ssl_mitm aps st
      | Thttps_request \<Rightarrow> thttps_authenticate env pe opts ssl_mitm aps st
      | Icap_request username \<Rightarrow> obind (icap_authenticate env pe opts default_icap_fg username aps st) (\<lambda>(aps', st'). Done (True, aps', st')))"

fun is_icap :: "auth_request \<Rightarrow> bool" where
  "is_icap (Icap_request username) = True"
| "is_icap rq = False"


section \<open>The interface of the plugins\<close>

definition group_in :: "int \<Rightarrow> int \<Rightarrow> bool" where
  "group_in fgs g \<longleftrightarrow> - 1 \<le> g \<and> g < fgs"

text \<open>The contract of the two methods: they keep the plugin well formed, and a group they give exists or is the mark
  \<open>- 1\<close> of special clients.\<close>

locale auth_methods =
  fixes ident :: ident_method
    and group_of :: group_method
    and keeps :: "auth_plugin \<Rightarrow> bool"
    and fgs :: int
  assumes ident_keeps: "keeps ap \<Longrightarrow> ident hdr u r ar ap = Some (i, ap') \<Longrightarrow> keeps ap'"
    and group_keeps: "keeps ap \<Longrightarrow> group_in fgs fg \<Longrightarrow> group_in fgs (cm_filtergroup cm)
      \<Longrightarrow> group_of ap u fg cm = Done ((rc, u', fg', cm'), ap') \<Longrightarrow> keeps ap' \<and> group_in fgs fg' \<and> group_in fgs (cm_filtergroup cm')"
begin

definition state_ok :: "auth_state \<Rightarrow> bool" where
  "state_ok st \<longleftrightarrow> group_in fgs (ch_filtergroup (au_handler st)) \<and> 0 \<le> ch_oldfg (au_handler st) \<and> ch_oldfg (au_handler st) < fgs
     \<and> group_in fgs (cm_filtergroup (au_cm st))"

lemma ask_user_ok:
  assumes "ask_user ident ap st = Done (ap', st')" "keeps ap" "state_ok st"
  shows "keeps ap' \<and> state_ok st'"
  using assms ident_keeps
  by (auto simp: ask_user_def with_handler_def state_ok_def split: option.splits prod.splits)

lemma ask_group_ok:
  assumes "ask_group group_of opts ap st = Done (e, ap', st')" "keeps ap" "state_ok st"
  shows "keeps ap' \<and> state_ok st'"
proof -
  let ?h = "au_handler st"
  from assms(1) obtain rc user fg cm ap1 where g: "group_of ap (ch_clientuser ?h) (ch_filtergroup ?h) (au_cm st) = Done ((rc, user, fg, cm), ap1)"
    unfolding ask_group_def Let_def by (cases "group_of ap (ch_clientuser ?h) (ch_filtergroup ?h) (au_cm st)") auto
  from group_keeps [OF assms(2) _ _ g] assms(3) have "keeps ap1" "group_in fgs fg" "group_in fgs (cm_filtergroup cm)"
    by (simp_all add: state_ok_def)
  then show ?thesis using assms(1,3) g
    by (auto simp: ask_group_def with_handler_def with_authrec_def state_ok_def Let_def split: if_splits)
qed

lemma query_ok:
  assumes "query_plugin ident group_of opts lport only_ip connect n ap st = Done (e, n', ap', st')" "keeps ap" "state_ok st"
  shows "keeps ap' \<and> state_ok st'"
proof (cases "only_ip \<and> \<not> ap_client_ip_based ap")
  case True
  then show ?thesis using assms by (simp add: query_plugin_def)
next
  case False
  obtain sel m where s: "selects opts lport n ap = (sel, m)" by (metis surj_pair)
  let ?a = "if sel then ask_user ident ap st else Done (ap, st\<lparr>au_rc := E2AUTH_NOMATCH\<rparr>)"
  obtain ap1 st1 where a: "?a = Done (ap1, st1)"
    using assms(1) False s by (cases ?a) (auto simp: query_plugin_def)
  have k: "keeps ap1" "state_ok st1"
    using a assms(2,3) ask_user_ok by (auto simp: state_ok_def split: if_splits)
  define st2 where "st2 = (if au_rc st1 = E2AUTH_OK_NOPERSIST then with_handler (\<lambda>h. h\<lparr>ch_overide_persist := True\<rparr>) st1 else st1)"
  have k2: "state_ok st2" using k(2) by (simp add: st2_def with_handler_def state_ok_def)
  show ?thesis
  proof (cases "au_rc st1 = E2AUTH_NOMATCH \<or> au_rc st1 = E2AUTH_REDIRECT \<or> auth_failed (au_rc st1)
      \<or> ch_clientuser (au_handler st1) = ch_oldclientuser (au_handler st1)")
    case True
    then show ?thesis using assms(1) False s a k
      by (auto simp: query_plugin_def Let_def with_handler_def state_ok_def group_in_def split: if_splits)
  next
    case not: False
    then obtain r where g: "ask_group group_of opts ap1 st2 = Done r" "r = (e, ap', st')"
      using assms(1) False s a
      by (cases "ask_group group_of opts ap1 st2") (auto simp: query_plugin_def Let_def st2_def [symmetric])
    then show ?thesis using ask_group_ok k(1) k2 by blast
  qed
qed

lemma auth_loop_ok:
  assumes "auth_loop ident group_of opts lport only_ip connect n aps lst st = Done (e, aps', lst', st')" "list_all keeps aps" "state_ok st"
  shows "list_all keeps aps' \<and> state_ok st'"
  using assms
proof (induction aps arbitrary: n lst st e aps' lst' st')
  case Nil
  then show ?case by simp
next
  case (Cons ap aps)
  obtain e1 m ap1 st1 where q: "query_plugin ident group_of opts lport only_ip connect n ap st = Done (e1, m, ap1, st1)"
    using Cons.prems(1) by (cases "query_plugin ident group_of opts lport only_ip connect n ap st") auto
  from query_ok [OF q] Cons.prems have k: "keeps ap1" "state_ok st1" by simp_all
  show ?case
  proof (cases "e1 = Go_on")
    case True
    then obtain aps1 where l: "auth_loop ident group_of opts lport only_ip connect m aps ap1 st1 = Done (e, aps1, lst', st')" "aps' = ap1 # aps1"
      using Cons.prems(1) q by (cases "auth_loop ident group_of opts lport only_ip connect m aps ap1 st1") auto
    then show ?thesis using Cons.IH [OF l(1)] Cons.prems(2) k by simp
  next
    case False
    then show ?thesis using Cons.prems q k by auto
  qed
qed

lemma do_auth_ok:
  assumes "do_auth ident group_of opts lport only_ip connect aps st = Done (ok, aps', st')" "list_all keeps aps" "state_ok st"
    and "ao_numfg opts = fgs"
  shows "list_all keeps aps' \<and> state_ok st'"
proof (cases "aps = []")
  case True
  then show ?thesis using assms by (auto simp: do_auth_def Let_def with_handler_def state_ok_def)
next
  case False
  define st0 where "st0 = st\<lparr>au_rc := E2AUTH_OK\<rparr>"
  obtain e aps1 lst st1 where l: "auth_loop ident group_of opts lport only_ip connect 0 aps (hd aps) st0 = Done (e, aps1, lst, st1)"
    using assms(1) False by (cases "auth_loop ident group_of opts lport only_ip connect 0 aps (hd aps) st0") (auto simp: do_auth_def Let_def st0_def)
  have "list_all keeps aps1" "state_ok st1"
    using auth_loop_ok [OF l assms(2)] assms(3) by (simp_all add: st0_def state_ok_def)
  then show ?thesis using assms(1,4) False l
    by (auto simp: do_auth_def Let_def st0_def [symmetric] auth_answer_def state_ok_def group_in_def split: if_splits)
qed

end

section \<open>The plugins fulfil the contract\<close>

definition auth_plugin_ok :: "int \<Rightarrow> auth_plugin \<Rightarrow> bool" where
  "auth_plugin_ok fgs ap \<longleftrightarrow> ap_default_fg ap \<le> fgs \<and> ap_tran_default_fg ap \<le> fgs \<and> plugin_ok fgs (ap_ip ap)"

lemma get_default_range: "auth_plugin_ok fgs ap \<Longrightarrow> 0 < get_default ap t \<Longrightarrow> get_default ap t \<le> fgs"
  by (auto simp: get_default_def auth_plugin_ok_def split: if_splits)

lemma run_entry_group:
  assumes "runFunctEntry k env sb index cm = Done (r, cm')" and "group_ok env cm"
  shows "group_ok env cm'"
  using assms(1)
proof (cases rule: runFunctEntry_cases)
  case 1
  then show ?thesis using assms(2) by (simp add: group_ok_def)
next
  case (2 fID)
  then show ?thesis using groups.runFunct_rel [OF 2] assms(2) by simp
qed

lemma group_ok_in: "0 < se_numfg env \<Longrightarrow> group_ok env cm = group_in (se_numfg env) (cm_filtergroup cm)"
  by (auto simp: group_ok_def group_in_def)

lemma ip_lookup_range:
  assumes "ip_lookup addr user rfg g cm = (code, fg, cm')" "ip_groups_ok fgs g" "group_in fgs rfg" "group_in fgs (cm_filtergroup cm)"
  shows "group_in fgs fg \<and> group_in fgs (cm_filtergroup cm')"
  using ip_lookup_decides [OF assms(2), of addr user rfg cm]
proof
  assume "deciding_groups addr g = [] \<and> ip_lookup addr user rfg g cm = (E2AUTH_NOMATCH, rfg, cm)"
  then show ?thesis using assms by simp
next
  assume "\<exists>gr \<in> set (deciding_groups addr g). ip_group_ok fgs gr \<and> ip_use_group user rfg gr cm = Some (ip_lookup addr user rfg g cm)"
  then obtain gr where gr: "ip_group_ok fgs gr" "ip_use_group user rfg gr cm = Some (code, fg, cm')" using assms(1) by auto
  from use_group_result [OF gr(2)] gr(1) assms(3) show ?thesis by (auto simp: ip_group_ok_def group_in_def split: if_splits)
qed

lemma ip_determine_range:
  assumes "ip_determineGroup nl fgs fs lsts user rfg cm p = (code, user', fg, cm', p')" "plugin_ok fgs p" "group_in fgs rfg"
    "group_in fgs (cm_filtergroup cm)"
  shows "plugin_ok fgs p' \<and> group_in fgs fg \<and> group_in fgs (cm_filtergroup cm')"
proof (cases "inet_aton nl (cstr (trim_copy user))")
  case None
  then show ?thesis using assms by (auto simp: ip_determineGroup_def Let_def)
next
  case (Some addr)
  obtain b p1 where e: "ip_ensure_loaded nl fgs fs lsts p = (b, p1)" by (metis surj_pair)
  from ensure_loaded_ok [OF e assms(2)] have ok: "plugin_ok fgs p1" by simp
  obtain c f m where l: "ip_lookup addr (trim_copy user) rfg (ip_lists p1) cm = (c, f, m)" by (metis prod_cases3)
  from ok ip_lookup_range [OF l _ assms(3,4)] have "group_in fgs f \<and> group_in fgs (cm_filtergroup m)" by (simp add: plugin_ok_def)
  then show ?thesis using assms Some e l ok by (cases b) (auto simp: ip_determineGroup_def Let_def)
qed

lemma story_group_in:
  assumes "story_determineGroup env ap user fg cm = Done (rc, user', fg', cm')" "auth_plugin_ok fgs ap"
    and "se_numfg (ae_story env) = fgs" "0 < fgs" "group_in fgs fg" "group_in fgs (cm_filtergroup cm)"
  shows "group_in fgs fg' \<and> group_in fgs (cm_filtergroup cm')"
proof (cases "user = [] \<or> user = ''-''")
  case True
  then show ?thesis using assms by (auto simp: story_determineGroup_def)
next
  case False
  let ?u = "cstr (toLower (normalise_auth_username user))"
  obtain found cm1 where r: "runFunctEntry (ae_depth env) (ae_story env) (ae_board env) (ap_story_entry ap) (cm\<lparr>cm_user := ?u\<rparr>) = Done (found, cm1)"
    using assms(1) False by (auto simp: story_determineGroup_def Let_def )
  have "group_in fgs (cm_filtergroup cm1)"
    using run_entry_group [OF r] assms(3,4,6) by (simp add: group_ok_in [of "ae_story env", simplified assms(3)])
  moreover have "group_in fgs (get_default ap t - 1)" if "0 < get_default ap t" for t
    using get_default_range [OF assms(2) that] that by (simp add: group_in_def)
  ultimately show ?thesis using assms(1,5) False r
    by (auto simp: story_determineGroup_def Let_def with_authrec_def split: if_splits)
qed

lemma pf_group_in:
  assumes "pf_determineGroup env ap user fg cm = Done (rc, user', fg', cm')" "auth_plugin_ok fgs ap"
    and "se_numfg (ae_story env) = fgs" "0 < fgs" "group_in fgs fg" "group_in fgs (cm_filtergroup cm)"
  shows "group_in fgs fg' \<and> group_in fgs (cm_filtergroup cm')"
proof (cases "user = [] \<or> user = ''-'' \<or> normalise_auth_username user = []")
  case True
  then show ?thesis using assms by (auto simp: pf_determineGroup_def)
next
  case False
  let ?u = "cstr (toLower (cstr (normalise_auth_username user)))"
  obtain found cm1 where r: "runFunctEntry (ae_depth env) (ae_story env) (ae_board env) (ap_story_entry ap) (cm\<lparr>cm_user := ?u\<rparr>) = Done (found, cm1)"
    using assms(1) False by (auto simp: pf_determineGroup_def Let_def )
  have "group_in fgs (cm_filtergroup cm1)"
    using run_entry_group [OF r] assms(3,4,6) by (simp add: group_ok_in [of "ae_story env", simplified assms(3)])
  moreover have "group_in fgs (get_default ap t - 1)" if "0 < get_default ap t" for t
    using get_default_range [OF assms(2) that] that by (simp add: group_in_def)
  ultimately show ?thesis using assms(1,5) False r
    by (auto simp: pf_determineGroup_def Let_def with_authrec_def split: if_splits)
qed


definition auth_env_ok :: "auth_env \<Rightarrow> bool" where
  "auth_env_ok env \<longleftrightarrow> 0 < ae_filter_groups env \<and> se_numfg (ae_story env) = ae_filter_groups env"

lemma identify_plugin:
  assumes "identify env pe hdr u r ar ap = Some (i, ap')" "auth_plugin_ok fgs ap"
  shows "auth_plugin_ok fgs ap'"
proof (cases "ap_kind ap = Ip")
  case True
  then obtain v ar' p where p: "ip_identify (ae_net env) (ae_xff env) (pe_ip pe) hdr ar (ap_ip ap) = Some (v, ar', p)" "ap' = ap\<lparr>ap_ip := p\<rparr>"
    using assms(1) by (auto simp: identify_def)
  then have "plugin_ok fgs p = plugin_ok fgs (ap_ip ap)"
    by (auto simp: ip_identify_def plugin_ok_def Let_def split: option.splits if_splits)
  then show ?thesis using assms(2) p by (simp add: auth_plugin_ok_def)
next
  case False
  then have "ap' = ap" using assms(1) by (cases "ap_kind ap") (auto simp: identify_def)
  then show ?thesis using assms(2) by simp
qed

lemma determine_plugin:
  assumes "determineGroup env ap u fg cm = Done ((rc, u', fg', cm'), ap')" "auth_plugin_ok (ae_filter_groups env) ap" "auth_env_ok env"
    and "group_in (ae_filter_groups env) fg" "group_in (ae_filter_groups env) (cm_filtergroup cm)"
  shows "auth_plugin_ok (ae_filter_groups env) ap' \<and> group_in (ae_filter_groups env) fg' \<and> group_in (ae_filter_groups env) (cm_filtergroup cm')"
proof (cases "ap_kind ap = Ip")
  case True
  then obtain p where p: "ap' = ap\<lparr>ap_ip := p\<rparr>"
    "ip_determineGroup (ae_net env) (ae_filter_groups env) (ae_fs env) (ae_lists env) u fg cm (ap_ip ap) = (rc, u', fg', cm', p)"
    using assms(1) by (auto simp: determineGroup_def split: prod.splits)
  then show ?thesis using ip_determine_range [OF p(2) _ assms(4,5)] assms(2) by (simp add: auth_plugin_ok_def)
next
  case False
  then have "ap' = ap" using assms(1) by (auto simp: determineGroup_def)
  moreover have "story_determineGroup env ap u fg cm = Done (rc, u', fg', cm') \<or> pf_determineGroup env ap u fg cm = Done (rc, u', fg', cm')"
    using assms(1) False by (auto simp: determineGroup_def split: if_splits)
  ultimately show ?thesis
    using story_group_in [OF _ assms(2) _ _ assms(4,5)] pf_group_in [OF _ assms(2) _ _ assms(4,5)] assms(2,3)
    by (auto simp: auth_env_ok_def)
qed

interpretation plugins: auth_methods "identify env pe" "determineGroup env"
    "\<lambda>ap. auth_env_ok env \<and> auth_plugin_ok (ae_filter_groups env) ap" "ae_filter_groups env" for env pe
proof
  show "auth_env_ok env \<and> auth_plugin_ok (ae_filter_groups env) ap'"
    if "auth_env_ok env \<and> auth_plugin_ok (ae_filter_groups env) ap" "identify env pe hdr u r ar ap = Some (i, ap')" for ap hdr u r ar i ap'
    using that identify_plugin by blast
  show "(auth_env_ok env \<and> auth_plugin_ok (ae_filter_groups env) ap') \<and> group_in (ae_filter_groups env) fg'
      \<and> group_in (ae_filter_groups env) (cm_filtergroup cm')"
    if "auth_env_ok env \<and> auth_plugin_ok (ae_filter_groups env) ap" "group_in (ae_filter_groups env) fg"
      "group_in (ae_filter_groups env) (cm_filtergroup cm)" "determineGroup env ap u fg cm = Done ((rc, u', fg', cm'), ap')"
    for ap fg cm u rc u' fg' cm' ap'
    using that determine_plugin by blast
qed


section \<open>Connections\<close>

definition auth_options_ok :: "int \<Rightarrow> auth_options \<Rightarrow> bool" where
  "auth_options_ok fgs opts \<longleftrightarrow> ao_numfg opts = fgs \<and> 0 \<le> ao_default_fg opts \<and> ao_default_fg opts < fgs
     \<and> 0 \<le> ao_default_trans_fg opts \<and> ao_default_trans_fg opts < fgs"

text \<open>The connections of a process: the plugins are loaded, connections are opened, and their requests are authenticated
  one after the other, in environments that may differ in all but the number of groups. A flag tells connections of ICAP clients, whose
  answers to be modified set the group from the header of the client, from others, whose requests may go on inside of a tunnel.\<close>

inductive connections :: "int \<Rightarrow> auth_options \<Rightarrow> bool \<Rightarrow> conn_handler \<Rightarrow> auth_plugin list \<Rightarrow> bool" for fgs opts where
  loaded: "loadAuthPlugins env confdir maps configs (False, [], [], fs) = Some (Some (q, aps, es, fs')) \<Longrightarrow> auth_env_ok env
    \<Longrightarrow> ae_filter_groups env = fgs \<Longrightarrow> connections fgs opts ic (handlePeer_start fg) aps"
| opened: "connections fgs opts ic h aps \<Longrightarrow> connections fgs opts ic' (handlePeer_start fg) aps"
| answered: "connections fgs opts (is_icap rq) h aps \<Longrightarrow> auth_env_ok env \<Longrightarrow> ae_filter_groups env = fgs \<Longrightarrow> group_in fgs (cm_filtergroup cm)
    \<Longrightarrow> 0 \<le> icap_fg \<Longrightarrow> icap_fg < fgs
    \<Longrightarrow> answer_request env pe opts icap_fg ssl_mitm rq aps \<lparr>au_rc = rc, au_authed = a, au_handler = h, au_cm = cm, au_reply = rep\<rparr> = Done (ok, aps', st')
    \<Longrightarrow> connections fgs opts (is_icap rq) (au_handler st') aps'"
| tunnelled: "connections fgs opts False h aps \<Longrightarrow> auth_env_ok env \<Longrightarrow> ae_filter_groups env = fgs \<Longrightarrow> group_in fgs (cm_filtergroup cm)
    \<Longrightarrow> 0 \<le> icap_fg \<Longrightarrow> icap_fg < fgs \<Longrightarrow> \<not> is_icap rq
    \<Longrightarrow> answer_request env pe opts icap_fg ssl_mitm rq aps \<lparr>au_rc = rc, au_authed = a, au_handler = h, au_cm = cm, au_reply = rep\<rparr> = Done (True, aps', st')
    \<Longrightarrow> connections fgs opts False (goMITM_persist (au_authed st') (au_handler st')) aps'"
| modified: "connections fgs opts True h aps \<Longrightarrow> resmod_group g user h = Some h' \<Longrightarrow> connections fgs opts True h' aps"

definition handler_ok :: "int \<Rightarrow> bool \<Rightarrow> conn_handler \<Rightarrow> bool" where
  "handler_ok fgs ic h \<longleftrightarrow> 0 \<le> ch_oldfg h \<and> ch_oldfg h < fgs \<and> (\<not> ic \<and> ch_persistent_authed h \<longrightarrow> group_in fgs (ch_filtergroup h))"

lemma read_def_fg_ok: "auth_plugin_ok fgs ap \<Longrightarrow> auth_plugin_ok fgs (read_def_fg fgs ap)"
  by (simp add: read_def_fg_def auth_plugin_ok_def Let_def)

lemma plugin_init_ok:
  assumes "plugin_init env confdir maps es ap = (rc, es', fs', ap')" "auth_plugin_ok (ae_filter_groups env) ap"
    and "ip_reach (ae_net env) (ae_filter_groups env) (ap_ip ap)"
  shows "auth_plugin_ok (ae_filter_groups env) ap'"
proof -
  let ?i = "ip_init (ae_net env) (ae_filter_groups env) confdir maps (ae_lists env) (cv_entry (ap_cv ap) ''ipgroups'') (ae_fs env) (ap_ip ap)"
  obtain c f p where i: "?i = (c, f, p)" by (metis prod_cases3)
  from reach_ok [OF started [OF assms(3) i]] have p: "plugin_ok (ae_filter_groups env) p" .
  define n where "n = entry_id (ap_kind ap)"
  have "auth_plugin_ok (ae_filter_groups env) (ap\<lparr>ap_story_entry := n, ap_ip := p\<rparr>)" "auth_plugin_ok (ae_filter_groups env) (ap\<lparr>ap_story_entry := n\<rparr>)"
    using assms(2) p by (simp_all add: auth_plugin_ok_def)
  moreover have "ap' \<in> {ap, ap\<lparr>ap_story_entry := n, ap_ip := p\<rparr>, read_def_fg (ae_filter_groups env) (ap\<lparr>ap_story_entry := n, ap_ip := p\<rparr>),
      read_def_fg (ae_filter_groups env) (ap\<lparr>ap_story_entry := n\<rparr>)}"
    using assms(1) i by (auto simp: plugin_init_def Let_def n_def split: if_splits)
  ultimately show ?thesis using assms(2) read_def_fg_ok by blast
qed

lemma new_plugin_ok:
  assumes "auth_plugin_load xff config = Some (Some ap)" "0 < fgs"
  shows "auth_plugin_ok fgs ap" "ip_reach nl fgs (ap_ip ap)"
proof -
  from assms(1) obtain kind cv where "ap = auth_plugin_new xff kind cv"
    by (auto simp: auth_plugin_load_def Let_def split: option.splits if_splits)
  then show "auth_plugin_ok fgs ap" "ip_reach nl fgs (ap_ip ap)"
    using reach_ok [OF made] made assms(2) by (auto simp: auth_plugin_new_def auth_plugin_ok_def)
qed

lemma loaded_ok:
  assumes "loadAuthPlugins env confdir maps configs st = Some (Some (q, aps, es, fs'))" "auth_env_ok env"
    and "list_all (auth_plugin_ok (ae_filter_groups env)) (fst (snd st))"
  shows "list_all (auth_plugin_ok (ae_filter_groups env)) aps"
  using assms
proof (induction configs arbitrary: st)
  case Nil
  then show ?case by simp
next
  case (Cons config configs)
  obtain ap where l: "auth_plugin_load (ae_xff env \<noteq> None) config = Some (Some ap)"
    using Cons.prems(1) by (auto split: option.splits)
  obtain q0 aps0 es0 fs0 where st: "st = (q0, aps0, es0, fs0)" by (metis prod_cases4)
  obtain rc es1 fs1 ap1 where i: "plugin_init (env\<lparr>ae_fs := fs0\<rparr>) confdir maps es0 ap = (rc, es1, fs1, ap1)" by (metis prod_cases4)
  have pos: "0 < ae_filter_groups env" using assms(2) by (simp add: auth_env_ok_def)
  have "auth_plugin_ok (ae_filter_groups env) ap1"
    using plugin_init_ok [OF i] new_plugin_ok [OF l pos] by simp
  then show ?case using Cons.prems l st i
    by (intro Cons.IH [of "(q0 \<or> ap_needs_proxy_query ap1, aps0 @ [ap1], es1, fs1)"]) (simp_all split: if_splits)
qed

lemma set_group_fields [simp]:
  "au_handler (set_group st) = au_handler st" "cm_filtergroup (au_cm (set_group st)) = ch_filtergroup (au_handler st)"
  by (simp_all add: set_group_def Let_def)

lemma authenticate_ok:
  assumes "authenticate env pe opts ssl_mitm aps st = Done (ok, aps', st')" "auth_env_ok env" "ae_filter_groups env = fgs"
    and "auth_options_ok fgs opts" "list_all (auth_plugin_ok fgs) aps" "handler_ok fgs False (au_handler st)" "group_in fgs (cm_filtergroup (au_cm st))"
  shows "list_all (auth_plugin_ok fgs) aps' \<and> handler_ok fgs False (au_handler st') \<and> group_in fgs (ch_filtergroup (au_handler st'))
    \<and> (ok \<longrightarrow> cm_filtergroup (au_cm st') = ch_filtergroup (au_handler st'))"
proof -
  define st1 where "st1 = with_handler (\<lambda>h. h\<lparr>ch_overide_persist := False\<rparr>) st"
  have pos: "0 < fgs" using assms(2,3) by (simp add: auth_env_ok_def)
  have h1: "handler_ok fgs False (au_handler st1)" using assms(6) by (simp add: st1_def with_handler_def handler_ok_def)
  show ?thesis
  proof (cases "exception_client (au_cm st1) \<or> banned_client (au_cm st1) \<or> ch_persistent_authed (au_handler st1)")
    case True
    then have "aps' = aps \<and> cm_filtergroup (au_cm st') = ch_filtergroup (au_handler st')
      \<and> ch_oldfg (au_handler st') = ch_oldfg (au_handler st1) \<and> (ch_filtergroup (au_handler st') = - 1 \<or> au_handler st' = au_handler st1 \<and> ch_persistent_authed (au_handler st1))"
      using assms(1)
      by (cases "exception_client (au_cm st1)"; cases "banned_client (au_cm st1)")
        (simp_all add: authenticate_def Let_def st1_def [symmetric], auto simp: with_handler_def)
    then show ?thesis using assms(5) h1 pos by (auto simp: handler_ok_def group_in_def)
  next
    case False
    define st2 where "st2 = with_handler (\<lambda>h. h\<lparr>ch_filtergroup := if isProxyRequest (cm_request_header (au_cm st1)) then ao_default_fg opts else ao_default_trans_fg opts\<rparr>)
      (st1\<lparr>au_cm := with_authrec (\<lambda>ar. (if isProxyRequest (cm_request_header (au_cm st1)) then ar\<lparr>ar_is_proxy := True\<rparr> else ar\<lparr>ar_is_transparent := True\<rparr>)
         \<lparr>ar_group_source := ''def''\<rparr>) (au_cm st1)\<rparr>)"
    have s2: "plugins.state_ok env st2"
      using h1 assms(3,4,7) by (auto simp: plugins.state_ok_def st2_def st1_def with_handler_def with_authrec_def auth_options_ok_def group_in_def handler_ok_def)
    obtain b aps2 st3 where d: "doAuth env pe opts (\<not> isProxyRequest (cm_request_header (au_cm st1))) (cm_isconnect (au_cm st1)) aps st2 = Done (b, aps2, st3)"
      using assms(1) False by (auto simp: authenticate_def Let_def st1_def [symmetric] st2_def [symmetric])
    have "list_all (\<lambda>ap. auth_env_ok env \<and> auth_plugin_ok (ae_filter_groups env) ap) aps"
      using assms(2,3,5) by (simp add: list_all_iff)
    from plugins.do_auth_ok [OF d [unfolded doAuth_def] this s2] assms(3,4)
    have r: "list_all (auth_plugin_ok fgs) aps2" "plugins.state_ok env st3" by (simp_all add: list_all_iff auth_options_ok_def)
    have "aps' = aps2 \<and> au_handler st' = au_handler st3 \<and> (ok \<longrightarrow> cm_filtergroup (au_cm st') = ch_filtergroup (au_handler st3))"
      using assms(1) False d
      by (auto simp: authenticate_def Let_def st1_def [symmetric] st2_def [symmetric] split: if_splits)
    then show ?thesis using r assms(3) by (auto simp: plugins.state_ok_def handler_ok_def)
  qed
qed

lemma thttps_authenticate_ok:
  assumes "thttps_authenticate env pe opts ssl_mitm aps st = Done (ok, aps', st')" "auth_env_ok env" "ae_filter_groups env = fgs"
    and "auth_options_ok fgs opts" "list_all (auth_plugin_ok fgs) aps" "handler_ok fgs False (au_handler st)" "group_in fgs (cm_filtergroup (au_cm st))"
  shows "list_all (auth_plugin_ok fgs) aps' \<and> handler_ok fgs False (au_handler st') \<and> group_in fgs (ch_filtergroup (au_handler st'))
    \<and> (ok \<longrightarrow> cm_filtergroup (au_cm st') = ch_filtergroup (au_handler st'))"
proof -
  define st1 where "st1 = with_handler (\<lambda>h. h\<lparr>ch_filtergroup := ao_default_trans_fg opts\<rparr>) st"
  have pos: "0 < fgs" using assms(2,3) by (simp add: auth_env_ok_def)
  have t: "au_handler (thttps_group sm s) = au_handler s" "cm_filtergroup (au_cm (thttps_group sm s)) = ch_filtergroup (au_handler s)" for sm s
    by (simp_all add: thttps_group_def Let_def)
  show ?thesis
  proof (cases "exception_client (au_cm st1) \<or> banned_client (au_cm st1)")
    case True
    then have "aps' = aps \<and> cm_filtergroup (au_cm st') = - 1 \<and> au_handler st' = (au_handler st1)\<lparr>ch_filtergroup := - 1\<rparr>"
      using assms(1) unfolding thttps_authenticate_def Let_def st1_def [symmetric]
      by (cases "exception_client (au_cm st1)") (auto simp: with_handler_def)
    then show ?thesis using assms(5,6) pos by (simp add: st1_def with_handler_def handler_ok_def group_in_def)
  next
    case False
    define st2 where "st2 = with_handler (\<lambda>h. h\<lparr>ch_overide_persist := False\<rparr>) st1"
    have s2: "plugins.state_ok env st2"
      using assms(3,4,6,7) by (auto simp: plugins.state_ok_def st2_def st1_def with_handler_def auth_options_ok_def group_in_def handler_ok_def)
    let ?d = "if \<not> (cm_isItNaughty (au_cm st1) \<or> cm_isexception (au_cm st1)) then doAuth env pe opts True True aps st2 else Done (True, aps, st2)"
    obtain b aps2 st3 where d: "?d = Done (b, aps2, st3)"
      using assms(1) False unfolding thttps_authenticate_def Let_def st1_def [symmetric] st2_def [symmetric] by auto
    have r: "list_all (auth_plugin_ok fgs) aps2 \<and> plugins.state_ok env st3"
    proof (cases "cm_isItNaughty (au_cm st1) \<or> cm_isexception (au_cm st1)")
      case True
      then show ?thesis using d s2 assms(5) by auto
    next
      case no: False
      have "list_all (\<lambda>ap. auth_env_ok env \<and> auth_plugin_ok (ae_filter_groups env) ap) aps"
        using assms(2,3,5) by (simp add: list_all_iff)
      from plugins.do_auth_ok [OF _ this s2] d no assms(3,4)
      show ?thesis by (auto simp: doAuth_def list_all_iff auth_options_ok_def)
    qed
    have "aps' = aps2 \<and> au_handler st' = au_handler st3 \<and> (ok \<longrightarrow> cm_filtergroup (au_cm st') = ch_filtergroup (au_handler st3))"
      using assms(1) False d unfolding thttps_authenticate_def Let_def st1_def [symmetric] st2_def [symmetric]
      by (auto simp: t split: if_splits)
    then show ?thesis using r assms(3) by (auto simp: plugins.state_ok_def handler_ok_def)
  qed
qed

lemma icap_group_in:
  assumes "icap_determineGroup env user fg cm = Done (rc, fg', cm')" "auth_env_ok env"
    and "group_in (ae_filter_groups env) fg" "group_in (ae_filter_groups env) (cm_filtergroup cm)"
  shows "group_in (ae_filter_groups env) fg' \<and> group_in (ae_filter_groups env) (cm_filtergroup cm')"
proof (cases "user = [] \<or> user = ''-''")
  case True
  then show ?thesis using assms by (auto simp: icap_determineGroup_def)
next
  case False
  obtain found cm1 where r: "runFunctEntry (ae_depth env) (ae_story env) (ae_board env) 18 (cm\<lparr>cm_user := user\<rparr>) = Done (found, cm1)"
    using assms(1) False by (auto simp: icap_determineGroup_def)
  have e: "0 < se_numfg (ae_story env)" "se_numfg (ae_story env) = ae_filter_groups env" using assms(2) by (auto simp: auth_env_ok_def)
  have "group_in (ae_filter_groups env) (cm_filtergroup cm1)"
    using run_entry_group [OF r] assms(4) group_ok_in [OF e(1)] e(2) by simp
  then show ?thesis using assms(1,3) False r by (auto simp: icap_determineGroup_def split: if_splits)
qed

lemma icap_authenticate_ok:
  assumes "icap_authenticate env pe opts icap_fg username aps st = Done (aps', st')" "auth_env_ok env" "ae_filter_groups env = fgs"
    and "auth_options_ok fgs opts" "list_all (auth_plugin_ok fgs) aps" "handler_ok fgs True (au_handler st)" "group_in fgs (cm_filtergroup (au_cm st))"
    and "0 \<le> icap_fg" "icap_fg < fgs"
  shows "list_all (auth_plugin_ok fgs) aps' \<and> handler_ok fgs True (au_handler st')
    \<and> group_in fgs (ch_filtergroup (au_handler st')) \<and> cm_filtergroup (au_cm st') = ch_filtergroup (au_handler st')"
proof -
  define st1 where "st1 = with_handler (\<lambda>h. h\<lparr>ch_overide_persist := False, ch_clientuser := username, ch_filtergroup := icap_fg\<rparr>) st"
  define given where "given = (\<not> (username = [] \<or> username = ''-''))"
  define cm where "cm = (if given then with_authrec (\<lambda>ar. ar\<lparr>ar_user_name := username, ar_user_source := ''icaph''\<rparr>) (au_cm st1) else au_cm st1)"
  let ?d = "if given then icap_determineGroup env username icap_fg cm else Done (E2AUTH_NOGROUP, icap_fg, cm)"
  have cm_in: "group_in fgs (cm_filtergroup cm)" "group_in fgs icap_fg"
    using assms(7-9) by (simp_all add: cm_def st1_def with_handler_def with_authrec_def group_in_def)
  define after_auth where "after_auth = (\<lambda>st2 :: auth_state. if given then with_handler (\<lambda>h. h\<lparr>ch_clientuser := username\<rparr>) (st2\<lparr>au_cm := (au_cm st2)\<lparr>cm_user := username\<rparr>\<rparr>) else st2)"
  have u: "icap_authenticate env pe opts icap_fg username aps st = obind ?d (\<lambda>(rc, fg, cm1).
      obind (if rc = E2AUTH_OK then Done (aps, with_handler (\<lambda>h. h\<lparr>ch_filtergroup := fg\<rparr>) (st1\<lparr>au_cm := cm1\<rparr>))
          else obind (doAuth env pe opts True True aps (with_handler (\<lambda>h. h\<lparr>ch_filtergroup := fg\<rparr>) (st1\<lparr>au_cm := cm1\<rparr>))) (\<lambda>(ok, aps', st2).
            Done (aps', after_auth st2)))
        (\<lambda>(aps', st3). Done (aps', st3\<lparr>au_authed := True, au_cm := (au_cm st3)\<lparr>cm_filtergroup := ch_filtergroup (au_handler st3)\<rparr>\<rparr>)))"
    by (simp only: icap_authenticate_def Let_def st1_def given_def cm_def after_auth_def)
  obtain rc fg cm1 where d: "?d = Done (rc, fg, cm1)" using assms(1) unfolding u by auto
  have g: "group_in fgs fg \<and> group_in fgs (cm_filtergroup cm1)"
  proof (cases given)
    case True
    then show ?thesis using icap_group_in [OF _ assms(2)] d cm_in assms(3) by simp
  next
    case False
    then show ?thesis using d cm_in by simp
  qed
  define st2 where "st2 = with_handler (\<lambda>h. h\<lparr>ch_filtergroup := fg\<rparr>) (st1\<lparr>au_cm := cm1\<rparr>)"
  have s2: "plugins.state_ok env st2"
    using g assms(6) unfolding plugins.state_ok_def unfolding assms(3) by (simp add: st2_def st1_def with_handler_def handler_ok_def)
  obtain aps3 st3 where e: "aps' = aps3" "st' = st3\<lparr>au_authed := True, au_cm := (au_cm st3)\<lparr>cm_filtergroup := ch_filtergroup (au_handler st3)\<rparr>\<rparr>"
    and r: "(if rc = E2AUTH_OK then Done (aps, st2)
            else obind (doAuth env pe opts True True aps st2) (\<lambda>(ok, aps', st2). Done (aps', after_auth st2))) = Done (aps3, st3)"
    using assms(1) d unfolding u st2_def by auto
  have "list_all (auth_plugin_ok fgs) aps3 \<and> plugins.state_ok env st3"
  proof (cases "rc = E2AUTH_OK")
    case True
    then show ?thesis using r s2 assms(5) by simp
  next
    case False
    then obtain ok st4 where a: "doAuth env pe opts True True aps st2 = Done (ok, aps3, st4)" "st3 = after_auth st4"
      using r by auto
    have "list_all (\<lambda>ap. auth_env_ok env \<and> auth_plugin_ok (ae_filter_groups env) ap) aps" using assms(2,3,5) by (simp add: list_all_iff)
    from plugins.do_auth_ok [OF a(1) [unfolded doAuth_def] this s2] assms(3,4) a(2)
    show ?thesis by (auto simp: after_auth_def list_all_iff auth_options_ok_def plugins.state_ok_def with_handler_def)
  qed
  then show ?thesis using e assms(3) by (auto simp: plugins.state_ok_def handler_ok_def)
qed

lemma answer_request_ok:
  assumes "answer_request env pe opts icap_fg ssl_mitm rq aps st = Done (ok, aps', st')" "auth_env_ok env" "ae_filter_groups env = fgs"
    and "auth_options_ok fgs opts" "list_all (auth_plugin_ok fgs) aps" "handler_ok fgs (is_icap rq) (au_handler st)" "group_in fgs (cm_filtergroup (au_cm st))"
    and "0 \<le> icap_fg" "icap_fg < fgs"
  shows "list_all (auth_plugin_ok fgs) aps' \<and> handler_ok fgs (is_icap rq) (au_handler st') \<and> group_in fgs (ch_filtergroup (au_handler st'))
    \<and> (ok \<longrightarrow> cm_filtergroup (au_cm st') = ch_filtergroup (au_handler st'))"
proof (cases rq)
  case Proxy_request
  then show ?thesis using authenticate_ok [OF _ assms(2-5) _ assms(7)] assms(1,6) by (simp add: answer_request_def)
next
  case Thttps_request
  then show ?thesis using thttps_authenticate_ok [OF _ assms(2-5) _ assms(7)] assms(1,6) by (simp add: answer_request_def)
next
  case (Icap_request u)
  then show ?thesis using icap_authenticate_ok [OF _ assms(2-5) _ assms(7-9)] assms(1,6) by (auto simp: answer_request_def)
qed

lemma connections_ok:
  assumes "connections fgs opts ic h aps" "auth_options_ok fgs opts"
  shows "handler_ok fgs ic h \<and> list_all (auth_plugin_ok fgs) aps"
  using assms(1)
proof induction
  case (loaded env confdir maps configs fs q aps es fs' ic fg)
  have "0 < fgs" using loaded by (auto simp: auth_env_ok_def)
  then show ?case using loaded_ok [OF loaded(1,2)] loaded(3) by (simp add: handlePeer_start_def handler_ok_def)
next
  case (opened ic h aps ic' fg)
  then show ?case by (auto simp: handlePeer_start_def handler_ok_def)
next
  case (answered rq h aps env cm icap_fg pe ssl_mitm rc a rep ok aps' st')
  then show ?case using answer_request_ok [OF answered(7,2,3) assms(2)] by simp
next
  case (tunnelled h aps env cm icap_fg rq pe ssl_mitm rc a rep aps' st')
  then show ?case using answer_request_ok [OF tunnelled(8,2,3) assms(2)] by (auto simp: handler_ok_def goMITM_persist_def)
next
  case (modified h aps g user h')
  then show ?case by (auto simp: handler_ok_def resmod_group_def split: if_splits)
qed

definition credential_plugin :: "auth_plugin \<Rightarrow> bool" where
  "credential_plugin ap \<longleftrightarrow> ap_kind ap \<in> {Proxy_basic, Proxy_digest, Proxy_header, Pf_basic}"

definition no_credentials :: "auth_env \<Rightarrow> http_header \<Rightarrow> bool" where
  "no_credentials env h \<longleftrightarrow> getAuthType h = Some [] \<and> getAuthData h = Some [] \<and> getRawAuthData h = Some [] \<and> getAuthHeader h = Some []
     \<and> extract_forwarded_user (ae_is_ip env) h = Some None"

lemma no_credentials_identify:
  assumes "credential_plugin ap" "no_credentials env h"
  shows "\<exists>u'. identify env pe h u r ar ap = Some ((E2AUTH_NOMATCH, u', r, ar), ap)"
  using assms
  by (auto simp: credential_plugin_def no_credentials_def identify_def proxy_identify_def digest_identify_def header_identify_def
      pf_basic_identify_def forwarded_identify_def toLower_def)

text \<open>The loop when no plugin finds a user.\<close>

definition unidentified :: "auth_state \<Rightarrow> auth_state \<Rightarrow> bool" where
  "unidentified st st' \<longleftrightarrow> (\<exists>rc u. st' = st\<lparr>au_rc := rc, au_handler := (au_handler st)\<lparr>ch_clientuser := u\<rparr>\<rparr>)"

lemma unidentified_trans: "unidentified a b \<Longrightarrow> unidentified b c \<Longrightarrow> unidentified a c"
  unfolding unidentified_def by clarsimp blast

lemma unidentifiedI: "st' = st\<lparr>au_rc := rc, au_handler := (au_handler st)\<lparr>ch_clientuser := u\<rparr>\<rparr> \<Longrightarrow> unidentified st st'"
  unfolding unidentified_def by blast

lemma query_no_match:
  assumes "credential_plugin ap" "no_credentials env (cm_request_header (au_cm st))" "cm_authrec (au_cm st) = Some ar"
  shows "\<exists>m st'. query_plugin (identify env pe) group_of opts lport only_ip connect n ap st = Done (Go_on, m, ap, st') \<and> unidentified st st'"
proof -
  obtain u where i: "identify env pe (cm_request_header (au_cm st)) (ch_clientuser (au_handler st)) (ch_is_real_user (au_handler st)) ar ap
    = Some ((E2AUTH_NOMATCH, u, ch_is_real_user (au_handler st), ar), ap)" using no_credentials_identify [OF assms(1,2)] by blast
  have same: "st = st\<lparr>au_rc := au_rc st, au_handler := (au_handler st)\<lparr>ch_clientuser := ch_clientuser (au_handler st)\<rparr>\<rparr>" by simp
  have cm: "(au_cm st)\<lparr>cm_authrec := Some ar\<rparr> = au_cm st" using assms(3) by simp
  obtain sel m where s: "selects opts lport n ap = (sel, m)" by (metis surj_pair)
  show ?thesis
  proof (cases "only_ip \<and> \<not> ap_client_ip_based ap")
    case True
    then show ?thesis using unidentifiedI [OF same] by (simp add: query_plugin_def)
  next
    case False
    show ?thesis
    proof (cases sel)
      case True
      have "unidentified st (st\<lparr>au_rc := E2AUTH_NOMATCH, au_cm := (au_cm st)\<lparr>cm_authrec := Some ar\<rparr>,
          au_handler := (au_handler st)\<lparr>ch_clientuser := u\<rparr>\<rparr>)"
        by (rule unidentifiedI [where u = u and rc = E2AUTH_NOMATCH]) (simp add: cm)
      with True show ?thesis using False s i assms(3)
        by (auto simp: query_plugin_def ask_user_def with_handler_def Let_def)
    next
      case no: False
      have "unidentified st (st\<lparr>au_rc := E2AUTH_NOMATCH\<rparr>)"
        by (rule unidentifiedI [where u = "ch_clientuser (au_handler st)"]) simp
      then show ?thesis using False s no by (auto simp: query_plugin_def)
    qed
  qed
qed

lemma loop_no_match:
  assumes "list_all credential_plugin aps" "no_credentials env (cm_request_header (au_cm st))" "cm_authrec (au_cm st) = Some ar"
  shows "\<exists>lst' st'. auth_loop (identify env pe) group_of opts lport only_ip connect n aps lst st = Done (Go_on, aps, lst', st') \<and> unidentified st st'"
  using assms
proof (induction aps arbitrary: n lst st)
  case Nil
  have "unidentified st st"
    by (rule unidentifiedI [where u = "ch_clientuser (au_handler st)" and rc = "au_rc st"]) simp
  then show ?case by simp
next
  case (Cons ap aps)
  obtain m st1 where q: "query_plugin (identify env pe) group_of opts lport only_ip connect n ap st = Done (Go_on, m, ap, st1)" "unidentified st st1"
    using query_no_match [OF _ Cons.prems(2,3)] Cons.prems(1) by (metis list.pred_inject(2))
  from q(2) Cons.prems(2,3) have "cm_authrec (au_cm st1) = Some ar" "no_credentials env (cm_request_header (au_cm st1))" by (auto simp: unidentified_def)
  with Cons obtain lst' st' where "auth_loop (identify env pe) group_of opts lport only_ip connect m aps ap st1 = Done (Go_on, aps, lst', st')"
    "unidentified st1 st'" by (metis list.pred_inject(2))
  then show ?case using q unidentified_trans by auto
qed


section \<open>Properties\<close>

text \<open>C9: over all the requests of all connections of the proxy, of transparent TLS and of ICAP, also inside of tunnels and after
  answers of ICAP clients were modified, and whatever the plugins, their files and the storyboard answer: the group of a request that
  goes on after its authentication is that of the handler and exists, or is the mark \<open>- 1\<close> of special clients, and the group kept for the
  next request exists.\<close>

theorem auth_group_exists:
  assumes "connections fgs opts (is_icap rq) h aps" and "auth_options_ok fgs opts" and "auth_env_ok env" and "ae_filter_groups env = fgs"
    and "group_in fgs (cm_filtergroup cm)" and "0 \<le> icap_fg" and "icap_fg < fgs"
    and "answer_request env pe opts icap_fg ssl_mitm rq aps \<lparr>au_rc = rc, au_authed = a, au_handler = h, au_cm = cm, au_reply = rep\<rparr> = Done (True, aps', st')"
    and "length ssl_mitm = nat fgs"
  shows "cm_filtergroup (au_cm st') = ch_filtergroup (au_handler st')
    \<and> (cm_filtergroup (au_cm st') = - 1 \<or> getFG ssl_mitm (cm_filtergroup (au_cm st')) \<noteq> None)
    \<and> getFG ssl_mitm (ch_oldfg (au_handler st')) \<noteq> None"
proof -
  from connections_ok [OF assms(1,2)] have "handler_ok fgs (is_icap rq) h" "list_all (auth_plugin_ok fgs) aps" by simp_all
  with answer_request_ok [OF assms(8,3,4,2)] assms(5-7)
  have "handler_ok fgs (is_icap rq) (au_handler st')" "group_in fgs (ch_filtergroup (au_handler st'))"
    "cm_filtergroup (au_cm st') = ch_filtergroup (au_handler st')" by simp_all
  then show ?thesis using assms(9) by (auto simp: getFG_def group_in_def handler_ok_def)
qed

text \<open>with plugins for credentials, a request without any is answered as an unknown user in the group it had, nothing of it is
  kept for the connection, and it counts as authenticated exactly when no plugin relies on the upstream proxy.\<close>

theorem no_credentials_default:
  assumes "aps \<noteq> []" and "list_all credential_plugin aps" and "no_credentials env (cm_request_header (au_cm st))" and "cm_authrec (au_cm st) = Some ar" and "\<not> au_authed st"
  shows "\<exists>rc. doAuth env pe opts only_ip connect aps st = Done (True, aps,
    st\<lparr>au_rc := rc, au_authed := \<not> ao_needs_proxy_query opts, au_handler := (au_handler st)\<lparr>ch_clientuser := ''-''\<rparr>\<rparr>)"
proof -
  have s: "cm_authrec (au_cm (st\<lparr>au_rc := E2AUTH_OK\<rparr>)) = Some ar" "no_credentials env (cm_request_header (au_cm (st\<lparr>au_rc := E2AUTH_OK\<rparr>)))"
    using assms(3,4) by simp_all
  obtain lst st' where l: "auth_loop (identify env pe) (determineGroup env) opts (pe_port pe) only_ip connect 0 aps (hd aps) (st\<lparr>au_rc := E2AUTH_OK\<rparr>)
      = Done (Go_on, aps, lst, st')" "unidentified (st\<lparr>au_rc := E2AUTH_OK\<rparr>) st'"
    using loop_no_match [OF assms(2) s(2,1)] by blast
  then show ?thesis using assms(1,5) by (auto simp: doAuth_def do_auth_def Let_def auth_answer_def unidentified_def)
qed

text \<open>C22: credentials with an empty name are the user of the last request of the connection when there was none: with
  proxy-basic as the first plugin, the first request of a connection with such credentials is authenticated in the first
  group, whatever the default group is.\<close>

theorem empty_user_first_group:
  assumes "au_handler st = (handlePeer_start g)\<lparr>ch_filtergroup := fg\<rparr>" and "cm_authrec (au_cm st) = Some ar" and "0 < ao_numfg opts"
    and "\<not> ao_map_auth_to_ports opts" and "ap_kind ap = Proxy_basic"
    and "getAuthType (cm_request_header (au_cm st)) = Some ty" and "toLower ty = ''basic''" and "getAuthData (cm_request_header (au_cm st)) = Some ('':'' @ pw)"
  shows "\<exists>st'. doAuth env pe opts False connect (ap # aps) st = Done (True, ap # aps, st')
    \<and> au_authed st' \<and> ch_clientuser (au_handler st') = [] \<and> ch_filtergroup (au_handler st') = 0"
proof -
  have "proxy_identify (ae_is_ip env) (cm_request_header (au_cm st)) u r ar = Some (found_user [] ''proxy'' True ar)" for u r
    using assms(6-8) by (simp add: proxy_identify_def Let_def)
  then show ?thesis using assms(1-5)
    by (simp add: doAuth_def do_auth_def query_plugin_def selects_def ask_user_def identify_def found_user_def Let_def with_handler_def
        handlePeer_start_def auth_answer_def)
qed


section \<open>Examples\<close>

text \<open>An address of the second group, and credentials without a name.\<close>

definition demo_aenv :: auth_env where
  "demo_aenv = \<lparr>ae_net = net_test, ae_is_ip = (\<lambda>_. False), ae_xff = None, ae_filter_groups = 2, ae_fs = demo_fs, ae_lists = Some 1,
     ae_ident = (\<lambda>_ _ _. No_connection), ae_story = demo_senv\<lparr>se_numfg := 2\<rparr>, ae_board = demo_story, ae_depth = 2\<rparr>"

definition demo_config :: "string list" where
  "demo_config = [''plugname = ip'', ''ipgroups = /g'', ''story_function = auth'']"

definition demo_plugins :: "auth_plugin list" where
  "demo_plugins = (case loadAuthPlugins demo_aenv ''/etc'' [] [Some demo_config] (False, [], [], demo_fs) of Some (Some (q, aps, es, fs)) \<Rightarrow> aps)"

definition demo_opts :: auth_options where
  "demo_opts = \<lparr>ao_map_auth_to_ports = False, ao_filter_ports = [''8080''], ao_auth_map = Map.empty, ao_requires_user_and_group = False,
     ao_needs_proxy_query = False, ao_numfg = 2, ao_default_fg = 0, ao_default_trans_fg = 0\<rparr>"

definition demo_peer :: peer where
  "demo_peer = \<lparr>pe_ip = ''10.0.0.1'', pe_port = 8080, pe_source_port = 4000\<rparr>"

definition demo_auth_cm :: naughty_filter where
  "demo_auth_cm = naughty_filter_new (nf_of demo_senv) demo_header (http_header_new True Null)
     (Some \<lparr>ar_user_name = [], ar_is_authed = False, ar_filter_group = 0, ar_is_proxy = True, ar_is_transparent = False, ar_is_icap = False,
       ar_user_source = [], ar_group_source = []\<rparr>)"


lemma demo_load: "\<exists>q es fs. loadAuthPlugins demo_aenv ''/etc'' [] [Some demo_config] (False, [], [], demo_fs) = Some (Some (q, [hd demo_plugins], es, fs))"
proof -
  have "case loadAuthPlugins demo_aenv ''/etc'' [] [Some demo_config] (False, [], [], demo_fs) of
      Some (Some (q, aps, es, fs)) \<Rightarrow> length aps = 1 | _ \<Rightarrow> False" by code_simp
  then show ?thesis by (auto simp: demo_plugins_def length_Suc_conv split: option.splits)
qed

lemma demo_plugin: "ap_kind (hd demo_plugins) = Ip" "ap_client_ip_based (hd demo_plugins)" "ap_is_connection_based (hd demo_plugins)"
  by code_simp+

lemma demo_user: "ip_identify net_test None ''10.0.0.1'' demo_header ar p = Some (''10.0.0.1'', ar\<lparr>ar_user_name := ''10.0.0.1'', ar_user_source := ''ip''\<rparr>, p)"
proof -
  have "select_first_valid_ip net_test [s_clientip demo_header, ''10.0.0.1''] = ''10.0.0.1''" by code_simp
  then show ?thesis by (simp add: ip_identify_def xff_accepted_def Let_def)
qed

lemma demo_group:
  "\<exists>cm p. ip_determineGroup net_test 2 demo_fs (Some 1) ''10.0.0.1'' 0 (demo_auth_cm\<lparr>cm_authrec := Some ar\<rparr>) (ap_ip (hd demo_plugins))
     = (E2AUTH_OK, ''10.0.0.1'', 1, cm, p)"
proof -
  have l: "case ip_ensure_loaded net_test 2 demo_fs (Some 1) (ap_ip (hd demo_plugins)) of (b, p) \<Rightarrow>
      b \<and> ip_inList 0x0A000001 (ig_ips (ip_lists p)) = 1" by code_simp
  have a: "inet_aton net_test (cstr (trim_copy ''10.0.0.1'')) = Some 0x0A000001" "trim_copy ''10.0.0.1'' = ''10.0.0.1''" by code_simp+
  show ?thesis using l a
    by (auto simp: ip_determineGroup_def Let_def ip_lookup_def ip_use_group_def apply_hidden_group_def decode_hidden_group_def
        split: prod.splits bool.splits)
qed

definition demo_state :: auth_state where
  "demo_state = \<lparr>au_rc = E2AUTH_OK, au_authed = False, au_handler = handlePeer_start 0, au_cm = demo_auth_cm, au_reply = []\<rparr>"

lemma demo_auth_flags: "\<not> cm_isexception demo_auth_cm" "\<not> cm_isBlocked demo_auth_cm" "\<not> cm_special_exception_ip demo_auth_cm"
  "\<not> cm_special_banned_ip demo_auth_cm" "cm_filtergroup demo_auth_cm = 0" "\<exists>ar. cm_authrec demo_auth_cm = Some ar"
  "cm_request_header demo_auth_cm = demo_header"
  by (simp_all add: demo_auth_cm_def naughty_filter_new_def nf_reset_def)

lemma demo_authenticated:
  "\<exists>aps' st'. authenticate demo_aenv demo_peer demo_opts [True, False] [hd demo_plugins] demo_state = Done (True, aps', st')
     \<and> ch_filtergroup (au_handler st') = 1"
proof -
  have "\<not> exception_client demo_auth_cm" "\<not> banned_client demo_auth_cm"
    using demo_auth_flags by (simp_all add: exception_client_def banned_client_def)
  moreover obtain ar where ar: "cm_authrec demo_auth_cm = Some ar" using demo_auth_flags(6) by blast
  moreover define ar1 where "ar1 = (ar\<lparr>ar_is_transparent := True, ar_group_source := ''def'', ar_user_name := ''10.0.0.1'', ar_user_source := ''ip''\<rparr>)"
  moreover obtain cm p where "ip_determineGroup net_test 2 demo_fs (Some 1) ''10.0.0.1'' 0 (demo_auth_cm\<lparr>cm_authrec := Some ar1\<rparr>)
      (ap_ip (hd demo_plugins)) = (E2AUTH_OK, ''10.0.0.1'', 1, cm, p)" using demo_group [of ar1] by blast
  moreover have "\<not> isProxyRequest demo_header" by (simp add: demo_header_def http_header_new_def)
  ultimately show ?thesis
    by (simp add: authenticate_def demo_state_def Let_def with_handler_def with_authrec_def handlePeer_start_def doAuth_def do_auth_def
        query_plugin_def selects_def ask_user_def ask_group_def identify_def determineGroup_def demo_opts_def demo_aenv_def demo_peer_def
        demo_plugin demo_user demo_auth_flags(7) auth_answer_def)
qed

theorem auth_group_exists_witness:
  "\<exists>aps' st'. authenticate demo_aenv demo_peer demo_opts [True, False] [hd demo_plugins] demo_state = Done (True, aps', st')
    \<and> cm_filtergroup (au_cm st') = 1 \<and> getFG [True, False] 1 = Some False"
proof -
  obtain aps' st' where a: "authenticate demo_aenv demo_peer demo_opts [True, False] [hd demo_plugins] demo_state = Done (True, aps', st')"
    "ch_filtergroup (au_handler st') = 1" using demo_authenticated by blast
  have e: "auth_env_ok demo_aenv" "ae_filter_groups demo_aenv = 2" by (simp_all add: auth_env_ok_def demo_aenv_def)
  have c: "connections 2 demo_opts (is_icap Proxy_request) (handlePeer_start 0) [hd demo_plugins]" using demo_load loaded [OF _ e] by blast
  have o: "auth_options_ok 2 demo_opts" by (simp add: auth_options_ok_def demo_opts_def)
  have g: "group_in 2 (cm_filtergroup demo_auth_cm)" using demo_auth_flags(5) by (simp add: group_in_def)
  have r: "answer_request demo_aenv demo_peer demo_opts 0 [True, False] Proxy_request [hd demo_plugins]
      \<lparr>au_rc = E2AUTH_OK, au_authed = False, au_handler = handlePeer_start 0, au_cm = demo_auth_cm, au_reply = []\<rparr> = Done (True, aps', st')"
    using a(1) by (simp add: answer_request_def demo_state_def)
  show ?thesis using auth_group_exists [OF c o e g _ _ r] a by (auto simp: getFG_def)
qed

definition demo_basic :: auth_plugin where
  "demo_basic = auth_plugin_new False Proxy_basic Map.empty"

definition demo_no_name :: http_header where
  "demo_no_name = demo_header\<lparr>header := header demo_header @ [''Proxy-Authorization: Basic OnB3'' @ [CHR 0x0D]], pproxyauthorization := At 2\<rparr>"

theorem no_credentials_default_witness:
  "\<exists>rc. doAuth demo_aenv demo_peer demo_opts False False [demo_basic] demo_state = Done (True, [demo_basic],
    demo_state\<lparr>au_rc := rc, au_authed := True, au_handler := (handlePeer_start 0)\<lparr>ch_clientuser := ''-''\<rparr>\<rparr>)"
proof -
  have "no_credentials demo_aenv demo_header" by code_simp
  then have n: "no_credentials demo_aenv (cm_request_header (au_cm demo_state))" using demo_auth_flags(7) by (simp add: demo_state_def)
  obtain ar where "cm_authrec (au_cm demo_state) = Some ar" using demo_auth_flags(6) by (auto simp: demo_state_def)
  from no_credentials_default [OF _ _ n this, of "[demo_basic]" demo_peer demo_opts False False]
  show ?thesis by (simp add: credential_plugin_def demo_basic_def auth_plugin_new_def demo_state_def demo_opts_def)
qed

theorem empty_user_first_group_witness:
  "\<exists>st'. doAuth demo_aenv demo_peer (demo_opts\<lparr>ao_default_fg := 1\<rparr>) False False [demo_basic]
      (demo_state\<lparr>au_cm := demo_auth_cm\<lparr>cm_request_header := demo_no_name\<rparr>, au_handler := (handlePeer_start 0)\<lparr>ch_filtergroup := 1\<rparr>\<rparr>) = Done (True, [demo_basic], st')
    \<and> au_authed st' \<and> ch_clientuser (au_handler st') = [] \<and> ch_filtergroup (au_handler st') = 0"
proof -
  have a: "getAuthType demo_no_name = Some ''Basic''" "toLower ''Basic'' = ''basic''" "getAuthData demo_no_name = Some ('':'' @ ''pw'')" by code_simp+
  obtain ar where "cm_authrec demo_auth_cm = Some ar" using demo_auth_flags(6) by blast
  from empty_user_first_group [where g = 0 and fg = 1 and ap = demo_basic and opts = "demo_opts\<lparr>ao_default_fg := 1\<rparr>"
      and st = "demo_state\<lparr>au_cm := demo_auth_cm\<lparr>cm_request_header := demo_no_name\<rparr>, au_handler := (handlePeer_start 0)\<lparr>ch_filtergroup := 1\<rparr>\<rparr>"
      and pw = "''pw''" and ty = "''Basic''"] this a
  show ?thesis by (simp add: demo_basic_def auth_plugin_new_def demo_state_def demo_opts_def)
qed

end
