(* ===== verification/Bypass.thy ===== *)
theory Bypass
  imports Auth_Session
begin

text \<open>
  Bypasses of the filter (\<^verbatim>\<open>src/src/ConnectionHandler.cpp\<close>): the URLs and cookies that grant one, their checks, and the parts of the
  denied page that offer one. A bypass is a hash of a secret of the group, the client, the user when the group asks for it, and the time it
  ends.

  The digest is a parameter, as is the time. The reason of an exception is left out: it is written and never read.
\<close>

section \<open>Options of a group\<close>

record bypass_options =
  bo_bypass_mode :: int
  bo_infection_bypass_mode :: int
  bo_infection_bypass_errors_only :: bool
  bo_bypass_v2 :: bool
  bo_cgi_bypass_v2 :: bool
  bo_reporting_level :: int
  bo_magic :: string
  bo_imagic :: string
  bo_cookie_magic :: string
  bo_cgi_magic :: string


section \<open>URLs and cookies\<close>

definition url_plain :: "char \<Rightarrow> bool" where
  "url_plain c \<longleftrightarrow> CHR ''A'' \<le> c \<and> c \<le> CHR ''Z'' \<or> CHR ''a'' \<le> c \<and> c \<le> CHR ''z'' \<or> CHR ''0'' \<le> c \<and> c \<le> CHR ''9''"

definition low_hex :: "nat \<Rightarrow> char" where
  "low_hex n = (''0123456789abcdef'' ! n)"

definition miniURLEncode :: "string \<Rightarrow> string" where
  "miniURLEncode s = concat (map (\<lambda>c. if url_plain c then [c] else [CHR ''%'', low_hex (of_char c div 16), low_hex (of_char c mod 16)]) (cstr s))"

abbreviation mark_of :: "bool \<Rightarrow> string" where
  "mark_of infectionbypass \<equiv> (if infectionbypass then ''GIBYPASS='' else ''GBYPASS='')"

definition hashedURL :: "(string \<Rightarrow> string) \<Rightarrow> int \<Rightarrow> bypass_options list \<Rightarrow> string \<Rightarrow> int \<Rightarrow> string \<Rightarrow> bool \<Rightarrow> string \<Rightarrow> string" where
  "hashedURL md5 now fgs url filtergroup clientip infectionbypass user =
     (case getFG fgs filtergroup of
        None \<Rightarrow> []
      | Some fg \<Rightarrow>
          let timecode = int_str (now + (if infectionbypass then bo_infection_bypass_mode fg else bo_bypass_mode fg));
              magic = cstr (if infectionbypass then bo_imagic fg else bo_magic fg) @ cstr clientip
                @ (if bo_bypass_v2 fg then cstr user else []) @ timecode;
              page = (if \<not> contains (after url ''://'') ''/'' then url @ ''/'' else url)
          in mark_of infectionbypass @ md5 (page @ cstr magic) @ timecode)"

definition hashedCookie :: "(string \<Rightarrow> string) \<Rightarrow> string \<Rightarrow> string \<Rightarrow> string \<Rightarrow> string \<Rightarrow> int \<Rightarrow> string" where
  "hashedCookie md5 url magic clientip clientuser bypasstimestamp =
     (let timecode = int_str bypasstimestamp in
      md5 (url @ cstr (cstr magic @ cstr clientip @ clientuser @ timecode)) @ timecode)"

text \<open>The time up to which a bypass is valid, 1 when it is over, 0 when there is none, and whether it is one for infections.\<close>

definition isBypassURL :: "(string \<Rightarrow> string) \<Rightarrow> int \<Rightarrow> bypass_options option \<Rightarrow> string \<Rightarrow> string \<Rightarrow> string \<Rightarrow> bool \<Rightarrow> string \<Rightarrow> int \<times> bool" where
  "isBypassURL md5 now currentFG url magic clientip virus user =
     (let mark = mark_of virus in
      if length url \<le> 45 then (0, False)
      else if \<not> contains url mark then (0, False)
      else
        let url_left = chop (before url mark);
            url_right = after url mark;
            url_hash = take 32 url_right;
            url_time = after url_right (cstr url_hash)
        in case currentFG of
             None \<Rightarrow> (0, False)
           | Some fg \<Rightarrow>
               let mymagic = cstr magic @ cstr clientip @ (if bo_bypass_v2 fg then user else []) @ url_time;
                   hash1 = md5 (url_left @ cstr mymagic);
                   hashed = (if bo_cgi_bypass_v2 fg then md5 (hash1 @ cstr (bo_cgi_magic fg)) else hash1);
                   timeu = toLong url_time
               in if hashed \<noteq> url_hash then (0, False)
                  else if timeu < 1 then (1, False)
                  else if timeu < now then (1, False)
                  else (wrap_int timeu, virus))"

definition scan_parts :: "string \<Rightarrow> string \<times> string \<times> string" where
  "scan_parts s =
     (let n = after s ''&N=''; m = after n ''&M='' in (before n ''&M='', before m ''&D='', after m ''&D=''))"

definition isScanBypassURL :: "(string \<Rightarrow> string) \<Rightarrow> bypass_options option \<Rightarrow> string \<Rightarrow> string \<Rightarrow> string \<Rightarrow> bool" where
  "isScanBypassURL md5 currentFG url magic clientip =
     (if length url \<le> 45 then False
      else if \<not> contains url ''GSBYPASS='' then False
      else
        let url_left = chop (before url ''GSBYPASS='');
            url_right = after url ''GSBYPASS='';
            url_hash = take 32 url_right
        in case scan_parts url_right of
             (tempfilename, tempfilemime, tempfiledis) \<Rightarrow>
               let hash1 = md5 (cstr clientip @ url_left @ tempfilename @ tempfilemime @ tempfiledis @ cstr magic);
                   hashed = (case currentFG of
                       Some fg \<Rightarrow> if bo_cgi_bypass_v2 fg then md5 (hash1 @ cstr (bo_cgi_magic fg)) else hash1
                     | None \<Rightarrow> hash1)
               in hashed = url_hash)"


section \<open>The check of a request\<close>

record bypass_env =
  be_md5 :: "string \<Rightarrow> string"
  be_now :: int
  be_groups :: "bypass_options list"
  be_rx :: regex_lib
  be_urldecode_re :: reg_exp
  be_download_dir :: string

definition without_www :: "string \<Rightarrow> string" where
  "without_www ud = (if startsWith ud ''www.'' then after ud ''www.'' else ud)"

text \<open>The first part: whether the URL or a cookie grants a bypass.\<close>

definition grant_bypass :: "bypass_env \<Rightarrow> bypass_options \<Rightarrow> string \<Rightarrow> string \<Rightarrow> naughty_filter \<Rightarrow> naughty_filter" where
  "grant_bypass env fg clientip clientuser cm =
     (if isScanBypassURL (be_md5 env) (Some fg) (cm_url cm) (bo_magic fg) clientip then
        cm\<lparr>cm_isscanbypass := True, cm_isbypass := True, cm_message_no := 608, cm_log_message_no := 608\<rparr>
      else
        let t1 = (if bo_bypass_mode fg \<noteq> 0
              then fst (isBypassURL (be_md5 env) (be_now env) (Some fg) (cm_logurl cm) (bo_magic fg) clientip False clientuser)
              else cm_bypasstimestamp cm);
            r = (if t1 = 0 \<and> bo_infection_bypass_mode fg \<noteq> 0
              then isBypassURL (be_md5 env) (be_now env) (Some fg) (cm_logurl cm) (bo_imagic fg) clientip True clientuser
              else (t1, False));
            cm1 = cm\<lparr>cm_bypasstimestamp := fst r, cm_isvirusbypass := cm_isvirusbypass cm \<or> snd r\<rparr>
        in if fst r > 0 then
             let cm2 = cm1\<lparr>cm_request_header := chopBypass (cm_logurl cm) (cm_isvirusbypass cm1) (cm_request_header cm)\<rparr> in
             if fst r > 1 then cm2\<lparr>cm_isbypass := True, cm_isexception := True, cm_message_no := 606, cm_log_message_no := 606\<rparr>
             else cm2
           else if bo_bypass_mode fg \<noteq> 0
             \<and> isBypassCookie (be_md5 env) (be_now env) (without_www (cm_urldomain cm)) (cstr (bo_cookie_magic fg)) (cstr clientip) (cstr clientuser) (cm_request_header cm)
           then cm1\<lparr>cm_iscookiebypass := True, cm_isbypass := True, cm_isexception := True\<rparr>
           else cm1)"

text \<open>\<open>None\<close> is a fault of the regular expressions that decode the name of the file.\<close>

definition checkByPass :: "bypass_env \<Rightarrow> int \<Rightarrow> string \<Rightarrow> string \<Rightarrow> naughty_filter \<Rightarrow> (bool \<times> naughty_filter) option" where
  "checkByPass env filtergroup clientip clientuser cm =
     (case getFG (be_groups env) filtergroup of
        None \<Rightarrow> Some (False, cm)
      | Some fg \<Rightarrow>
          let cm0 = cm\<lparr>cm_isbypassallowed := (bo_bypass_mode fg \<noteq> 0), cm_isinfectionbypassallowed := (bo_infection_bypass_mode fg \<noteq> 0)\<rparr> in
          if \<not> (cm_isbypassallowed cm0 \<or> cm_isinfectionbypassallowed cm0) then Some (False, cm0)
          else
            let cm1 = grant_bypass env fg clientip clientuser cm0 in
            if cm_isscanbypass cm1 then
              let n = after (after (cm_url cm1) ''GSBYPASS='') ''&N=''; m = after n ''&M='' in
              map_option (\<lambda>d. (True, cm1\<lparr>cm_tempfiledis := d, cm_tempfilemime := before m ''&D='',
                  cm_tempfilename := be_download_dir env @ ''/tf'' @ before n ''&M=''\<rparr>))
                (decode (be_rx env) (be_urldecode_re env) (after m ''&D='') True)
            else Some (False, cm1))"

text \<open>The answer to a URL with a bypass: the cookie, and the URL without it.\<close>

definition bypass_redirect :: "bypass_env \<Rightarrow> int \<Rightarrow> string \<Rightarrow> string \<Rightarrow> naughty_filter \<Rightarrow> string option" where
  "bypass_redirect env filtergroup clientip clientuser cm =
     (if cm_isbypass cm \<and> \<not> (cm_iscookiebypass cm \<or> cm_isvirusbypass cm) then
        let ud = without_www (cm_urldomain cm);
            magic_str = (case getFG (be_groups env) filtergroup of Some fg \<Rightarrow> cstr (bo_cookie_magic fg) | None \<Rightarrow> [])
        in Some (cstr (chop (''HTTP/1.1 302 Redirect'' @ crlf @ ''Set-Cookie: GBYPASS=''
             @ cstr (hashedCookie (be_md5 env) ud magic_str clientip clientuser (cm_bypasstimestamp cm))
             @ ''; path=/; domain=.'' @ ud @ crlf @ ''Location: '' @ before (cm_logurl cm) ''GBYPASS='') @ crlf @ crlf))
      else None)"


section \<open>The denied page\<close>

text \<open>Whether the page offers a bypass of the filter, one for infections, and whether the hash is made here.\<close>

definition hash_flags :: "bypass_options \<Rightarrow> bool \<Rightarrow> bool \<Rightarrow> bool \<Rightarrow> naughty_filter \<Rightarrow> bool \<times> bool \<times> bool" where
  "hash_flags fg wasinfected scanerror ispostblock cm =
     (if bo_reporting_level fg > 0 then
        if \<not> wasinfected \<and> cm_isbypassallowed cm \<and> \<not> ispostblock then (True, False, bo_bypass_mode fg > 0)
        else if wasinfected \<and> cm_isinfectionbypassallowed cm \<and> (if bo_infection_bypass_errors_only fg then scanerror else True)
        then (False, True, bo_infection_bypass_mode fg > 0)
        else (False, False, False)
      else (False, False, False))"

text \<open>What the template of the page gets.\<close>

definition template_hash :: "bypass_env \<Rightarrow> string \<Rightarrow> int \<Rightarrow> string \<Rightarrow> string \<Rightarrow> bool \<Rightarrow> bool \<Rightarrow> bool \<Rightarrow> naughty_filter \<Rightarrow> string" where
  "template_hash env url filtergroup0 clientip clientuser wasinfected scanerror ispostblock cm =
     (let filtergroup = (if filtergroup0 < 0 \<or> filtergroup0 \<ge> int (length (be_groups env)) then 0 else filtergroup0) in
      case getFG (be_groups env) filtergroup of
        None \<Rightarrow> []
      | Some fg \<Rightarrow>
          (case hash_flags fg wasinfected scanerror ispostblock cm of
             (filterhash, virushash, dohash) \<Rightarrow>
               (if dohash then hashedURL (be_md5 env) (be_now env) (be_groups env) url filtergroup clientip virushash clientuser
                else if filterhash then ''HASH=1'' else if virushash then ''HASH=2'' else [])
               @ (if bo_cgi_bypass_v2 fg then if filterhash then ''&HASH=1'' else if virushash then ''&HASH=2'' else [] else [])))"

definition buildConnectDenyResponse :: "language_container \<Rightarrow> naughty_filter \<Rightarrow> string \<times> string" where
  "buildConnectDenyResponse lang cm =
     (let denied = getTranslation lang 1;
          r0 = (if cm_whatIsNaughtyLog cm \<noteq> [] then cstr (cm_whatIsNaughtyLog cm) else cstr (cm_whatIsNaughty cm));
          reason = (if r0 = [] then denied else r0);
          ebody = ''<HTML><HEAD><TITLE>'' @ denied @ ''</TITLE></HEAD><BODY><CENTER><H1>'' @ denied @ ''</H1><P>'' @ reason
            @ ''</P></CENTER></BODY></HTML>'' @ crlf
      in (''HTTP/1.1 403 Forbidden'' @ crlf @ ''Server: e2guardian'' @ crlf @ ''Content-Type: text/html'' @ crlf @ ''Connection: close'' @ crlf
            @ ''Content-Length: '' @ nat_str (length ebody) @ crlf @ crlf, ebody))"


section \<open>Lemmas\<close>

text \<open>The digest is a text of 32 hexadecimal digits.\<close>

definition md5_hex :: "(string \<Rightarrow> string) \<Rightarrow> bool" where
  "md5_hex md5 \<longleftrightarrow> (\<forall>s. length (md5 s) = 32 \<and> nul_free (md5 s))"


lemma after_prefix: "after (h @ t) h = t"
  using before_after_unique(2) [of "h @ t" "[]" h t] by simp



text \<open>What a bypass is proved with: a URL that ends in the digest of the page, the secret, the client, the user and a time, with that
  time; the address of a scanned file with the digest of the client, the page and the names; a cookie with the digest of the site or of
  a domain above it. The digests of version 2 are hashed again with the secret of the page that grants them.\<close>

definition with_cgi :: "(string \<Rightarrow> string) \<Rightarrow> bypass_options \<Rightarrow> string \<Rightarrow> string" where
  "with_cgi md5 fg x = (if bo_cgi_bypass_v2 fg then md5 (md5 x @ cstr (bo_cgi_magic fg)) else md5 x)"

definition url_signed :: "(string \<Rightarrow> string) \<Rightarrow> int \<Rightarrow> bypass_options \<Rightarrow> string \<Rightarrow> string \<Rightarrow> bool \<Rightarrow> string \<Rightarrow> string \<Rightarrow> bool" where
  "url_signed md5 now fg secret clientip virus user url \<longleftrightarrow>
     (\<exists>pre time. url = pre @ mark_of virus
         @ with_cgi md5 fg (chop pre @ cstr (cstr secret @ cstr clientip @ (if bo_bypass_v2 fg then user else []) @ time)) @ time
       \<and> now \<le> toLong time)"

definition scan_signed :: "(string \<Rightarrow> string) \<Rightarrow> bypass_options \<Rightarrow> string \<Rightarrow> string \<Rightarrow> bool" where
  "scan_signed md5 fg clientip url \<longleftrightarrow>
     (\<exists>pre hash rest name mime dis. url = pre @ ''GSBYPASS='' @ hash @ rest \<and> scan_parts (hash @ rest) = (name, mime, dis)
       \<and> hash = with_cgi md5 fg (cstr clientip @ chop pre @ name @ mime @ dis @ cstr (bo_magic fg)))"

definition cookie_signed :: "(string \<Rightarrow> string) \<Rightarrow> int \<Rightarrow> bypass_options \<Rightarrow> string \<Rightarrow> string \<Rightarrow> string \<Rightarrow> http_header \<Rightarrow> bool" where
  "cookie_signed md5 now fg clientip user site h \<longleftrightarrow>
     (\<exists>d time. getCookie ''GBYPASS'' h = md5 (d @ cstr (cstr (bo_cookie_magic fg) @ cstr clientip @ cstr user @ time)) @ time
       \<and> dom_above d site \<and> CHR ''.'' \<in> set d \<and> now \<le> toLong time)"

lemma md5_hex_with_cgi: "md5_hex md5 \<Longrightarrow> length (with_cgi md5 fg x) = 32 \<and> nul_free (with_cgi md5 fg x)"
  by (simp add: md5_hex_def with_cgi_def)

lemma take_32_split: "h = take 32 r \<Longrightarrow> length h = 32 \<Longrightarrow> nul_free h \<Longrightarrow> r = h @ after r (cstr (take 32 r))"
  by (metis after_prefix append_take_drop_id cstr_nul_free)

lemma isBypassURL_signed:
  assumes "1 < fst (isBypassURL md5 now (Some fg) url secret clientip virus user)" and "md5_hex md5"
  shows "url_signed md5 now fg secret clientip virus user url"
proof -
  define mk where "mk = mark_of virus"
  define pre where "pre = before url mk"
  define r where "r = after url mk"
  define time where "time = after r (cstr (take 32 r))"
  let ?x = "chop pre @ cstr (cstr secret @ cstr clientip @ (if bo_bypass_v2 fg then user else []) @ time)"
  have c: "contains url mk" and h: "with_cgi md5 fg ?x = take 32 r" and t: "now \<le> toLong time"
    using assms(1) by (auto simp: isBypassURL_def Let_def mk_def [symmetric] pre_def r_def time_def with_cgi_def split: if_splits)
  have "r = with_cgi md5 fg ?x @ time"
    using take_32_split [OF h] md5_hex_with_cgi [OF assms(2)] unfolding time_def by blast
  moreover have "url = pre @ mk @ r" using before_after(1) c by (simp add: contains_iff pre_def r_def)
  ultimately show ?thesis using t unfolding url_signed_def mk_def by blast
qed

lemma isScanBypassURL_signed:
  assumes "isScanBypassURL md5 (Some fg) url (bo_magic fg) clientip" and "md5_hex md5"
  shows "scan_signed md5 fg clientip url"
proof -
  define pre where "pre = before url ''GSBYPASS=''"
  define r where "r = after url ''GSBYPASS=''"
  obtain name mime dis where p: "scan_parts r = (name, mime, dis)" by (metis prod_cases3)
  let ?x = "cstr clientip @ chop pre @ name @ mime @ dis @ cstr (bo_magic fg)"
  have c: "contains url ''GSBYPASS=''" and h: "with_cgi md5 fg ?x = take 32 r"
    using assms(1) p by (auto simp: isScanBypassURL_def Let_def pre_def r_def with_cgi_def split: if_splits)
  have "url = pre @ ''GSBYPASS='' @ take 32 r @ drop 32 r"
    using before_after(1) [of "''GSBYPASS=''" url] c unfolding contains_iff pre_def r_def append_take_drop_id by blast
  then show ?thesis using h p unfolding scan_signed_def by (metis append_take_drop_id)
qed

lemma isBypassCookie_signed:
  assumes "isBypassCookie md5 now site (cstr (bo_cookie_magic fg)) (cstr clientip) (cstr user) h" and "md5_hex md5"
  shows "cookie_signed md5 now fg clientip user site h"
proof -
  define c where "c = getCookie ''GBYPASS'' h"
  define time where "time = after c (cstr (take 32 c))"
  obtain d where d: "dom_above d site" "CHR ''.'' \<in> set d" "now \<le> toLong time"
    "md5 (d @ cstr (cstr (bo_cookie_magic fg) @ cstr clientip @ cstr user @ time)) = take 32 c"
    using assms(1) by (auto simp: isBypassCookie_def Let_def cookie_match_iff c_def [symmetric] time_def split: if_splits)
  have "c = md5 (d @ cstr (cstr (bo_cookie_magic fg) @ cstr clientip @ cstr user @ time)) @ time"
    using take_32_split [OF d(4)] assms(2) unfolding md5_hex_def time_def by blast
  then show ?thesis using d(1-3) unfolding cookie_signed_def c_def by blast
qed

section \<open>Properties\<close>



text \<open>C10: a request that was none becomes a bypass only in a group that allows one, and only with a proof: a URL that carries the digest
  of the page, the secret of the group, the client and a time that is not over, the address of a scanned file with its digest, or a cookie
  with the digest of the site or of a domain above it and a time that is not over.\<close>

theorem bypass_needs_proof:
  assumes "checkByPass env g clientip user cm = Some (r, cm')" and "\<not> cm_isbypass cm" and "cm_bypasstimestamp cm = 0" and "cm_isbypass cm'"
    and "md5_hex (be_md5 env)"
  shows "\<exists>fg. getFG (be_groups env) g = Some fg \<and> (bo_bypass_mode fg \<noteq> 0 \<or> bo_infection_bypass_mode fg \<noteq> 0)
    \<and> (scan_signed (be_md5 env) fg clientip (cm_url cm)
      \<or> bo_bypass_mode fg \<noteq> 0 \<and> url_signed (be_md5 env) (be_now env) fg (bo_magic fg) clientip False user (cm_logurl cm)
      \<or> bo_infection_bypass_mode fg \<noteq> 0 \<and> url_signed (be_md5 env) (be_now env) fg (bo_imagic fg) clientip True user (cm_logurl cm)
      \<or> bo_bypass_mode fg \<noteq> 0 \<and> cookie_signed (be_md5 env) (be_now env) fg clientip user (without_www (cm_urldomain cm)) (cm_request_header cm))"
proof (cases "getFG (be_groups env) g")
  case None
  then show ?thesis using assms by (simp add: checkByPass_def)
next
  case (Some fg)
  define cm0 where "cm0 = cm\<lparr>cm_isbypassallowed := (bo_bypass_mode fg \<noteq> 0), cm_isinfectionbypassallowed := (bo_infection_bypass_mode fg \<noteq> 0)\<rparr>"
  have a: "bo_bypass_mode fg \<noteq> 0 \<or> bo_infection_bypass_mode fg \<noteq> 0"
    using assms(1,2,4) Some by (auto simp: checkByPass_def Let_def split: if_splits)
  then have "cm_isbypassallowed cm0 \<or> cm_isinfectionbypassallowed cm0" by (simp add: cm0_def)
  then have "cm_isbypass (grant_bypass env fg clientip user cm0)"
    using assms(1,4) Some by (auto simp: checkByPass_def Let_def cm0_def [symmetric] split: if_splits)
  then have "isScanBypassURL (be_md5 env) (Some fg) (cm_url cm) (bo_magic fg) clientip
      \<or> bo_bypass_mode fg \<noteq> 0 \<and> 1 < fst (isBypassURL (be_md5 env) (be_now env) (Some fg) (cm_logurl cm) (bo_magic fg) clientip False user)
      \<or> bo_infection_bypass_mode fg \<noteq> 0 \<and> 1 < fst (isBypassURL (be_md5 env) (be_now env) (Some fg) (cm_logurl cm) (bo_imagic fg) clientip True user)
      \<or> bo_bypass_mode fg \<noteq> 0 \<and> isBypassCookie (be_md5 env) (be_now env) (without_www (cm_urldomain cm)) (cstr (bo_cookie_magic fg))
          (cstr clientip) (cstr user) (cm_request_header cm)"
    using assms(2,3) by (auto simp: grant_bypass_def Let_def cm0_def split: if_splits)
  then show ?thesis
    using a Some isScanBypassURL_signed [OF _ assms(5)] isBypassURL_signed [OF _ assms(5)] isBypassCookie_signed [OF _ assms(5)] by blast
qed


section \<open>Examples\<close>

text \<open>A digest that keeps the end of a text, and a group that grants bypasses of a minute.\<close>

definition demo_md5 :: "string \<Rightarrow> string" where
  "demo_md5 s = take 32 (map (\<lambda>c. if c = nul then CHR ''0'' else c) (rev s) @ replicate 32 (CHR ''0''))"

lemma demo_md5_hex: "md5_hex demo_md5"
  by (auto simp: md5_hex_def demo_md5_def nul_def dest!: in_set_takeD split: if_splits)

definition demo_bypass :: bypass_options where
  "demo_bypass = \<lparr>bo_bypass_mode = 60, bo_infection_bypass_mode = 0, bo_infection_bypass_errors_only = False, bo_bypass_v2 = True,
     bo_cgi_bypass_v2 = False, bo_reporting_level = 3, bo_magic = ''secret'', bo_imagic = ''isecret'', bo_cookie_magic = ''csecret'', bo_cgi_magic = []\<rparr>"

definition demo_bypass_env :: bypass_env where
  "demo_bypass_env = \<lparr>be_md5 = demo_md5, be_now = 1010, be_groups = [demo_bypass], be_rx = lib_a, be_urldecode_re = reg_exp_new, be_download_dir = ''/tmp''\<rparr>"

definition demo_bypass_url :: string where
  "demo_bypass_url = ''http://b.com/'' @ ''?'' @ hashedURL demo_md5 1000 [demo_bypass] ''http://b.com/'' 0 ''10.0.0.1'' False ''bob''"




definition demo_bypass_cm :: naughty_filter where
  "demo_bypass_cm = demo_auth_cm\<lparr>cm_url := ''http://b.com/'', cm_logurl := demo_bypass_url\<rparr>"

theorem bypass_needs_proof_witness:
  "\<exists>cm'. checkByPass demo_bypass_env 0 ''10.0.0.1'' ''bob'' demo_bypass_cm = Some (False, cm') \<and> cm_isbypass cm'
    \<and> (\<exists>fg. getFG (be_groups demo_bypass_env) 0 = Some fg \<and> (bo_bypass_mode fg \<noteq> 0 \<or> bo_infection_bypass_mode fg \<noteq> 0))"
proof -
  have u: "isBypassURL demo_md5 1010 (Some demo_bypass) demo_bypass_url ''secret'' ''10.0.0.1'' False ''bob'' = (1060, False)" by code_simp
  have s: "\<not> isScanBypassURL demo_md5 (Some demo_bypass) ''http://b.com/'' ''secret'' ''10.0.0.1''" by code_simp
  have f: "\<not> cm_isbypass demo_bypass_cm" "\<not> cm_isscanbypass demo_bypass_cm" "cm_bypasstimestamp demo_bypass_cm = 0"
    by (simp_all add: demo_bypass_cm_def demo_auth_cm_def naughty_filter_new_def nf_reset_def)
  have o: "bo_bypass_mode demo_bypass = 60" "bo_infection_bypass_mode demo_bypass = 0" "bo_magic demo_bypass = ''secret''" by (simp_all add: demo_bypass_def)
  obtain cm' where c: "checkByPass demo_bypass_env 0 ''10.0.0.1'' ''bob'' demo_bypass_cm = Some (False, cm')" "cm_isbypass cm'"
    using u s f(2) o by (simp add: checkByPass_def grant_bypass_def demo_bypass_env_def getFG_def Let_def demo_bypass_cm_def)
  have "md5_hex (be_md5 demo_bypass_env)" using demo_md5_hex by (simp add: demo_bypass_env_def)
  from bypass_needs_proof [OF c(1) f(1,3) c(2) this] c show ?thesis by blast
qed

end
