(* ===== verification/Gateway_Rules.thy ===== *)
theory Gateway_Rules
  imports IP_Match
begin

text \<open>
  Outbound gateways (\<^verbatim>\<open>src/src/LOptionContainer.cpp\<close>): the file of gateways, groups of gateways and rules, the rule that a request
  matches, and the endpoints of a gateway or group in the order in which they are tried. In a group the endpoints are tried by
  tiers, those that are up first, and the first of a tier is chosen by weighted round robin.

  The resolver is that of \<open>netlib\<close>, the address of an interface is a parameter. The counter of the round robin is an argument that is
  returned increased.
\<close>

section \<open>Text\<close>

definition gw_blank :: "char \<Rightarrow> bool" where
  "gw_blank c \<longleftrightarrow> c \<in> {CHR '' '', CHR 0x09, CHR 0x0D, CHR 0x0A}"

definition trim_str :: "string \<Rightarrow> string" where
  "trim_str s = rev (dropWhile gw_blank (rev (dropWhile gw_blank s)))"

definition to_lower_str :: "string \<Rightarrow> string" where
  "to_lower_str s = map c_tolower s"

fun split_any :: "string \<Rightarrow> string \<Rightarrow> string list" where
  "split_any delims [] = [[]]"
| "split_any delims (c # cs) =
     (if c \<in> set delims then [] # split_any delims cs else case split_any delims cs of t # ts \<Rightarrow> (c # t) # ts | [] \<Rightarrow> [[c]])"

definition split_tokens :: "string \<Rightarrow> string \<Rightarrow> string list" where
  "split_tokens str delims = filter (\<lambda>t. t \<noteq> []) (map trim_str (split_any delims str))"

text \<open>\<^verbatim>\<open>strtol\<close> with base 0: hexadecimal, octal or decimal digits.\<close>

definition base_digit :: "int \<Rightarrow> char \<Rightarrow> int option" where
  "base_digit b c =
     (let n = (of_char c :: int); v = (if 48 \<le> n \<and> n \<le> 57 then n - 48 else if 97 \<le> n \<and> n \<le> 122 then n - 87 else if 65 \<le> n \<and> n \<le> 90 then n - 55 else 99)
      in if v < b then Some v else None)"

definition base_value :: "int \<Rightarrow> string \<Rightarrow> int" where
  "base_value b s = foldl (\<lambda>a c. a * b + the (base_digit b c)) 0 (takeWhile (\<lambda>c. base_digit b c \<noteq> None) s)"

definition unsigned_auto :: "string \<Rightarrow> int" where
  "unsigned_auto s =
     (if take 1 s = ''0'' \<and> (take 1 (drop 1 s) = ''x'' \<or> take 1 (drop 1 s) = ''X'') \<and> length s > 2 \<and> base_digit 16 (s ! 2) \<noteq> None
      then base_value 16 (drop 2 s)
      else if take 1 s = ''0'' then base_value 8 s else base_value 10 s)"

definition strtol_auto :: "string \<Rightarrow> int" where
  "strtol_auto s =
     (let t = dropWhile c_isspace (cstr s) in
      clamp_long (if take 1 t = ''-'' then - unsigned_auto (drop 1 t) else if take 1 t = ''+'' then unsigned_auto (drop 1 t) else unsigned_auto t))"


section \<open>Addresses\<close>

record ip_spec =
  is_ips :: "32 word list"
  is_ranges :: "ipl_rangestruct list"
  is_subnets :: "ipl_subnetstruct list"

definition ip_spec_new :: ip_spec where
  "ip_spec_new = \<lparr>is_ips = [], is_ranges = [], is_subnets = []\<rparr>"

definition add_ip_token :: "netlib \<Rightarrow> string \<Rightarrow> ip_spec \<Rightarrow> ip_spec" where
  "add_ip_token nl tok sp =
     (let head = (\<lambda>c. takeWhile (\<lambda>x. x \<noteq> c) tok); rest = (\<lambda>c. drop 1 (dropWhile (\<lambda>x. x \<noteq> c) tok)) in
      if CHR ''/'' \<in> set tok then
        let ip_part = trim_str (head (CHR ''/'')); mask_part = trim_str (rest (CHR ''/'')) in
        (case inet_aton nl (cstr ip_part) of
           None \<Rightarrow> sp
         | Some host_ip \<Rightarrow>
             if CHR ''.'' \<in> set mask_part then
               (case inet_aton nl (cstr mask_part) of
                  None \<Rightarrow> sp | Some m \<Rightarrow> sp\<lparr>is_subnets := is_subnets sp @ [masked host_ip m]\<rparr>)
             else
               let cidr = c_atoi mask_part in
               if cidr < 0 \<or> cidr > 32 then sp else sp\<lparr>is_subnets := is_subnets sp @ [masked host_ip (cidr_mask cidr)]\<rparr>)
      else if CHR ''-'' \<in> set tok then
        (case (inet_aton nl (cstr (trim_str (head (CHR ''-'')))), inet_aton nl (cstr (trim_str (rest (CHR ''-''))))) of
           (Some a, Some b) \<Rightarrow> sp\<lparr>is_ranges := is_ranges sp @ [if a > b then \<lparr>startaddr = b, endaddr = a\<rparr> else \<lparr>startaddr = a, endaddr = b\<rparr>]\<rparr>
         | _ \<Rightarrow> sp)
      else (case inet_aton nl (cstr tok) of None \<Rightarrow> sp | Some a \<Rightarrow> sp\<lparr>is_ips := is_ips sp @ [a]\<rparr>))"

definition parse_ip_spec_list :: "netlib \<Rightarrow> string \<Rightarrow> ip_spec" where
  "parse_ip_spec_list nl spec =
     (let sp = fold (add_ip_token nl) (split_tokens spec '',; '') ip_spec_new in sp\<lparr>is_ips := sort (is_ips sp)\<rparr>)"

definition match_ip_spec :: "netlib \<Rightarrow> string \<Rightarrow> ip_spec \<Rightarrow> bool" where
  "match_ip_spec nl ip_str sp =
     (if ip_str = [] then False
      else case inet_aton nl (cstr ip_str) of
          None \<Rightarrow> False
        | Some ip \<Rightarrow> std_binary_search (is_ips sp) ip \<or> list_ex (in_range ip) (is_ranges sp) \<or> list_ex (in_subnet ip) (is_subnets sp))"


section \<open>The file of gateways\<close>

record GatewayEndpoint =
  ep_name :: string
  ep_if_name :: string
  ep_local_ip :: string
  ep_gw_ip :: string
  ep_tos :: int
  ep_tier :: int
  ep_weight :: int
  ep_up :: bool

definition endpoint_new :: GatewayEndpoint where
  "endpoint_new = \<lparr>ep_name = [], ep_if_name = [], ep_local_ip = [], ep_gw_ip = [], ep_tos = - 1, ep_tier = 1, ep_weight = 1, ep_up = True\<rparr>"

datatype SrcType = SRC_ANY | SRC_IP | SRC_USER
datatype DstType = DST_ANY | DST_DOMAIN | DST_URL | DST_IP

record GatewayRule =
  gr_src_type :: SrcType
  gr_dst_type :: DstType
  gr_src :: ip_spec
  gr_src_users :: "string list"
  gr_dst_domains_exact :: "string list"
  gr_dst_domains_wild :: "string list"
  gr_dst_urls :: "string list"
  gr_dst :: ip_spec
  gr_gateway :: string
  gr_name :: string

definition rule_new :: GatewayRule where
  "rule_new = \<lparr>gr_src_type = SRC_ANY, gr_dst_type = DST_ANY, gr_src = ip_spec_new, gr_src_users = [], gr_dst_domains_exact = [],
     gr_dst_domains_wild = [], gr_dst_urls = [], gr_dst = ip_spec_new, gr_gateway = [], gr_name = []\<rparr>"

record gateway_rules =
  gw_rules :: "GatewayRule list"
  gw_gateways :: "string \<rightharpoonup> GatewayEndpoint"
  gw_groups :: "string \<rightharpoonup> GatewayEndpoint list"

definition status_up :: "string \<Rightarrow> bool" where
  "status_up s = (to_lower_str s \<notin> {''down'', ''0'', ''false'', ''offline''})"

definition gateway_line :: "(string \<Rightarrow> string) \<Rightarrow> string list \<Rightarrow> GatewayEndpoint" where
  "gateway_line lookup_interface fs =
     (let local_ip = fs ! 3; if_name = fs ! 2 in
      endpoint_new\<lparr>ep_name := fs ! 1, ep_if_name := if_name,
        ep_local_ip := (if (local_ip = [] \<or> local_ip = ''dynamic'' \<or> local_ip = ''0.0.0.0'') \<and> if_name \<noteq> [] then lookup_interface if_name else local_ip),
        ep_gw_ip := fs ! 4, ep_tos := wrap_int (strtol_auto (fs ! 5)),
        ep_up := (if length fs \<ge> 7 then status_up (fs ! 6) else True)\<rparr>)"

definition group_member :: "(string \<rightharpoonup> GatewayEndpoint) \<Rightarrow> string \<Rightarrow> GatewayEndpoint option" where
  "group_member gateways m =
     (let parts = split_tokens m '':'' in
      if parts = [] then None
      else
        let tier = (if length parts \<ge> 2 then c_atoi (parts ! 1) else 1);
            weight = (if length parts \<ge> 3 then c_atoi (parts ! 2) else 1);
            member_up = (if length parts \<ge> 4 then status_up (parts ! 3) else True);
            ep = (case gateways (hd parts) of Some e \<Rightarrow> e | None \<Rightarrow> endpoint_new\<lparr>ep_name := hd parts\<rparr>)
        in Some (ep\<lparr>ep_tier := max 1 tier, ep_weight := max 1 weight, ep_up := ep_up ep \<and> member_up\<rparr>))"

definition strip_scheme :: "string \<Rightarrow> string" where
  "strip_scheme s = (case find_sub ''://'' s of None \<Rightarrow> s | Some i \<Rightarrow> drop (i + 3) s)"

text \<open>A domain of a rule: an exact name, or one that stands for all below it.\<close>

definition domain_token :: "string \<Rightarrow> GatewayRule \<Rightarrow> GatewayRule" where
  "domain_token d rule =
     (let ld = takeWhile (\<lambda>c. c \<noteq> CHR '':'') (takeWhile (\<lambda>c. c \<noteq> CHR ''/'') (strip_scheme (to_lower_str d))) in
      if ld = [] then rule
      else if length ld > 2 \<and> take 2 ld = ''*.'' then rule\<lparr>gr_dst_domains_wild := gr_dst_domains_wild rule @ [drop 2 ld]\<rparr>
      else if length ld > 1 \<and> hd ld = CHR ''.'' then rule\<lparr>gr_dst_domains_wild := gr_dst_domains_wild rule @ [drop 1 ld]\<rparr>
      else rule\<lparr>gr_dst_domains_exact := gr_dst_domains_exact rule @ [ld]\<rparr>)"

definition url_token :: "string \<Rightarrow> string" where
  "url_token u = rev (dropWhile (\<lambda>c. c = CHR ''/'') (rev (strip_scheme (to_lower_str u))))"

definition rule_line :: "netlib \<Rightarrow> string list \<Rightarrow> GatewayRule" where
  "rule_line nl fs =
     (let stype = to_lower_str (fs ! 1); dtype = to_lower_str (fs ! 3);
          r0 = rule_new\<lparr>gr_gateway := fs ! 5, gr_name := (if length fs \<ge> 7 then fs ! 6 else [])\<rparr>;
          r1 = (if stype = ''ip'' then r0\<lparr>gr_src_type := SRC_IP, gr_src := parse_ip_spec_list nl (fs ! 2)\<rparr>
                else if stype = ''user'' then r0\<lparr>gr_src_type := SRC_USER,
                  gr_src_users := filter (\<lambda>u. u \<noteq> []) (map to_lower_str (split_tokens (fs ! 2) '',;''))\<rparr>
                else r0)
      in if dtype = ''domain'' then fold domain_token (split_tokens (fs ! 4) '',; '') (r1\<lparr>gr_dst_type := DST_DOMAIN\<rparr>)
         else if dtype = ''url'' then r1\<lparr>gr_dst_type := DST_URL,
           gr_dst_urls := filter (\<lambda>u. u \<noteq> []) (map url_token (split_tokens (fs ! 4) '',; ''))\<rparr>
         else if dtype = ''ip'' then r1\<lparr>gr_dst_type := DST_IP, gr_dst := parse_ip_spec_list nl (fs ! 4)\<rparr>
         else r1)"

definition gateway_file_line :: "netlib \<Rightarrow> (string \<Rightarrow> string) \<Rightarrow> string \<Rightarrow> gateway_rules \<Rightarrow> gateway_rules" where
  "gateway_file_line nl lookup_interface line g =
     (let trimmed = trim_str line in
      if trimmed = [] \<or> hd trimmed = CHR ''#'' then g
      else
        let fs = map trim_str (split_any ''|'' trimmed); type = to_lower_str (hd fs) in
        if type = ''gateway'' \<and> length fs \<ge> 6 then
          let ep = gateway_line lookup_interface fs in g\<lparr>gw_gateways := (gw_gateways g)(ep_name ep \<mapsto> ep)\<rparr>
        else if type = ''gwgroup'' \<and> length fs \<ge> 3 then
          g\<lparr>gw_groups := (gw_groups g)(fs ! 1 \<mapsto> List.map_filter (group_member (gw_gateways g)) (split_tokens (fs ! 2) '',''))\<rparr>
        else if type = ''rule'' \<and> length fs \<ge> 6 then g\<lparr>gw_rules := gw_rules g @ [rule_line nl fs]\<rparr>
        else g)"

definition loadGatewayRules :: "netlib \<Rightarrow> (string \<Rightarrow> string) \<Rightarrow> string list option \<Rightarrow> gateway_rules" where
  "loadGatewayRules nl lookup_interface fl =
     fold (gateway_file_line nl lookup_interface) (case fl of None \<Rightarrow> [] | Some ls \<Rightarrow> ls)
       \<lparr>gw_rules = [], gw_gateways = Map.empty, gw_groups = Map.empty\<rparr>"


section \<open>The rule of a request\<close>

record gw_request =
  rq_client_ip :: string
  rq_user :: string
  rq_short_user :: string
  rq_domain :: string
  rq_url :: string
  rq_dest_ip :: string

definition after_last :: "char \<Rightarrow> string \<Rightarrow> string" where
  "after_last c s = rev (takeWhile (\<lambda>x. x \<noteq> c) (rev s))"

definition norm_request :: "string \<Rightarrow> string \<Rightarrow> string \<Rightarrow> string \<Rightarrow> string \<Rightarrow> gw_request" where
  "norm_request client_ip client_user domain url dest_ip =
     (let norm_user = to_lower_str (trim_str client_user) in
      \<lparr>rq_client_ip = client_ip, rq_user = norm_user,
       rq_short_user = takeWhile (\<lambda>c. c \<noteq> CHR ''@'') (after_last (CHR ''/'') (after_last (CHR 0x5C) norm_user)),
       rq_domain = takeWhile (\<lambda>c. c \<noteq> CHR '':'') (to_lower_str (cstr domain)),
       rq_url = strip_scheme (to_lower_str (cstr url)), rq_dest_ip = dest_ip\<rparr>)"

definition src_ok :: "netlib \<Rightarrow> gw_request \<Rightarrow> GatewayRule \<Rightarrow> bool" where
  "src_ok nl rq rule =
     (case gr_src_type rule of
        SRC_ANY \<Rightarrow> True
      | SRC_IP \<Rightarrow> match_ip_spec nl (rq_client_ip rq) (gr_src rule)
      | SRC_USER \<Rightarrow> rq_user rq \<noteq> [] \<and> rq_user rq \<noteq> ''-'' \<and> list_ex (\<lambda>ru. ru = rq_user rq \<or> ru = rq_short_user rq) (gr_src_users rule))"

definition wild_domain :: "string \<Rightarrow> string \<Rightarrow> bool" where
  "wild_domain norm_domain wd \<longleftrightarrow>
     norm_domain = wd
     \<or> length norm_domain > length wd + 1 \<and> norm_domain ! (length norm_domain - length wd - 1) = CHR ''.''
       \<and> drop (length norm_domain - length wd) norm_domain = wd"

definition url_end :: "string \<Rightarrow> nat \<Rightarrow> bool" where
  "url_end s i \<longleftrightarrow> i = length s \<or> s ! i \<in> {CHR ''/'', CHR ''?'', CHR ''&'', CHR '':''}"

definition url_matches :: "string \<Rightarrow> string \<Rightarrow> bool" where
  "url_matches norm_url u \<longleftrightarrow>
     take (length u) norm_url = u \<and> url_end norm_url (length u)
     \<or> (case find_sub u norm_url of
          None \<Rightarrow> False
        | Some pos \<Rightarrow> (pos = 0 \<or> norm_url ! (pos - 1) = CHR ''.'') \<and> url_end norm_url (pos + length u))"

definition dst_ok :: "netlib \<Rightarrow> gw_request \<Rightarrow> GatewayRule \<Rightarrow> bool" where
  "dst_ok nl rq rule =
     (case gr_dst_type rule of
        DST_ANY \<Rightarrow> True
      | DST_DOMAIN \<Rightarrow> rq_domain rq \<noteq> [] \<and> (list_ex (\<lambda>ed. rq_domain rq = ed) (gr_dst_domains_exact rule)
          \<or> list_ex (wild_domain (rq_domain rq)) (gr_dst_domains_wild rule))
      | DST_URL \<Rightarrow> rq_url rq \<noteq> [] \<and> list_ex (url_matches (rq_url rq)) (gr_dst_urls rule)
      | DST_IP \<Rightarrow> match_ip_spec nl (rq_dest_ip rq) (gr_dst rule)
          \<or> rq_domain rq \<noteq> [] \<and> rq_domain rq \<noteq> rq_dest_ip rq \<and> match_ip_spec nl (rq_domain rq) (gr_dst rule))"

definition matchGatewayRule :: "netlib \<Rightarrow> gateway_rules \<Rightarrow> string \<Rightarrow> string \<Rightarrow> string \<Rightarrow> string \<Rightarrow> string \<Rightarrow> string" where
  "matchGatewayRule nl g client_ip client_user domain url dest_ip =
     (let rq = norm_request client_ip client_user domain url dest_ip in
      case List.find (\<lambda>rule. src_ok nl rq rule \<and> dst_ok nl rq rule) (gw_rules g) of
        None \<Rightarrow> [] | Some rule \<Rightarrow> gr_gateway rule)"


section \<open>The endpoints of a gateway\<close>

definition with_local_ip :: "(string \<Rightarrow> string) \<Rightarrow> GatewayEndpoint \<Rightarrow> GatewayEndpoint" where
  "with_local_ip lookup_interface ep =
     (if ep_local_ip ep = [] \<and> ep_if_name ep \<noteq> [] then ep\<lparr>ep_local_ip := lookup_interface (ep_if_name ep)\<rparr> else ep)"

definition current_member :: "(string \<Rightarrow> string) \<Rightarrow> (string \<rightharpoonup> GatewayEndpoint) \<Rightarrow> GatewayEndpoint \<Rightarrow> GatewayEndpoint" where
  "current_member lookup_interface gateways ep =
     with_local_ip lookup_interface (case gateways (ep_name ep) of
         None \<Rightarrow> ep
       | Some e \<Rightarrow> ep\<lparr>ep_if_name := ep_if_name e, ep_local_ip := ep_local_ip e, ep_gw_ip := ep_gw_ip e, ep_tos := ep_tos e, ep_up := ep_up ep \<and> ep_up e\<rparr>)"

text \<open>A map from tiers to their endpoints, in the order of the tiers.\<close>

fun push_tier :: "GatewayEndpoint \<Rightarrow> (int \<times> GatewayEndpoint list) list \<Rightarrow> (int \<times> GatewayEndpoint list) list" where
  "push_tier ep [] = [(ep_tier ep, [ep])]"
| "push_tier ep ((t, eps) # ts) =
     (if ep_tier ep < t then (ep_tier ep, [ep]) # (t, eps) # ts
      else if ep_tier ep = t then (t, eps @ [ep]) # ts
      else (t, eps) # push_tier ep ts)"

definition tiers_of :: "GatewayEndpoint list \<Rightarrow> (int \<times> GatewayEndpoint list) list" where
  "tiers_of eps = fold push_tier eps []"

text \<open>The weights add up as 32-bit integers.\<close>

definition weight_of :: "GatewayEndpoint \<Rightarrow> int" where
  "weight_of e = (if ep_weight e > 0 then ep_weight e else 1)"

definition total_weight :: "GatewayEndpoint list \<Rightarrow> int" where
  "total_weight eps = foldl (\<lambda>a e. wrap_int (a + weight_of e)) 0 eps"

fun pick_index :: "int \<Rightarrow> int \<Rightarrow> nat \<Rightarrow> GatewayEndpoint list \<Rightarrow> nat" where
  "pick_index p accum i [] = 0"
| "pick_index p accum i (e # es) =
     (let accum' = wrap_int (accum + weight_of e) in if p < accum' then i else pick_index p accum' (Suc i) es)"

definition primary_index :: "32 word \<Rightarrow> GatewayEndpoint list \<Rightarrow> nat" where
  "primary_index seq eps =
     (let total = total_weight eps; p = (if total > 0 then wrap_int (uint seq mod total) else 0) in pick_index p 0 0 eps)"

definition append_tier :: "32 word \<Rightarrow> GatewayEndpoint list \<Rightarrow> GatewayEndpoint list" where
  "append_tier seq eps =
     (if length eps \<le> 1 then eps
      else let k = primary_index seq eps in (eps ! k) # map (\<lambda>i. eps ! ((k + i) mod length eps)) [1..<length eps])"

definition getGatewayEndpoints :: "(string \<Rightarrow> string) \<Rightarrow> gateway_rules \<Rightarrow> string \<Rightarrow> 32 word \<Rightarrow> GatewayEndpoint list \<times> 32 word" where
  "getGatewayEndpoints lookup_interface g gw_name seq =
     (if gw_name = [] \<or> gw_name = ''default'' \<or> gw_name = ''DEFAULT'' then ([], seq)
      else case gw_gateways g gw_name of
          Some ep \<Rightarrow> ([with_local_ip lookup_interface ep], seq)
        | None \<Rightarrow>
            (case gw_groups g gw_name of
               None \<Rightarrow> ([], seq)
             | Some members \<Rightarrow>
                 let eps = map (current_member lookup_interface (gw_gateways g)) members in
                 (concat (map (append_tier seq \<circ> snd) (tiers_of (filter ep_up eps)))
                    @ concat (map (append_tier seq \<circ> snd) (tiers_of (filter (\<lambda>e. \<not> ep_up e) eps))), seq + 1)))"


section \<open>Lemmas: tiers\<close>

lemma pick_index_less: "es \<noteq> [] \<Longrightarrow> pick_index p accum i es < i + length es"
proof (induction es arbitrary: accum i)
  case (Cons e es)
  show ?case
  proof (cases "es = []")
    case True
    then show ?thesis by (simp add: Let_def)
  next
    case False
    then show ?thesis using Cons.IH [OF False, of "wrap_int (accum + weight_of e)" "Suc i"] by (simp add: Let_def)
  qed
qed simp

lemma append_tier_rotate: "append_tier seq eps = (if length eps \<le> 1 then eps else rotate (primary_index seq eps) eps)"
proof (cases "length eps \<le> 1")
  case True
  then show ?thesis by (simp add: append_tier_def)
next
  case False
  let ?k = "primary_index seq eps" and ?n = "length eps"
  have k: "?k < ?n" using pick_index_less [of eps _ 0 0] False by (cases eps) (auto simp del: pick_index.simps simp: primary_index_def Let_def)
  have n: "[0..<?n] = 0 # [1..<?n]" using upt_conv_Cons [of 0 ?n] False by (simp only: One_nat_def not_le)
  have "(eps ! ?k) # map (\<lambda>i. eps ! ((?k + i) mod ?n)) [1..<?n] = map (\<lambda>i. eps ! ((?k + i) mod ?n)) [0..<?n]"
    unfolding n using k by simp
  also have "\<dots> = rotate ?k eps" by (rule nth_equalityI) (simp_all add: nth_rotate add.commute)
  finally show ?thesis using False by (simp add: append_tier_def Let_def)
qed

lemma append_tier_mset: "mset (append_tier seq eps) = mset eps"
proof -
  have "mset (rotate n eps) = mset eps" for n
    by (induction n) (simp_all add: rotate1_hd_tl [symmetric], metis append_Nil mset_append add.commute list.collapse append_Cons rotate1.simps(1) rotate1_hd_tl)
  then show ?thesis by (simp add: append_tier_rotate)
qed

text \<open>The map of the tiers: one entry for each tier that occurs, in ascending order, with the endpoints of the tier.\<close>

definition tiers_ok :: "(int \<times> GatewayEndpoint list) list \<Rightarrow> bool" where
  "tiers_ok ts \<longleftrightarrow> sorted_wrt (<) (map fst ts) \<and> (\<forall>(t, eps) \<in> set ts. \<forall>e \<in> set eps. ep_tier e = t)"

lemma push_tier_keys: "set (map fst (push_tier ep ts)) = insert (ep_tier ep) (set (map fst ts))"
  by (induction ts rule: push_tier.induct) auto

lemma push_tier_ok: "tiers_ok ts \<Longrightarrow> tiers_ok (push_tier ep ts)"
proof (induction ep ts rule: push_tier.induct)
  case (1 ep)
  then show ?case by (simp add: tiers_ok_def)
next
  case (2 ep t eps ts)
  have "tiers_ok ts" using 2(2) by (auto simp: tiers_ok_def)
  then show ?case using 2 push_tier_keys [of ep ts] by (auto simp: tiers_ok_def)
qed

lemma push_tier_mset: "mset (concat (map snd (push_tier ep ts))) = add_mset ep (mset (concat (map snd ts)))"
  by (induction ep ts rule: push_tier.induct) auto

lemma tiers_of_ok: "tiers_ok (tiers_of eps)" "mset (concat (map snd (tiers_of eps))) = mset eps"
proof -
  have "tiers_ok (fold push_tier eps ts) \<and> mset (concat (map snd (fold push_tier eps ts))) = mset (concat (map snd ts)) + mset eps"
    if "tiers_ok ts" for ts
    using that by (induction eps arbitrary: ts) (auto simp: push_tier_ok push_tier_mset)
  from this [of "[]"] show "tiers_ok (tiers_of eps)" "mset (concat (map snd (tiers_of eps))) = mset eps"
    by (simp_all add: tiers_of_def tiers_ok_def)
qed

lemma tiered_sorted:
  assumes "tiers_ok ts"
  shows "sorted (map ep_tier (concat (map (append_tier seq \<circ> snd) ts)))"
  using assms
proof (induction ts)
  case Nil
  then show ?case by simp
next
  case (Cons t ts)
  have s: "set (append_tier seq eps) = set eps" for eps using append_tier_mset [of seq eps] by (metis set_mset_mset)
  have same: "ep_tier e = fst t" if "e \<in> set (append_tier seq (snd t))" for e
    using Cons.prems that s [of "snd t"] by (cases t) (auto simp: tiers_ok_def)
  have "sorted (map ep_tier (append_tier seq (snd t)))"
    by (rule sorted_wrt_mono_rel [of _ "\<lambda>x y. True"]) (auto simp: same sorted_wrt_true)
  moreover have "\<forall>x \<in> set (map ep_tier (append_tier seq (snd t))). \<forall>y \<in> set (map ep_tier (concat (map (append_tier seq \<circ> snd) ts))). x \<le> y"
    using Cons.prems s by (fastforce simp: tiers_ok_def)
  moreover have "tiers_ok ts" using Cons.prems by (auto simp: tiers_ok_def)
  ultimately show ?case using Cons.IH by (simp add: sorted_append)
qed

lemma tiered_mset: "mset (concat (map (append_tier seq \<circ> snd) (tiers_of eps))) = mset eps"
proof -
  have "mset (concat (map (append_tier seq \<circ> snd) ts)) = mset (concat (map snd ts))" for ts :: "(int \<times> GatewayEndpoint list) list"
    by (induction ts) (simp_all add: append_tier_mset)
  then show ?thesis by (simp only: tiers_of_ok(2))
qed


section \<open>Lemmas: round robin\<close>

definition psum :: "GatewayEndpoint list \<Rightarrow> nat \<Rightarrow> int" where
  "psum eps j = sum_list (map weight_of (take j eps))"

lemma weight_pos: "0 < weight_of e"
  by (simp add: weight_of_def)

lemma psum_Suc: "j < length eps \<Longrightarrow> psum eps (Suc j) = psum eps j + weight_of (eps ! j)"
  by (simp add: psum_def take_Suc_conv_app_nth)

lemma psum_mono: "i \<le> j \<Longrightarrow> psum eps i \<le> psum eps j"
proof -
  assume "i \<le> j"
  then have "take j eps = take i eps @ take (j - i) (drop i eps)" by (metis le_add_diff_inverse take_add)
  moreover have "0 \<le> sum_list (map weight_of xs)" for xs using weight_pos by (intro sum_list_nonneg) (auto intro: less_imp_le)
  ultimately show ?thesis by (simp add: psum_def)
qed

lemma psum_nonneg: "0 \<le> psum eps j"
  using psum_mono [of 0 j eps] by (simp add: psum_def)

lemma total_weight_sum:
  assumes "0 \<le> a" "a + sum_list (map weight_of es) < 2 ^ 31"
  shows "foldl (\<lambda>a e. wrap_int (a + weight_of e)) a es = a + sum_list (map weight_of es)"
  using assms
proof (induction es arbitrary: a)
  case (Cons e es)
  have n: "0 \<le> sum_list (map weight_of es)" using weight_pos by (intro sum_list_nonneg) (auto intro: less_imp_le)
  have "wrap_int (a + weight_of e) = a + weight_of e" using Cons.prems n weight_pos [of e] by (intro wrap_int_id) simp_all
  then show ?case using Cons.IH [of "a + weight_of e"] Cons.prems weight_pos [of e] by simp
qed simp

lemma pick_index_at:
  assumes "j < length es" "accum + psum es j \<le> p" "p < accum + psum es (Suc j)" "0 \<le> accum" "accum + psum es (length es) < 2 ^ 31"
  shows "pick_index p accum i es = i + j"
  using assms
proof (induction es arbitrary: accum i j)
  case (Cons e es)
  have s: "psum (e # es) (Suc k) = weight_of e + psum es k" for k by (simp add: psum_def)
  have "0 \<le> psum es (length es)" by (rule psum_nonneg)
  then have w: "wrap_int (accum + weight_of e) = accum + weight_of e"
    using Cons.prems s [of "length es"] weight_pos [of e] by (intro wrap_int_id) simp_all
  show ?case
  proof (cases j)
    case 0
    then show ?thesis using Cons.prems w s [of 0] by (simp add: psum_def)
  next
    case (Suc k)
    have "\<not> p < accum + weight_of e" using Cons.prems(2) s [of k] Suc psum_nonneg [of es k] by simp
    then show ?thesis
      using Cons.IH [of k "accum + weight_of e" "Suc i"] Cons.prems s Suc w weight_pos [of e] by simp
  qed
qed simp

lemma psum_cover:
  assumes "0 \<le> p" "p < psum eps (length eps)"
  shows "\<exists>j < length eps. psum eps j \<le> p \<and> p < psum eps (Suc j)"
proof -
  define j where "j = (LEAST k. p < psum eps (Suc k))"
  have ne: "length eps > 0" using assms by (cases eps) (simp_all add: psum_def)
  then have "p < psum eps (Suc (length eps - 1))" using assms(2) by simp
  then have l: "p < psum eps (Suc j)" "j \<le> length eps - 1" unfolding j_def by (auto intro: LeastI Least_le)
  have "psum eps j \<le> p"
  proof (cases j)
    case 0
    then show ?thesis using assms(1) by (simp add: psum_def)
  next
    case (Suc k)
    then have "\<not> p < psum eps (Suc k)" unfolding j_def by (metis lessI not_less_Least)
    then show ?thesis using Suc by simp
  qed
  moreover have "j < length eps" using l(2) ne by linarith
  ultimately show ?thesis using l(1) by blast
qed

lemma card_shift_mod:
  fixes w s :: nat
  assumes "A \<subseteq> {..<w}"
  shows "card {n. n < w \<and> (s + n) mod w \<in> A} = card A"
proof -
  have inj: "inj_on (\<lambda>n. (s + n) mod w) {..<w}"
  proof (rule inj_onI)
    fix a b assume ab: "a \<in> {..<w}" "b \<in> {..<w}" "(s + a) mod w = (s + b) mod w"
    then have "int w dvd int (s + a) - int (s + b)" by (metis mod_eq_dvd_iff zmod_int)
    then have "int w dvd int a - int b" by simp
    moreover have "\<bar>int a - int b\<bar> < int w" using ab by simp
    ultimately show "a = b" using zdvd_not_zless [of "\<bar>int a - int b\<bar>" "int w"] by (metis abs_ge_zero dvd_abs_iff eq_iff_diff_eq_0 of_nat_eq_iff order_le_less zero_less_abs_iff)
  qed
  have im: "(\<lambda>n. (s + n) mod w) ` {..<w} = {..<w}"
  proof (cases "w = 0")
    case False
    then have "(\<lambda>n. (s + n) mod w) ` {..<w} \<subseteq> {..<w}" by auto
    then show ?thesis using inj by (metis card_image card_subset_eq finite_lessThan)
  qed simp
  let ?B = "{n. n < w \<and> (s + n) mod w \<in> A}"
  have "(\<lambda>n. (s + n) mod w) ` ?B = A"
  proof
    show "A \<subseteq> (\<lambda>n. (s + n) mod w) ` ?B"
    proof
      fix x assume x: "x \<in> A"
      with assms im have "x \<in> (\<lambda>n. (s + n) mod w) ` {..<w}" by auto
      then show "x \<in> (\<lambda>n. (s + n) mod w) ` ?B" using x by auto
    qed
  qed auto
  moreover have "inj_on (\<lambda>n. (s + n) mod w) ?B" using inj by (rule inj_on_subset) auto
  ultimately show ?thesis by (metis card_image)
qed


section \<open>Properties\<close>

text \<open>C24: a group of gateways gives every member exactly once: the members that are up before those that are down, each part by
  ascending tiers.\<close>

theorem gateway_failover_order:
  assumes "gw \<notin> {[], ''default'', ''DEFAULT''}" and "gw_gateways g gw = None" and "gw_groups g gw = Some members"
  shows "\<exists>ups downs. getGatewayEndpoints lookup_if g gw seq = (ups @ downs, seq + 1)
    \<and> mset (ups @ downs) = mset (map (current_member lookup_if (gw_gateways g)) members)
    \<and> list_all ep_up ups \<and> list_all (\<lambda>e. \<not> ep_up e) downs \<and> sorted (map ep_tier ups) \<and> sorted (map ep_tier downs)"
proof -
  define eps where "eps = map (current_member lookup_if (gw_gateways g)) members"
  define order where "order = (\<lambda>es. concat (map (append_tier seq \<circ> snd) (tiers_of es)))"
  have r: "getGatewayEndpoints lookup_if g gw seq = (order (filter ep_up eps) @ order (filter (\<lambda>e. \<not> ep_up e) eps), seq + 1)"
    using assms by (simp add: getGatewayEndpoints_def eps_def order_def Let_def)
  have m: "mset (order es) = mset es" "sorted (map ep_tier (order es))" for es
    using tiered_mset [of seq es] tiered_sorted [OF tiers_of_ok(1)] by (simp_all add: order_def)
  have "set (order es) = set es" for es using m(1) [of es] by (metis set_mset_mset)
  then have "list_all ep_up (order (filter ep_up eps))" "list_all (\<lambda>e. \<not> ep_up e) (order (filter (\<lambda>e. \<not> ep_up e) eps))"
    by (simp_all add: list_all_iff)
  moreover have "mset (order (filter ep_up eps) @ order (filter (\<lambda>e. \<not> ep_up e) eps)) = mset eps"
    by (simp add: m(1) mset_filter)
  ultimately show ?thesis using r m(2) unfolding eps_def by blast
qed

text \<open>C25: the round robin of a tier is fair: over as many consecutive values of the counter as the weights add up to, none beyond the
  wrap-around of its 32 bits, every endpoint
  comes first exactly as often as its weight says.\<close>

theorem gateway_round_robin_fair:
  assumes "j < length eps" and "sum_list (map weight_of eps) < 2 ^ 31" and "s + nat (sum_list (map weight_of eps)) \<le> 2 ^ 32"
  shows "card {n. n < nat (sum_list (map weight_of eps)) \<and> primary_index (of_nat (s + n)) eps = j} = nat (weight_of (eps ! j))"
proof -
  let ?W = "sum_list (map weight_of eps)"
  have W: "?W = psum eps (length eps)" by (simp add: psum_def)
  have t: "total_weight eps = ?W" using total_weight_sum [of 0 eps] assms(2) by (simp add: total_weight_def)
  have pos: "0 < ?W"
    using psum_Suc [OF assms(1)] weight_pos [of "eps ! j"] psum_nonneg [of eps j] psum_mono [of "Suc j" "length eps" eps] assms(1) W by simp
  let ?A = "{m. psum eps j \<le> int m \<and> int m < psum eps (Suc j)}"
  have idx: "primary_index (of_nat (s + n)) eps = j \<longleftrightarrow> (s + n) mod nat ?W \<in> ?A" if n: "n < nat ?W" for n
  proof -
    let ?m = "(s + n) mod nat ?W"
    have "uint (of_nat x :: 32 word) = int x" if "x < 2 ^ 32" for x
      using that by (simp add: unsigned_of_nat take_bit_nat_eq_self)
    moreover have "s + n < 2 ^ 32" using assms(3) n by linarith
    ultimately have "uint (of_nat (s + n) :: 32 word) = int (s + n)" by blast
    then have u: "uint (of_nat (s + n) :: 32 word) mod ?W = int ?m" using pos by (simp add: zmod_int)
    have "?m < nat ?W" using pos by (intro mod_less_divisor) simp
    then have m: "int ?m < ?W" by linarith
    then have "wrap_int (int ?m) = int ?m" using assms(2) by (intro wrap_int_id) simp_all
    then have p: "primary_index (of_nat (s + n)) eps = pick_index (int ?m) 0 0 eps" using u t pos by (simp add: primary_index_def Let_def)
    obtain k where k: "k < length eps" "psum eps k \<le> int ?m" "int ?m < psum eps (Suc k)" using psum_cover [of "int ?m" eps] m W by auto
    have pk: "pick_index (int ?m) 0 0 eps = k" using pick_index_at [OF k(1), of 0 "int ?m" 0] k assms(2) W by simp
    show ?thesis
    proof
      assume "primary_index (of_nat (s + n)) eps = j"
      then show "?m \<in> ?A" using p pk k by simp
    next
      assume "?m \<in> ?A"
      then have "pick_index (int ?m) 0 0 eps = j" using pick_index_at [OF assms(1), of 0 "int ?m" 0] assms(2) W by simp
      then show "primary_index (of_nat (s + n)) eps = j" using p by simp
    qed
  qed
  have sub: "?A \<subseteq> {..<nat ?W}" using psum_mono [of "Suc j" "length eps" eps] assms(1) W by auto
  have "{n. n < nat ?W \<and> primary_index (of_nat (s + n)) eps = j} = {n. n < nat ?W \<and> (s + n) mod nat ?W \<in> ?A}" using idx by blast
  then have "card {n. n < nat ?W \<and> primary_index (of_nat (s + n)) eps = j} = card ?A" using card_shift_mod [OF sub] by simp
  also have "?A = {nat (psum eps j)..<nat (psum eps (Suc j))}" using psum_nonneg [of eps j] by auto
  also have "card \<dots> = nat (weight_of (eps ! j))" using psum_Suc [OF assms(1)] psum_nonneg [of eps j] weight_pos [of "eps ! j"] by (simp add: nat_diff_distrib)
  finally show ?thesis .
qed


section \<open>Examples\<close>

text \<open>Two gateways, one of them down, and a group of both.\<close>

definition demo_gateways :: gateway_rules where
  "demo_gateways = loadGatewayRules net_test (\<lambda>_. []) (Some [''# gateways'', ''GATEWAY|a|eth0|10.0.0.1|10.0.0.254|0x10|up'',
     ''GATEWAY|b|eth1|10.0.1.1|10.0.1.254|0|down'', ''GWGROUP|both|b:1:1, a:2:3'', ''RULE|any||domain|*.b.com|both'' ])"

lemma demo_gw_group: "gw_gateways demo_gateways ''both'' = None" "gw_groups demo_gateways ''both'' = Some (the (gw_groups demo_gateways ''both''))"
  "map ep_name (the (gw_groups demo_gateways ''both'')) = [''b'', ''a'']"
  by code_simp+

theorem gateway_failover_order_witness:
  "\<exists>ups downs. getGatewayEndpoints (\<lambda>_. []) demo_gateways ''both'' 5 = (ups @ downs, 6)
    \<and> mset (ups @ downs) = mset (map (current_member (\<lambda>_. []) (gw_gateways demo_gateways)) (the (gw_groups demo_gateways ''both'')))"
  using gateway_failover_order [OF _ demo_gw_group(1,2), of "\<lambda>_. []" 5] by auto

theorem gateway_round_robin_fair_witness:
  "card {n. n < nat (sum_list (map weight_of [endpoint_new, endpoint_new\<lparr>ep_weight := 3\<rparr>]))
     \<and> primary_index (of_nat (7 + n)) [endpoint_new, endpoint_new\<lparr>ep_weight := 3\<rparr>] = 1} = 3"
  using gateway_round_robin_fair [of 1 "[endpoint_new, endpoint_new\<lparr>ep_weight := 3\<rparr>]" 7] by (simp add: weight_of_def endpoint_new_def)

end
