(* ===== verification/Upstream.thy ===== *)
theory Upstream
  imports Gateway_Rules Auth_IP
begin

text \<open>
  The connection to the web server or the upstream proxy (\<^verbatim>\<open>connectUpstream\<close> in \<^verbatim>\<open>src/src/ConnectionHandler.cpp\<close>): the check that a
  request does not come back to the filter itself, the lookup of the host, the gateway of the request with its endpoints, and the
  retries.

  What a connection attempt, a lookup and the test for a timeout give is a parameter, by the number of attempts and lookups made
  before; the attempts are kept.
\<close>

section \<open>State\<close>

datatype resolved = Addresses "string list" | No_name | No_data | Again | Fail

text \<open>An attempt: the address, the port, and the source address and type of service of a gateway.\<close>

type_synonym attempt = "string \<times> int \<times> (string \<times> int) option"

record upstream_env =
  ue_net :: netlib
  ue_interface :: "string \<Rightarrow> string"
  ue_gateways :: "gateway_rules option"
  ue_language :: language_container
  ue_check_ports :: "string list"
  ue_check_ip :: "string list"
  ue_connect_retries :: int
  ue_use_original_ip_port :: bool
  ue_proxy_ip :: string
  ue_proxy_port :: int
  ue_connect :: "nat \<Rightarrow> attempt \<Rightarrow> int"
  ue_timedout :: "nat \<Rightarrow> bool"
  ue_getaddrinfo :: "nat \<Rightarrow> string \<Rightarrow> resolved"

record upstream =
  us_attempts :: "attempt list"
  us_lookups :: nat
  us_rr_counter :: "32 word"
  us_connected_gateway :: string
  us_cm :: naughty_filter


section \<open>Connecting to an address\<close>

definition try_connect :: "upstream_env \<Rightarrow> attempt \<Rightarrow> upstream \<Rightarrow> int \<times> upstream" where
  "try_connect env a st = (ue_connect env (length (us_attempts st)) a, st\<lparr>us_attempts := us_attempts st @ [a]\<rparr>)"

fun try_endpoints :: "upstream_env \<Rightarrow> string \<Rightarrow> string \<Rightarrow> int \<Rightarrow> int \<Rightarrow> GatewayEndpoint list \<Rightarrow> upstream \<Rightarrow> int \<times> upstream" where
  "try_endpoints env gw_name target_ip target_port r [] st = (r, st)"
| "try_endpoints env gw_name target_ip target_port r (ep # eps) st =
     (case try_connect env (target_ip, target_port, Some (ep_local_ip ep, ep_tos ep)) st of
        (r', st1) \<Rightarrow>
          if r' = 0 then (0, st1\<lparr>us_connected_gateway := gw_name, us_cm := (us_cm st1)\<lparr>cm_gateway_ip := ep_gw_ip ep\<rparr>\<rparr>)
          else try_endpoints env gw_name target_ip target_port r' eps st1)"

definition gw_tag :: "string \<Rightarrow> string" where
  "gw_tag gw_name = '' [GW:'' @ gw_name @ '']''"

definition tag_gateway :: "string \<Rightarrow> naughty_filter \<Rightarrow> naughty_filter" where
  "tag_gateway gw_name cm =
     (if gw_name \<noteq> [] \<and> find_sub (gw_tag gw_name) (cm_whatIsNaughtyLog cm) = None
      then cm\<lparr>cm_whatIsNaughtyLog := cm_whatIsNaughtyLog cm @ gw_tag gw_name\<rparr> else cm)"

definition gateway_for :: "upstream_env \<Rightarrow> string \<Rightarrow> string \<Rightarrow> naughty_filter \<Rightarrow> string" where
  "gateway_for env clientuser target_ip cm =
     (case ue_gateways env of
        None \<Rightarrow> []
      | Some g \<Rightarrow> matchGatewayRule (ue_net env) g (cm_clientip cm) clientuser (cm_urldomain cm) (cm_baseurl cm) target_ip)"

definition connect_to_ip :: "upstream_env \<Rightarrow> string \<Rightarrow> string \<Rightarrow> int \<Rightarrow> upstream \<Rightarrow> int \<times> upstream" where
  "connect_to_ip env clientuser target_ip target_port st =
     (let gw_name = gateway_for env clientuser target_ip (us_cm st);
          st1 = st\<lparr>us_cm := tag_gateway gw_name ((us_cm st)\<lparr>cm_gateway_name := gw_name\<rparr>)\<rparr>;
          (eps, rr) = (if gw_name \<noteq> [] then (case ue_gateways env of
              Some g \<Rightarrow> getGatewayEndpoints (ue_interface env) g gw_name (us_rr_counter st) | None \<Rightarrow> ([], us_rr_counter st)) else ([], us_rr_counter st));
          st2 = st1\<lparr>us_rr_counter := rr\<rparr>
      in if eps \<noteq> [] then try_endpoints env gw_name target_ip target_port (- 1) eps st2
         else case try_connect env (target_ip, target_port, None) st2 of
             (r, st3) \<Rightarrow> (r, if r = 0 then st3\<lparr>us_connected_gateway := gw_name, us_cm := (us_cm st3)\<lparr>cm_gateway_ip := []\<rparr>\<rparr> else st3))"


section \<open>The loop of the retries\<close>

definition destination :: "upstream_env \<Rightarrow> naughty_filter \<Rightarrow> string" where
  "destination env cm =
     (if ue_use_original_ip_port env \<and> cm_got_orig_ip cm \<and> cm_connect_site cm = cm_urldomain cm then cm_orig_ip cm
      else if cm_isiphost cm then cm_urldomain cm else [])"

text \<open>The addresses of a host, in their order: whether one was connected to, the flag that a loop is still possible, and the
  message.\<close>

fun try_addresses :: "upstream_env \<Rightarrow> string \<Rightarrow> int \<Rightarrow> bool \<Rightarrow> string list \<Rightarrow> upstream \<Rightarrow> bool \<times> bool \<times> int \<times> upstream" where
  "try_addresses env clientuser target_port may_be_loop [] st = (False, may_be_loop, 0, st)"
| "try_addresses env clientuser target_port may_be_loop (t # ts) st =
     (if may_be_loop \<and> t \<in> set (ue_check_ip env) then (False, True, 212, st)
      else case connect_to_ip env clientuser t target_port st of
          (rc, st1) \<Rightarrow> if rc = 0 then (True, False, 0, st1) else try_addresses env clientuser target_port False ts st1)"

fun lookup_message :: "resolved \<Rightarrow> int" where
  "lookup_message No_name = 207"
| "lookup_message No_data = 208"
| "lookup_message Again = 209"
| "lookup_message Fail = 210"
| "lookup_message (Addresses _) = 0"

text \<open>The result of the connection, or \<open>None\<close> with the message of the failure.\<close>

fun upstream_loop :: "upstream_env \<Rightarrow> string \<Rightarrow> int \<Rightarrow> nat \<Rightarrow> bool \<Rightarrow> int \<Rightarrow> upstream \<Rightarrow> int option \<times> int \<times> upstream" where
  "upstream_loop env clientuser target_port 0 may_be_loop lerr_mess st = (None, lerr_mess, st)"
| "upstream_loop env clientuser target_port (Suc n) may_be_loop lerr_mess st0 =
     (let st = st0\<lparr>us_cm := (us_cm st0)\<lparr>cm_upfailure := False\<rparr>\<rparr>; cm = us_cm st in
      if cm_isdirect cm then
        let des_ip = destination env cm in
        if des_ip \<noteq> [] then
          if may_be_loop \<and> des_ip \<in> set (ue_check_ip env) then (None, 212, st)
          else (case connect_to_ip env clientuser (cstr des_ip) target_port st of
              (rc, st1) \<Rightarrow> if rc < 0 then upstream_loop env clientuser target_port n False 203 st1 else (Some rc, 0, st1))
        else
          let r = ue_getaddrinfo env (us_lookups st) (cstr (cm_connect_site cm)); st1 = st\<lparr>us_lookups := Suc (us_lookups st)\<rparr> in
          (case r of
             Addresses ts \<Rightarrow>
               (case try_addresses env clientuser target_port may_be_loop ts st1 of
                  (True, _, _, st2) \<Rightarrow> (Some 0, 0, st2)
                | (False, True, m, st2) \<Rightarrow> (None, m, st2)
                | (False, False, _, st2) \<Rightarrow> upstream_loop env clientuser target_port n False 203 st2)
           | Again \<Rightarrow> upstream_loop env clientuser target_port n may_be_loop 209 st1
           | _ \<Rightarrow> (None, lookup_message r, st1))
      else
        (case try_connect env (ue_proxy_ip env, ue_proxy_port env, None) st of
           (rc, st1) \<Rightarrow>
             if rc < 0 then upstream_loop env clientuser target_port n may_be_loop (if ue_timedout env (length (us_attempts st1)) then 201 else 202) st1
             else (Some rc, 0, st1)))"

definition upstream_failed :: "upstream_env \<Rightarrow> int \<Rightarrow> upstream \<Rightarrow> upstream" where
  "upstream_failed env lerr_mess st =
     (let m = getTranslation (ue_language env) lerr_mess in
      st\<lparr>us_cm := (us_cm st)\<lparr>cm_upfailure := True, cm_message_no := lerr_mess, cm_whatIsNaughty := m,
        cm_whatIsNaughtyLog := m @ (if cm_gateway_name (us_cm st) \<noteq> [] then gw_tag (cm_gateway_name (us_cm st)) else []),
        cm_whatIsNaughtyCategories := [], cm_whatIsNaughtyDisplayCategories := [], cm_isItNaughty := True, cm_blocktype := 3,
        cm_isexception := False, cm_isbypass := False\<rparr>\<rparr>)"

definition connectUpstream :: "upstream_env \<Rightarrow> string \<Rightarrow> int \<Rightarrow> upstream \<Rightarrow> int \<times> upstream" where
  "connectUpstream env clientuser port0 st =
     (let target_port = (if port0 = 0 then int (port (cm_request_header (us_cm st))) else port0);
          may_be_loop = (int_str target_port \<in> set (ue_check_ports env))
      in case upstream_loop env clientuser target_port (nat (ue_connect_retries env)) may_be_loop 0 st of
           (Some rc, _, st1) \<Rightarrow> (rc, st1)
         | (None, lerr_mess, st1) \<Rightarrow> (- 1, upstream_failed env lerr_mess st1))"


section \<open>Lemmas\<close>

lemma destination_upfailure [simp]: "destination env (cm\<lparr>cm_upfailure := b\<rparr>) = destination env cm"
  by (simp add: destination_def)

text \<open>A connection that was made is the last attempt, and its answer is the result.\<close>

definition last_answer :: "upstream_env \<Rightarrow> upstream \<Rightarrow> int \<Rightarrow> bool" where
  "last_answer env st r \<longleftrightarrow> us_attempts st \<noteq> [] \<and> ue_connect env (length (us_attempts st) - 1) (last (us_attempts st)) = r"

lemma try_endpoints_last:
  assumes "try_endpoints env gw ip p r eps st = (r', st')" and "eps \<noteq> []"
  shows "last_answer env st' r'"
  using assms
proof (induction eps arbitrary: r st)
  case (Cons ep eps)
  show ?case
  proof (cases "eps = []")
    case True
    then show ?thesis using Cons.prems by (auto simp: try_connect_def last_answer_def split: if_splits)
  next
    case False
    then show ?thesis using Cons.prems Cons.IH [OF _ False] by (auto simp: try_connect_def last_answer_def split: if_splits)
  qed
qed simp

lemma connect_to_ip_last:
  assumes "connect_to_ip env user ip p st = (r, st')"
  shows "last_answer env st' r"
proof -
  define gw where "gw = gateway_for env user ip (us_cm st)"
  define st1 where "st1 = st\<lparr>us_cm := tag_gateway gw ((us_cm st)\<lparr>cm_gateway_name := gw\<rparr>)\<rparr>"
  obtain eps rr where e: "(if gw \<noteq> [] then (case ue_gateways env of
      Some g \<Rightarrow> getGatewayEndpoints (ue_interface env) g gw (us_rr_counter st) | None \<Rightarrow> ([], us_rr_counter st)) else ([], us_rr_counter st)) = (eps, rr)"
    by (metis surj_pair)
  show ?thesis
  proof (cases "eps = []")
    case True
    then show ?thesis using assms e
      by (auto simp: connect_to_ip_def gw_def [symmetric] st1_def [symmetric] Let_def try_connect_def last_answer_def split: if_splits)
  next
    case False
    then have "try_endpoints env gw ip p (- 1) eps (st1\<lparr>us_rr_counter := rr\<rparr>) = (r, st')"
      using assms e by (simp add: connect_to_ip_def gw_def [symmetric] st1_def [symmetric] Let_def)
    then show ?thesis using try_endpoints_last False by blast
  qed
qed

lemma try_addresses_last:
  assumes "try_addresses env user p b ts st = (True, b', m, st')"
  shows "last_answer env st' 0"
  using assms
proof (induction ts arbitrary: b st)
  case (Cons t ts)
  obtain rc st1 where c: "connect_to_ip env user t p st = (rc, st1)" by (metis surj_pair)
  from connect_to_ip_last [OF c] show ?case using Cons.prems Cons.IH c by (auto split: if_splits)
qed simp

lemma upstream_loop_last:
  assumes "upstream_loop env user p n b m st = (Some rc, m', st')"
  shows "0 \<le> rc \<and> last_answer env st' rc"
  using assms
proof (induction n arbitrary: b m st)
  case (Suc n)
  define st1 where "st1 = st\<lparr>us_cm := (us_cm st)\<lparr>cm_upfailure := False\<rparr>\<rparr>"
  define cm where "cm = us_cm st1"
  note prem = Suc.prems [unfolded upstream_loop.simps Let_def, folded st1_def, folded cm_def]
  show ?case
  proof (cases "cm_isdirect cm")
    case direct: True
    show ?thesis
    proof (cases "destination env cm = []")
      case False
      obtain r st2 where c: "connect_to_ip env user (cstr (destination env cm)) p st1 = (r, st2)" by (metis surj_pair)
      from connect_to_ip_last [OF c] show ?thesis using prem Suc.IH direct False c by (auto split: if_splits)
    next
      case True
      define st2 where "st2 = st1\<lparr>us_lookups := Suc (us_lookups st1)\<rparr>"
      show ?thesis
      proof (cases "ue_getaddrinfo env (us_lookups st1) (cstr (cm_connect_site cm))")
        case (Addresses ts)
        obtain ok b1 m1 st3 where t: "try_addresses env user p b ts st2 = (ok, b1, m1, st3)" by (metis prod_cases4)
        show ?thesis using prem Suc.IH direct True Addresses t try_addresses_last [of env user p b ts st2 b1 m1 st3]
          by (cases ok; cases b1) (auto simp: st2_def [symmetric])
      qed (use prem Suc.IH direct True in \<open>auto simp: st2_def [symmetric]\<close>)
    qed
  next
    case False
    then show ?thesis using prem Suc.IH by (auto simp: try_connect_def last_answer_def split: if_splits)
  qed
qed simp


text \<open>Why a connection failed, by its message: a loop, the last attempt, or the last lookup.\<close>

definition failed_because :: "upstream_env \<Rightarrow> int \<Rightarrow> int \<Rightarrow> upstream \<Rightarrow> bool" where
  "failed_because env p m st \<longleftrightarrow>
     (if cm_isdirect (us_cm st) then
        m = 212 \<and> int_str p \<in> set (ue_check_ports env)
        \<or> m = 203 \<and> (\<exists>r. r \<noteq> 0 \<and> last_answer env st r)
        \<or> m \<in> {207, 208, 209, 210} \<and> us_lookups st > 0
          \<and> lookup_message (ue_getaddrinfo env (us_lookups st - 1) (cstr (cm_connect_site (us_cm st)))) = m
      else (\<exists>r. r < 0 \<and> last_answer env st r) \<and> m = (if ue_timedout env (length (us_attempts st)) then 201 else 202))"

lemma tag_gateway_keeps [simp]:
  "cm_isdirect (tag_gateway gw cm) = cm_isdirect cm" "cm_connect_site (tag_gateway gw cm) = cm_connect_site cm"
  by (simp_all add: tag_gateway_def)

lemma try_endpoints_keeps:
  "try_endpoints env gw ip p r eps st = (r', st')
    \<Longrightarrow> cm_isdirect (us_cm st') = cm_isdirect (us_cm st) \<and> cm_connect_site (us_cm st') = cm_connect_site (us_cm st) \<and> us_lookups st' = us_lookups st"
  by (induction eps arbitrary: r st) (fastforce simp: try_connect_def split: if_splits)+

lemma connect_to_ip_keeps:
  assumes "connect_to_ip env user ip p st = (r, st')"
  shows "cm_isdirect (us_cm st') = cm_isdirect (us_cm st) \<and> cm_connect_site (us_cm st') = cm_connect_site (us_cm st) \<and> us_lookups st' = us_lookups st"
  using assms try_endpoints_keeps by (fastforce simp: connect_to_ip_def Let_def try_connect_def split: if_splits prod.splits)

lemma try_addresses_fails:
  assumes "try_addresses env user p b ts st = (False, b', m, st')" and "ts \<noteq> []"
  shows "cm_isdirect (us_cm st') = cm_isdirect (us_cm st) \<and> (if b' then b \<and> m = 212 else \<exists>r. r \<noteq> 0 \<and> last_answer env st' r)"
  using assms
proof (induction ts arbitrary: b st)
  case (Cons t ts)
  obtain rc st1 where c: "connect_to_ip env user t p st = (rc, st1)" by (metis surj_pair)
  note k = connect_to_ip_keeps [OF c] connect_to_ip_last [OF c]
  show ?case
  proof (cases "ts = []")
    case True
    then show ?thesis using Cons.prems c k by (auto split: if_splits)
  next
    case False
    then show ?thesis using Cons.prems Cons.IH [OF _ False] c k by (fastforce split: if_splits)
  qed
qed simp

lemma upstream_loop_fails:
  assumes "upstream_loop env user p n b m st = (None, m', st')" and "\<And>k h. ue_getaddrinfo env k h \<noteq> Addresses []"
    and "n = 0 \<Longrightarrow> failed_because env p m st" and "b \<Longrightarrow> int_str p \<in> set (ue_check_ports env)"
  shows "failed_because env p m' st'"
  using assms(1,3,4)
proof (induction n arbitrary: b m st)
  case (Suc n)
  define st1 where "st1 = st\<lparr>us_cm := (us_cm st)\<lparr>cm_upfailure := False\<rparr>\<rparr>"
  define cm where "cm = us_cm st1"
  note prem = Suc.prems(1) [unfolded upstream_loop.simps Let_def, folded st1_def, folded cm_def]
  show ?case
  proof (cases "cm_isdirect cm")
    case direct: True
    show ?thesis
    proof (cases "destination env cm = []")
      case False
      obtain r st2 where c: "connect_to_ip env user (cstr (destination env cm)) p st1 = (r, st2)" by (metis surj_pair)
      have d: "cm_isdirect (us_cm st1)" "cm_isdirect (us_cm st2)" using connect_to_ip_keeps [OF c] direct by (simp_all add: cm_def)
      have f: "failed_because env p 203 st2" if "r < 0"
        using connect_to_ip_last [OF c] d that by (auto simp: failed_because_def intro!: exI [of _ r])
      show ?thesis
        using prem direct False c d f Suc.IH [of False 203 st2] Suc.prems(3) by (auto simp: failed_because_def split: if_splits)
    next
      case True
      define st2 where "st2 = st1\<lparr>us_lookups := Suc (us_lookups st1)\<rparr>"
      have d: "cm_isdirect (us_cm st2)" "us_lookups st2 - 1 = us_lookups st1" "0 < us_lookups st2" "us_cm st2 = cm" using direct by (simp_all add: cm_def st2_def)
      show ?thesis
      proof (cases "ue_getaddrinfo env (us_lookups st1) (cstr (cm_connect_site cm))")
        case (Addresses ts)
        then have ts: "ts \<noteq> []" using assms(2) by metis
        obtain ok b1 m1 st3 where t: "try_addresses env user p b ts st2 = (ok, b1, m1, st3)" by (metis prod_cases4)
        then show ?thesis
          using prem direct True Addresses try_addresses_fails [OF _ ts, of env user p b st2 b1 m1 st3] d(1) Suc.IH [of False 203 st3] Suc.prems(3)
          by (cases ok; cases b1) (auto simp: st2_def [symmetric] failed_because_def)
      next
        case Again
        then have f: "failed_because env p 209 st2" using d by (simp add: failed_because_def)
        show ?thesis using prem direct True Again Suc.IH [OF _ f Suc.prems(3)] by (simp add: st2_def [symmetric])
      qed (use prem direct True d in \<open>auto simp: st2_def [symmetric] failed_because_def\<close>)
    qed
  next
    case False
    define st2 where "st2 = st1\<lparr>us_attempts := us_attempts st1 @ [(ue_proxy_ip env, ue_proxy_port env, None)]\<rparr>"
    define r where "r = ue_connect env (length (us_attempts st1)) (ue_proxy_ip env, ue_proxy_port env, None)"
    define m1 where "m1 = (if ue_timedout env (length (us_attempts st2)) then 201 else 202 :: int)"
    have c: "try_connect env (ue_proxy_ip env, ue_proxy_port env, None) st1 = (r, st2)" by (simp add: try_connect_def st2_def r_def)
    have "r < 0" and l: "upstream_loop env user p n b m1 st2 = (None, m', st')" using prem False c by (auto simp: m1_def split: if_splits)
    moreover have "last_answer env st2 r" "\<not> cm_isdirect (us_cm st2)" using False by (simp_all add: st2_def last_answer_def r_def cm_def)
    ultimately have "failed_because env p m1 st2" by (auto simp: failed_because_def m1_def)
    then show ?thesis using Suc.IH [OF l _ Suc.prems(3)] by simp
  qed
qed simp


section \<open>Properties\<close>

text \<open>C26: a connection upstream is one that the last attempt made. When none was made the request is naughty with the message of
  the failure as its reason, in the log with the gateway, and neither an exception nor a bypass, whatever it was before; where at least
  one attempt is allowed and lookups that succeed give addresses, the message is the one for a loop, for the last attempt that failed,
  or for the last lookup.\<close>

theorem upstream_result:
  assumes "connectUpstream env user p st = (rc, st')"
  shows "if 0 \<le> rc then last_answer env st' rc
    else rc = - 1 \<and> cm_upfailure (us_cm st') \<and> cm_isItNaughty (us_cm st') \<and> \<not> cm_isexception (us_cm st') \<and> \<not> cm_isbypass (us_cm st')
      \<and> cm_whatIsNaughty (us_cm st') = getTranslation (ue_language env) (cm_message_no (us_cm st'))
      \<and> cm_whatIsNaughtyLog (us_cm st') = cm_whatIsNaughty (us_cm st') @ (if cm_gateway_name (us_cm st') \<noteq> [] then gw_tag (cm_gateway_name (us_cm st')) else [])
      \<and> (0 < ue_connect_retries env \<and> (\<forall>k h. ue_getaddrinfo env k h \<noteq> Addresses [])
        \<longrightarrow> failed_because env (if p = 0 then int (port (cm_request_header (us_cm st))) else p) (cm_message_no (us_cm st')) st')"
proof -
  define q where "q = (if p = 0 then int (port (cm_request_header (us_cm st))) else p)"
  obtain r m st1 where l: "upstream_loop env user q (nat (ue_connect_retries env)) (int_str q \<in> set (ue_check_ports env)) 0 st = (r, m, st1)"
    by (metis prod_cases3)
  show ?thesis
  proof (cases r)
    case None
    have st: "rc = - 1" "st' = upstream_failed env m st1" using assms l None by (simp_all add: connectUpstream_def Let_def q_def [symmetric])
    have f: "failed_because env q m st1" if "0 < ue_connect_retries env" "\<forall>k h. ue_getaddrinfo env k h \<noteq> Addresses []"
      using upstream_loop_fails [OF l [unfolded None]] that by simp
    have "failed_because env q m st' \<longleftrightarrow> failed_because env q m st1"
      by (simp add: st(2) upstream_failed_def failed_because_def last_answer_def Let_def)
    then show ?thesis using st f unfolding q_def [symmetric] by (simp add: upstream_failed_def Let_def)
  next
    case (Some c)
    from upstream_loop_last [OF l [unfolded Some]] show ?thesis using assms l Some by (simp add: connectUpstream_def Let_def q_def [symmetric])
  qed
qed

text \<open>a request for an address of the filter itself, on a port of the filter, makes no connection and fails with the message for
  loops.\<close>

theorem upstream_no_loop:
  assumes "cm_isdirect (us_cm st)" and "destination env (us_cm st) \<in> set (ue_check_ip env)" and "destination env (us_cm st) \<noteq> []"
    and "int_str p \<in> set (ue_check_ports env)" and "p \<noteq> 0" and "0 < ue_connect_retries env"
  shows "\<exists>st'. connectUpstream env user p st = (- 1, st') \<and> us_attempts st' = us_attempts st \<and> cm_message_no (us_cm st') = 212"
proof -
  obtain n where n: "nat (ue_connect_retries env) = Suc n" using assms(6) by (metis gr0_implies_Suc zero_less_nat_eq)
  show ?thesis using assms n by (simp add: connectUpstream_def Let_def upstream_failed_def)
qed

text \<open>C27: the check is made for the first address of a host only: when the first one is no address of the filter and does not answer, the
  next one is connected to even when it is one.\<close>

theorem upstream_loop_by_name:
  assumes "cm_isdirect (us_cm st)" and "destination env (us_cm st) = []" and "p \<noteq> 0" and "0 < ue_connect_retries env"
    and "ue_gateways env = None" and "ue_getaddrinfo env (us_lookups st) (cstr (cm_connect_site (us_cm st))) = Addresses [a, b]"
    and "a \<notin> set (ue_check_ip env)" and "b \<in> set (ue_check_ip env)" and "int_str p \<in> set (ue_check_ports env)"
    and "us_attempts st = []" and "ue_connect env 0 (a, p, None) < 0" and "ue_connect env 1 (b, p, None) = 0"
  shows "\<exists>st'. connectUpstream env user p st = (0, st') \<and> us_attempts st' = [(a, p, None), (b, p, None)]"
proof -
  obtain n where n: "nat (ue_connect_retries env) = Suc n" using assms(4) by (metis gr0_implies_Suc zero_less_nat_eq)
  show ?thesis using assms n by (simp add: connectUpstream_def connect_to_ip_def gateway_for_def tag_gateway_def try_connect_def Let_def)
qed


section \<open>Examples\<close>

definition demo_upstream :: upstream_env where
  "demo_upstream = \<lparr>ue_net = net_test, ue_interface = (\<lambda>_. []), ue_gateways = None, ue_language = \<lparr>lk_keys = [], lk_values = []\<rparr>,
     ue_check_ports = [''80''], ue_check_ip = [''10.0.0.9''], ue_connect_retries = 1, ue_use_original_ip_port = False,
     ue_proxy_ip = ''10.0.0.8'', ue_proxy_port = 3128, ue_connect = (\<lambda>n a. if n = 0 then - 1 else 0), ue_timedout = (\<lambda>_. False),
     ue_getaddrinfo = (\<lambda>_ _. Addresses [''10.0.0.7'', ''10.0.0.9''])\<rparr>"

definition demo_up :: "bool \<Rightarrow> upstream" where
  "demo_up iphost = \<lparr>us_attempts = [], us_lookups = 0, us_rr_counter = 0, us_connected_gateway = [],
     us_cm = demo_ip_request\<lparr>cm_isdirect := True, cm_isiphost := iphost, cm_urldomain := ''10.0.0.9'', cm_connect_site := ''b.com''\<rparr>\<rparr>"

lemma demo_up_facts: "cm_isdirect (us_cm (demo_up b))" "destination demo_upstream (us_cm (demo_up b)) = (if b then ''10.0.0.9'' else [])"
  "us_attempts (demo_up b) = []" "us_lookups (demo_up b) = 0"
  by (simp_all add: demo_up_def destination_def demo_upstream_def)

lemma demo_port: "int_str 80 \<in> set (ue_check_ports demo_upstream)"
proof -
  have "int_str 80 = ''80''" by code_simp
  then show ?thesis by (simp add: demo_upstream_def)
qed

lemma demo_upstream_fields: "ue_check_ip demo_upstream = [''10.0.0.9'']" "ue_connect_retries demo_upstream = 1" "ue_gateways demo_upstream = None"
  "ue_getaddrinfo demo_upstream n h = Addresses [''10.0.0.7'', ''10.0.0.9'']" "ue_connect demo_upstream n a = (if n = 0 then - 1 else 0)"
  by (simp_all add: demo_upstream_def)

theorem upstream_result_witness:
  "\<exists>st'. connectUpstream demo_upstream ''bob'' 80 (demo_up True) = (- 1, st') \<and> cm_upfailure (us_cm st') \<and> cm_isItNaughty (us_cm st')
    \<and> \<not> cm_isexception (us_cm st') \<and> \<not> cm_isbypass (us_cm st') \<and> failed_because demo_upstream 80 (cm_message_no (us_cm st')) st'"
proof -
  have "fst (connectUpstream demo_upstream ''bob'' 80 (demo_up True)) = - 1"
    using demo_up_facts [of True] demo_port demo_upstream_fields by (simp add: connectUpstream_def Let_def)
  then obtain st' where c: "connectUpstream demo_upstream ''bob'' 80 (demo_up True) = (- 1, st')" by (metis prod.collapse)
  from upstream_result [OF c] c show ?thesis by (simp add: demo_upstream_fields)
qed

theorem upstream_no_loop_witness:
  "\<exists>st'. connectUpstream demo_upstream ''bob'' 80 (demo_up True) = (- 1, st') \<and> us_attempts st' = us_attempts (demo_up True)
    \<and> cm_message_no (us_cm st') = 212"
  using demo_up_facts [of True] demo_port demo_upstream_fields by (intro upstream_no_loop) simp_all

theorem upstream_loop_by_name_witness:
  "\<exists>st'. connectUpstream demo_upstream ''bob'' 80 (demo_up False) = (0, st')
     \<and> us_attempts st' = [(''10.0.0.7'', 80, None), (''10.0.0.9'', 80, None)]"
  using demo_up_facts [of False] demo_port demo_upstream_fields by (intro upstream_loop_by_name) simp_all

end
