(* ===== verification/Request_Check.thy ===== *)
theory Request_Check
  imports Bypass Content_Check
begin

text \<open>
  The check of a request that is authenticated (\<^verbatim>\<open>handleConnection\<close> and \<^verbatim>\<open>check_search_terms\<close> in \<^verbatim>\<open>src/src/ConnectionHandler.cpp\<close>):
  whether it may be decrypted, the bypass, the storyboard of the group, the redirections, the scan of search terms, and whether it goes
  upstream. Here the parts of the program come together. The texts of the status page and of the denied page, and the sending of a
  scanned file, are left out.
\<close>

section \<open>Definitions\<close>

record request_options =
  ro_StoryB :: story_board
  ro_ssl_mitm :: bool
  ro_automitm :: bool
  ro_disable_content_scan :: bool
  ro_content_scan_exceptions :: bool
  ro_phrases :: phrase_options
  ro_searchterm_limit :: int
  ro_searchterm_flag :: bool
  ro_searchterm_list :: nat
  ro_banned_phrase_list :: nat
  ro_bypass :: bypass_options

record request_env =
  qe_groups :: "request_options list"
  qe_bypass :: bypass_env
  qe_story :: sb_env
  qe_depth :: nat
  qe_content :: content_env
  qe_category :: "nat \<Rightarrow> int"
  qe_csplugins :: bool
  qe_gateway_rules :: bool
  qe_internal_status_url :: string

definition bypass_of :: "request_env \<Rightarrow> bypass_env" where
  "bypass_of env = (qe_bypass env)\<lparr>be_groups := map ro_bypass (qe_groups env)\<rparr>"

text \<open>Whether the request may be decrypted.\<close>

definition mitm_candidate :: "request_env \<Rightarrow> int \<Rightarrow> naughty_filter \<Rightarrow> naughty_filter" where
  "mitm_candidate env filtergroup cm =
     (let fg_cand = getFG (qe_groups env) filtergroup;
          cm1 = cm\<lparr>cm_ismitmcandidate := cm_isconnect cm \<and> \<not> cm_nomitm cm \<and> (case fg_cand of None \<Rightarrow> False | Some fg \<Rightarrow> ro_ssl_mitm fg)
            \<and> port (cm_request_header cm) = 443\<rparr>
      in if cm_ismitmcandidate cm1 then (case fg_cand of Some fg \<Rightarrow> if \<not> ro_automitm fg then cm1\<lparr>cm_automitm := False\<rparr> else cm1 | None \<Rightarrow> cm1)
         else cm1\<lparr>cm_nomitm := True, cm_automitm := False\<rparr>)"

text \<open>The parameters of the URL for the log, and the request.\<close>

definition check_search_terms :: "request_env \<Rightarrow> int \<Rightarrow> string \<Rightarrow> naughty_filter \<Rightarrow> (string \<times> naughty_filter) option" where
  "check_search_terms env filtergroup urlparams cm =
     (case getFG (qe_groups env) filtergroup of
        None \<Rightarrow> Some (urlparams, cm)
      | Some fg \<Rightarrow>
          if ro_searchterm_limit fg \<le> 0 then Some (urlparams, cm)
          else
            let terms = cm_search_terms cm;
                sa = \<lparr>sa_foc = ro_phrases fg, sa_phraselist = (if ro_searchterm_flag fg then ro_searchterm_list fg else ro_banned_phrase_list fg),
                  sa_limit = ro_searchterm_limit fg, sa_searchterms = True, sa_cat = qe_category env\<rparr>
            in map_option (\<lambda>cm1. (urlparams @ ''0='' @ terms @ '';'', if cm_isItNaughty cm1 then cm1\<lparr>cm_blocktype := 2\<rparr> else cm1))
                 (checkme (qe_content env) sa ('' '' @ terms @ '' '') cm))"

text \<open>The storyboard of the group, which is not run for blocked, finished and special requests.\<close>

definition run_storyboard :: "request_env \<Rightarrow> bool \<Rightarrow> int \<Rightarrow> naughty_filter \<Rightarrow> naughty_filter outcome" where
  "run_storyboard env authed filtergroup cm =
     (case getFG (qe_groups env) filtergroup of
        None \<Rightarrow> Done cm
      | Some fg \<Rightarrow>
          let scannable = (\<not> (cm_isdone cm \<or> cm_isconnect cm \<or> cm_ishead cm) \<and> \<not> cm_isBlocked cm \<and> authed \<and> qe_csplugins env
                \<and> \<not> ro_disable_content_scan fg \<and> \<not> (cm_isexception cm \<and> \<not> ro_content_scan_exceptions fg));
              cm1 = (if scannable then cm\<lparr>cm_noviruscheck := False\<rparr> else cm)
          in if \<not> (cm_isBlocked cm1 \<or> cm_isdone cm1 \<or> cm_special_exception_ip cm1) \<and> authed then
               obind (runFunctEntry (qe_depth env) (qe_story env) (ro_StoryB fg) 1 cm1) (\<lambda>(_, cm2).
                 Done (if bo_reporting_level (ro_bypass fg) \<noteq> - 1 then cm2\<lparr>cm_isItNaughty := cm_isBlocked cm2\<rparr>
                   else cm2\<lparr>cm_isItNaughty := False, cm_isBlocked := False\<rparr>))
             else Done cm1)"

definition set_direct :: "request_env \<Rightarrow> naughty_filter \<Rightarrow> naughty_filter" where
  "set_direct env cm =
     (if cm_isdirect cm \<or> qe_gateway_rules env then cm\<lparr>cm_isdirect := True, cm_request_header := setDirect (cm_request_header cm)\<rparr> else cm)"

text \<open>How the checks end: with the status page, a scanned file, an answer, a naughty request that is held back after the text that
  was sent to the client, or a request that goes upstream.\<close>

datatype request_end = Status_page | Scanned_file | Answer string | Held_back string | Go_upstream

text \<open>A naughty request is not sent upstream. When it may be decrypted, the client gets the denied page inside of a tunnel.\<close>

definition send_or_hold :: "naughty_filter \<Rightarrow> request_end \<times> naughty_filter" where
  "send_or_hold cm =
     (if cm_isItNaughty cm then
        if cm_isconnect cm \<and> cm_automitm cm
        then (Held_back (if cm_isdirect cm then ''HTTP/1.1 200 Connection established'' @ crlf @ crlf else []), cm\<lparr>cm_gomitm := True\<rparr>)
        else (Held_back [], cm\<lparr>cm_gomitm := False\<rparr>)
      else (Go_upstream, cm))"

text \<open>From the end of the authentication to the connection upstream. The result is how the request goes on, the parameters for the
  log and the request.\<close>

definition check_request :: "request_env \<Rightarrow> bool \<Rightarrow> int \<Rightarrow> string \<Rightarrow> string \<Rightarrow> string \<Rightarrow> naughty_filter
    \<Rightarrow> (request_end \<times> string \<times> naughty_filter) outcome" where
  "check_request env authed filtergroup clientip clientuser urlparams cm0 =
     (let cm = mitm_candidate env filtergroup cm0 in
      if cm_urldomain cm = qe_internal_status_url env then Done (Status_page, urlparams, cm)
      else
        obind (if cm_isdone cm then Done (False, cm) else of_option Bad_test (checkByPass (bypass_of env) filtergroup clientip clientuser cm)) (\<lambda>(scan_file, cm1).
          if scan_file then Done (Scanned_file, urlparams, cm1)
          else obind (run_storyboard env authed filtergroup cm1) (\<lambda>cm1'.
            let cm2 = set_direct env cm1' in
            case bypass_redirect (bypass_of env) filtergroup clientip clientuser cm2 of
              Some answer \<Rightarrow> Done (Answer answer, urlparams, cm2)
            | None \<Rightarrow>
                if cm_urlredirect cm2 then
                  let url = redirect (cm_request_header cm2) in
                  Done (Answer (cstr (''HTTP/1.1 302 Redirect'' @ [CHR 0x0A] @ ''Location: '' @ url @ [CHR 0x0A, CHR 0x0A])), urlparams, cm2\<lparr>cm_url := url\<rparr>)
                else
                  obind (if \<not> cm_isdone cm2 \<and> cm_isGrey cm2 \<and> cm_isSearch cm2
                      then of_option Bad_test (check_search_terms env filtergroup urlparams cm2) else Done (urlparams, cm2)) (\<lambda>(params, cm3).
                    case send_or_hold cm3 of (e, cm4) \<Rightarrow> Done (e, params, cm4)))))"

text \<open>The flags of the decision that the scan of a text and the check for a bypass leave alone.\<close>

definition same_decision :: "naughty_filter \<Rightarrow> naughty_filter \<Rightarrow> bool" where
  "same_decision cm cm' \<longleftrightarrow> cm_isexception cm' = cm_isexception cm \<and> cm_isGrey cm' = cm_isGrey cm \<and> cm_isBlocked cm' = cm_isBlocked cm"

text \<open>A group without bypasses whose storyboard makes requests grey.\<close>

definition demo_group_options :: request_options where
  "demo_group_options = \<lparr>ro_StoryB = demo_story\<lparr>entrys := [1, 1]\<rparr>, ro_ssl_mitm = False, ro_automitm = False, ro_disable_content_scan = False, ro_content_scan_exceptions = False,
     ro_phrases = \<lparr>po_weighted_phrase_mode = 0, po_category_threshold = 0\<rparr>, ro_searchterm_limit = 0, ro_searchterm_flag = False,
     ro_searchterm_list = 0, ro_banned_phrase_list = 0, ro_bypass = demo_bypass\<lparr>bo_bypass_mode := 0\<rparr>\<rparr>"

definition demo_request_env :: request_env where
  "demo_request_env = \<lparr>qe_groups = [demo_group_options], qe_bypass = demo_bypass_env, qe_story = demo_senv, qe_depth = 2,
     qe_content = demo_content, qe_category = (\<lambda>_. 0), qe_csplugins = False, qe_gateway_rules = False,
     qe_internal_status_url = ''status.local''\<rparr>"

section \<open>Lemmas\<close>

lemma decide_same: "same_decision cm (decide env foc b limit sg cm)"
  by (simp add: decide_def log_weighted_def same_decision_def Let_def split: option.splits)

lemma checkphrase_same: "checkphrase env foc pl limit b cat file n cm = Some (file', cm') \<Longrightarrow> same_decision cm cm'"
  by (auto simp: checkphrase_def phrase_exception_def same_decision_def [of _ "_\<lparr>cm_isItNaughty := _, cm_isException := _, cm_message_no := _,
      cm_whatIsNaughtyLog := _, cm_whatIsNaughty := _, cm_whatIsNaughtyCategories := _\<rparr>"] decide_same Let_def
      split: option.splits prod.splits combi_result.splits single_result.splits)

lemma scan_same: "scan env sa k file n cm = Some (file', cm') \<Longrightarrow> same_decision cm cm'"
  by (simp add: scan_def checkphrase_same)

lemma same_decision_trans: "same_decision a b \<Longrightarrow> same_decision b c \<Longrightarrow> same_decision a c"
  by (simp add: same_decision_def)

lemma same_decision_refl [simp]: "same_decision a a"
  by (simp add: same_decision_def)

lemma check_rounds_same: "check_rounds env sa body ps k lc nohtml cm = Some cm' \<Longrightarrow> same_decision cm cm'"
proof (induction ps arbitrary: k lc nohtml cm)
  case (Cons preserve ps)
  define lc0 where "lc0 = map (fold_byte preserve (do_nohtml env sa \<or> ce_phrase_filter_mode env = 3)) body @ drop (length body) lc"
  note prem = Cons.prems [unfolded check_rounds.simps Let_def, folded lc0_def]
  show ?case
  proof (cases "\<not> sa_searchterms sa \<and> ce_phrase_filter_mode env = 3")
    case True
    then have "scan_meta env sa k preserve lc0 (length body) cm = Some cm'" using prem by simp
    then show ?thesis by (auto simp: scan_meta_def Let_def scan_same split: prod.splits if_splits)
  next
    case False
    let ?one = "if do_nohtml env sa then scan_nohtml env sa k lc0 nohtml (length body) cm else Some (nohtml, cm)"
    let ?lc1 = "if do_nohtml env sa then map untag (take (length body) lc0) @ drop (length body) lc0 else lc0"
    obtain nohtml1 cm1 where one: "?one = Some (nohtml1, cm1)" using prem False by (auto split: option.splits)
    have s1: "same_decision cm cm1" using one by (auto simp: scan_nohtml_def Let_def scan_same split: if_splits)
    show ?thesis
    proof (cases "do_nohtml env sa \<and> settled cm1 \<or> \<not> do_raw env")
      case True
      then show ?thesis using prem False one s1 by simp
    next
      case go: False
      then obtain lc1 cm2 where two: "scan env sa (Suc k) ?lc1 (length body) cm1 = Some (lc1, cm2)"
        using prem False one by (auto split: option.splits)
      have "cm' = cm2 \<or> check_rounds env sa body ps (k + 2) lc1 nohtml1 cm2 = Some cm'"
        using prem False one go two by (auto split: if_splits)
      then show ?thesis using Cons.IH s1 scan_same [OF two] same_decision_trans by blast
    qed
  qed
qed simp

lemma checkme_same: "checkme env sa body cm = Some cm' \<Longrightarrow> same_decision cm cm'"
  by (auto simp: checkme_def Let_def check_rounds_same split: if_splits)

lemma search_terms_same: "check_search_terms env g params cm = Some (params', cm') \<Longrightarrow> same_decision cm cm'"
proof -
  assume a: "check_search_terms env g params cm = Some (params', cm')"
  have "cm' = cm \<or> (\<exists>sa body cm1. checkme (qe_content env) sa body cm = Some cm1 \<and> (cm' = cm1 \<or> cm' = cm1\<lparr>cm_blocktype := 2\<rparr>))"
    using a unfolding check_search_terms_def Let_def by (auto split: option.splits if_splits)
  then show ?thesis using checkme_same by (fastforce simp: same_decision_def)
qed

lemma bypass_decision:
  assumes "checkByPass env g clientip user cm = Some (r, cm')"
  shows "cm_isGrey cm' = cm_isGrey cm \<and> cm_isBlocked cm' = cm_isBlocked cm \<and> cm_isItNaughty cm' = cm_isItNaughty cm"
proof -
  have "cm_isGrey (grant_bypass env fg clientip user cm0) = cm_isGrey cm0 \<and> cm_isBlocked (grant_bypass env fg clientip user cm0) = cm_isBlocked cm0
      \<and> cm_isItNaughty (grant_bypass env fg clientip user cm0) = cm_isItNaughty cm0" for fg cm0
    by (simp add: grant_bypass_def Let_def)
  then show ?thesis using assms by (auto simp: checkByPass_def Let_def split: option.splits if_splits)
qed

lemma run_entry_decision:
  assumes "runFunctEntry k env sb index cm = Done (r, cm')" and "one_decision cm"
  shows "one_decision cm'"
  using assms(1)
proof (cases rule: runFunctEntry_cases)
  case 1
  then show ?thesis using assms(2) by (simp add: one_decision_def)
next
  case (2 fID)
  then show ?thesis using decisions.runFunct_rel [OF 2] assms(2) by simp
qed

lemma storyboard_decision:
  assumes "run_storyboard env authed g cm = Done cm'" and "one_decision cm" and "\<not> cm_isBlocked cm"
  shows "one_decision cm' \<and> (cm_isBlocked cm' \<longrightarrow> cm_isItNaughty cm')"
proof (cases "getFG (qe_groups env) g")
  case None
  then show ?thesis using assms by (simp add: run_storyboard_def)
next
  case (Some fg)
  define cm1 where "cm1 = (if \<not> (cm_isdone cm \<or> cm_isconnect cm \<or> cm_ishead cm) \<and> \<not> cm_isBlocked cm \<and> authed \<and> qe_csplugins env
      \<and> \<not> ro_disable_content_scan fg \<and> \<not> (cm_isexception cm \<and> \<not> ro_content_scan_exceptions fg) then cm\<lparr>cm_noviruscheck := False\<rparr> else cm)"
  have c1: "one_decision cm1" "\<not> cm_isBlocked cm1" using assms(2,3) by (simp_all add: cm1_def one_decision_def)
  have step: "run_storyboard env authed g cm =
     (if \<not> (cm_isBlocked cm1 \<or> cm_isdone cm1 \<or> cm_special_exception_ip cm1) \<and> authed then
               obind (runFunctEntry (qe_depth env) (qe_story env) (ro_StoryB fg) 1 cm1) (\<lambda>(_, cm2).
                 Done (if bo_reporting_level (ro_bypass fg) \<noteq> - 1 then cm2\<lparr>cm_isItNaughty := cm_isBlocked cm2\<rparr>
                   else cm2\<lparr>cm_isItNaughty := False, cm_isBlocked := False\<rparr>))
             else Done cm1)"
    unfolding run_storyboard_def Some option.case Let_def cm1_def ..
  show ?thesis
  proof (cases "\<not> (cm_isBlocked cm1 \<or> cm_isdone cm1 \<or> cm_special_exception_ip cm1) \<and> authed")
    case True
    then obtain r cm2 where r: "runFunctEntry (qe_depth env) (qe_story env) (ro_StoryB fg) 1 cm1 = Done (r, cm2)"
      and e: "cm' = (if bo_reporting_level (ro_bypass fg) \<noteq> - 1 then cm2\<lparr>cm_isItNaughty := cm_isBlocked cm2\<rparr>
                   else cm2\<lparr>cm_isItNaughty := False, cm_isBlocked := False\<rparr>)"
      using assms(1) unfolding step by auto
    from run_entry_decision [OF r c1(1)] show ?thesis using e by (auto simp: one_decision_def)
  next
    case False
    then have "cm' = cm1" using assms(1) step by (metis outcome.inject(1))
    then show ?thesis using c1 by simp
  qed
qed

lemma mitm_candidate_keeps [simp]:
  "cm_isBlocked (mitm_candidate env g cm) = cm_isBlocked cm" "cm_isGrey (mitm_candidate env g cm) = cm_isGrey cm"
  "cm_isexception (mitm_candidate env g cm) = cm_isexception cm" "cm_isItNaughty (mitm_candidate env g cm) = cm_isItNaughty cm"
  "cm_urldomain (mitm_candidate env g cm) = cm_urldomain cm" "cm_isbypass (mitm_candidate env g cm) = cm_isbypass cm"
  "cm_urlredirect (mitm_candidate env g cm) = cm_urlredirect cm" "cm_gomitm (mitm_candidate env g cm) = cm_gomitm cm"
  by (simp_all add: mitm_candidate_def Let_def split: option.splits)

lemma send_or_hold_facts:
  assumes "send_or_hold cm = (e, cm')"
  shows "cm_isBlocked cm' = cm_isBlocked cm \<and> cm_isGrey cm' = cm_isGrey cm \<and> cm_isexception cm' = cm_isexception cm
    \<and> cm_isItNaughty cm' = cm_isItNaughty cm \<and> (e = Go_upstream \<longleftrightarrow> \<not> cm_isItNaughty cm)"
  using assms by (auto simp: send_or_hold_def split: if_splits)

lemma check_request_decision:
  assumes "check_request env authed g clientip user params cm0 = Done (e, params', cm')" and "\<not> cm_isBlocked cm0" and "\<not> cm_isGrey cm0"
  shows "one_decision cm' \<and> (cm_isBlocked cm' \<longrightarrow> cm_isItNaughty cm') \<and> (e = Go_upstream \<longrightarrow> \<not> cm_isItNaughty cm')"
proof -
  define cm where "cm = mitm_candidate env g cm0"
  have c0: "\<not> cm_isBlocked cm" "\<not> cm_isGrey cm" using assms(2,3) by (simp_all add: cm_def)
  note prem = assms(1) [unfolded check_request_def Let_def, folded cm_def]
  show ?thesis
  proof (cases "cm_urldomain cm = qe_internal_status_url env")
    case True
    then show ?thesis using prem c0 by (auto simp: one_decision_def)
  next
    case other: False
    obtain b cm1 where one: "(if cm_isdone cm then Done (False, cm) else of_option Bad_test (checkByPass (bypass_of env) g clientip user cm)) = Done (b, cm1)"
      using prem other by auto
    have c1: "\<not> cm_isBlocked cm1" "\<not> cm_isGrey cm1"
      using one c0 bypass_decision [of "bypass_of env" g clientip user cm b cm1] by (auto simp: of_option_def split: if_splits option.splits)
    then have d1: "one_decision cm1" by (simp add: one_decision_def)
    show ?thesis
    proof (cases b)
      case True
      then have "cm' = cm1" "e = Scanned_file" using prem other one by simp_all
      then show ?thesis using c1 d1 by simp
    next
      case False
      then obtain cm0' where s: "run_storyboard env authed g cm1 = Done cm0'" using prem other one by auto
      define cm2 where "cm2 = set_direct env cm0'"
      have d2: "one_decision cm2 \<and> (cm_isBlocked cm2 \<longrightarrow> cm_isItNaughty cm2)"
        using storyboard_decision [OF s d1 c1(1)] by (simp add: cm2_def set_direct_def one_decision_def)
      note rules = one s other False if_False prod.case obind.simps cm2_def [symmetric] option.case
      show ?thesis
      proof (cases "bypass_redirect (bypass_of env) g clientip user cm2")
        case (Some answer)
        then have "Done (Answer answer, params, cm2) = Done (e, params', cm')" using prem by (simp only: rules)
        then show ?thesis using d2 by auto
      next
        case None
        note prem2 = prem [unfolded rules None option.case]
        show ?thesis
        proof (cases "cm_urlredirect cm2")
          case True
          then have "e \<noteq> Go_upstream" "cm' = cm2\<lparr>cm_url := redirect (cm_request_header cm2)\<rparr>" using prem2 other False by auto
          then show ?thesis using d2 by (simp add: one_decision_def)
        next
          case no: False
          let ?terms = "if \<not> cm_isdone cm2 \<and> cm_isGrey cm2 \<and> cm_isSearch cm2
              then of_option Bad_test (check_search_terms env g params cm2) else Done (params, cm2)"
          have "obind ?terms (\<lambda>(params, cm3). case send_or_hold cm3 of (e, cm4) \<Rightarrow> Done (e, params, cm4)) = Done (e, params', cm')"
            using prem2 no other False by (simp only: if_False)
          then obtain ps cm3 where t: "?terms = Done (ps, cm3)" and e: "send_or_hold cm3 = (e, cm')"
            by (cases ?terms) (auto split: prod.splits)
          have "cm3 = cm2 \<or> cm_isGrey cm2 \<and> same_decision cm2 cm3"
            using t search_terms_same [of env g params cm2 ps cm3] by (auto simp: of_option_def split: if_splits option.splits)
          then show ?thesis
            using d2 send_or_hold_facts [OF e] by (auto simp: one_decision_def same_decision_def)
        qed
      qed
    qed
  qed
qed

lemma demo_checked: "\<exists>e ps cm'. check_request demo_request_env True 0 ''10.0.0.1'' ''bob'' [] demo_cm = Done (e, ps, cm')"
proof -
  have f: "\<not> cm_isdone demo_cm" "\<not> cm_special_exception_ip demo_cm" "\<not> cm_isscanbypass demo_cm" "\<not> cm_isbypass demo_cm" "\<not> cm_isSearch demo_cm"
    "\<not> cm_isconnect demo_cm" "cm_urldomain demo_cm = []"
    by (simp_all add: demo_cm_def naughty_filter_new_def nf_reset_def)
  define cm1 where "cm1 = mitm_candidate demo_request_env 0 demo_cm"
  have m: "cm1 = demo_cm\<lparr>cm_ismitmcandidate := False, cm_nomitm := True, cm_automitm := False\<rparr>"
    using f(6) by (simp add: cm1_def mitm_candidate_def Let_def)
  define cm0 where "cm0 = cm1\<lparr>cm_isbypassallowed := False, cm_isinfectionbypassallowed := False\<rparr>"
  have b: "checkByPass (bypass_of demo_request_env) 0 ''10.0.0.1'' ''bob'' cm1 = Some (False, cm0)"
    by (simp add: checkByPass_def bypass_of_def demo_request_env_def demo_group_options_def demo_bypass_def getFG_def Let_def cm0_def)
  obtain cm2 where s: "run_storyboard demo_request_env True 0 cm0 = Done cm2"
    using f demo_cm_flags
    by (simp add: run_storyboard_def demo_request_env_def demo_group_options_def getFG_def Let_def cm0_def m runFunctEntry_def demo_story_def
        sb_function_new_def numeral_2_eq_2 run_line_def of_option_def run_action_def builtin_def)
  define cm3 where "cm3 = set_direct demo_request_env cm2"
  have t: "check_search_terms demo_request_env 0 [] cm3 = Some ([], cm3)"
    by (simp add: check_search_terms_def demo_request_env_def demo_group_options_def getFG_def)
  have u: "cm_urldomain cm1 \<noteq> qe_internal_status_url demo_request_env" "\<not> cm_isdone cm1" using f by (simp_all add: m demo_request_env_def)
  obtain e cm4 where "send_or_hold cm3 = (e, cm4)" by (metis surj_pair)
  then show ?thesis using u b s t
    by (auto simp: check_request_def of_option_def Let_def cm1_def [symmetric] cm3_def [symmetric] split: option.splits)
qed

end
