(* ===== verification/Tls_Hello.thy ===== *)
theory Tls_Hello
  imports E2_String
begin

text \<open>
  The greeting of a TLS client (\<^verbatim>\<open>handleTHTTPSConnection\<close> and \<^verbatim>\<open>get_TLS_SNI\<close> in \<^verbatim>\<open>src/src/ConnectionHandler.cpp\<close>, and the
  function of the same name in \<^verbatim>\<open>src/src/SNI.cpp\<close>): the start of a transparent connection is looked at without taking it from the
  socket, and the name of the server is read from its extensions.

  Pointers are positions in the buffer. A read is \<open>None\<close> when it is outside of the buffer.
\<close>

section \<open>Reading the buffer\<close>

definition byte_at :: "string \<Rightarrow> nat \<Rightarrow> nat option" where
  "byte_at bs i = (if i < length bs then Some (of_char (bs ! i)) else None)"

text \<open>Two bytes as an \<^verbatim>\<open>unsigned short\<close>.\<close>

definition short_at :: "string \<Rightarrow> nat \<Rightarrow> nat option" where
  "short_at bs i = Option.bind (byte_at bs i) (\<lambda>hi. map_option (\<lambda>lo. take_bit 16 (or (push_bit 8 hi) lo)) (byte_at bs (i + 1)))"

definition bytes_at :: "string \<Rightarrow> nat \<Rightarrow> nat \<Rightarrow> string option" where
  "bytes_at bs i n = (if i + n \<le> length bs then Some (take n (drop i bs)) else None)"


section \<open>The start of a connection\<close>

text \<open>The first five bytes: whether they begin a TLS record, and how many bytes are looked at next.\<close>

definition peek_hello :: "string \<Rightarrow> bool \<times> nat" where
  "peek_hello hdr =
     (if length hdr = 5 then
        let b = (\<lambda>i. of_char (hdr ! i) :: nat); toread = 5 + or (push_bit 8 (b 3)) (b 4) in
        (b 0 = 22 \<and> b 1 = 3 \<and> b 2 > 0 \<and> b 2 < 4, max 5 (min 16384 toread))
      else (False, 0))"


section \<open>The name of the server\<close>

definition server_name :: "string \<Rightarrow> nat \<Rightarrow> nat \<Rightarrow> string option option" where
  "server_name bs cur ext_len =
     (if ext_len \<ge> 5 then
        Option.bind (byte_at bs (cur + 2)) (\<lambda>name_type.
          if name_type = 0 then
            Option.bind (short_at bs (cur + 3)) (\<lambda>namelen.
              if 5 + namelen \<le> ext_len \<and> namelen > 0 \<and> namelen < 1024 then map_option Some (bytes_at bs (cur + 5) namelen)
              else Some None)
          else Some None)
      else Some None)"

function sni_extensions :: "string \<Rightarrow> nat \<Rightarrow> nat \<Rightarrow> string option option" where
  "sni_extensions bs maxchar cur =
     (if cur + 4 \<le> maxchar then
        Option.bind (short_at bs cur) (\<lambda>ext_type. Option.bind (short_at bs (cur + 2)) (\<lambda>ext_len.
          if cur + 4 + ext_len > maxchar then Some None
          else if ext_type = 0 then server_name bs (cur + 4) ext_len
          else sni_extensions bs maxchar (cur + 4 + ext_len)))
      else Some None)"
  by auto
termination by (relation "measure (\<lambda>(bs, maxchar, cur). maxchar - cur)") auto

declare sni_extensions.simps [simp del]

definition get_TLS_SNI :: "string option \<Rightarrow> int \<Rightarrow> string option option" where
  "get_TLS_SNI inbytes len =
     (case inbytes of
        None \<Rightarrow> Some None
      | Some bs \<Rightarrow>
          if len < 44 then Some None
          else
            let ebytes = nat len in
            Option.bind (byte_at bs 43) (\<lambda>sidlen.
              let c1 = 44 + sidlen in
              if c1 + 2 > ebytes then Some None
              else Option.bind (short_at bs c1) (\<lambda>cslen.
                let c2 = c1 + 2 + cslen in
                if c2 + 1 > ebytes then Some None
                else Option.bind (byte_at bs c2) (\<lambda>cmplen.
                  let c3 = c2 + 1 + cmplen in
                  if c3 + 2 > ebytes then Some None
                  else Option.bind (short_at bs c3) (\<lambda>ext_total_len.
                    sni_extensions bs (min ebytes (c3 + 2 + ext_total_len)) (c3 + 2))))))"

text \<open>The version with a pointer to the length, which is set to the length of the name.\<close>

definition get_TLS_SNI_ptr :: "string option \<Rightarrow> int option \<Rightarrow> (string \<times> int) option option" where
  "get_TLS_SNI_ptr inbytes len =
     (case len of None \<Rightarrow> Some None | Some n \<Rightarrow> map_option (map_option (\<lambda>s. (s, int (length s)))) (get_TLS_SNI inbytes n))"

text \<open>The file \<^verbatim>\<open>SNI.cpp\<close> has a loop of its own, with the name inside of it.\<close>

function SNI_loop :: "string \<Rightarrow> nat \<Rightarrow> nat \<Rightarrow> (string \<times> int) option option" where
  "SNI_loop bs maxchar cur =
     (if cur + 4 \<le> maxchar then
        Option.bind (short_at bs cur) (\<lambda>ext_type. Option.bind (short_at bs (cur + 2)) (\<lambda>ext_len.
          let c = cur + 4 in
          if c + ext_len > maxchar then Some None
          else if ext_type = 0 then
            Option.bind (if ext_len \<ge> 5 then map_option (\<lambda>b. b = 0) (byte_at bs (c + 2)) else Some False) (\<lambda>host_name.
              if host_name then
                Option.bind (short_at bs (c + 3)) (\<lambda>namelen.
                  if 5 + namelen \<le> ext_len \<and> namelen > 0 \<and> namelen < 1024
                  then map_option (\<lambda>s. Some (s, int (length s))) (bytes_at bs (c + 5) namelen)
                  else Some None)
              else Some None)
          else SNI_loop bs maxchar (c + ext_len)))
      else Some None)"
  by auto
termination by (relation "measure (\<lambda>(bs, maxchar, cur). maxchar - cur)") auto

declare SNI_loop.simps [simp del]

definition SNI_get_TLS_SNI :: "string option \<Rightarrow> int option \<Rightarrow> (string \<times> int) option option" where
  "SNI_get_TLS_SNI bytes len =
     (case (bytes, len) of
        (Some bs, Some n) \<Rightarrow>
          if n < 44 then Some None
          else
            let ebytes = nat n in
            Option.bind (byte_at bs 43) (\<lambda>sidlen.
              let c1 = 44 + sidlen in
              if c1 + 2 > ebytes then Some None
              else Option.bind (short_at bs c1) (\<lambda>cslen.
                let c2 = c1 + 2 + cslen in
                if c2 + 1 > ebytes then Some None
                else Option.bind (byte_at bs c2) (\<lambda>cmplen.
                  let c3 = c2 + 1 + cmplen in
                  if c3 + 2 > ebytes then Some None
                  else Option.bind (short_at bs c3) (\<lambda>ext_total_len.
                    let c4 = c3 + 2; maxchar = (if c4 + ext_total_len > ebytes then ebytes else c4 + ext_total_len)
                    in SNI_loop bs maxchar c4))))
      | _ \<Rightarrow> Some None)"


section \<open>Greetings\<close>

text \<open>What a client sends: the bytes before the session, the session, the ciphers, the compressions and the extensions.\<close>

definition short_bytes :: "nat \<Rightarrow> string" where
  "short_bytes n = [char_of (n div 256), char_of n]"

definition hello_extension :: "nat \<times> string \<Rightarrow> string" where
  "hello_extension e = short_bytes (fst e) @ short_bytes (length (snd e)) @ snd e"

definition host_name :: "string \<Rightarrow> string" where
  "host_name name = short_bytes (length name + 3) @ [nul] @ short_bytes (length name) @ name"

definition client_hello :: "string \<Rightarrow> string \<Rightarrow> string \<Rightarrow> string \<Rightarrow> string \<Rightarrow> string" where
  "client_hello pre sid cs cmp exts =
     pre @ [char_of (length sid)] @ sid @ short_bytes (length cs) @ cs @ [char_of (length cmp)] @ cmp @ short_bytes (length exts) @ exts"


section \<open>Lemmas\<close>

lemma byte_at_append [simp]: "byte_at (xs @ ys) (length xs + i) = byte_at ys i"
  by (simp add: byte_at_def)

lemma byte_at_append0 [simp]: "byte_at (xs @ ys) (length xs) = byte_at ys 0"
  using byte_at_append [of xs ys 0] by simp

lemma short_at_append [simp]: "short_at (xs @ ys) (length xs + i) = short_at ys i"
  using byte_at_append [of xs ys "i + 1"] by (simp add: short_at_def)

lemma short_at_append0 [simp]: "short_at (xs @ ys) (length xs) = short_at ys 0"
  using short_at_append [of xs ys 0] by simp

lemma bytes_at_append: "bytes_at (xs @ ys) (length xs + i) n = bytes_at ys i n"
  by (simp add: bytes_at_def)

lemma short_value:
  assumes "hi < 256" and "lo < 256"
  shows "take_bit 16 (or (push_bit 8 hi) lo) = hi * 256 + (lo::nat)"
proof -
  have lo: "take_bit 8 lo = lo" using assms(2) by (simp add: take_bit_nat_eq_self_iff)
  have "and (push_bit 8 hi) (take_bit 8 lo) = 0" by (rule bit_eqI) (auto simp: bit_simps)
  then have "or (push_bit 8 hi) lo = push_bit 8 hi + lo" by (simp add: disjunctive_add_eq_or lo)
  then have "or (push_bit 8 hi) lo = hi * 256 + lo" by (simp add: push_bit_eq_mult)
  then show ?thesis using assms by (simp add: take_bit_nat_eq_self_iff)
qed

lemma short_at_bytes [simp]:
  assumes "n < 65536"
  shows "short_at (short_bytes n @ zs) 0 = Some n"
proof -
  have "n div 256 < 256" using assms by simp
  then have "of_char (char_of (n div 256) :: char) = n div 256" "of_char (char_of n :: char) = n mod 256" by simp_all
  moreover have "take_bit 16 (or (push_bit 8 (n div 256)) (n mod 256)) = n"
    using short_value [of "n div 256" "n mod 256"] \<open>n div 256 < 256\<close> by simp
  ultimately show ?thesis by (simp only: short_at_def byte_at_def short_bytes_def) simp
qed

lemma length_short_bytes [simp]: "length (short_bytes n) = 2"
  by (simp add: short_bytes_def)

lemma short_at_in: "i + 2 \<le> length bs \<Longrightarrow> \<exists>n. short_at bs i = Some n"
  by (simp add: short_at_def byte_at_def)

lemma byte_at_in: "i < length bs \<Longrightarrow> \<exists>n. byte_at bs i = Some n"
  by (simp add: byte_at_def)

text \<open>Reads behind the checks of the code are in the buffer, and a name is a part of it.\<close>

definition good_name :: "string \<Rightarrow> string option option \<Rightarrow> bool" where
  "good_name bs r = (case r of None \<Rightarrow> False | Some None \<Rightarrow> True | Some (Some s) \<Rightarrow> sublist s bs \<and> 0 < length s \<and> length s < 1024)"

lemma server_name_good:
  assumes "cur + ext_len \<le> length bs"
  shows "good_name bs (server_name bs cur ext_len)"
proof (cases "5 \<le> ext_len")
  case True
  obtain t n where r: "byte_at bs (cur + 2) = Some t" "short_at bs (cur + 3) = Some n"
    using byte_at_in [of "cur + 2" bs] short_at_in [of "cur + 3" bs] True assms by auto
  have "sublist (take n (drop (cur + 5) bs)) bs" by (meson sublist_drop sublist_order.order_trans sublist_take)
  then show ?thesis using True assms r by (auto simp: server_name_def good_name_def bytes_at_def)
qed (simp add: server_name_def good_name_def)

lemma sni_extensions_good: "maxchar \<le> length bs \<Longrightarrow> good_name bs (sni_extensions bs maxchar cur)"
proof (induction bs maxchar cur rule: sni_extensions.induct)
  case (1 bs maxchar cur)
  show ?case
  proof (cases "cur + 4 \<le> maxchar")
    case True
    obtain t n where r: "short_at bs cur = Some t" "short_at bs (cur + 2) = Some n"
      using short_at_in [of cur bs] short_at_in [of "cur + 2" bs] True "1.prems" by auto
    show ?thesis using "1.IH" [OF True r] "1.prems" True r server_name_good [of "cur + 4" n bs]
      by (subst sni_extensions.simps) (auto simp: good_name_def)
  qed (subst sni_extensions.simps, simp add: good_name_def)
qed

lemma get_TLS_SNI_good:
  assumes "len \<le> int (length bs)"
  shows "good_name bs (get_TLS_SNI (Some bs) len)"
proof (cases "len < 44")
  case False
  define e where "e = nat len"
  have e: "e \<le> length bs" "44 \<le> e" using assms False by (simp_all add: e_def)
  obtain a where a: "byte_at bs 43 = Some a" using byte_at_in [of 43 bs] e by auto
  show ?thesis
  proof (cases "44 + a + 2 > e")
    case False
    then obtain b where b: "short_at bs (44 + a) = Some b" using short_at_in [of "44 + a" bs] e by auto
    show ?thesis
    proof (cases "44 + a + 2 + b + 1 > e")
      case False
      then obtain c where c: "byte_at bs (44 + a + 2 + b) = Some c" using byte_at_in [of "44 + a + 2 + b" bs] e by auto
      show ?thesis
      proof (cases "44 + a + 2 + b + 1 + c + 2 > e")
        case False
        then obtain d where "short_at bs (44 + a + 2 + b + 1 + c) = Some d" using short_at_in [of "44 + a + 2 + b + 1 + c" bs] e by auto
        then have "get_TLS_SNI (Some bs) len = sni_extensions bs (min e (44 + a + 2 + b + 1 + c + 2 + d)) (44 + a + 2 + b + 1 + c + 2)"
          using a b c False e \<open>\<not> len < 44\<close> by (simp add: get_TLS_SNI_def e_def [symmetric] Let_def)
        then show ?thesis using sni_extensions_good e by simp
      qed (use a b c e \<open>\<not> len < 44\<close> in \<open>simp add: get_TLS_SNI_def e_def [symmetric] Let_def good_name_def\<close>)
    qed (use a b e \<open>\<not> len < 44\<close> in \<open>simp add: get_TLS_SNI_def e_def [symmetric] Let_def good_name_def\<close>)
  qed (use a e \<open>\<not> len < 44\<close> in \<open>simp add: get_TLS_SNI_def e_def [symmetric] Let_def good_name_def\<close>)
qed (simp add: get_TLS_SNI_def good_name_def)

text \<open>The two parsers agree.\<close>

lemma SNI_loop_extensions: "SNI_loop bs maxchar cur = map_option (map_option (\<lambda>s. (s, int (length s)))) (sni_extensions bs maxchar cur)"
proof (induction bs maxchar cur rule: sni_extensions.induct)
  case (1 bs maxchar cur)
  show ?case
  proof (cases "cur + 4 \<le> maxchar")
    case True
    show ?thesis
    proof (cases "short_at bs cur")
      case (Some t)
      show ?thesis
      proof (cases "short_at bs (cur + 2)")
        case n: (Some n)
        show ?thesis using "1.IH" [OF True Some n] True Some n
          by (subst SNI_loop.simps, subst sni_extensions.simps)
            (auto simp: server_name_def Let_def option.map_comp comp_def split: Option.bind_split)
      qed (subst SNI_loop.simps, subst sni_extensions.simps, use True Some in simp)
    qed (subst SNI_loop.simps, subst sni_extensions.simps, use True in simp)
  qed (subst SNI_loop.simps, subst sni_extensions.simps, simp)
qed

lemma SNI_get_agrees: "SNI_get_TLS_SNI bytes len = get_TLS_SNI_ptr bytes len"
proof (cases "bytes")
  case (Some bs)
  show ?thesis
  proof (cases len)
    case n: (Some n)
    have m: "min (nat n) (c + d) = (if c + d > nat n then nat n else c + d)" for c d by auto
    show ?thesis unfolding Some n SNI_get_TLS_SNI_def get_TLS_SNI_ptr_def get_TLS_SNI_def Let_def m
      by (auto simp: SNI_loop_extensions split: Option.bind_split)
  qed (simp add: Some SNI_get_TLS_SNI_def get_TLS_SNI_ptr_def)
qed (simp add: SNI_get_TLS_SNI_def get_TLS_SNI_ptr_def get_TLS_SNI_def split: option.splits)

text \<open>Extensions are passed over one after the other.\<close>

definition other_extension :: "nat \<times> string \<Rightarrow> bool" where
  "other_extension e \<longleftrightarrow> 0 < fst e \<and> fst e < 65536 \<and> length (snd e) < 65536"

lemma length_hello_extension [simp]: "length (hello_extension e) = 4 + length (snd e)"
  by (simp add: hello_extension_def)

lemma extension_head:
  assumes "fst e < 65536" and "length (snd e) < 65536"
  shows "short_at (xs @ hello_extension e @ ys) (length xs) = Some (fst e)"
    and "short_at (xs @ hello_extension e @ ys) (length xs + 2) = Some (length (snd e))"
proof -
  have "xs @ hello_extension e @ ys = (xs @ short_bytes (fst e)) @ short_bytes (length (snd e)) @ snd e @ ys" by (simp add: hello_extension_def)
  then show "short_at (xs @ hello_extension e @ ys) (length xs + 2) = Some (length (snd e))"
    using assms short_at_append0 [of "xs @ short_bytes (fst e)" "short_bytes (length (snd e)) @ snd e @ ys"] by simp
qed (use assms in \<open>simp add: hello_extension_def\<close>)

lemma skip_extension:
  assumes "other_extension e" and "length xs + 4 + length (snd e) \<le> m"
  shows "sni_extensions (xs @ hello_extension e @ ys) m (length xs) = sni_extensions (xs @ hello_extension e @ ys) m (length (xs @ hello_extension e))"
  using assms extension_head [of e xs ys]
  by (subst sni_extensions.simps) (simp add: other_extension_def add.assoc)

lemma skip_extensions:
  assumes "list_all other_extension es" and "length (xs @ concat (map hello_extension es)) \<le> m"
  shows "sni_extensions (xs @ concat (map hello_extension es) @ ys) m (length xs)
    = sni_extensions (xs @ concat (map hello_extension es) @ ys) m (length (xs @ concat (map hello_extension es)))"
  using assms
proof (induction es arbitrary: xs)
  case (Cons e es)
  show ?case using Cons.IH [of "xs @ hello_extension e"] Cons.prems skip_extension [of e xs m "concat (map hello_extension es) @ ys"] by simp
qed simp

lemma name_found:
  assumes "0 < length name" and "length name < 1024" and "length (host_name name @ more) < 65536" and "length xs + 4 + length (host_name name @ more) \<le> m"
  shows "sni_extensions (xs @ hello_extension (0, host_name name @ more) @ ys) m (length xs) = Some (Some name)"
proof -
  let ?e = "(0::nat, host_name name @ more)"
  let ?zs = "short_bytes 0 @ short_bytes (length (host_name name @ more))"
  let ?ps = "xs @ ?zs"
  have p: "xs @ hello_extension ?e @ ys = ?ps @ short_bytes (length name + 3) @ [nul] @ short_bytes (length name) @ name @ more @ ys"
    by (simp add: hello_extension_def host_name_def)
  have l: "length ?ps = length xs + 4" by simp
  have b: "byte_at (xs @ hello_extension ?e @ ys) (length xs + 4 + 2) = Some 0"
    unfolding p l [symmetric] byte_at_append by (simp add: byte_at_def short_bytes_def nul_def)
  have q: "?ps @ short_bytes (length name + 3) @ [nul] @ short_bytes (length name) @ name @ more @ ys
      = (?ps @ short_bytes (length name + 3) @ [nul]) @ short_bytes (length name) @ name @ more @ ys" by simp
  have ql: "length (?ps @ short_bytes (length name + 3) @ [nul]) = length xs + 4 + 3" by simp
  have s: "short_at (xs @ hello_extension ?e @ ys) (length xs + 4 + 3) = Some (length name)"
    unfolding p q ql [symmetric] short_at_append0 using assms(2) by simp
  have t: "bytes_at (xs @ hello_extension ?e @ ys) (length xs + 4 + 5) (length name) = Some name"
    unfolding p by (simp add: bytes_at_def)
  have sn: "server_name (xs @ hello_extension ?e @ ys) (length xs + 4) (length (snd ?e)) = Some (Some name)"
    using b s t assms(1,2) by (simp add: server_name_def host_name_def)
  show ?thesis using assms(3,4) extension_head [of ?e xs ys] sn
    by (subst sni_extensions.simps) simp
qed

lemma hello_name_found:
  assumes "length pre = 43" and "length sid < 256" and "length cs < 65536" and "length cmp < 256" and "list_all other_extension es"
    and "0 < length name" and "length name < 1024"
    and "exts = concat (map hello_extension es) @ hello_extension (0, host_name name @ more) @ rest" and "length exts < 65536"
  shows "get_TLS_SNI (Some (client_hello pre sid cs cmp exts @ tail)) (int (length (client_hello pre sid cs cmp exts @ tail))) = Some (Some name)"
proof -
  define bs where "bs = client_hello pre sid cs cmp exts @ tail"
  define p1 where "p1 = pre @ [char_of (length sid)] @ sid"
  define p2 where "p2 = p1 @ short_bytes (length cs) @ cs"
  define p3 where "p3 = p2 @ [char_of (length cmp)] @ cmp"
  define p4 where "p4 = p3 @ short_bytes (length exts)"
  have l: "length p1 = 44 + length sid" "length p2 = length p1 + 2 + length cs" "length p3 = length p2 + 1 + length cmp" "length p4 = length p3 + 2"
    using assms(1) by (simp_all add: p1_def p2_def p3_def p4_def)
  have b: "bs = pre @ [char_of (length sid)] @ sid @ short_bytes (length cs) @ cs @ [char_of (length cmp)] @ cmp @ short_bytes (length exts) @ exts @ tail"
    "bs = p1 @ short_bytes (length cs) @ cs @ [char_of (length cmp)] @ cmp @ short_bytes (length exts) @ exts @ tail"
    "bs = p2 @ [char_of (length cmp)] @ cmp @ short_bytes (length exts) @ exts @ tail"
    "bs = p3 @ short_bytes (length exts) @ exts @ tail" "bs = p4 @ exts @ tail"
    by (simp_all add: bs_def client_hello_def p1_def p2_def p3_def p4_def)
  have r1: "byte_at bs 43 = Some (length sid)" using b(1) assms(1,2) by (simp add: byte_at_def nth_append)
  have r2: "short_at bs (length p1) = Some (length cs)" unfolding b(2) using assms(3) by simp
  have r3: "byte_at bs (length p2) = Some (length cmp)" unfolding b(3) using assms(4) by (simp add: byte_at_def)
  have r4: "short_at bs (length p3) = Some (length exts)" unfolding b(4) using assms(9) by simp
  have lb: "length bs = length p4 + length exts + length tail" unfolding b(5) by simp
  have g: "get_TLS_SNI (Some bs) (int (length bs)) = sni_extensions bs (length p4 + length exts) (length p4)"
  proof -
    have "length p4 + length exts \<le> length bs" using lb by simp
    then show ?thesis using r1 r2 r3 r4 l by (simp add: get_TLS_SNI_def Let_def)
  qed
  have bb: "bs = p4 @ concat (map hello_extension es) @ hello_extension (0, host_name name @ more) @ rest @ tail"
    unfolding b(5) assms(8) by simp
  have "sni_extensions bs (length p4 + length exts) (length p4)
      = sni_extensions bs (length p4 + length exts) (length (p4 @ concat (map hello_extension es)))"
    unfolding bb using assms(5) by (intro skip_extensions) (simp_all add: assms(8))
  also have "\<dots> = Some (Some name)"
    using name_found [of name more "p4 @ concat (map hello_extension es)" "length p4 + length exts" "rest @ tail"] assms(6-9)
    unfolding bb by simp
  finally show ?thesis using g by (simp add: bs_def)
qed

definition demo_extensions :: string where
  "demo_extensions = concat (map hello_extension [(10, ''ab'')]) @ hello_extension (0, host_name ''b.com'' @ []) @ hello_extension (16, [])"

text \<open>C17: the name of the server is found in a greeting whose extensions hold it, whatever other extensions come before it and whatever
  follows; and whatever a client sends and however much of it was received, the search stays in the received bytes, ends, and gives no name
  or a part of the bytes of length 1 to 1023, the same in both versions of the function.\<close>

theorem sni_found:
  assumes "length pre = 43" and "length sid < 256" and "length cs < 65536" and "length cmp < 256" and "list_all other_extension es"
    and "0 < length name" and "length name < 1024"
    and "exts = concat (map hello_extension es) @ hello_extension (0, host_name name @ more) @ rest" and "length exts < 65536"
    and "len \<le> int (length bs)"
  shows "get_TLS_SNI (Some (client_hello pre sid cs cmp exts @ tail)) (int (length (client_hello pre sid cs cmp exts @ tail))) = Some (Some name)
    \<and> (\<exists>r. get_TLS_SNI (Some bs) len = Some r \<and> (case r of None \<Rightarrow> True | Some s \<Rightarrow> sublist s bs \<and> 0 < length s \<and> length s < 1024)
        \<and> SNI_get_TLS_SNI (Some bs) (Some len) = Some (map_option (\<lambda>s. (s, int (length s))) r))"
  using hello_name_found [OF assms(1-9), of tail] get_TLS_SNI_good [OF assms(10)]
  by (auto simp: good_name_def SNI_get_agrees get_TLS_SNI_ptr_def split: option.splits)

theorem sni_found_witness:
  "get_TLS_SNI (Some (client_hello (replicate 43 nul) [] ''cs'' [nul] demo_extensions @ []))
     (int (length (client_hello (replicate 43 nul) [] ''cs'' [nul] demo_extensions @ []))) = Some (Some ''b.com'')
   \<and> (\<exists>r. SNI_get_TLS_SNI (Some (replicate 50 (CHR 0xFF))) (Some 50) = Some r)"
proof -
  have "demo_extensions = concat (map hello_extension [(10, ''ab'')]) @ hello_extension (0, host_name ''b.com'' @ []) @ hello_extension (16, [])"
    and "length demo_extensions < 65536"
    by (simp_all add: demo_extensions_def host_name_def)
  from sni_found [of "replicate 43 nul" "[]" "''cs''" "[nul]" "[(10, ''ab'')]" "''b.com''", OF _ _ _ _ _ _ _ this,
      of 50 "replicate 50 (CHR 0xFF)" "[]"]
  show ?thesis by (auto simp: other_extension_def)
qed

end
