(* ===== verification/Spec2Isabelle.thy ===== *)
theory Spec2Isabelle
  imports E2_String Dyn_IP_List Dyn_URL_List Time_Band IP_Match Item_List Phrase_List List_Manager Reg_Exp List_Meta HTTP_Header Story_Laws
    Content_Check Auth_Session Bypass Gateway_Rules Upstream Request_Check Tls_Hello
begin

text \<open>
  A verification development for e2guardian, a filtering web proxy written in C++. Source files are named relative to
  \<^verbatim>\<open>src/src\<close>.

  \<^bold>\<open>The program.\<close> A client connects as to a proxy, transparently, or through ICAP. \<^verbatim>\<open>ConnectionHandler\<close> reads the header of a request
  (\<^verbatim>\<open>HTTPHeader\<close>), finds the user and the filter group (\<^verbatim>\<open>Auth\<close> and its plugins), looks for a bypass, runs the storyboard of the
  group (\<^verbatim>\<open>StoryBoard\<close>) over the state of the request (\<^verbatim>\<open>NaughtyFilter\<close>), scans search terms and bodies for phrases, and either sends the
  request upstream, over a gateway that a rule names, or shows the denied page. A storyboard tests the request against lists of
  sites, URLs, addresses, regular expressions and times (\<^verbatim>\<open>ListMeta\<close>), which one manager holds for all groups (\<^verbatim>\<open>ListManager\<close>,
  \<^verbatim>\<open>ListContainer\<close>). Two tables are filled while the program runs: the clients that are served (\<^verbatim>\<open>DynamicIPList\<close>) and the URLs that
  were found clean (\<^verbatim>\<open>DynamicURLList\<close>).

  \<^bold>\<open>The theories.\<close> Each opens with a text that says what it holds. Definitions have the names of the code, with a prefix where two
  classes use the same name, and come in the order of the code.

  \<^item> \<open>E2_Prelude\<close>: the C and C++ library functions that the code uses, generic lemmas, and the interface \<open>bin_search\<close> of hand-written
    binary searches with its client lemmas; \<open>map_search\<close> extends it to searches that return a value. The searches of
    \<open>Dyn_IP_List\<close>, \<open>Dyn_URL_List\<close>, \<open>IP_Match\<close>, \<open>Item_List\<close> and \<open>Auth_IP\<close> are its interpretations.
  \<^item> \<open>E2_String\<close> (\<^verbatim>\<open>String.cpp\<close>), \<open>Reg_Exp\<close> (\<^verbatim>\<open>RegExp.cpp\<close>), \<open>Time_Band\<close> (the time limits of \<^verbatim>\<open>ListContainer.cpp\<close>): cleaning up and splitting
    of texts, the canonical form of search terms, the spans of matches, the minutes in which a limit holds.
  \<^item> \<open>Dyn_IP_List\<close>, \<open>Dyn_URL_List\<close>: the arrays keep their order and bounds in every history, and implement a bounded map and a
    first-in-first-out map.
  \<^item> \<open>IP_Match\<close> (\<^verbatim>\<open>IPList.cpp\<close> and the address lists of \<^verbatim>\<open>ListContainer.cpp\<close>): which addresses the lines of a file cover.
  \<^item> \<open>Item_List\<close>, \<open>Phrase_List\<close>, \<open>Phrase_Tree\<close>, \<open>Phrase_Search\<close>, \<open>List_Manager\<close> (\<^verbatim>\<open>ListContainer.cpp\<close>, \<^verbatim>\<open>ListManager.cpp\<close>): items in one buffer,
    sorting and exact search, phrase files, the search tree and the quick search that together report every phrase of a document,
    files with includes, lookups that descend into included lists, and reference counts.
  \<^item> \<open>List_Meta\<close> (\<^verbatim>\<open>ListMeta.cpp\<close>): which forms of a site or URL are looked up, and which entries match.
  \<^item> \<open>HTTP_Header\<close> (\<^verbatim>\<open>HTTPHeader.cpp\<close>): reading and rewriting the lines with the pointers into them, the URL of a request, malformed
    hosts, bypass cookies, base64.
  \<^item> \<open>Tls_Hello\<close> (\<^verbatim>\<open>SNI.cpp\<close> and the parser of \<^verbatim>\<open>ConnectionHandler.cpp\<close>): the name of the server in the greeting of a TLS client is found, and
    no read leaves the buffer.
  \<^item> \<open>Naughty_Filter\<close> (\<^verbatim>\<open>NaughtyFilter.cpp\<close>, \<^verbatim>\<open>LanguageContainer.cpp\<close>): the state of a request.
  \<^item> \<open>Story_Board\<close>, \<open>Story_Run\<close>, \<open>Story_Laws\<close> (\<^verbatim>\<open>StoryBoard.cpp\<close>, \<^verbatim>\<open>SBFunction.cpp\<close>): reading and binding a storyboard, the tests and actions, the
    interpreter. The locales \<open>story_relation\<close> and \<open>story_invariant\<close> lift what every test and action keeps to every run; their
    interpretations give the single decision, the finality of \<^verbatim>\<open>nomitm\<close>, the rights that are only withdrawn, and the range of the
    group.
  \<^item> \<open>Content_Check\<close> (\<^verbatim>\<open>checkme\<close> and \<^verbatim>\<open>checkphrase\<close> of \<^verbatim>\<open>NaughtyFilter.cpp\<close>): the scan ends within its buffers, and its decision as a function of
    the phrases that were found.
  \<^item> \<open>Auth_IP\<close>, \<open>Auth_Plugin\<close>, \<open>Auth_Session\<close> (\<^verbatim>\<open>authplugins\<close>, \<^verbatim>\<open>Auth.cpp\<close>, \<^verbatim>\<open>ConfigVar.cpp\<close>, \<^verbatim>\<open>doAuth\<close> and the handlers around it): the plugins, their
    options, and the requests of a connection one after the other. The locale \<open>auth_methods\<close> states what a plugin promises;
    it is interpreted for the methods of all plugins. The relation \<open>connections\<close> has a rule per kind of request: proxy, ICAP,
    transparent TLS, requests inside a decrypted tunnel, and responses.
  \<^item> \<open>Bypass\<close> (the bypass functions of \<^verbatim>\<open>ConnectionHandler.cpp\<close>): what grants a bypass and which URLs and cookies are accepted.
  \<^item> \<open>Gateway_Rules\<close> (\<^verbatim>\<open>LOptionContainer.cpp\<close>), \<open>Upstream\<close> (\<^verbatim>\<open>connectUpstream\<close>): the order in which gateways are tried, the fairness of the round robin,
    the retries, and the cause that a failed request is marked with.
  \<^item> \<open>Request_Check\<close> (\<^verbatim>\<open>handleConnection\<close> from the end of the authentication to the connection upstream): the parts put together. The
    properties of the whole are below.

  \<^bold>\<open>State, errors, bounds.\<close> An object is a record that the operations take and return; a pointer is an index or a position. A read
  or write out of range, an exception and a call of \<^verbatim>\<open>exit\<close> are values (\<open>None\<close>, \<open>Stop\<close>, a constructor of a result type), so that a theorem
  that an operation returns is stated as such. Machine integers are words where the code relies on their width (addresses, the
  counter of the round robin), and integers elsewhere. Recursion that the code does not bound has fuel: the depth of calls of a
  storyboard and the nesting of included lists and files. Where calls and includes go to lower ranks only, as those of an acyclic
  configuration do, fuel above the rank is enough, and the theorems on storyboards, lookups and phrase files say so. The loops of the program that need
  none are functions with a termination proof. Time, resolver, sockets, files, regular expressions and the MD5 digest are
  parameters; what a theorem needs of them is a hypothesis, with a witness for a concrete parameter.

  \<^bold>\<open>Not modelled.\<close> The transport of headers and bodies (the sockets, \<^verbatim>\<open>DataBuffer\<close>, the download managers, \<^verbatim>\<open>FDTunnel\<close>), TLS and
  certificates, threads and signals (\<^verbatim>\<open>FatController\<close>, \<^verbatim>\<open>Queue\<close>, \<^verbatim>\<open>SysV\<close>), the virus scanners, which talk to other programs, the reading
  of the configuration into members (\<^verbatim>\<open>OptionContainer\<close>, \<^verbatim>\<open>FOptionContainer\<close>, except the loading of plugins), the plugins for DNS and NTLM,
  the text of the denied page, images, the log and debug output, the parser of ICAP headers, and the digest of \<^verbatim>\<open>md5.cpp\<close>.
  Of \<^verbatim>\<open>handleConnection\<close> and its siblings for TLS and ICAP the steps named above are modelled and the loops around them are not. Where the code is built
  with or without an option, the variant is that with PCRE and with TLS interception.

  \<^bold>\<open>Behaviour worth knowing.\<close> The theorems also show what the code does against its intention: credentials with an empty name get
  the first group (\<open>Auth_Session\<close>), a later address of a host is not checked for loops (\<open>Upstream\<close>), and search
  terms are not scanned in one of the filter modes (\<open>Content_Check\<close>).
\<close>

section \<open>A request\<close>

text \<open>C1: from the end of its authentication over the bypass, the storyboard of its group and the scan of its search terms a request that
  was neither blocked nor grey before gets one decision: it is not two of exception, grey and blocked; when it is blocked it is marked
  as naughty; and a request that goes upstream is not naughty.\<close>

theorem request_decided:
  assumes "check_request env authed g clientip user params cm = Done (e, params', cm')" and "\<not> cm_isBlocked cm" and "\<not> cm_isGrey cm"
  shows "one_decision cm' \<and> (cm_isBlocked cm' \<longrightarrow> cm_isItNaughty cm') \<and> (e = Go_upstream \<longrightarrow> \<not> cm_isItNaughty cm')"
  using assms by (rule check_request_decision)

theorem request_decided_witness:
  "\<exists>e ps cm'. check_request demo_request_env True 0 ''10.0.0.1'' ''bob'' [] demo_cm = Done (e, ps, cm') \<and> one_decision cm'"
  using demo_checked request_decided [of demo_request_env True 0 "''10.0.0.1''" "''bob''" "[]" demo_cm] demo_cm_flags by blast

text \<open>C2: for a client that is always allowed no plugin, bypass, storyboard or scan of search terms is run: its request, when it is no
  bypass, is not redirected and does not ask for the status page, goes upstream exactly when it was not naughty before the
  authentication, and is held back otherwise; it is marked as not to be decrypted, and decryption is not asked for unless it
  was before.\<close>

theorem special_client_passes:
  assumes "exception_client (au_cm st)" and "\<not> cm_isbypass (au_cm st)" and "\<not> cm_urlredirect (au_cm st)"
    and "cm_urldomain (au_cm st) \<noteq> qe_internal_status_url renv"
  shows "\<exists>st' cm'. authenticate env pe opts ssl_mitm aps st = Done (True, aps, st')
    \<and> check_request renv (au_authed st') (ch_filtergroup (au_handler st')) clientip user params (au_cm st')
      = Done (if cm_isItNaughty (au_cm st) then Held_back [] else Go_upstream, params, cm')
    \<and> cm_isItNaughty cm' = cm_isItNaughty (au_cm st) \<and> cm_nomitm cm' \<and> \<not> cm_automitm cm' \<and> (cm_gomitm cm' \<longrightarrow> cm_gomitm (au_cm st))"
proof -
  obtain st' where a: "authenticate env pe opts ssl_mitm aps st = Done (True, aps, st')" "ch_filtergroup (au_handler st') = - 1"
    "\<not> cm_isbypass (au_cm st')" "\<not> cm_urlredirect (au_cm st')" "cm_urldomain (au_cm st') = cm_urldomain (au_cm st)"
    "cm_isItNaughty (au_cm st') = cm_isItNaughty (au_cm st)" "cm_gomitm (au_cm st') = cm_gomitm (au_cm st)"
    using assms by (simp add: authenticate_def Let_def with_handler_def set_group_def)
  have g: "getFG xs (- 1) = None" for xs :: "request_options list" by (simp add: getFG_def)
  have h: "getFG xs (- 1) = None" for xs :: "bypass_options list" by (simp add: getFG_def)
  define cm1 where "cm1 = mitm_candidate renv (- 1) (au_cm st')"
  have c1: "\<not> cm_isbypass cm1" "\<not> cm_urlredirect cm1" "cm_urldomain cm1 \<noteq> qe_internal_status_url renv" "cm_nomitm cm1" "\<not> cm_automitm cm1"
    "cm_isItNaughty cm1 = cm_isItNaughty (au_cm st)" "cm_gomitm cm1 = cm_gomitm (au_cm st)"
    using a assms(4) by (simp_all add: cm1_def) (simp_all add: mitm_candidate_def g Let_def)
  define cm2 where "cm2 = set_direct renv cm1"
  have c2: "\<not> cm_isbypass cm2" "\<not> cm_urlredirect cm2" "cm_nomitm cm2" "\<not> cm_automitm cm2" "cm_isItNaughty cm2 = cm_isItNaughty (au_cm st)"
    "cm_gomitm cm2 = cm_gomitm (au_cm st)"
    using c1 by (simp_all add: cm2_def set_direct_def)
  obtain e cm3 where s: "send_or_hold cm2 = (e, cm3)" by (metis surj_pair)
  then have c3: "e = (if cm_isItNaughty (au_cm st) then Held_back [] else Go_upstream)" "cm_isItNaughty cm3 = cm_isItNaughty (au_cm st)"
    "cm_nomitm cm3" "\<not> cm_automitm cm3" "cm_gomitm cm3 \<longrightarrow> cm_gomitm (au_cm st)"
    using c2 by (auto simp: send_or_hold_def split: if_splits)
  have "check_request renv (au_authed st') (- 1) clientip user params (au_cm st') = Done (e, params, cm3)"
    using c1(1-3) c2(1,2) s
    by (auto simp: check_request_def Let_def checkByPass_def run_storyboard_def check_search_terms_def bypass_redirect_def of_option_def g h
        cm1_def [symmetric] cm2_def [symmetric])
  then show ?thesis unfolding c3(1) using a(1,2) c3(2-) by (intro exI [of _ st'] exI [of _ cm3]) simp
qed

theorem special_client_passes_witness:
  "\<exists>st' cm'. authenticate demo_aenv demo_peer demo_opts [True, False] [] (demo_state\<lparr>au_cm := demo_auth_cm\<lparr>cm_special_exception_ip := True\<rparr>\<rparr>)
      = Done (True, [], st')
    \<and> check_request demo_request_env (au_authed st') (ch_filtergroup (au_handler st')) ''10.0.0.1'' ''-'' [] (au_cm st')
      = Done (Go_upstream, [], cm') \<and> cm_nomitm cm' \<and> \<not> cm_gomitm cm'"
proof -
  have "exception_client (au_cm (demo_state\<lparr>au_cm := demo_auth_cm\<lparr>cm_special_exception_ip := True\<rparr>\<rparr>))" by (simp add: exception_client_def)
  moreover have "\<not> cm_isbypass demo_auth_cm" "\<not> cm_urlredirect demo_auth_cm" "\<not> cm_isItNaughty demo_auth_cm" "\<not> cm_gomitm demo_auth_cm"
    "cm_urldomain demo_auth_cm \<noteq> qe_internal_status_url demo_request_env"
    by (simp_all add: demo_auth_cm_def naughty_filter_new_def nf_reset_def demo_request_env_def)
  ultimately show ?thesis
    using special_client_passes [of "demo_state\<lparr>au_cm := demo_auth_cm\<lparr>cm_special_exception_ip := True\<rparr>\<rparr>" demo_request_env demo_aenv demo_peer demo_opts
        "[True, False]" "[]" "''10.0.0.1''" "''-''" "[]"] by auto
qed

end
